(* ===== verification/Prelude.thy ===== *)
theory Prelude
  imports Main "HOL-Library.Word"
begin

text \<open>
  What every component of the development shares.

  \<^item> The outcome of a C function that may stop the process: \<open>error\<close> and \<open>'a result\<close>,
    with sequencing \<open>rbind\<close>. Failing \<open>assert\<close>, \<open>exit(n)\<close>, undefined behaviour (a NULL
    or out-of-bounds access) and a loop that never ends are all values of \<open>error\<close>.
  \<^item> C data: \<open>u64\<close> and \<open>u32\<close> words, \<open>schar\<close> (a \<open>char\<close> is signed on the targets of the
    Makefiles), NUL-terminated strings (\<open>cstr\<close>), \<open>memchr\<close> as an index search.
  \<^item> Interfaces stated as locales: \<open>append_buffer\<close>, the contract of the growing arrays,
    \<open>chunk_machine\<close>, a consumer of input that is fed
    in blocks by a \<open>read()\<close> loop, and \<open>transition_system\<close>, a set of processes moving
    one at a time, with its reachable states and its invariants, and \<open>ranked_system\<close>, one
    that can always get closer to a goal.
\<close>

unbundle bit_operations_syntax

named_theorems res_simps \<open>evaluation of the result type\<close>
named_theorems word_simps \<open>reading machine words as natural numbers\<close>

section \<open>Outcomes\<close>

datatype error =
    Exit_Status int
  | Assert_Fail
  | Undef_Behaviour
  | Nonterm

type_synonym 'a result = "error + 'a"

abbreviation Ok :: "'a \<Rightarrow> 'a result" where "Ok \<equiv> Inr"
abbreviation Err :: "error \<Rightarrow> 'a result" where "Err \<equiv> Inl"

definition rbind :: "'a result \<Rightarrow> ('a \<Rightarrow> 'b result) \<Rightarrow> 'b result" where
  "rbind r f = (case r of Inl e \<Rightarrow> Inl e | Inr x \<Rightarrow> f x)"

definition c_assert :: "bool \<Rightarrow> unit result" where
  "c_assert b = (if b then Inr () else Inl Assert_Fail)"

lemma rbind_Inr [simp, res_simps]: "rbind (Inr x) f = f x"
  by (simp add: rbind_def)

lemma rbind_Inl [simp, res_simps]: "rbind (Inl e) f = Inl e"
  by (simp add: rbind_def)

lemma rbind_eq_Inr: "rbind r f = Inr y \<longleftrightarrow> (\<exists>x. r = Inr x \<and> f x = Inr y)"
  by (cases r) simp_all

lemma rbind_eq_Inl: "rbind r f = Inl e \<longleftrightarrow> r = Inl e \<or> (\<exists>x. r = Inr x \<and> f x = Inl e)"
  by (cases r) simp_all

lemma rbind_assoc: "rbind (rbind r f) g = rbind r (\<lambda>x. rbind (f x) g)"
  by (cases r) simp_all

lemma rbind_cong [fundef_cong]:
  "r = r' \<Longrightarrow> (\<And>x. r' = Inr x \<Longrightarrow> f x = g x) \<Longrightarrow> rbind r f = rbind r' g"
  by (cases r') (simp_all add: rbind_def)

lemma c_assert_True [simp, res_simps]: "c_assert True = Inr ()"
  by (simp add: c_assert_def)

lemma c_assert_False [simp, res_simps]: "c_assert False = Inl Assert_Fail"
  by (simp add: c_assert_def)

text \<open>A loop over a list whose body may stop the process.\<close>

fun rfold :: "('s \<Rightarrow> 'a \<Rightarrow> 's result) \<Rightarrow> 's \<Rightarrow> 'a list \<Rightarrow> 's result" where
  "rfold f s [] = Ok s"
| "rfold f s (x # xs) = rbind (f s x) (\<lambda>s'. rfold f s' xs)"

lemma rfold_append: "rfold f s (xs @ ys) = rbind (rfold f s xs) (\<lambda>s'. rfold f s' ys)"
  by (induction xs arbitrary: s) (simp_all add: rbind_assoc)

lemma rfold_upt:
  assumes "\<And>j s. a \<le> j \<Longrightarrow> j < b \<Longrightarrow> P j s \<Longrightarrow> \<exists>s'. f s j = Ok s' \<and> P (Suc j) s'"
    and "a \<le> b" "P a s"
  shows "\<exists>s'. rfold f s [a..<b] = Ok s' \<and> P b s'"
  using assms
proof (induction "b - a" arbitrary: a s)
  case 0
  then show ?case by simp
next
  case (Suc n)
  then have "a < b" by simp
  moreover obtain s' where s': "f s a = Ok s'" "P (Suc a) s'" using Suc.prems(1,3) \<open>a < b\<close> by blast
  moreover obtain t where "rfold f s' [Suc a..<b] = Ok t" "P b t"
    using Suc.hyps(1) [of "Suc a" s'] Suc.prems(1) s' \<open>a < b\<close> by (metis Suc.hyps(2) Suc_leD Suc_le_eq diff_Suc_1 diff_Suc_eq_diff_pred diff_commute)
  ultimately show ?case by (simp add: upt_conv_Cons)
qed

text \<open>
  \<open>malloc\<close> and \<open>calloc\<close> may refuse a request. An \<open>allocator\<close> says which requests, by
  their number of bytes, are granted; nothing is assumed of it unless a theorem says so.
\<close>

type_synonym allocator = "nat \<Rightarrow> bool"

definition plenty :: allocator where "plenty n = True"

lemma plenty [simp]: "plenty n" by (simp add: plenty_def)

section \<open>Machine integers\<close>

type_synonym u64 = "64 word"
type_synonym u32 = "32 word"

lemma u64_bound [word_simps]: "unat (x :: u64) < 18446744073709551616"
  using unsigned_less [of x] by simp

lemma u64_add [word_simps]:
  "unat (x :: u64) + unat y < 18446744073709551616 \<Longrightarrow> unat (x + y) = unat x + unat y"
  by (simp add: unat_word_ariths)

lemma u64_sub [word_simps]:
  "unat (y :: u64) \<le> unat x \<Longrightarrow> unat (x - y) = unat x - unat y"
  by (simp add: unat_sub word_le_nat_alt)

lemma u64_mult [word_simps]:
  "unat (x :: u64) * unat y < 18446744073709551616 \<Longrightarrow> unat (x * y) = unat x * unat y"
  by (simp add: unat_word_ariths)

lemma u64_of_nat [word_simps]: "n < 18446744073709551616 \<Longrightarrow> unat (of_nat n :: u64) = n"
  by (simp add: unat_of_nat)

lemma u64_of_int [word_simps]: "unat (of_nat n :: u64) \<le> n"
  by (simp add: unat_of_nat)

lemma u64_eq_0 [word_simps]: "(x :: u64) = 0 \<longleftrightarrow> unat x = 0"
  by (simp add: unat_eq_0)

lemma u64_suc [word_simps]:
  "unat (x :: u64) < 18446744073709551615 \<Longrightarrow> unat (x + 1) = Suc (unat x)"
  by (simp add: u64_add)

lemmas u64_compare [word_simps] = word_less_nat_alt [where ?'a = 64] word_le_nat_alt [where ?'a = 64]

section \<open>Lists\<close>

lemma length_filter_upd:
  "i < length xs \<Longrightarrow>
    length (filter P (xs[i := x])) + of_bool (P (xs ! i)) = length (filter P xs) + of_bool (P x)"
proof (induction xs arbitrary: i)
  case Nil
  then show ?case by simp
next
  case (Cons y ys)
  then show ?case by (cases i) auto
qed

text \<open>Array accesses; an index outside the array is undefined behaviour.\<close>

definition load :: "'a list \<Rightarrow> nat \<Rightarrow> 'a result" where
  "load xs i = (if i < length xs then Ok (xs ! i) else Err Undef_Behaviour)"

definition store :: "'a list \<Rightarrow> nat \<Rightarrow> 'a \<Rightarrow> 'a list result" where
  "store xs i v = (if i < length xs then Ok (xs[i := v]) else Err Undef_Behaviour)"

section \<open>Characters and strings\<close>

text \<open>The value of a (signed) C \<open>char\<close>.\<close>

definition schar :: "char \<Rightarrow> int" where
  "schar c = (let n = (of_char c :: int) in if n < 128 then n else n - 256)"

lemma schar_range: "-128 \<le> schar c" "schar c < 128"
proof -
  have "(of_char c :: int) < 256" "0 \<le> (of_char c :: int)" by (simp_all add: of_char_def horner_sum_simps of_bool_def)
  then show "-128 \<le> schar c" "schar c < 128" by (simp_all add: schar_def Let_def)
qed

lemma schar_high: "128 \<le> (of_char c :: nat) \<Longrightarrow> schar c < 0"
proof -
  assume "128 \<le> (of_char c :: nat)"
  moreover have "(of_char c :: int) = int (of_char c :: nat)" by (simp add: of_char_def)
  moreover have "(of_char c :: nat) < 256" by simp
  ultimately show ?thesis by (simp add: schar_def Let_def)
qed

abbreviation NUL :: char where "NUL \<equiv> CHR 0x00"
abbreviation NL :: char where "NL \<equiv> CHR 0x0A"
abbreviation SPC :: char where "SPC \<equiv> CHR 0x20"

text \<open>The string a block holds: everything before its first NUL byte.\<close>

definition cstr :: "string \<Rightarrow> string" where
  "cstr d = takeWhile (\<lambda>c. c \<noteq> NUL) d"

lemma cstr_append_NUL: "NUL \<notin> set s \<Longrightarrow> cstr (s @ NUL # d) = s"
  unfolding cstr_def by (subst takeWhile_append2) auto

lemma cstr_nul_free: "NUL \<notin> set (cstr d)"
  by (auto simp: cstr_def dest: set_takeWhileD)

lemma cstr_id: "NUL \<notin> set s \<Longrightarrow> cstr s = s"
  unfolding cstr_def by (subst takeWhile_eq_all_conv) auto

lemma cstr_prefix: "take (Suc (length s)) d = s @ [NUL] \<Longrightarrow> NUL \<notin> set s \<Longrightarrow> cstr d = s"
  using cstr_append_NUL [of s "drop (Suc (length s)) d"] append_take_drop_id [of "Suc (length s)" d]
  by (metis append.assoc append_Cons append_Nil)

text \<open>
  \<open>calloc(n, 1)\<close>, \<open>strcpy\<close> and \<open>memcpy(d + off, s, len)\<close> on whole blocks. A read past the
  end of a block (no NUL byte in the source of \<open>strcpy\<close>) or a write past it is undefined.
\<close>

definition calloc_bytes :: "allocator \<Rightarrow> u64 \<Rightarrow> string option" where
  "calloc_bytes al n = (if al (unat n) then Some (replicate (unat n) NUL) else None)"

definition c_strcpy :: "string \<Rightarrow> string \<Rightarrow> string result" where
  "c_strcpy dst src =
     (let s = cstr src
      in if length s < length src \<and> length s < length dst
         then Ok (s @ NUL # drop (Suc (length s)) dst) else Err Undef_Behaviour)"

definition c_memcpy :: "string \<Rightarrow> nat \<Rightarrow> string \<Rightarrow> string result" where
  "c_memcpy dst off src =
     (if off + length src \<le> length dst
      then Ok (take off dst @ src @ drop (off + length src) dst) else Err Undef_Behaviour)"

definition c_putc :: "string \<Rightarrow> nat \<Rightarrow> char \<Rightarrow> string result" where
  "c_putc d i c = (if i < length d then Ok (d[i := c]) else Err Undef_Behaviour)"

text \<open>\<open>memchr(b + i, c, end - (b + i))\<close> for a buffer \<open>b\<close>, as the index found.\<close>

fun find_index :: "'a \<Rightarrow> 'a list \<Rightarrow> nat option" where
  "find_index c [] = None"
| "find_index c (x # xs) = (if x = c then Some 0 else map_option Suc (find_index c xs))"

definition memchr_from :: "string \<Rightarrow> nat \<Rightarrow> char \<Rightarrow> nat option" where
  "memchr_from buf i c = map_option (\<lambda>k. i + k) (find_index c (drop i buf))"

lemma find_index_None: "find_index c xs = None \<longleftrightarrow> c \<notin> set xs"
  by (induction xs) auto

lemma find_index_Some:
  "find_index c xs = Some k \<longleftrightarrow> k < length xs \<and> xs ! k = c \<and> c \<notin> set (take k xs)"
proof (induction xs arbitrary: k)
  case Nil
  then show ?case by simp
next
  case (Cons x xs)
  then show ?case by (cases k) auto
qed

lemma find_index_append:
  "c \<notin> set xs \<Longrightarrow> find_index c (xs @ ys) = map_option (\<lambda>k. length xs + k) (find_index c ys)"
proof (induction xs)
  case Nil
  then show ?case by (cases "find_index c ys") auto
next
  case (Cons x xs)
  then show ?case by (cases "find_index c ys") auto
qed

text \<open>The lines of a text, each with its newline; the last one may lack it.\<close>

fun split_lines :: "string \<Rightarrow> string list" where
  "split_lines [] = []"
| "split_lines (c # cs) =
     (if c = NL then [c] # split_lines cs
      else case split_lines cs of [] \<Rightarrow> [[c]] | l # ls \<Rightarrow> (c # l) # ls)"

lemma split_lines_Nil: "split_lines s = [] \<longleftrightarrow> s = []"
  by (cases s) (auto split: list.splits)

lemma concat_split_lines: "concat (split_lines s) = s"
  by (induction s) (auto split: list.splits)

lemma split_lines_append:
  "xs = [] \<or> last xs = NL \<Longrightarrow> split_lines (xs @ ys) = split_lines xs @ split_lines ys"
proof (induction xs)
  case Nil
  then show ?case by simp
next
  case (Cons x xs)
  show ?case
  proof (cases "xs = []")
    case True
    then show ?thesis using Cons.prems by simp
  next
    case False
    then have "split_lines (xs @ ys) = split_lines xs @ split_lines ys" using Cons by simp
    moreover obtain l ls where "split_lines xs = l # ls" using False by (cases "split_lines xs") (auto simp: split_lines_Nil)
    ultimately show ?thesis by simp
  qed
qed

lemma split_lines_one: "NL \<notin> set l \<Longrightarrow> l \<noteq> [] \<Longrightarrow> split_lines l = [l]"
proof (induction l)
  case (Cons c l)
  then show ?case by (cases "l = []") auto
qed simp

lemma split_lines_full: "NL \<notin> set l \<Longrightarrow> split_lines (l @ [NL]) = [l @ [NL]]"
  by (induction l) auto

text \<open>\<open>isspace\<close> in the C locale.\<close>

definition is_c_space :: "char \<Rightarrow> bool" where
  "is_c_space c \<longleftrightarrow> c = SPC \<or> (9 \<le> (of_char c :: nat) \<and> (of_char c :: nat) \<le> 13)"

text \<open>The part of a list between two positions.\<close>

definition sub :: "'a list \<Rightarrow> nat \<Rightarrow> nat \<Rightarrow> 'a list" where
  "sub xs i j = take (j - i) (drop i xs)"

lemma sub_append: "i \<le> j \<Longrightarrow> j \<le> k \<Longrightarrow> sub xs i j @ sub xs j k = sub xs i k"
proof -
  assume a: "i \<le> j" "j \<le> k"
  then have "sub xs i k = take ((j - i) + (k - j)) (drop i xs)" by (simp add: sub_def)
  also have "\<dots> = take (j - i) (drop i xs) @ take (k - j) (drop (j - i) (drop i xs))" by (rule take_add)
  finally show ?thesis using a by (simp add: sub_def)
qed

lemma sub_snoc: "i \<le> j \<Longrightarrow> j < length xs \<Longrightarrow> sub xs i (Suc j) = sub xs i j @ [xs ! j]"
  by (simp add: sub_def Suc_diff_le take_Suc_conv_app_nth)

lemma sub_same [simp]: "sub xs i i = []"
  by (simp add: sub_def)

lemma take_sub: "i \<le> j \<Longrightarrow> take i xs @ sub xs i j = take j xs"
  using sub_append [of 0 i j xs] by (simp add: sub_def)

lemma drop_sub: "drop k (sub xs i j) = sub xs (i + k) j"
  by (simp add: sub_def drop_take add.commute)

lemma take_of_sub: "i + k \<le> j \<Longrightarrow> take k (sub xs i j) = sub xs i (i + k)"
  by (simp add: sub_def min_def)

lemma nth_sub: "i + k < j \<Longrightarrow> j \<le> length xs \<Longrightarrow> sub xs i j ! k = xs ! (i + k)"
  by (simp add: sub_def)

lemma length_sub: "j \<le> length xs \<Longrightarrow> length (sub xs i j) = j - i"
  by (simp add: sub_def)

lemma nth_in_sub: "i \<le> q \<Longrightarrow> q < j \<Longrightarrow> j \<le> length xs \<Longrightarrow> xs ! q \<in> set (sub xs i j)"
  using nth_mem [of "q - i" "sub xs i j"] nth_sub [of i "q - i" j xs] by (simp add: length_sub)

section \<open>Interleaving\<close>

text \<open>A sum over a list in which one element changes.\<close>

lemma sum_list_map_update:
  fixes f :: "'a \<Rightarrow> nat"
  assumes "i < length xs"
  shows "sum_list (map f (xs[i := x])) + f (xs ! i) = sum_list (map f xs) + f x"
  using assms
proof (induction xs arbitrary: i)
  case (Cons y ys)
  then show ?case by (cases i) (auto simp: algebra_simps)
qed simp

text \<open>The lists of several threads or processes, merged in any way that keeps each one's order.\<close>

inductive interleaving :: "'a list list \<Rightarrow> 'a list \<Rightarrow> bool" where
  finished: "(\<forall>xs \<in> set xss. xs = []) \<Longrightarrow> interleaving xss []"
| move: "i < length xss \<Longrightarrow> xss ! i = x # xs \<Longrightarrow> interleaving (xss[i := xs]) ys \<Longrightarrow>
    interleaving xss (x # ys)"

lemma interleaving_set: "interleaving xss ys \<Longrightarrow> set ys = (\<Union>xs \<in> set xss. set xs)"
proof (induction rule: interleaving.induct)
  case (move i xss x xs ys)
  have "xss = take i xss @ (x # xs) # drop (Suc i) xss"
    using move(1,2) id_take_nth_drop by metis
  moreover have "xss[i := xs] = take i xss @ xs # drop (Suc i) xss"
    using move(1) by (rule upd_conv_take_nth_drop)
  moreover have "(\<Union>zs \<in> set (us @ (x # xs) # vs). set zs) =
      insert x (\<Union>zs \<in> set (us @ xs # vs). set zs)" for us vs
    by auto
  ultimately have "(\<Union>zs \<in> set xss. set zs) = insert x (\<Union>zs \<in> set (xss[i := xs]). set zs)"
    by metis
  then show ?case using move.IH by simp
qed auto

text \<open>They can also run one after the other.\<close>

lemma interleaving_concat: "interleaving xss (concat xss)"
proof -
  have "interleaving (us @ xss) (concat xss)" if "\<forall>u \<in> set us. u = []" for us
    using that
  proof (induction xss arbitrary: us)
    case Nil
    then show ?case by (simp add: finished)
  next
    case (Cons xs xss)
    note outer = Cons.IH and nil = Cons.prems
    show ?case
    proof (induction xs)
      case Nil
      then show ?case using outer[of "us @ [[]]"] nil by simp
    next
      case (Cons x xs)
      have "interleaving ((us @ (x # xs) # xss)[length us := xs]) (concat (xs # xss))"
        using Cons by simp
      then show ?case using move[of "length us" "us @ (x # xs) # xss" x xs] by simp
    qed
  qed
  from this[of "[]"] show ?thesis by simp
qed

text \<open>The lists can grow at the end.\<close>

lemma interleaving_snoc:
  "interleaving xss ys \<Longrightarrow> i < length xss \<Longrightarrow> interleaving (xss[i := xss ! i @ [x]]) (ys @ [x])"
proof (induction rule: interleaving.induct)
  case (finished xss)
  then have "xss ! i = []" by simp
  then have "(xss[i := xss ! i @ [x]]) ! i = x # []" using finished.prems by simp
  moreover have "interleaving ((xss[i := xss ! i @ [x]])[i := []]) []"
    using finished by (intro interleaving.finished) (auto dest: set_update_subset_insert [THEN subsetD])
  ultimately show ?case using interleaving.move [of i _ x "[]" "[]"] finished.prems by simp
next
  case (move j xss z zs ys)
  have i: "i < length (xss[j := zs])" using move.prems by simp
  have "(xss[i := xss ! i @ [x]]) ! j = z # (if i = j then zs @ [x] else zs)"
    using move.hyps by simp
  moreover have "(xss[i := xss ! i @ [x]])[j := (if i = j then zs @ [x] else zs)] =
      (xss[j := zs])[i := xss[j := zs] ! i @ [x]]"
    using move.hyps move.prems by (auto simp: list_update_swap)
  ultimately show ?case
    using interleaving.move [of j "xss[i := xss ! i @ [x]]" z "if i = j then zs @ [x] else zs" "ys @ [x]"]
      move.IH [OF i] move.hyps(1) by simp
qed

lemma interleaving_map:
  assumes "interleaving (map (map f) xss) ys"
  obtains zs where "ys = map f zs" "interleaving xss zs"
proof -
  have "\<exists>zs. ys = map f zs \<and> interleaving xss zs"
    using assms
  proof (induction "map (map f) xss" ys arbitrary: xss rule: interleaving.induct)
    case finished
    then show ?case by (intro exI[of _ "[]"]) (auto intro!: interleaving.finished)
  next
    case (move i x xs ys)
    then obtain z zs where z: "xss ! i = z # zs" "x = f z" "xs = map f zs" by auto
    have "(map (map f) xss)[i := xs] = map (map f) (xss[i := zs])" by (simp add: z map_update)
    then obtain us where "ys = map f us" "interleaving (xss[i := zs]) us" using move.hyps(4) by blast
    then show ?case using move.hyps(1) z
      by (intro exI[of _ "z # us"]) (auto intro!: interleaving.move)
  qed
  then show thesis using that by blast
qed

lemma interleaving_filter:
  assumes "interleaving xss ys" "i < length xss"
    and "\<And>j x. j < length xss \<Longrightarrow> j \<noteq> i \<Longrightarrow> x \<in> set (xss ! j) \<Longrightarrow> \<not> P x"
  shows "filter P ys = filter P (xss ! i)"
  using assms
proof (induction rule: interleaving.induct)
  case (finished xss)
  then have "xss ! i = []" by (simp add: nth_mem)
  then show ?case by simp
next
  case (move k xss x xs ys)
  have "filter P ys = filter P (xss[k := xs] ! i)"
  proof (rule move.IH)
    fix j y assume "j < length (xss[k := xs])" "j \<noteq> i" "y \<in> set (xss[k := xs] ! j)"
    then show "\<not> P y" using move.hyps(1,2) move.prems(2)[of j y] by (cases "j = k") auto
  qed (use move.prems in simp)
  moreover have "\<not> P x" if "k \<noteq> i" using that move.hyps(1,2) move.prems(2)[of k x] by simp
  ultimately show ?case using move.hyps(1,2) by (cases "k = i") auto
qed

section \<open>Growing buffers\<close>

text \<open>
  The dynamic vector and both sized strings offer their clients the same contract: a
  buffer represents a list, and as long as the list stays within the bound \<open>lim\<close> a push
  succeeds and appends (for the strings, a whole piece).
\<close>

locale append_buffer =
  fixes empty :: 'b
    and push :: "'b \<Rightarrow> 'p \<Rightarrow> 'b result"
    and rep :: "'b \<Rightarrow> 'a list \<Rightarrow> bool"
    and piece :: "'p \<Rightarrow> 'a list"
    and okay :: "'p \<Rightarrow> bool"
    and lim :: nat
  assumes rep_empty: "rep empty []"
    and rep_push: "rep b xs \<Longrightarrow> okay p \<Longrightarrow> length xs + length (piece p) \<le> lim \<Longrightarrow>
      \<exists>b'. push b p = Ok b' \<and> rep b' (xs @ piece p)"
begin

lemma rep_push_all:
  "rep b xs \<Longrightarrow> (\<forall>p \<in> set ps. okay p) \<Longrightarrow> length xs + length (concat (map piece ps)) \<le> lim \<Longrightarrow>
    \<exists>b'. rfold push b ps = Ok b' \<and> rep b' (xs @ concat (map piece ps))"
proof (induction ps arbitrary: b xs)
  case Nil
  then show ?case by simp
next
  case (Cons p ps)
  then obtain b' where b': "push b p = Ok b'" "rep b' (xs @ piece p)"
    using rep_push [of b xs p] by auto
  with Cons.IH [of b' "xs @ piece p"] Cons.prems show ?case by auto
qed

lemma rep_build:
  "(\<forall>p \<in> set ps. okay p) \<Longrightarrow> length (concat (map piece ps)) \<le> lim \<Longrightarrow>
    \<exists>b. rfold push empty ps = Ok b \<and> rep b (concat (map piece ps))"
  using rep_push_all [OF rep_empty, of ps] by simp

end

section \<open>Dictionaries\<close>

text \<open>
  The contract of a table of definitions: \<open>rep m f n\<close> says that \<open>m\<close> represents the map
  \<open>f\<close> after at most \<open>n\<close> insertions. A lookup is only promised to work on a table that
  holds something.
\<close>

locale dict =
  fixes empty :: 'm
    and insert :: "'m \<Rightarrow> 'k \<Rightarrow> 'v \<Rightarrow> 'm result"
    and get :: "'m \<Rightarrow> 'k \<Rightarrow> 'v option result"
    and rep :: "'m \<Rightarrow> ('k \<rightharpoonup> 'v) \<Rightarrow> nat \<Rightarrow> bool"
    and lim :: nat
  assumes dict_empty: "rep empty Map.empty 0"
    and dict_insert: "rep m f n \<Longrightarrow> n < lim \<Longrightarrow> \<exists>m'. insert m k v = Ok m' \<and> rep m' (f(k \<mapsto> v)) (Suc n)"
    and dict_get: "rep m f n \<Longrightarrow> f \<noteq> Map.empty \<Longrightarrow> get m k = Ok (f k)"
begin

lemma inserts_from:
  "rep m f n \<Longrightarrow> n + length kvs \<le> lim \<Longrightarrow>
    \<exists>m'. rfold (\<lambda>m (k, v). insert m k v) m kvs = Ok m' \<and> rep m' (f ++ map_of (rev kvs)) (n + length kvs)"
proof (induction kvs arbitrary: m f n)
  case Nil
  then show ?case by simp
next
  case (Cons kv kvs)
  obtain k v where kv: "kv = (k, v)" by (cases kv)
  then obtain m' where m': "insert m k v = Ok m'" "rep m' (f(k \<mapsto> v)) (Suc n)"
    using dict_insert [of m f n k v] Cons.prems by auto
  have "Suc n + length kvs \<le> lim" using Cons.prems(2) by simp
  with Cons.IH [OF m'(2)] obtain m'' where m'': "rfold (\<lambda>m (k, v). insert m k v) m' kvs = Ok m''"
    "rep m'' (f(k \<mapsto> v) ++ map_of (rev kvs)) (Suc n + length kvs)" by blast
  have "f(k \<mapsto> v) ++ map_of (rev kvs) = f ++ map_of (rev (kv # kvs))"
    by (simp add: kv map_of_append map_add_assoc [symmetric])
  with m'' have "rep m'' (f ++ map_of (rev (kv # kvs))) (n + length (kv # kvs))" by simp
  moreover have "rfold (\<lambda>m (k, v). insert m k v) m (kv # kvs) = Ok m''" using m' m'' kv by simp
  ultimately show ?case by blast
qed

lemma last_insert_wins:
  assumes "kvs \<noteq> []" "length kvs \<le> lim"
  shows "\<exists>m. rfold (\<lambda>m (k, v). insert m k v) empty kvs = Ok m \<and> (\<forall>k. get m k = Ok (map_of (rev kvs) k))"
proof -
  obtain m where m: "rfold (\<lambda>m (k, v). insert m k v) empty kvs = Ok m" "rep m (map_of (rev kvs)) (length kvs)"
    using inserts_from [OF dict_empty, of kvs] assms by auto
  have "map_of (rev kvs) \<noteq> Map.empty" using assms(1) by (simp add: map_of_eq_empty_iff)
  then show ?thesis using m dict_get by blast
qed

end

section \<open>Consumers of input read in blocks\<close>

text \<open>
  Several programs read a file in blocks and feed each block to the same routine. The
  interface: a routine \<open>feed\<close> on a state and a block whose effect does not depend on where
  the blocks are cut, for the blocks in \<open>okay\<close> and the states in \<open>good\<close>.
\<close>

locale chunk_machine =
  fixes feed :: "'s \<Rightarrow> 'i list \<Rightarrow> 's"
  assumes feed_Nil: "feed s [] = s"
    and feed_append: "feed s (xs @ ys) = feed (feed s xs) ys"
begin

lemma feed_blocks: "foldl feed s blocks = feed s (concat blocks)"
  by (induction blocks arbitrary: s) (simp_all add: feed_Nil feed_append)

lemma blocks_irrelevant: "concat bs = concat bs' \<Longrightarrow> foldl feed s bs = foldl feed s bs'"
  by (simp add: feed_blocks)

lemma feed_singletons: "feed s xs = foldl (\<lambda>s x. feed s [x]) s xs"
proof (induction xs arbitrary: s)
  case Nil
  then show ?case by (simp add: feed_Nil)
next
  case (Cons x xs)
  then show ?case using feed_append [of s "[x]" xs] by simp
qed

end

section \<open>Processes that move one at a time\<close>

locale transition_system =
  fixes init :: "'s \<Rightarrow> bool"
    and step :: "'s \<Rightarrow> 's \<Rightarrow> bool"
    and inv :: "'s \<Rightarrow> bool"
  assumes inv_init: "init s \<Longrightarrow> inv s"
    and inv_step: "inv s \<Longrightarrow> step s t \<Longrightarrow> inv t"
begin

lemma inv_steps: "step\<^sup>*\<^sup>* s t \<Longrightarrow> inv s \<Longrightarrow> inv t"
  by (induction rule: rtranclp_induct) (auto intro: inv_step)

lemma inv_reachable: "init s \<Longrightarrow> step\<^sup>*\<^sup>* s t \<Longrightarrow> inv t"
  by (blast intro: inv_steps inv_init)

end

text \<open>
  A system that can always get closer to a goal: from every state of the invariant that is
  not a goal yet some step lowers the rank.
\<close>

locale ranked_system = transition_system init step inv
  for init :: "'s \<Rightarrow> bool" and step :: "'s \<Rightarrow> 's \<Rightarrow> bool" and inv :: "'s \<Rightarrow> bool" +
  fixes goal :: "'s \<Rightarrow> bool"
    and rank :: "'s \<Rightarrow> nat"
  assumes closer: "inv s \<Longrightarrow> \<not> goal s \<Longrightarrow> \<exists>t. step s t \<and> rank t < rank s"
begin

lemma goal_in_reach: "inv s \<Longrightarrow> \<exists>t. step\<^sup>*\<^sup>* s t \<and> goal t"
proof (induction "rank s" arbitrary: s rule: less_induct)
  case less
  show ?case
  proof (cases "goal s")
    case False
    then obtain t where t: "step s t" "rank t < rank s" using closer less.prems by blast
    then obtain u where "step\<^sup>*\<^sup>* t u" "goal u" using less inv_step by blast
    then show ?thesis using t(1) converse_rtranclp_into_rtranclp by metis
  qed blast
qed

lemma goal_reachable: "init s \<Longrightarrow> step\<^sup>*\<^sup>* s t \<Longrightarrow> \<exists>u. step\<^sup>*\<^sup>* t u \<and> goal u"
  by (blast intro: goal_in_reach inv_reachable)

end

end
