(* ===== verification/Next_Size.thy ===== *)
theory Next_Size
  imports Prelude
begin

text \<open>
  The growth policies of the dynamic arrays: \<open>next_size\<close> of \<open>lab5/zad1/main.c\<close>
  (a power of two, \<open>next_size\<close> here) and the different function of the same name in
  \<open>lab2/zad3/main.c\<close> and \<open>lab3/zad3/main.c\<close> (a power of two minus one,
  \<open>next_size_m1\<close> here). Both isolate the highest set bit with the same loop.
\<close>

section \<open>The loop that clears low bits\<close>

text \<open>\<open>while ((x & (x - 1)) != 0) x &= (x - 1);\<close>\<close>

function clear_low_bits :: "u64 \<Rightarrow> u64" where
  "clear_low_bits x = (if x AND (x - 1) \<noteq> 0 then clear_low_bits (x AND (x - 1)) else x)"
  by pat_completeness auto
termination
proof (relation "measure unat", simp)
  fix x :: u64
  assume nz: "x AND (x - 1) \<noteq> 0"
  then have "x \<noteq> 0" by auto
  then have "x - 1 < x" by (simp add: measure_unat word_less_nat_alt)
  moreover have "x AND (x - 1) \<le> x - 1" by (rule word_and_le1)
  ultimately have "x AND (x - 1) < x" by (rule le_less_trans [rotated])
  then show "(x AND (x - 1), x) \<in> measure unat" by (simp add: word_less_nat_alt)
qed

declare clear_low_bits.simps [simp del]

text \<open>The loop keeps the highest set bit and nothing else.\<close>

lemma and_keeps_top:
  fixes a b :: nat
  assumes "2 ^ k \<le> a" "a < 2 ^ Suc k" "2 ^ k \<le> b" "b < 2 ^ Suc k"
  shows "2 ^ k \<le> a AND b"
proof -
  have "a div 2 ^ k = 1" and "b div 2 ^ k = 1"
    using assms by (auto intro!: div_nat_eqI)
  then have "bit a k" and "bit b k" by (simp_all add: bit_iff_odd)
  then have "bit (a AND b) k" by (simp add: bit_and_iff)
  then show ?thesis
    by (metis bit_iff_odd div_less even_zero not_less)
qed

lemma and_le_nat: "(a :: nat) AND b \<le> b"
  by (metis and_nat_def nat_int nat_mono AND_upper2 of_nat_0_le_iff)

lemma clear_low_bits_top:
  "2 ^ k \<le> unat x \<Longrightarrow> unat x < 2 ^ Suc k \<Longrightarrow> unat (clear_low_bits x) = 2 ^ k"
proof (induction x rule: clear_low_bits.induct)
  case (1 x)
  have "0 < unat x" using "1.prems"(1) by (metis gr0I not_less zero_less_numeral zero_less_power)
  then have dec: "unat (x - 1) = unat x - 1"
    by (simp add: unat_minus_one unat_eq_0 [symmetric] flip: unat_gt_0)
  show ?case
  proof (cases "x AND (x - 1) = 0")
    case True
    have "unat x = 2 ^ k"
    proof (rule ccontr)
      assume "unat x \<noteq> 2 ^ k"
      then have "2 ^ k \<le> unat x AND unat (x - 1)"
        using "1.prems" dec by (intro and_keeps_top) auto
      then show False using True by (simp add: unsigned_and_eq [symmetric])
    qed
    with True show ?thesis by (simp add: clear_low_bits.simps)
  next
    case False
    have "unat x \<noteq> 2 ^ k"
    proof
      assume "unat x = 2 ^ k"
      moreover have "(2 :: nat) ^ k AND (2 ^ k - 1) = 0"
        using take_bit_eq_mask [of k "2 ^ k :: nat"] by (simp add: mask_eq_exp_minus_1)
      ultimately have "unat x AND (unat x - 1) = 0" by simp
      then show False using False dec by (metis unsigned_and_eq unat_eq_0)
    qed
    then have low: "2 ^ k \<le> unat (x AND (x - 1))"
      using "1.prems" dec by (simp add: unsigned_and_eq) (intro and_keeps_top, auto)
    have "unat (x AND (x - 1)) \<le> unat (x - 1)" by (simp add: unsigned_and_eq and_le_nat)
    then have high: "unat (x AND (x - 1)) < 2 ^ Suc k" using "1.prems"(2) dec by linarith
    from False low high show ?thesis
      using "1.IH" by (simp add: clear_low_bits.simps [of x])
  qed
qed

lemma top_bit_exists:
  assumes "0 < n"
  obtains k where "2 ^ k \<le> n" and "(n :: nat) < 2 ^ Suc k"
  using assms ex_power_ivl1 [of 2 n] by (auto simp: that)

section \<open>lab5: the least power of two\<close>

definition next_size :: "u64 \<Rightarrow> u64" where
  "next_size x = (if x < 4 then 4 else clear_low_bits (push_bit 1 x - 1))"

text \<open>
  The argument of the loop is \<open>2 * x - 1\<close>, computed with wrap-around: up to
  \<open>x = 2^63\<close> nothing is lost.
\<close>

lemma next_size_arg:
  fixes x :: u64
  assumes "4 \<le> unat x" "unat x \<le> 2 ^ 63"
  shows "unat (push_bit 1 x - 1) = 2 * unat x - 1"
proof (cases "unat x = 2 ^ 63")
  case True
  then have "x = 2 ^ 63" by (simp add: word_unat_eq_iff)
  then show ?thesis using True by simp
next
  case False
  then have "unat (push_bit 1 x) = 2 * unat x"
    using assms by (simp add: push_bit_eq_mult u64_mult unat_word_ariths)
  then show ?thesis using assms by (simp add: u64_sub)
qed

lemma next_size_exp:
  assumes "unat x \<le> 2 ^ 63"
  obtains k where "2 \<le> k" "unat (next_size x) = 2 ^ k" "unat x \<le> 2 ^ k"
    "4 \<le> unat x \<longrightarrow> 2 ^ k < 2 * unat x"
proof (cases "unat x < 4")
  case True
  then show ?thesis by (intro that [of 2]) (auto simp: next_size_def word_less_nat_alt)
next
  case False
  then have "0 < 2 * unat x - 1" by linarith
  then obtain k where k: "2 ^ k \<le> 2 * unat x - 1" "2 * unat x - 1 < 2 ^ Suc k"
    by (rule top_bit_exists)
  have "unat (push_bit 1 x - 1) = 2 * unat x - 1" using False assms by (intro next_size_arg) auto
  with k have "unat (clear_low_bits (push_bit 1 x - 1)) = 2 ^ k" by (intro clear_low_bits_top) auto
  with False have "unat (next_size x) = 2 ^ k" by (simp add: next_size_def word_less_nat_alt)
  moreover have "2 \<le> k"
  proof (rule ccontr)
    assume "\<not> 2 \<le> k"
    then have "Suc k \<le> 2" by simp
    then have "(2 :: nat) ^ Suc k \<le> 2 ^ 2" by (rule power_increasing) simp
    then show False using k False by simp
  qed
  ultimately show ?thesis using k False by (intro that [of k]) auto
qed

lemma next_size_ge: "unat x \<le> 2 ^ 63 \<Longrightarrow> unat x \<le> unat (next_size x)"
  by (metis next_size_exp)

lemma next_size_small:
  assumes "unat (len :: u64) \<le> 2 ^ 60" shows "unat (next_size len) \<le> 2 ^ 60"
proof -
  have "unat len \<le> 2 ^ 63" using assms by simp
  then obtain k where k: "2 \<le> k" "unat (next_size len) = 2 ^ k" "unat len \<le> 2 ^ k"
    "4 \<le> unat len \<longrightarrow> 2 ^ k < 2 * unat len"
    by (rule next_size_exp)
  show ?thesis
  proof (cases "4 \<le> unat len")
    case True
    with k assms have "(2 :: nat) ^ k < 2 ^ 61" by simp
    then have "k < 61" by (rule power_less_imp_less_exp [rotated]) simp
    then have "k \<le> 60" by simp
    then have "(2 :: nat) ^ k \<le> 2 ^ 60" by (rule power_increasing) simp
    then show ?thesis using k by simp
  next
    case False
    then have "next_size len = 4" by (simp add: next_size_def word_less_nat_alt)
    then show ?thesis by simp
  qed
qed

section \<open>lab2, lab3: a power of two minus one\<close>

definition next_size_m1 :: "u64 \<Rightarrow> u64 result" where
  "next_size_m1 x0 =
     (let x = x0 + 1
      in rbind (c_assert (x > 0)) (\<lambda>_.
         if x < 7 then Ok 7 else Ok (push_bit 1 (clear_low_bits x) - 1)))"

text \<open>
  The shift may push the only set bit out of the word; the subtraction then gives the
  largest word, so the result is \<open>2 ^ Suc k - 1\<close> in that case as well.
\<close>

lemma shift_power_minus_one:
  assumes "unat (y :: u64) = 2 ^ k"
  shows "unat (push_bit 1 y - 1) = 2 ^ Suc k - 1"
proof -
  have "(2 :: nat) ^ k < 2 ^ 64" using u64_bound [of y] assms by simp
  then have "k < 64" by (rule power_less_imp_less_exp [rotated]) simp
  show ?thesis
  proof (cases "k = 63")
    case True
    then have "y = 2 ^ 63" using assms by (simp add: word_unat_eq_iff)
    then show ?thesis using True by simp
  next
    case False
    with \<open>k < 64\<close> have "k \<le> 62" by simp
    then have "(2 :: nat) ^ k \<le> 2 ^ 62" by (rule power_increasing) simp
    then have "unat (push_bit 1 y) = 2 * 2 ^ k"
      using assms by (simp add: push_bit_eq_mult unat_word_ariths)
    then show ?thesis by (simp add: u64_sub)
  qed
qed

lemma next_size_m1_exp:
  assumes "x \<noteq> - 1"
  obtains r k where "next_size_m1 x = Ok r" "unat r = 2 ^ k - 1" "unat x < unat r"
    "unat r \<le> 2 * unat x + 7"
proof -
  have "unat x \<noteq> 18446744073709551615"
  proof
    assume "unat x = 18446744073709551615"
    then have "x = - 1" by (simp add: word_unat_eq_iff unsigned_minus_1_eq_mask mask_eq_exp_minus_1)
    with assms show False ..
  qed
  then have suc: "unat (x + 1) = Suc (unat x)"
    using u64_bound [of x] by (intro u64_suc) linarith
  then have pos: "x + 1 > 0" by (simp add: word_less_nat_alt)
  show ?thesis
  proof (cases "x + 1 < 7")
    case True
    then have "unat x < 7" using suc by (simp add: word_less_nat_alt)
    with True pos show ?thesis by (intro that [of 7 3]) (auto simp: next_size_m1_def Let_def)
  next
    case False
    obtain k where k: "2 ^ k \<le> unat (x + 1)" "unat (x + 1) < 2 ^ Suc k"
      using top_bit_exists [of "unat (x + 1)"] suc by auto
    then have "unat (clear_low_bits (x + 1)) = 2 ^ k" by (rule clear_low_bits_top)
    then have "unat (push_bit 1 (clear_low_bits (x + 1)) - 1) = 2 ^ Suc k - 1"
      by (rule shift_power_minus_one)
    with False pos k suc show ?thesis
      by (intro that [of "push_bit 1 (clear_low_bits (x + 1)) - 1" "Suc k"])
        (auto simp: next_size_m1_def Let_def)
  qed
qed

lemma next_size_m1_ge:
  assumes "0 < unat len"
  obtains w where "next_size_m1 (len - 1) = Ok w" "unat len \<le> unat w" "unat w \<le> 2 * unat len + 7"
proof -
  have "len - 1 \<noteq> - 1" using assms by auto
  then obtain w where w: "next_size_m1 (len - 1) = Ok w" "unat (len - 1) < unat w"
    "unat w \<le> 2 * unat (len - 1) + 7"
    by (rule next_size_m1_exp)
  moreover have "unat (len - 1) = unat len - 1" using assms by (simp add: u64_sub)
  ultimately show ?thesis using that by fastforce
qed

section \<open>Properties\<close>

text \<open>
  Up to \<open>2^63\<close> elements, \<open>next_size\<close> of the interpreter returns the least power of
  two that is at least 4 and not below the argument, so that the assertion
  \<open>wanted >= len\<close> after each of its calls holds.
\<close>

theorem next_size_least_power:
  assumes "unat x \<le> 2 ^ 63"
  shows "\<exists>k. 2 \<le> k \<and> unat (next_size x) = 2 ^ k \<and> unat x \<le> unat (next_size x)
    \<and> (\<forall>j. 2 \<le> j \<and> unat x \<le> 2 ^ j \<longrightarrow> unat (next_size x) \<le> 2 ^ j)"
proof -
  obtain k where k: "2 \<le> k" "unat (next_size x) = 2 ^ k" "unat x \<le> 2 ^ k"
    "4 \<le> unat x \<longrightarrow> 2 ^ k < 2 * unat x"
    using assms by (rule next_size_exp)
  have "2 ^ k \<le> (2 :: nat) ^ j" if j: "2 \<le> j" "unat x \<le> 2 ^ j" for j
  proof (cases "4 \<le> unat x")
    case True
    with k(4) j have "(2 :: nat) ^ k < 2 ^ Suc j" by auto
    then have "k < Suc j" by (rule power_less_imp_less_exp [rotated]) simp
    then show ?thesis by (intro power_increasing) auto
  next
    case False
    then have "next_size x = 4" by (simp add: next_size_def word_less_nat_alt)
    then have "(2 :: nat) ^ k = 2 ^ 2" using k(2) by simp
    also have "\<dots> \<le> 2 ^ j" using j(1) by (intro power_increasing) auto
    finally show ?thesis .
  qed
  with k show ?thesis by (intro exI [of _ k]) auto
qed

theorem next_size_least_power_witness:
  "\<exists>k. 2 \<le> k \<and> unat (next_size 5) = 2 ^ k \<and> unat (5 :: u64) \<le> unat (next_size 5)
    \<and> (\<forall>j. 2 \<le> j \<and> unat (5 :: u64) \<le> 2 ^ j \<longrightarrow> unat (next_size 5) \<le> 2 ^ j)"
  by (rule next_size_least_power) simp

text \<open>
  \<open>next_size\<close> of the directory walkers fails its assertion at the largest word and
  otherwise returns a number of the form \<open>2^k - 1\<close> above its argument, the last one
  included whose doubling leaves the word.
\<close>

theorem next_size_m1_spec:
  "if x = - 1 then next_size_m1 x = Err Assert_Fail
   else \<exists>r k. next_size_m1 x = Ok r \<and> unat r = 2 ^ k - 1 \<and> unat x < unat r"
proof (cases "x = - 1")
  case True
  then show ?thesis by (simp add: next_size_m1_def)
next
  case False
  then show ?thesis by (metis next_size_m1_exp)
qed

end
