(* ===== verification/Vec.thy ===== *)
theory Vec
  imports Next_Size
begin

text \<open>
  The dynamic vector of \<open>void*\<close> in \<open>lab5/zad1/main.c\<close> (\<open>vec_t\<close>), with the block it
  owns modelled slot by slot (\<open>None\<close> for a slot \<open>malloc\<close> left uninitialised). The
  capacity field and the real size of the block are kept apart, because the code lets
  them differ: \<open>vec_realloc\<close> records the new capacity only when it had elements to copy.
\<close>

record 'a vec =
  vcap :: u64
  vlen :: u64
  vdata :: "'a option list option"

definition vec_zero :: "'a vec" where
  "vec_zero = \<lparr>vcap = 0, vlen = 0, vdata = None\<rparr>"

section \<open>Operations\<close>

text \<open>A block for \<open>n\<close> pointers of 8 bytes; the product \<open>n * sizeof(void*)\<close> may wrap.\<close>

definition malloc_ptrs :: "allocator \<Rightarrow> u64 \<Rightarrow> 'a option list option" where
  "malloc_ptrs al n =
     (let bytes = unat (n * 8)
      in if al bytes then Some (replicate (bytes div 8) None) else None)"

definition vec_realloc :: "allocator \<Rightarrow> 'a vec \<Rightarrow> u64 \<Rightarrow> 'a vec result" where
  "vec_realloc al v newlen =
     rbind (c_assert (newlen > vcap v)) (\<lambda>_.
       let new = malloc_ptrs al newlen
       in if vlen v \<noteq> 0 then
            (case (new, vdata v) of
               (Some nd, Some od) \<Rightarrow>
                 let n = unat (vlen v * 8) div 8
                 in if n \<le> length nd \<and> n \<le> length od
                    then Ok (v\<lparr>vdata := Some (take n od @ drop n nd), vcap := newlen\<rparr>)
                    else Err Undef_Behaviour
             | _ \<Rightarrow> Err Undef_Behaviour)
          else Ok (v\<lparr>vdata := new\<rparr>))"

definition vec_ensure :: "allocator \<Rightarrow> 'a vec \<Rightarrow> u64 \<Rightarrow> 'a vec result" where
  "vec_ensure al v len =
     (if len > vcap v then
        let wanted = next_size len
        in rbind (c_assert (wanted \<ge> len)) (\<lambda>_.
           rbind (vec_realloc al v wanted) (\<lambda>v'.
             if vdata v' = None then Err (Exit_Status 65) else Ok v'))
      else Ok v)"

definition vec_push :: "allocator \<Rightarrow> 'a vec \<Rightarrow> 'a \<Rightarrow> 'a vec result" where
  "vec_push al v e =
     rbind (vec_ensure al v (vlen v + 1)) (\<lambda>v'.
       case vdata v' of
         None \<Rightarrow> Err Undef_Behaviour
       | Some d \<Rightarrow>
           if unat (vlen v') < length d
           then Ok (v'\<lparr>vdata := Some (d[unat (vlen v') := Some e]), vlen := vlen v' + 1\<rparr>)
           else Err Undef_Behaviour)"

text \<open>
  \<open>vec_free\<close> also returns the elements it passes to \<open>free\<close>, in order.
\<close>

definition vec_free :: "'a vec \<Rightarrow> bool \<Rightarrow> ('a vec \<times> 'a list) result" where
  "vec_free v free_elems =
     (case vdata v of
        None \<Rightarrow> Err Assert_Fail
      | Some d \<Rightarrow>
          let n = unat (vlen v)
          in if free_elems \<and> (length d < n \<or> None \<in> set (take n d)) then Err Undef_Behaviour
             else Ok (v\<lparr>vdata := None, vlen := 0, vcap := 0\<rparr>,
                      if free_elems then map the (take n d) else []))"

text \<open>A read \<open>vec->data[i]\<close>.\<close>

definition vec_nth :: "'a vec \<Rightarrow> nat \<Rightarrow> 'a result" where
  "vec_nth v i =
     (case vdata v of
        None \<Rightarrow> Err Undef_Behaviour
      | Some d \<Rightarrow>
          if i < length d then (case d ! i of Some x \<Rightarrow> Ok x | None \<Rightarrow> Err Undef_Behaviour)
          else Err Undef_Behaviour)"

section \<open>What a vector represents\<close>

definition vec_rep :: "'a vec \<Rightarrow> 'a list \<Rightarrow> bool" where
  "vec_rep v xs \<longleftrightarrow> unat (vlen v) = length xs \<and>
     (case vdata v of
        None \<Rightarrow> xs = [] \<and> vcap v = 0
      | Some d \<Rightarrow> take (length xs) d = map Some xs \<and> length xs \<le> length d \<and> unat (vcap v) \<le> length d)"

text \<open>The number of elements up to which no size computation wraps.\<close>

definition vec_limit :: nat where "vec_limit = 2 ^ 60"

lemma vec_rep_zero [simp]: "vec_rep vec_zero []"
  by (simp add: vec_rep_def vec_zero_def)

lemma vec_rep_len: "vec_rep v xs \<Longrightarrow> unat (vlen v) = length xs"
  by (simp add: vec_rep_def)

lemma vec_rep_unique: "vec_rep v xs \<Longrightarrow> vec_rep v ys \<Longrightarrow> xs = ys"
  by (auto simp: vec_rep_def dest: map_injective split: option.splits)

lemma vec_rep_nonempty: "vec_rep v xs \<Longrightarrow> xs \<noteq> [] \<Longrightarrow> vdata v \<noteq> None"
  by (auto simp: vec_rep_def split: option.splits)

lemma vec_nth_rep: "vec_rep v xs \<Longrightarrow> i < length xs \<Longrightarrow> vec_nth v i = Ok (xs ! i)"
proof -
  assume rep: "vec_rep v xs" and i: "i < length xs"
  then obtain d where d: "vdata v = Some d" "take (length xs) d = map Some xs" "length xs \<le> length d"
    by (auto simp: vec_rep_def split: option.splits)
  have "d ! i = take (length xs) d ! i" using i by simp
  also have "\<dots> = Some (xs ! i)" using d i by simp
  finally show ?thesis using d i by (simp add: vec_nth_def)
qed

lemma vec_free_rep:
  fixes v :: "'a vec"
  assumes "vec_rep v xs" "vdata v \<noteq> None"
  shows "vec_free v True = Ok (vec_zero, xs)"
  using assms
  by (cases v) (auto simp: vec_rep_def vec_free_def vec_zero_def Let_def comp_def split: option.splits)

section \<open>Growing\<close>

lemma bytes_of_ptrs: "unat n < 2 ^ 61 \<Longrightarrow> unat (n * 8 :: u64) div 8 = unat n"
  by (simp add: u64_mult)

lemma vec_ensure_rep:
  fixes v :: "'a vec"
  assumes rep: "vec_rep v xs"
    and len: "unat len \<le> vec_limit" "length xs \<le> unat len" "0 < unat len"
  shows "\<exists>v'. vec_ensure plenty v len = Ok v' \<and> vec_rep v' xs \<and>
    (\<exists>d. vdata v' = Some d \<and> unat len \<le> length d)"
proof (cases "len > vcap v")
  case False
  then show ?thesis using rep len
    by (auto simp: vec_ensure_def vec_rep_def word_less_nat_alt split: option.splits)
next
  case True
  have le: "unat len \<le> unat (next_size len)" using len by (intro next_size_ge) (simp add: vec_limit_def)
  have le': "unat (next_size len) \<le> 2 ^ 60" using len by (intro next_size_small) (simp add: vec_limit_def)
  from le True have gt: "next_size len > vcap v" by (simp add: word_less_nat_alt)
  have blk: "malloc_ptrs plenty (next_size len) = Some (replicate (unat (next_size len)) (None :: 'a option))"
    using le' by (simp add: malloc_ptrs_def Let_def bytes_of_ptrs)
  have n: "unat (vlen v * 8) div 8 = length xs"
    using rep len by (simp add: bytes_of_ptrs vec_rep_len vec_limit_def)
  show ?thesis
  proof (cases "xs = []")
    case True
    with rep have "vlen v = 0" by (simp add: vec_rep_def unat_eq_0)
    with True rep gt blk le len show ?thesis
      by (auto simp: vec_ensure_def vec_realloc_def vec_rep_def word_le_nat_alt Let_def
          word_less_nat_alt \<open>len > vcap v\<close> split: option.splits)
  next
    case False
    then obtain d where d: "vdata v = Some d" "take (length xs) d = map Some xs" "length xs \<le> length d"
      using rep by (auto simp: vec_rep_def split: option.splits)
    have "vlen v \<noteq> 0" using rep False by (simp add: vec_rep_def unat_eq_0 [symmetric])
    with d gt blk le n len rep show ?thesis
      by (auto simp: vec_ensure_def vec_realloc_def vec_rep_def word_le_nat_alt Let_def
          \<open>len > vcap v\<close>)
  qed
qed

lemma vec_push_rep:
  assumes rep: "vec_rep v xs" and room: "length xs < vec_limit"
  shows "\<exists>v'. vec_push plenty v e = Ok v' \<and> vec_rep v' (xs @ [e])"
proof -
  have suc: "unat (vlen v + 1) = Suc (length xs)"
    using rep room by (simp add: u64_suc vec_rep_len vec_limit_def)
  then obtain v' d where v': "vec_ensure plenty v (vlen v + 1) = Ok v'" "vec_rep v' xs"
    "vdata v' = Some d" "Suc (length xs) \<le> length d"
    using vec_ensure_rep [OF rep, of "vlen v + 1"] suc room by auto
  have "unat (vlen v' + 1) = Suc (length xs)"
    using v' room by (simp add: u64_suc vec_rep_len vec_limit_def)
  then show ?thesis
    using v' by (auto simp: vec_push_def vec_rep_def take_Suc_conv_app_nth)
qed

interpretation vec_buf: append_buffer "vec_zero :: 'a vec" "vec_push plenty" vec_rep
    "\<lambda>x. [x]" "\<lambda>_. True" vec_limit
  by unfold_locales (auto intro!: vec_push_rep)

section \<open>Properties\<close>

text \<open>
  Pushing any list of at most \<open>2^60\<close> pointers on a zeroed vector succeeds while
  memory lasts; every element reads back at its index, the length is exact, and
  \<open>vec_free\<close> releases exactly the pushed elements, in order, and zeroes the vector. No
  push, read or release touches memory outside the block.
\<close>

theorem vec_pushes_read_back:
  assumes "length xs \<le> vec_limit"
  shows "\<exists>v. rfold (vec_push plenty) vec_zero xs = Ok v \<and> unat (vlen v) = length xs
    \<and> (\<forall>i < length xs. vec_nth v i = Ok (xs ! i))
    \<and> (xs \<noteq> [] \<longrightarrow> vec_free v True = Ok (vec_zero, xs))"
proof -
  obtain v where "rfold (vec_push plenty) vec_zero xs = Ok v" "vec_rep v xs"
    using vec_buf.rep_build [of xs] assms by auto
  then show ?thesis
    by (intro exI [of _ v]) (auto simp: vec_rep_len vec_nth_rep vec_free_rep vec_rep_nonempty)
qed

theorem vec_pushes_read_back_witness:
  "\<exists>v. rfold (vec_push plenty) vec_zero ''abcde'' = Ok v \<and> unat (vlen v) = 5
    \<and> vec_nth v 4 = Ok CHR ''e'' \<and> vec_free v True = Ok (vec_zero, ''abcde'')"
  using vec_pushes_read_back [of "''abcde''"] by (auto simp: vec_limit_def)

text \<open>
  A refused allocation is reported (exit status 65) only for an empty vector. With
  elements to keep, \<open>vec_realloc\<close> copies them through the NULL pointer before any check.
\<close>

theorem vec_push_out_of_memory:
  fixes v :: "'a vec"
  assumes "vec_rep v xs" "unat (vcap v) \<le> length xs" "length xs < vec_limit"
  shows "vec_push (\<lambda>_. False) v e = Err (if xs = [] then Exit_Status 65 else Undef_Behaviour)"
proof -
  have suc: "unat (vlen v + 1) = Suc (length xs)"
    using assms by (simp add: u64_suc vec_rep_len vec_limit_def)
  then have grow: "vlen v + 1 > vcap v" using assms(2) by (simp add: word_less_nat_alt)
  have "unat (vlen v + 1) \<le> 2 ^ 63" using suc assms(3) by (simp add: vec_limit_def)
  then have ge: "next_size (vlen v + 1) \<ge> vlen v + 1" by (simp add: word_le_nat_alt next_size_ge)
  with grow have gt: "next_size (vlen v + 1) > vcap v" by (rule less_le_trans)
  have "vlen v = 0 \<longleftrightarrow> xs = []" using assms(1) by (simp add: vec_rep_def u64_eq_0)
  with grow ge gt assms(1) show ?thesis
    by (auto simp: vec_push_def vec_ensure_def vec_realloc_def malloc_ptrs_def Let_def split: option.splits)
qed

theorem vec_push_out_of_memory_witness:
  "vec_push (\<lambda>_. False) \<lparr>vcap = 0, vlen = 1, vdata = Some [Some CHR ''a'', None, None, None]\<rparr> CHR ''b''
     = Err Undef_Behaviour"
  using vec_push_out_of_memory
    [of "\<lparr>vcap = 0, vlen = 1, vdata = Some [Some CHR ''a'', None, None, None]\<rparr>" "''a''" "CHR ''b''"]
  by (simp add: vec_rep_def vec_limit_def)

text \<open>
  The first push allocates four slots but leaves the recorded capacity at zero,
  since \<open>vec_realloc\<close> assigns \<open>cap\<close> only when it copied elements; the length then
  exceeds the capacity, and the second push allocates again.
\<close>

theorem vec_first_push_capacity:
  "vec_push plenty vec_zero (e :: 'a) = Ok \<lparr>vcap = 0, vlen = 1, vdata = Some [Some e, None, None, None]\<rparr>"
proof -
  have "replicate 4 (None :: 'a option) = [None, None, None, None]" by (simp add: numeral_eq_Suc)
  then show ?thesis
    by (simp add: vec_push_def vec_ensure_def vec_realloc_def malloc_ptrs_def vec_zero_def next_size_def)
qed

end
