(* ===== verification/Sized_Str.thy ===== *)
theory Sized_Str
  imports Next_Size
begin

text \<open>
  The sized string of \<open>lab5/zad1/main.c\<close> (\<open>struct sizedstr\<close>): a NUL-terminated buffer
  with its length and a capacity that do not count the terminator. As in the vector, the
  capacity is recorded only when an older buffer was copied.
\<close>

record sstr =
  scap :: u64
  slen :: u64
  sdata :: "string option"

definition ss_zero :: sstr where
  "ss_zero = \<lparr>scap = 0, slen = 0, sdata = None\<rparr>"

section \<open>Operations\<close>

definition ss_alloc :: "allocator \<Rightarrow> u64 \<Rightarrow> sstr" where
  "ss_alloc al len = \<lparr>scap = len, slen = 0, sdata = calloc_bytes al (len + 1)\<rparr>"

definition ss_realloc :: "allocator \<Rightarrow> sstr \<Rightarrow> u64 \<Rightarrow> sstr result" where
  "ss_realloc al ss newlen =
     rbind (c_assert (newlen > scap ss)) (\<lambda>_.
       case (calloc_bytes al (newlen + 1), sdata ss) of
         (Some nd, Some od) \<Rightarrow>
           rbind (c_strcpy nd od) (\<lambda>d. Ok (ss\<lparr>sdata := Some d, scap := newlen\<rparr>))
       | (new, _) \<Rightarrow> Ok (ss\<lparr>sdata := new\<rparr>))"

definition ss_free :: "sstr \<Rightarrow> sstr result" where
  "ss_free ss = rbind (c_assert (sdata ss \<noteq> None)) (\<lambda>_.
     Ok (ss\<lparr>sdata := None, slen := 0, scap := 0\<rparr>))"

definition ss_ensure :: "allocator \<Rightarrow> sstr \<Rightarrow> u64 \<Rightarrow> bool \<Rightarrow> sstr result" where
  "ss_ensure al ss len realloc =
     (if len > scap ss then
        let wanted = next_size len
        in rbind (c_assert (wanted \<ge> len)) (\<lambda>_.
           rbind (if realloc then ss_realloc al ss wanted
                  else rbind (if sdata ss \<noteq> None then ss_free ss else Ok ss)
                         (\<lambda>_. Ok (ss_alloc al wanted))) (\<lambda>ss'.
             if sdata ss' = None then Err (Exit_Status 65) else Ok ss'))
      else Ok ss)"

text \<open>\<open>ss_push(ss, s, len)\<close>; the argument is the list of the \<open>len\<close> bytes at \<open>s\<close>.\<close>

definition ss_push :: "allocator \<Rightarrow> sstr \<Rightarrow> string \<Rightarrow> sstr result" where
  "ss_push al ss s =
     rbind (ss_ensure al ss (slen ss + of_nat (length s)) True) (\<lambda>ss.
       case sdata ss of
         None \<Rightarrow> Err Undef_Behaviour
       | Some d \<Rightarrow>
           rbind (c_memcpy d (unat (slen ss)) s) (\<lambda>d.
             let l = slen ss + of_nat (length s)
             in rbind (c_putc d (unat l) NUL) (\<lambda>d. Ok (ss\<lparr>sdata := Some d, slen := l\<rparr>))))"

text \<open>The taken pointer is only ever used as a C string.\<close>

definition ss_take :: "sstr \<Rightarrow> string option \<times> sstr" where
  "ss_take ss = (map_option cstr (sdata ss), ss\<lparr>slen := 0, scap := 0, sdata := None\<rparr>)"

section \<open>What a sized string represents\<close>

definition ss_rep :: "sstr \<Rightarrow> string \<Rightarrow> bool" where
  "ss_rep ss s \<longleftrightarrow> NUL \<notin> set s \<and> unat (slen ss) = length s \<and>
     (case sdata ss of
        None \<Rightarrow> s = [] \<and> scap ss = 0
      | Some d \<Rightarrow> take (Suc (length s)) d = s @ [NUL] \<and> Suc (unat (scap ss)) \<le> length d)"

definition ss_limit :: nat where "ss_limit = 2 ^ 60"

lemma ss_rep_zero [simp]: "ss_rep ss_zero []"
  by (simp add: ss_rep_def ss_zero_def)

lemma ss_rep_len: "ss_rep ss s \<Longrightarrow> unat (slen ss) = length s"
  by (simp add: ss_rep_def)

lemma ss_rep_nonempty: "ss_rep ss s \<Longrightarrow> s \<noteq> [] \<Longrightarrow> \<exists>d. sdata ss = Some d"
  by (auto simp: ss_rep_def split: option.splits)

lemma ss_rep_data:
  assumes "ss_rep ss s" "sdata ss = Some d"
  shows "cstr d = s" "take (length s) d = s" "length s < length d"
proof -
  have t: "take (Suc (length s)) d = s @ [NUL]" and n: "NUL \<notin> set s"
    using assms by (simp_all add: ss_rep_def)
  from t n show "cstr d = s" by (rule cstr_prefix)
  have "take (length s) (take (Suc (length s)) d) = s" using t by simp
  then show "take (length s) d = s" by (simp add: min_def)
  have "length (take (Suc (length s)) d) = Suc (length s)" using t by simp
  then show "length s < length d" by simp
qed

lemma ss_take_rep: "ss_rep ss s \<Longrightarrow> s \<noteq> [] \<Longrightarrow> ss_take ss = (Some s, ss_zero)"
  using ss_rep_nonempty [of ss s] by (cases ss) (auto simp: ss_take_def ss_zero_def ss_rep_data)

section \<open>Growing\<close>

lemma calloc_plenty:
  assumes "unat n \<le> 2 ^ 60"
  shows "calloc_bytes plenty (n + 1) = Some (replicate (Suc (unat n)) NUL)"
proof -
  have "unat (n + 1) = Suc (unat n)" using assms by (intro u64_suc) simp
  then show ?thesis by (simp add: calloc_bytes_def)
qed

lemma ss_ensure_rep:
  assumes rep: "ss_rep ss s"
    and len: "unat len \<le> ss_limit" "length s \<le> unat len" "0 < unat len"
  shows "\<exists>ss' d. ss_ensure plenty ss len True = Ok ss' \<and> ss_rep ss' s \<and> sdata ss' = Some d
    \<and> unat len < length d"
proof (cases "len > scap ss")
  case False
  then show ?thesis using rep len
    by (auto simp: ss_ensure_def ss_rep_def word_less_nat_alt split: option.splits)
next
  case True
  let ?w = "next_size len"
  have le: "unat len \<le> unat ?w" using len by (intro next_size_ge) (simp add: ss_limit_def)
  have le': "unat ?w \<le> 2 ^ 60" using len by (intro next_size_small) (simp add: ss_limit_def)
  have nd: "calloc_bytes plenty (?w + 1) = Some (replicate (Suc (unat ?w)) NUL)"
    using le' by (rule calloc_plenty)
  from le True have gt: "?w > scap ss" by (simp add: word_less_nat_alt)
  show ?thesis
  proof (cases "sdata ss")
    case None
    with True rep gt nd le len show ?thesis
      by (auto simp: ss_ensure_def ss_realloc_def ss_rep_def Let_def word_le_nat_alt)
  next
    case (Some od)
    have "c_strcpy (replicate (Suc (unat ?w)) NUL) od
        = Ok (s @ NUL # drop (Suc (length s)) (replicate (Suc (unat ?w)) NUL))"
      using ss_rep_data [OF rep Some] le len by (simp add: c_strcpy_def)
    with True rep gt nd le len Some show ?thesis
      by (auto simp: ss_ensure_def ss_realloc_def ss_rep_def Let_def word_le_nat_alt)
  qed
qed

lemma ss_push_rep:
  assumes rep: "ss_rep ss s" and p: "NUL \<notin> set p" "s \<noteq> [] \<or> p \<noteq> []"
    and room: "length s + length p \<le> ss_limit"
  shows "\<exists>ss'. ss_push plenty ss p = Ok ss' \<and> ss_rep ss' (s @ p)"
proof -
  let ?l = "slen ss + of_nat (length p)"
  have l: "unat ?l = length s + length p"
    using rep room by (subst u64_add) (auto simp: ss_rep_len u64_of_nat ss_limit_def)
  then have pos: "0 < unat ?l" using p by auto
  then obtain ss' d where ss': "ss_ensure plenty ss ?l True = Ok ss'" "ss_rep ss' s"
    "sdata ss' = Some d" "unat ?l < length d"
    using ss_ensure_rep [OF rep, of ?l] l room by auto
  have l': "unat (slen ss' + of_nat (length p)) = length s + length p"
    using ss' room by (subst u64_add) (auto simp: ss_rep_len u64_of_nat ss_limit_def)
  note d = ss_rep_data [OF ss'(2,3)]
  define d' where "d' = (s @ p @ drop (length s + length p) d)[length s + length p := NUL]"
  have "length s + length p < length d" using ss'(4) l by simp
  then have "take (Suc (length (s @ p))) d' = (s @ p) @ [NUL]"
    by (simp add: d'_def take_Suc_conv_app_nth list_update_append)
  then have "ss_rep (ss'\<lparr>sdata := Some d', slen := slen ss' + of_nat (length p)\<rparr>) (s @ p)"
    using ss'(2,3,4) l l' p(1) by (simp add: ss_rep_def d'_def)
  then show ?thesis
    using ss' d l l' by (simp add: ss_push_def ss_rep_len c_memcpy_def c_putc_def Let_def d'_def)
qed

interpretation ss_buf: append_buffer ss_zero "ss_push plenty" ss_rep "\<lambda>p. p"
    "\<lambda>p. NUL \<notin> set p \<and> p \<noteq> []" ss_limit
  by unfold_locales (auto intro!: ss_push_rep)

section \<open>Properties\<close>

text \<open>
  Pushing non-empty NUL-free pieces of at most \<open>2^60\<close> bytes in all on a zeroed sized
  string succeeds while memory lasts, never leaves the buffer, and \<open>ss_take\<close> then yields
  the concatenation of the pieces and a zeroed string.
\<close>

theorem ss_pushes_concat:
  assumes "\<forall>p \<in> set ps. NUL \<notin> set p \<and> p \<noteq> []" "ps \<noteq> []" "length (concat ps) \<le> ss_limit"
  shows "\<exists>ss. rfold (ss_push plenty) ss_zero ps = Ok ss \<and> unat (slen ss) = length (concat ps)
    \<and> ss_take ss = (Some (concat ps), ss_zero)"
proof -
  obtain ss where "rfold (ss_push plenty) ss_zero ps = Ok ss" "ss_rep ss (concat ps)"
    using ss_buf.rep_build [of ps] assms by auto
  moreover have "concat ps \<noteq> []" using assms by (cases ps) auto
  ultimately show ?thesis by (intro exI [of _ ss]) (auto simp: ss_rep_len ss_take_rep)
qed

theorem ss_pushes_concat_witness:
  "\<exists>ss. rfold (ss_push plenty) ss_zero [''cat'', '' /etc''] = Ok ss
    \<and> unat (slen ss) = length (concat [''cat'', '' /etc''])
    \<and> ss_take ss = (Some (concat [''cat'', '' /etc'']), ss_zero)"
  by (rule ss_pushes_concat) (simp_all add: ss_limit_def)

text \<open>
  An empty push on a zeroed string is not harmless: no buffer is allocated for it, and
  the terminator is written through the NULL pointer.
\<close>

theorem ss_push_empty_on_null: "ss_push al ss_zero [] = Err Undef_Behaviour"
  by (simp add: ss_push_def ss_ensure_def ss_zero_def)

end
