(* ===== verification/Hashmap.thy ===== *)
theory Hashmap
  imports Next_Size "HOL-Library.Multiset"
begin

text \<open>
  The open-addressing hash table of \<open>lab5/zad1/main.c\<close>: the string hash, the double
  hashing probe, insertion with its resizing policy, lookup and release. \<open>None\<close> stands for
  the NULL pointer in a cell; a cell with a key and no value is a tombstone. A value handed
  to the \<open>elem_free\<close> callback is returned by the operation that does so.
\<close>

section \<open>The string hash\<close>

text \<open>
  The inner loop \<open>for (int i = 0; i < 8 && *str; str++)\<close>. It advances the string only, so
  \<open>i\<close> is a parameter that stays as it is. \<open>(unsigned)*str\<close> sign-extends to 32 bits.
\<close>

fun hash_inner :: "nat \<Rightarrow> u64 \<Rightarrow> string \<Rightarrow> u64 \<times> string" where
  "hash_inner i part [] = (part, [])"
| "hash_inner i part (c # cs) =
     (if i < 8
      then hash_inner i (part XOR ucast (push_bit (8 * i) (word_of_int (schar c) :: u32))) cs
      else (part, c # cs))"

definition hash_mix :: "u64 \<Rightarrow> u64" where
  "hash_mix r0 =
     (let r1 = r0 XOR push_bit 13 r0;
          r2 = r1 XOR drop_bit 7 r1
      in r2 XOR push_bit 17 r2)"

lemma hash_inner_rest: "snd (hash_inner 0 part s) = []"
  by (induction s arbitrary: part) auto

function hash_outer :: "u64 \<Rightarrow> string \<Rightarrow> u64" where
  "hash_outer ret str =
     (if str = [] then ret
      else let pr = hash_inner 0 0x5555555555555555 str
           in hash_outer (hash_mix (ret XOR fst pr)) (snd pr))"
  by pat_completeness auto
termination
  by (relation "measure (\<lambda>(ret, str). length str)") (auto simp: hash_inner_rest)

declare hash_outer.simps [simp del]

definition hashfn :: "string \<Rightarrow> u64" where
  "hashfn str = hash_mix (hash_mix (hash_outer 0xB5F3EC974D101806 str))"

section \<open>Cells and the probe\<close>

record 'v hcell =
  hkey :: "string option"
  hval :: "'v option"

record 'v hashmap =
  htable :: "'v hcell list"
  hsize :: u64
  helems :: u64
  htombs :: u64
  hfree :: "('v \<Rightarrow> unit result) option"

definition empty_cell :: "'v hcell" where
  "empty_cell = \<lparr>hkey = None, hval = None\<rparr>"

partial_function (option) hash_probe ::
    "'v hcell list \<Rightarrow> u64 \<Rightarrow> string \<Rightarrow> u64 \<Rightarrow> u64 \<Rightarrow> nat result option" where
  "hash_probe tab msk key inc idx =
     (let i = unat (idx AND msk)
      in if length tab \<le> i then Some (Err Undef_Behaviour)
         else case hkey (tab ! i) of
                None \<Rightarrow> Some (Ok i)
              | Some k \<Rightarrow> if key = k then Some (Ok i) else hash_probe tab msk key inc (idx + inc))"

definition probe_inc :: "u64 \<Rightarrow> u64" where
  "probe_inc hash = (drop_bit 5 hash - hash) OR 1"

definition hash_get_cell :: "'v hcell list \<Rightarrow> u64 \<Rightarrow> string \<Rightarrow> nat result" where
  "hash_get_cell tab sz key =
     rbind (c_assert (sz > 0)) (\<lambda>_.
     rbind (c_assert (sz AND (sz - 1) = 0)) (\<lambda>_.
       let hash = hashfn key; msk = sz - 1; inc = probe_inc hash
       in case hash_probe tab msk key inc hash of None \<Rightarrow> Err Nonterm | Some r \<Rightarrow> r))"

section \<open>Operations\<close>

text \<open>\<open>while (newsize << 1 && newsize/3 <= m->elems) newsize <<= 1;\<close>\<close>

definition shifts_to_zero :: "u64 \<Rightarrow> nat" where
  "shifts_to_zero x = (LEAST k. push_bit k x = 0)"

lemma shifts_to_zero_dec:
  assumes "push_bit 1 x \<noteq> 0" shows "shifts_to_zero (push_bit 1 x) < shifts_to_zero x"
proof -
  have z: "push_bit (shifts_to_zero x) x = 0"
    unfolding shifts_to_zero_def
    by (rule LeastI [of _ 64]) (simp add: push_bit_eq_mult word_unat_eq_iff unat_word_ariths)
  then obtain k where k: "shifts_to_zero x = Suc k" using assms
    by (cases "shifts_to_zero x") auto
  have "push_bit k (push_bit 1 x) = 0" using z k by (simp add: push_bit_push_bit)
  then have "shifts_to_zero (push_bit 1 x) \<le> k" unfolding shifts_to_zero_def by (rule Least_le)
  then show ?thesis using k by simp
qed

function table_size :: "u64 \<Rightarrow> u64 \<Rightarrow> u64" where
  "table_size newsize elems =
     (if push_bit 1 newsize \<noteq> 0 \<and> newsize div 3 \<le> elems
      then table_size (push_bit 1 newsize) elems else newsize)"
  by pat_completeness auto
termination
  by (relation "measure (\<lambda>(n, e). shifts_to_zero n)") (auto simp: shifts_to_zero_dec [unfolded One_nat_def] simp del: push_bit_Suc)

declare table_size.simps [simp del]

text \<open>The copying loop of \<open>_hash_resize_if_needed\<close>; tombstones are dropped.\<close>

fun hash_rehash :: "'v hcell list \<Rightarrow> u64 \<Rightarrow> 'v hcell list \<Rightarrow> 'v hcell list result" where
  "hash_rehash [] newsize newtab = Ok newtab"
| "hash_rehash (c # cs) newsize newtab =
     (case hval c of
        None \<Rightarrow> hash_rehash cs newsize newtab
      | Some v \<Rightarrow>
          (case hkey c of
             None \<Rightarrow> Err Undef_Behaviour
           | Some k \<Rightarrow>
               rbind (hash_get_cell newtab newsize k) (\<lambda>i.
                 hash_rehash cs newsize (newtab[i := \<lparr>hkey = Some k, hval = Some v\<rparr>]))))"

definition hash_resize_if_needed :: "allocator \<Rightarrow> 'v hashmap \<Rightarrow> 'v hashmap result" where
  "hash_resize_if_needed al m =
     (if hsize m * 4 > (helems m + htombs m) * 5 then Ok m
      else let newsize = table_size 4 (helems m)
           in if \<not> al (unat newsize * 16) then Err (Exit_Status 65)
              else if length (htable m) < unat (hsize m) then Err Undef_Behaviour
              else rbind (hash_rehash (take (unat (hsize m)) (htable m)) newsize
                            (replicate (unat newsize) empty_cell)) (\<lambda>t.
                   Ok (m\<lparr>htable := t, hsize := newsize, htombs := 0\<rparr>)))"

definition hash_elem_free :: "'v hashmap \<Rightarrow> 'v \<Rightarrow> 'v list result" where
  "hash_elem_free m v =
     (case hfree m of None \<Rightarrow> Ok [] | Some f \<Rightarrow> rbind (f v) (\<lambda>_. Ok [v]))"

definition hash_clear :: "'v hashmap \<Rightarrow> ('v hashmap \<times> 'v list) result" where
  "hash_clear m =
     (if length (htable m) < unat (hsize m) then Err Undef_Behaviour
      else rbind (rfold (\<lambda>fr c. case hval c of
                             None \<Rightarrow> Ok fr
                           | Some v \<Rightarrow> rbind (hash_elem_free m v) (\<lambda>g. Ok (fr @ g)))
                   [] (take (unat (hsize m)) (htable m))) (\<lambda>fr.
           Ok (m\<lparr>htable := [], hsize := 0, htombs := 0, helems := 0\<rparr>, fr)))"

definition hash_add ::
    "allocator \<Rightarrow> 'v hashmap \<Rightarrow> string \<Rightarrow> 'v \<Rightarrow> ('v hashmap \<times> 'v list) result" where
  "hash_add al m0 key v =
     rbind (if hsize m0 = 0 then hash_resize_if_needed al m0 else Ok m0) (\<lambda>m.
     rbind (hash_get_cell (htable m) (hsize m) key) (\<lambda>i.
       let c = htable m ! i
       in if hkey c \<noteq> None then
            (case hval c of
               None \<Rightarrow>
                 Ok (m\<lparr>helems := helems m + 1, htombs := htombs m - 1,
                       htable := (htable m)[i := c\<lparr>hval := Some v\<rparr>]\<rparr>, [])
             | Some old \<Rightarrow>
                 rbind (hash_elem_free m old) (\<lambda>fr.
                   Ok (m\<lparr>htable := (htable m)[i := c\<lparr>hval := Some v\<rparr>]\<rparr>, fr)))
          else
            rbind (c_assert (hval c = None)) (\<lambda>_.
              if \<not> al (length key + 1) then Err (Exit_Status 65)
              else rbind (hash_resize_if_needed al
                            (m\<lparr>htable := (htable m)[i := \<lparr>hkey = Some key, hval = Some v\<rparr>],
                               helems := helems m + 1\<rparr>)) (\<lambda>m'. Ok (m', [])))))"

definition hash_get :: "'v hashmap \<Rightarrow> string \<Rightarrow> 'v option result" where
  "hash_get m key =
     rbind (hash_get_cell (htable m) (hsize m) key) (\<lambda>i. Ok (hval (htable m ! i)))"

section \<open>The probe sequence visits every slot\<close>

text \<open>The slot of the \<open>j\<close>-th probe in a table of \<open>n\<close> cells, over natural numbers.\<close>

definition slot :: "nat \<Rightarrow> nat \<Rightarrow> nat \<Rightarrow> nat \<Rightarrow> nat" where
  "slot n a b j = (a + j * b) mod n"

lemma slot_inj:
  assumes odd: "odd b" and j: "j < 2 ^ k" "j' < 2 ^ k" and eq: "slot (2 ^ k) a b j = slot (2 ^ k) a b j'"
  shows "j = j'"
proof -
  have le: "x = y" if "x \<le> y" "y < 2 ^ k" "slot (2 ^ k) a b x = slot (2 ^ k) a b y" for x y
  proof -
    have "a + x * b \<le> a + y * b" using that(1) by simp
    then have "2 ^ k dvd (a + y * b) - (a + x * b)"
      using that(3) by (subst mod_eq_dvd_iff_nat [symmetric]) (auto simp: slot_def)
    moreover have "(a + y * b) - (a + x * b) = (y - x) * b" by (simp add: diff_mult_distrib)
    ultimately have "2 ^ k dvd (y - x) * b" by simp
    moreover have "coprime (2 ^ k) b" using odd by (simp add: coprime_left_2_iff_odd)
    ultimately have "2 ^ k dvd y - x" by (simp add: coprime_dvd_mult_left_iff)
    then show "x = y" using that(1,2) by (metis dvd_imp_le le_add_diff_inverse less_imp_diff_less add_0_right not_less zero_less_diff gr0I diff_is_0_eq' le_antisym)
  qed
  show ?thesis using le [of j j'] le [of j' j] j eq by (metis nat_le_linear)
qed

lemma slot_surj:
  assumes odd: "odd b" and s: "s < 2 ^ k"
  obtains j where "slot (2 ^ k) a b j = s"
proof -
  have inj: "inj_on (slot (2 ^ k) a b) {..< 2 ^ k}"
    by (rule inj_onI) (use odd slot_inj in auto)
  have "slot (2 ^ k) a b ` {..< 2 ^ k} \<subseteq> {..< 2 ^ k}" by (auto simp: slot_def)
  then have "slot (2 ^ k) a b ` {..< 2 ^ k} = {..< 2 ^ k}"
    using inj by (intro card_subset_eq) (auto simp: card_image)
  then show ?thesis using s that by (metis imageE lessThan_iff)
qed

text \<open>The masked index of the code is that slot.\<close>

lemma mask_mod:
  assumes "unat (sz :: u64) = 2 ^ k"
  shows "unat (x AND (sz - 1)) = unat x mod 2 ^ k"
proof -
  have "unat (sz - 1) = mask k"
    using assms by (simp add: u64_sub mask_eq_exp_minus_1)
  then show ?thesis by (simp add: unsigned_and_eq take_bit_eq_mod [symmetric] take_bit_eq_mask)
qed

lemma masked_slot:
  assumes "unat (sz :: u64) = 2 ^ k" "k < 64"
  shows "unat ((a + of_nat j * b) AND (sz - 1)) = slot (2 ^ k) (unat a) (unat b) j"
proof -
  have "unat (a + of_nat j * b :: u64) mod 2 ^ k = ((unat a + (j mod 2 ^ 64) * unat b) mod 2 ^ 64) mod 2 ^ k"
    by (simp add: unat_word_ariths unat_of_nat mod_add_right_eq)
  also have "\<dots> = (unat a + (j mod 2 ^ 64) * unat b) mod 2 ^ k"
    using assms(2) by (intro mod_mod_cancel le_imp_power_dvd) simp
  also have "\<dots> = (unat a + (j mod 2 ^ 64 mod 2 ^ k) * unat b) mod 2 ^ k"
    by (metis mod_add_right_eq mod_mult_left_eq)
  also have "j mod 2 ^ 64 mod 2 ^ k = j mod 2 ^ k"
    using assms(2) by (intro mod_mod_cancel le_imp_power_dvd) simp
  also have "(unat a + (j mod 2 ^ k) * unat b) mod 2 ^ k = (unat a + j * unat b) mod 2 ^ k"
    by (metis mod_add_right_eq mod_mult_left_eq)
  finally show ?thesis using mask_mod [OF assms(1)] by (simp add: slot_def)
qed

lemma probe_inc_odd: "odd (unat (probe_inc h))"
proof -
  have "bit (probe_inc h) 0" by (simp add: probe_inc_def bit_or_iff)
  then have "bit (unat (probe_inc h)) 0" by (subst bit_unsigned_iff) simp
  then show ?thesis by (simp add: bit_0)
qed

lemma power_of_two_test:
  assumes "unat (sz :: u64) = 2 ^ k"
  shows "sz > 0" "sz AND (sz - 1) = 0"
proof -
  show "sz > 0" using assms by (simp add: word_less_nat_alt)
  have "unat (sz AND (sz - 1)) = 0" using mask_mod [OF assms, of sz] assms by simp
  then show "sz AND (sz - 1) = 0" by (simp add: unat_eq_0)
qed

section \<open>Where a probe stops\<close>

text \<open>The probe for \<open>key\<close> stops at a cell that is free or holds \<open>key\<close>.\<close>

definition stops :: "'v hcell list \<Rightarrow> string \<Rightarrow> nat \<Rightarrow> bool" where
  "stops tab key s \<longleftrightarrow> hkey (tab ! s) = None \<or> hkey (tab ! s) = Some key"

definition key_slot :: "'v hcell list \<Rightarrow> string \<Rightarrow> nat \<Rightarrow> nat" where
  "key_slot tab key j = slot (length tab) (unat (hashfn key)) (unat (probe_inc (hashfn key))) j"

text \<open>\<open>probe_ends tab key i\<close>: the probe for \<open>key\<close> ends at cell \<open>i\<close>.\<close>

definition probe_ends :: "'v hcell list \<Rightarrow> string \<Rightarrow> nat \<Rightarrow> bool" where
  "probe_ends tab key i \<longleftrightarrow>
     (\<exists>j. key_slot tab key j = i \<and> stops tab key i \<and> (\<forall>j' < j. \<not> stops tab key (key_slot tab key j')))"

definition pow2_table :: "'v hcell list \<Rightarrow> u64 \<Rightarrow> bool" where
  "pow2_table tab sz \<longleftrightarrow> (\<exists>k. unat sz = 2 ^ k \<and> length tab = 2 ^ k)"

lemma pow2_table_upd [simp]: "pow2_table (tab[i := c]) sz = pow2_table tab sz"
  by (simp add: pow2_table_def)

lemma pow2_exp: "unat (sz :: u64) = 2 ^ k \<Longrightarrow> k < 64"
  using u64_bound [of sz] power_less_imp_less_exp [of "2 :: nat" k 64] by simp

lemma hash_probe_ends:
  assumes tab: "unat sz = 2 ^ k" "length tab = 2 ^ k"
    and stop: "stops tab key (key_slot tab key (i + j))"
    and before: "\<forall>j' < j. \<not> stops tab key (key_slot tab key (i + j'))"
  shows "hash_probe tab (sz - 1) key (probe_inc (hashfn key))
           (hashfn key + of_nat i * probe_inc (hashfn key)) = Some (Ok (key_slot tab key (i + j)))"
  using stop before
proof (induction j arbitrary: i)
  case 0
  have k: "k < 64" using tab(1) by (rule pow2_exp)
  have s: "unat ((hashfn key + of_nat i * probe_inc (hashfn key)) AND (sz - 1)) = key_slot tab key i"
    using masked_slot [OF tab(1) k] tab(2) by (simp add: key_slot_def)
  have "key_slot tab key i < length tab" using tab(2) by (simp add: key_slot_def slot_def)
  then show ?case using 0 s by (subst hash_probe.simps) (auto simp: stops_def split: option.splits)
next
  case (Suc j)
  have k: "k < 64" using tab(1) by (rule pow2_exp)
  have s: "unat ((hashfn key + of_nat i * probe_inc (hashfn key)) AND (sz - 1)) = key_slot tab key i"
    using masked_slot [OF tab(1) k] tab(2) by (simp add: key_slot_def)
  have lt: "key_slot tab key i < length tab" using tab(2) by (simp add: key_slot_def slot_def)
  have "\<not> stops tab key (key_slot tab key i)" using Suc.prems(2) by (metis add_0_right zero_less_Suc)
  then obtain k' where k': "hkey (tab ! key_slot tab key i) = Some k'" "k' \<noteq> key"
    by (auto simp: stops_def)
  have "hash_probe tab (sz - 1) key (probe_inc (hashfn key))
      (hashfn key + of_nat (Suc i) * probe_inc (hashfn key)) = Some (Ok (key_slot tab key (Suc i + j)))"
    using Suc.prems by (intro Suc.IH) auto
  then show ?case using s lt k'
    by (subst hash_probe.simps) (simp add: algebra_simps)
qed

lemma get_cell_ends:
  assumes "pow2_table tab sz" "probe_ends tab key i"
  shows "hash_get_cell tab sz key = Ok i"
proof -
  obtain k where k: "unat sz = 2 ^ k" "length tab = 2 ^ k" using assms(1) by (auto simp: pow2_table_def)
  obtain j where j: "key_slot tab key j = i" "stops tab key i"
    "\<forall>j' < j. \<not> stops tab key (key_slot tab key j')" using assms(2) by (auto simp: probe_ends_def)
  then show ?thesis
    using hash_probe_ends [OF k, of key 0 j] power_of_two_test [OF k(1)]
    by (simp add: hash_get_cell_def Let_def)
qed

text \<open>As long as one cell is free, every probe ends.\<close>

lemma probe_ends_exists:
  assumes tab: "pow2_table tab sz" and free: "s < length tab" "hkey (tab ! s) = None"
  obtains i where "i < length tab" "probe_ends tab key i" "hash_get_cell tab sz key = Ok i"
proof -
  obtain k where k: "unat sz = 2 ^ k" "length tab = 2 ^ k" using tab by (auto simp: pow2_table_def)
  obtain j0 where "key_slot tab key j0 = s"
    using slot_surj [OF probe_inc_odd, of s k] free(1) k(2) by (metis key_slot_def)
  then have ex: "\<exists>j. stops tab key (key_slot tab key j)" using free(2) by (auto simp: stops_def)
  define j where "j = (LEAST j. stops tab key (key_slot tab key j))"
  have "stops tab key (key_slot tab key j)" unfolding j_def using ex by (rule LeastI_ex)
  moreover have "\<forall>j' < j. \<not> stops tab key (key_slot tab key j')"
    unfolding j_def using not_less_Least by auto
  ultimately have "probe_ends tab key (key_slot tab key j)" by (auto simp: probe_ends_def)
  moreover have "key_slot tab key j < length tab" using k(2) by (simp add: key_slot_def slot_def)
  ultimately show ?thesis using that get_cell_ends [OF tab] by blast
qed

lemma probe_ends_unique: "pow2_table tab sz \<Longrightarrow> probe_ends tab key i \<Longrightarrow> probe_ends tab key i' \<Longrightarrow> i = i'"
  using get_cell_ends by (metis sum.inject(2))

text \<open>Only the keys of the cells matter to a probe.\<close>

lemma key_slot_upd [simp]: "key_slot (tab[i := c]) key j = key_slot tab key j"
  by (simp add: key_slot_def)

lemma stops_cong: "map hkey tab = map hkey tab' \<Longrightarrow> s < length tab \<Longrightarrow> stops tab key s = stops tab' key s"
  unfolding stops_def by (metis length_map nth_map)

lemma key_slot_less: "0 < length tab \<Longrightarrow> key_slot tab key j < length tab"
  by (simp add: key_slot_def slot_def)

lemma probe_ends_cong:
  assumes keys: "map hkey tab = map hkey tab'" and ne: "0 < length tab" and e: "probe_ends tab key i"
  shows "probe_ends tab' key i"
proof -
  have len: "length tab = length tab'" using keys by (metis length_map)
  then have ks: "key_slot tab' key j = key_slot tab key j" for j by (simp add: key_slot_def)
  show ?thesis using e stops_cong [OF keys] key_slot_less [OF ne]
    by (auto simp: probe_ends_def ks)
qed

section \<open>Well-formed tables and what they represent\<close>

definition tab_ok :: "'v hcell list \<Rightarrow> u64 \<Rightarrow> bool" where
  "tab_ok tab sz \<longleftrightarrow> pow2_table tab sz
     \<and> (\<forall>i < length tab. \<forall>key. hkey (tab ! i) = Some key \<longrightarrow> probe_ends tab key i)
     \<and> (\<forall>i < length tab. hkey (tab ! i) = None \<longrightarrow> hval (tab ! i) = None)"

definition cell_lookup :: "'v hcell list \<Rightarrow> string \<Rightarrow> 'v option" where
  "cell_lookup tab key =
     (case find (\<lambda>c. hkey c = Some key) tab of None \<Rightarrow> None | Some c \<Rightarrow> hval c)"

lemma tab_ok_pow2: "tab_ok tab sz \<Longrightarrow> pow2_table tab sz"
  by (simp add: tab_ok_def)

lemma tab_ok_keys: "tab_ok tab sz \<Longrightarrow> i < length tab \<Longrightarrow> hkey (tab ! i) = Some key \<Longrightarrow> probe_ends tab key i"
  by (simp add: tab_ok_def)

lemma tab_key_unique:
  "tab_ok tab sz \<Longrightarrow> i < length tab \<Longrightarrow> i' < length tab \<Longrightarrow> hkey (tab ! i) = Some key \<Longrightarrow>
    hkey (tab ! i') = Some key \<Longrightarrow> i = i'"
  using probe_ends_unique tab_ok_keys tab_ok_pow2 by metis

lemma cell_lookup_at:
  assumes "tab_ok tab sz" "i < length tab" "hkey (tab ! i) = Some key"
  shows "cell_lookup tab key = hval (tab ! i)"
proof -
  have "find (\<lambda>c. hkey c = Some key) tab \<noteq> None" using assms(3) nth_mem [OF assms(2)] by (auto simp: find_None_iff)
  then obtain c where c: "find (\<lambda>c. hkey c = Some key) tab = Some c" by auto
  then obtain i' where "i' < length tab" "hkey (tab ! i') = Some key" "c = tab ! i'"
    by (auto simp: find_Some_iff)
  moreover from this have "i' = i" using tab_key_unique [OF assms(1)] assms(2,3) by blast
  ultimately show ?thesis using c by (simp add: cell_lookup_def)
qed

lemma cell_lookup_none:
  "(\<forall>i < length tab. hkey (tab ! i) \<noteq> Some key) \<Longrightarrow> cell_lookup tab key = None"
  by (auto simp: cell_lookup_def find_None_iff in_set_conv_nth split: option.splits
      dest!: find_Some_iff [THEN iffD1])

text \<open>A probe that ends at a free cell proves that its key is absent.\<close>

lemma probe_ends_lookup:
  assumes ok: "tab_ok tab sz" and e: "probe_ends tab key i" "i < length tab"
  shows "cell_lookup tab key = hval (tab ! i)"
proof (cases "hkey (tab ! i)")
  case None
  have "hkey (tab ! i') \<noteq> Some key" if "i' < length tab" for i'
    using that None tab_ok_keys [OF ok that, of key] probe_ends_unique [OF tab_ok_pow2 [OF ok] e(1), of i']
    by auto
  then have "cell_lookup tab key = None" by (intro cell_lookup_none) auto
  then show ?thesis using ok None e(2) by (simp add: tab_ok_def)
next
  case (Some k)
  then have "k = key" using e(1) by (auto simp: probe_ends_def stops_def)
  then show ?thesis using cell_lookup_at [OF ok e(2)] Some by simp
qed

lemma cell_lookup_Cons:
  "cell_lookup (c # cs) key = (if hkey c = Some key then hval c else cell_lookup cs key)"
  by (simp add: cell_lookup_def)

lemma cell_lookup_Nil [simp]: "cell_lookup [] = Map.empty"
  by (auto simp: cell_lookup_def)

lemma tab_insert:
  fixes tab :: "'v hcell list" and v :: 'v
  assumes ok: "tab_ok tab sz" and e: "probe_ends tab key i" "i < length tab" "hkey (tab ! i) = None"
  defines "c \<equiv> \<lparr>hkey = Some key, hval = Some v\<rparr>"
  shows "tab_ok (tab[i := c]) sz" "cell_lookup (tab[i := c]) = (cell_lookup tab)(key \<mapsto> v)"
proof -
  have old: "probe_ends (tab[i := c]) key' i'"
    if i': "i' < length tab" "hkey (tab ! i') = Some key'" "i' \<noteq> i" for i' key'
  proof -
    obtain j where j: "key_slot tab key' j = i'" "\<forall>j' < j. \<not> stops tab key' (key_slot tab key' j')"
      using tab_ok_keys [OF ok i'(1,2)] by (auto simp: probe_ends_def)
    have "\<not> stops (tab[i := c]) key' (key_slot tab key' j')" if "j' < j" for j'
      using j(2) that e(3) by (cases "key_slot tab key' j' = i") (auto simp: stops_def)
    moreover have "stops (tab[i := c]) key' i'" using i' by (simp add: stops_def)
    ultimately show ?thesis using j(1) by (auto simp: probe_ends_def)
  qed
  have new: "probe_ends (tab[i := c]) key i"
  proof -
    obtain j where j: "key_slot tab key j = i" "\<forall>j' < j. \<not> stops tab key (key_slot tab key j')"
      using e(1) by (auto simp: probe_ends_def)
    have "\<not> stops (tab[i := c]) key (key_slot tab key j')" if "j' < j" for j'
      using j(2) that e(3) by (cases "key_slot tab key j' = i") (auto simp: stops_def)
    then show ?thesis using j(1) e(2) by (auto simp: probe_ends_def stops_def c_def)
  qed
  show ok': "tab_ok (tab[i := c]) sz"
    using ok old new e(2) by (auto simp: tab_ok_def nth_list_update c_def split: if_splits)
  show "cell_lookup (tab[i := c]) = (cell_lookup tab)(key \<mapsto> v)"
  proof
    fix key'
    show "cell_lookup (tab[i := c]) key' = ((cell_lookup tab)(key \<mapsto> v)) key'"
    proof (cases "key' = key")
      case True
      then show ?thesis using probe_ends_lookup [OF ok' new] e(2) by (simp add: c_def)
    next
      case False
      show ?thesis
      proof (cases "\<exists>i' < length tab. hkey (tab ! i') = Some key'")
        case True
        then obtain i' where i': "i' < length tab" "hkey (tab ! i') = Some key'" by auto
        then have "i' \<noteq> i" using e(3) by auto
        then show ?thesis
          using cell_lookup_at [OF ok i'] cell_lookup_at [OF ok', of i' key'] i' False by simp
      next
        case none: False
        then have "cell_lookup tab key' = None" by (intro cell_lookup_none) auto
        moreover have "cell_lookup (tab[i := c]) key' = None"
          using none False e(2) by (intro cell_lookup_none) (auto simp: nth_list_update c_def)
        ultimately show ?thesis using False by simp
      qed
    qed
  qed
qed

lemma cell_lookup_cong:
  assumes "map hkey tab = map hkey tab'" "\<And>i. i < length tab \<Longrightarrow> hkey (tab ! i) = Some key \<Longrightarrow> hval (tab ! i) = hval (tab' ! i)"
  shows "cell_lookup tab key = cell_lookup tab' key"
  using assms
proof (induction tab arbitrary: tab')
  case Nil
  then show ?case by simp
next
  case (Cons c tab)
  then obtain c' tab'' where "tab' = c' # tab''" by (cases tab') auto
  with Cons.prems Cons.IH [of tab''] show ?case
    by (force simp: cell_lookup_Cons)
qed

lemma tab_update:
  fixes tab :: "'v hcell list" and v :: 'v
  assumes ok: "tab_ok tab sz" and i: "i < length tab" "hkey (tab ! i) = Some key"
  defines "c \<equiv> (tab ! i)\<lparr>hval := Some v\<rparr>"
  shows "tab_ok (tab[i := c]) sz" "cell_lookup (tab[i := c]) = (cell_lookup tab)(key \<mapsto> v)"
proof -
  have keys: "map hkey tab = map hkey (tab[i := c])"
    using i by (intro nth_equalityI) (auto simp: nth_list_update c_def)
  show ok': "tab_ok (tab[i := c]) sz"
    using ok i probe_ends_cong [OF keys]
    by (auto simp: tab_ok_def nth_list_update c_def length_greater_0_conv [symmetric]
        simp del: length_greater_0_conv split: if_splits)
  show "cell_lookup (tab[i := c]) = (cell_lookup tab)(key \<mapsto> v)"
  proof
    fix key'
    show "cell_lookup (tab[i := c]) key' = ((cell_lookup tab)(key \<mapsto> v)) key'"
    proof (cases "key' = key")
      case True
      then show ?thesis using cell_lookup_at [OF ok', of i key] i by (simp add: c_def)
    next
      case False
      then show ?thesis using keys i
        by (auto intro!: cell_lookup_cong [symmetric] simp: nth_list_update c_def)
    qed
  qed
qed

section \<open>Counting cells\<close>

definition live :: "'v hcell list \<Rightarrow> nat" where
  "live tab = length (filter (\<lambda>c. hval c \<noteq> None) tab)"

definition dead :: "'v hcell list \<Rightarrow> nat" where
  "dead tab = length (filter (\<lambda>c. hkey c \<noteq> None \<and> hval c = None) tab)"

lemma live_Cons: "live (c # cs) = of_bool (hval c \<noteq> None) + live cs"
  by (simp add: live_def)

lemma live_Nil [simp]: "live [] = 0" and dead_Nil [simp]: "dead [] = 0"
  by (simp_all add: live_def dead_def)

lemma live_empty [simp]: "live (replicate n empty_cell) = 0"
  and dead_empty [simp]: "dead (replicate n empty_cell) = 0"
  by (simp_all add: live_def dead_def empty_cell_def)

lemma live_upd: "i < length tab \<Longrightarrow>
    live (tab[i := c]) + of_bool (hval (tab ! i) \<noteq> None) = live tab + of_bool (hval c \<noteq> None)"
  unfolding live_def by (rule length_filter_upd)

lemma dead_upd: "i < length tab \<Longrightarrow>
    dead (tab[i := c]) + of_bool (hkey (tab ! i) \<noteq> None \<and> hval (tab ! i) = None)
      = dead tab + of_bool (hkey c \<noteq> None \<and> hval c = None)"
  unfolding dead_def by (rule length_filter_upd)

lemma free_cell_exists:
  assumes "live tab + dead tab < length tab"
    and "\<And>i. i < length tab \<Longrightarrow> hkey (tab ! i) = None \<Longrightarrow> hval (tab ! i) = None"
  obtains s where "s < length tab" "hkey (tab ! s) = None"
proof -
  have "\<exists>c \<in> set tab. hkey c = None"
  proof (rule ccontr)
    assume none: "\<not> (\<exists>c \<in> set tab. hkey c = None)"
    then have "dead tab = length (filter (\<lambda>c. \<not> hval c \<noteq> None) tab)"
      unfolding dead_def by (intro arg_cong [where f = length] filter_cong) auto
    then have "live tab + dead tab = length tab"
      using sum_length_filter_compl [of "\<lambda>c. hval c \<noteq> None" tab] by (simp add: live_def)
    with assms(1) show False by simp
  qed
  then show ?thesis using that by (auto simp: in_set_conv_nth)
qed

section \<open>Rehashing\<close>

fun cell_keys :: "'v hcell list \<Rightarrow> string list" where
  "cell_keys [] = []"
| "cell_keys (c # cs) = (case hkey c of None \<Rightarrow> cell_keys cs | Some k \<Rightarrow> k # cell_keys cs)"

lemma set_cell_keys: "k \<in> set (cell_keys tab) \<longleftrightarrow> (\<exists>i < length tab. hkey (tab ! i) = Some k)"
proof (induction tab)
  case Nil
  then show ?case by simp
next
  case (Cons c cs)
  then show ?case by (auto simp: All_less_Suc2 Ex_less_Suc2 split: option.splits)
qed

lemma distinct_cell_keys:
  "(\<And>i i' k. i < length tab \<Longrightarrow> i' < length tab \<Longrightarrow> hkey (tab ! i) = Some k \<Longrightarrow> hkey (tab ! i') = Some k
      \<Longrightarrow> i = i') \<Longrightarrow> distinct (cell_keys tab)"
proof (induction tab)
  case Nil
  then show ?case by simp
next
  case (Cons c cs)
  have tl: "distinct (cell_keys cs)"
    by (rule Cons.IH) (use Cons.prems [of "Suc _" "Suc _"] in auto)
  show ?case
  proof (cases "hkey c")
    case (Some k)
    have "k \<notin> set (cell_keys cs)"
      using Cons.prems [of 0 "Suc _" k] Some by (auto simp: set_cell_keys)
    with tl Some show ?thesis by simp
  qed (use tl in simp)
qed

lemma cell_lookup_absent: "k \<notin> set (cell_keys tab) \<Longrightarrow> cell_lookup tab k = None"
  by (rule cell_lookup_none) (auto simp: set_cell_keys)

lemma hash_rehash_ok:
  fixes cs newtab :: "'v hcell list"
  assumes "tab_ok newtab sz" "dead newtab = 0" "distinct (cell_keys cs)"
    and "\<forall>c \<in> set cs. hkey c = None \<longrightarrow> hval c = None"
    and "\<forall>k \<in> set (cell_keys cs). cell_lookup newtab k = None"
    and "live newtab + live cs < length newtab"
  shows "\<exists>t. hash_rehash cs sz newtab = Ok t \<and> tab_ok t sz \<and> length t = length newtab \<and> dead t = 0
    \<and> live t = live newtab + live cs \<and> cell_lookup t = cell_lookup newtab ++ cell_lookup cs"
  using assms
proof (induction cs arbitrary: newtab)
  case Nil
  then show ?case by simp
next
  case (Cons c cs)
  show ?case
  proof (cases "hval c")
    case None
    have "cell_lookup (c # cs) = cell_lookup cs"
    proof
      fix k show "cell_lookup (c # cs) k = cell_lookup cs k"
        using None Cons.prems(3) by (cases "hkey c") (auto simp: cell_lookup_Cons cell_lookup_absent)
    qed
    then show ?thesis
      using Cons.IH [OF Cons.prems(1,2)] Cons.prems(3-6) None
      by (auto simp: live_Cons split: option.splits)
  next
    case (Some v)
    then obtain k where k: "hkey c = Some k" using Cons.prems(4) by force
    obtain s where s: "s < length newtab" "hkey (newtab ! s) = None"
      using free_cell_exists [of newtab] Cons.prems(1,2,6) by (auto simp: tab_ok_def)
    obtain i where i: "i < length newtab" "probe_ends newtab k i" "hash_get_cell newtab sz k = Ok i"
      using probe_ends_exists [OF tab_ok_pow2 [OF Cons.prems(1)] s] by metis
    have hv: "hval (newtab ! i) = None"
      using probe_ends_lookup [OF Cons.prems(1) i(2,1)] Cons.prems(5) k by simp
    have hk: "hkey (newtab ! i) = None"
    proof (rule ccontr)
      assume "hkey (newtab ! i) \<noteq> None"
      with hv nth_mem [OF i(1)] show False using Cons.prems(2) by (auto simp: dead_def filter_empty_conv)
    qed
    let ?c = "\<lparr>hkey = Some k, hval = Some v\<rparr>"
    let ?t = "newtab[i := ?c]"
    note ins = tab_insert [OF Cons.prems(1) i(2,1) hk, where v = v]
    have counts: "live ?t = Suc (live newtab)" "dead ?t = 0"
      using live_upd [OF i(1), of ?c] dead_upd [OF i(1), of ?c] hv hk Cons.prems(2) by simp_all
    have "\<exists>t. hash_rehash cs sz ?t = Ok t \<and> tab_ok t sz \<and> length t = length ?t \<and> dead t = 0
      \<and> live t = live ?t + live cs \<and> cell_lookup t = cell_lookup ?t ++ cell_lookup cs"
      using Cons.prems k ins counts Some by (intro Cons.IH) (auto simp: live_Cons)
    moreover have "cell_lookup ?t ++ cell_lookup cs = cell_lookup newtab ++ cell_lookup (c # cs)"
    proof
      fix k' show "(cell_lookup ?t ++ cell_lookup cs) k' = (cell_lookup newtab ++ cell_lookup (c # cs)) k'"
        using Cons.prems(3) k Some
        by (auto simp: ins(2) map_add_def cell_lookup_Cons cell_lookup_absent split: option.splits)
    qed
    ultimately show ?thesis using Some k i(3) counts by (auto simp: live_Cons)
  qed
qed

section \<open>The size policy\<close>

lemma table_size_spec:
  "unat elems < 2 ^ 57 \<Longrightarrow> unat newsize = 2 ^ k \<Longrightarrow> 2 \<le> k \<Longrightarrow> 2 ^ k \<le> 6 * unat elems + 4 \<Longrightarrow>
    \<exists>k'. 2 \<le> k' \<and> unat (table_size newsize elems) = 2 ^ k' \<and> 2 ^ k' \<le> 6 * unat elems + 4
      \<and> 3 * unat elems < 2 ^ k'"
proof (induction newsize elems arbitrary: k rule: table_size.induct)
  case (1 newsize elems)
  have "unat elems < 144115188075855872" using "1.prems"(1) by simp
  with "1.prems"(4) have "(2 :: nat) ^ k < 2305843009213693952" by linarith
  then have "(2 :: nat) ^ k < 2 ^ 61" by simp
  then have k: "k < 61" by (rule power_less_imp_less_exp [rotated]) simp
  then have "(2 :: nat) ^ k \<le> 2 ^ 60" by (intro power_increasing) auto
  then have sh: "unat (push_bit 1 newsize) = 2 ^ Suc k"
    using "1.prems"(2) by (simp add: push_bit_eq_mult unat_word_ariths)
  then have nz: "push_bit 1 newsize \<noteq> 0" by (metis unat_0 power_not_zero zero_neq_numeral)
  have div: "newsize div 3 \<le> elems \<longleftrightarrow> 2 ^ k div 3 \<le> unat elems"
    using "1.prems"(2) by (simp add: word_le_nat_alt unat_div)
  show ?case
  proof (cases "2 ^ k div 3 \<le> unat elems")
    case True
    then have "2 ^ Suc k \<le> 6 * unat elems + 4" by simp
    with "1.IH" [of "Suc k"] True div nz sh "1.prems" show ?thesis
      by (simp add: table_size.simps [of newsize] del: push_bit_Suc)
  next
    case False
    with "1.prems" div show ?thesis
      by (intro exI [of _ k]) (simp add: table_size.simps [of newsize])
  qed
qed

section \<open>The invariant of the map\<close>

definition hm_rep :: "'v hashmap \<Rightarrow> (string \<rightharpoonup> 'v) \<Rightarrow> bool" where
  "hm_rep m f \<longleftrightarrow> cell_lookup (htable m) = f \<and>
     (hsize m = 0 \<and> htable m = [] \<and> helems m = 0 \<and> htombs m = 0
      \<or> tab_ok (htable m) (hsize m) \<and> unat (helems m) = live (htable m) \<and> unat (htombs m) = dead (htable m)
        \<and> 5 * (live (htable m) + dead (htable m)) < 4 * length (htable m)
        \<and> length (htable m) \<le> 6 * (live (htable m) + dead (htable m)) + 4)"

text \<open>The number of occupied cells up to which no size computation wraps.\<close>

definition hash_limit :: nat where "hash_limit = 2 ^ 56"

definition occupied :: "'v hashmap \<Rightarrow> nat" where
  "occupied m = live (htable m) + dead (htable m)"

definition hash_zero :: "('v \<Rightarrow> unit result) option \<Rightarrow> 'v hashmap" where
  "hash_zero f = \<lparr>htable = [], hsize = 0, helems = 0, htombs = 0, hfree = f\<rparr>"

lemma hm_rep_zero [simp]: "hm_rep (hash_zero f) Map.empty"
  by (simp add: hm_rep_def hash_zero_def)

lemma occupied_zero [simp]: "occupied (hash_zero f) = 0"
  by (simp add: occupied_def hash_zero_def)

lemma hm_rep_lookup: "hm_rep m f \<Longrightarrow> cell_lookup (htable m) = f"
  by (simp add: hm_rep_def)

lemma hm_rep_nonzero: "hm_rep m f \<Longrightarrow> hsize m \<noteq> 0 \<Longrightarrow> tab_ok (htable m) (hsize m)"
  by (auto simp: hm_rep_def)

lemma hm_rep_size_zero: "hm_rep m f \<Longrightarrow> hsize m = 0 \<Longrightarrow> f = Map.empty"
  by (auto simp: hm_rep_def tab_ok_def pow2_table_def)

text \<open>Resizing a table that satisfies everything but the load bound restores the load bound.\<close>

lemma hash_resize_ok:
  fixes m :: "'v hashmap"
  assumes tab: "hsize m = 0 \<and> htable m = [] \<or> tab_ok (htable m) (hsize m)"
    and counts: "unat (helems m) = live (htable m)" "unat (htombs m) = dead (htable m)"
    and size: "length (htable m) \<le> 6 * occupied m + 4" "occupied m \<le> hash_limit"
  shows "\<exists>m'. hash_resize_if_needed plenty m = Ok m' \<and> hm_rep m' (cell_lookup (htable m))
    \<and> hsize m' \<noteq> 0 \<and> occupied m' \<le> occupied m \<and> hfree m' = hfree m"
proof -
  have len: "length (htable m) = unat (hsize m)"
    using tab by (auto simp: tab_ok_def pow2_table_def)
  have small: "live (htable m) + dead (htable m) \<le> 2 ^ 56" using size(2) by (simp add: occupied_def hash_limit_def)
  have sum: "unat (helems m + htombs m) = live (htable m) + dead (htable m)"
    using counts small by (subst u64_add) auto
  have five: "unat ((helems m + htombs m) * 5) = 5 * (live (htable m) + dead (htable m))"
    using sum small by (subst u64_mult) auto
  have four: "unat (hsize m * 4) = 4 * length (htable m)"
    using len size(1) small by (subst u64_mult) (auto simp: occupied_def)
  show ?thesis
  proof (cases "hsize m * 4 > (helems m + htombs m) * 5")
    case True
    then have load: "5 * (live (htable m) + dead (htable m)) < 4 * length (htable m)"
      using four five by (simp add: word_less_nat_alt)
    then have "hsize m \<noteq> 0" using len by auto
    with tab True load counts size show ?thesis
      by (auto simp: hash_resize_if_needed_def hm_rep_def occupied_def)
  next
    case False
    have "unat (helems m) < 2 ^ 57" using counts small by simp
    moreover have "unat (4 :: u64) = 2 ^ 2" by simp
    ultimately obtain k where k: "2 \<le> k" "unat (table_size 4 (helems m)) = 2 ^ k"
      "2 ^ k \<le> 6 * unat (helems m) + 4" "3 * unat (helems m) < 2 ^ k"
      using table_size_spec [of "helems m" 4 2] by auto
    let ?n = "table_size 4 (helems m)"
    let ?new = "replicate (2 ^ k) empty_cell :: 'v hcell list"
    have new: "tab_ok ?new ?n"
      using k by (auto simp: tab_ok_def pow2_table_def empty_cell_def)
    have new0: "cell_lookup ?new = Map.empty"
      by (rule ext, rule cell_lookup_none) (simp add: empty_cell_def)
    have old: "distinct (cell_keys (htable m))" "\<forall>c \<in> set (htable m). hkey c = None \<longrightarrow> hval c = None"
      using tab tab_key_unique [of "htable m" "hsize m"]
      by (auto intro!: distinct_cell_keys simp: tab_ok_def in_set_conv_nth)
    have "\<exists>t. hash_rehash (htable m) ?n ?new = Ok t \<and> tab_ok t ?n \<and> length t = length ?new \<and> dead t = 0
        \<and> live t = live ?new + live (htable m) \<and> cell_lookup t = cell_lookup ?new ++ cell_lookup (htable m)"
      using new new0 old k counts by (intro hash_rehash_ok) auto
    then obtain t where t: "hash_rehash (htable m) ?n ?new = Ok t" "tab_ok t ?n" "length t = 2 ^ k"
      "dead t = 0" "live t = live (htable m)" "cell_lookup t = cell_lookup (htable m)"
      by (auto simp: new0)
    have "?n \<noteq> 0" using k(2) by (auto simp: u64_eq_0)
    with False t k len counts show ?thesis
      by (auto simp: hash_resize_if_needed_def Let_def hm_rep_def occupied_def)
  qed
qed

section \<open>Lookup and insertion implement a map\<close>

lemma load_bound: "5 * a < 4 * b \<Longrightarrow> a < (b :: nat)"
  by presburger

lemma hm_rep_free:
  fixes m :: "'v hashmap"
  assumes "tab_ok (htable m) (hsize m)" "5 * (live (htable m) + dead (htable m)) < 4 * length (htable m)"
  obtains i where "i < length (htable m)" "probe_ends (htable m) key i"
    "hash_get_cell (htable m) (hsize m) key = Ok i"
proof -
  have "live (htable m) + dead (htable m) < length (htable m)" using assms(2) by (rule load_bound)
  then obtain s where "s < length (htable m)" "hkey (htable m ! s) = None"
    by (rule free_cell_exists) (use assms(1) in \<open>auto simp: tab_ok_def\<close>)
  then show ?thesis using probe_ends_exists [OF tab_ok_pow2 [OF assms(1)]] that by metis
qed

lemma hash_get_rep: "hm_rep m f \<Longrightarrow> hsize m \<noteq> 0 \<Longrightarrow> hash_get m key = Ok (f key)"
proof -
  assume rep: "hm_rep m f" and nz: "hsize m \<noteq> 0"
  then have ok: "tab_ok (htable m) (hsize m)" "5 * (live (htable m) + dead (htable m)) < 4 * length (htable m)"
    by (auto simp: hm_rep_def)
  then obtain i where i: "i < length (htable m)" "probe_ends (htable m) key i"
    "hash_get_cell (htable m) (hsize m) key = Ok i"
    by (rule hm_rep_free)
  with probe_ends_lookup [OF ok(1) i(2,1)] rep show ?thesis by (simp add: hash_get_def hm_rep_lookup)
qed

lemma hash_get_unallocated: "hsize m = 0 \<Longrightarrow> hash_get m key = Err Assert_Fail"
  by (simp add: hash_get_def hash_get_cell_def)

definition released :: "'v hashmap \<Rightarrow> 'v option \<Rightarrow> 'v list" where
  "released m old = (case old of None \<Rightarrow> [] | Some v \<Rightarrow> if hfree m = None then [] else [v])"

text \<open>Insertion into an allocated table: the key is there, or its probe ends at a free cell.\<close>

lemma hash_add_allocated:
  fixes m :: "'v hashmap"
  assumes rep: "hm_rep m f" "hsize m \<noteq> 0" and room: "occupied m < hash_limit"
    and cb: "\<And>old g. f key = Some old \<Longrightarrow> hfree m = Some g \<Longrightarrow> g old = Ok ()"
  shows "\<exists>m'. hash_add plenty m key v = Ok (m', released m (f key)) \<and> hm_rep m' (f(key \<mapsto> v))
    \<and> hsize m' \<noteq> 0 \<and> occupied m' \<le> Suc (occupied m) \<and> hfree m' = hfree m"
proof -
  let ?tab = "htable m"
  have ok: "tab_ok ?tab (hsize m)" "5 * (live ?tab + dead ?tab) < 4 * length ?tab"
    and cnt: "unat (helems m) = live ?tab" "unat (htombs m) = dead ?tab" "length ?tab \<le> 6 * (live ?tab + dead ?tab) + 4"
    using rep by (auto simp: hm_rep_def)
  obtain i where i: "i < length ?tab" "probe_ends ?tab key i" "hash_get_cell ?tab (hsize m) key = Ok i"
    using ok by (rule hm_rep_free)
  have fk: "f key = hval (?tab ! i)" using probe_ends_lookup [OF ok(1) i(2,1)] rep by (simp add: hm_rep_lookup)
  have small: "live ?tab < 2 ^ 56" using room by (simp add: occupied_def hash_limit_def)
  then have suc: "unat (helems m + 1) = Suc (live ?tab)" using cnt(1) by (simp add: u64_suc)
  show ?thesis
  proof (cases "hkey (?tab ! i)")
    case None
    then have hv: "hval (?tab ! i) = None" using ok(1) i(1) by (simp add: tab_ok_def)
    let ?c = "\<lparr>hkey = Some key, hval = Some v\<rparr>"
    let ?m = "m\<lparr>htable := ?tab[i := ?c], helems := helems m + 1\<rparr>"
    note ins = tab_insert [OF ok(1) i(2,1) None, where v = v]
    have counts: "live (?tab[i := ?c]) = Suc (live ?tab)" "dead (?tab[i := ?c]) = dead ?tab"
      using live_upd [OF i(1), of ?c] dead_upd [OF i(1), of ?c] hv None by simp_all
    have "\<exists>m'. hash_resize_if_needed plenty ?m = Ok m' \<and> hm_rep m' (cell_lookup (htable ?m))
        \<and> hsize m' \<noteq> 0 \<and> occupied m' \<le> occupied ?m \<and> hfree m' = hfree ?m"
      using ins(1) counts cnt suc room by (intro hash_resize_ok) (auto simp: occupied_def)
    then obtain m' where m': "hash_resize_if_needed plenty ?m = Ok m'" "hm_rep m' (f(key \<mapsto> v))"
      "hsize m' \<noteq> 0" "occupied m' \<le> Suc (occupied m)" "hfree m' = hfree m"
      using ins(2) rep counts by (auto simp: hm_rep_lookup occupied_def)
    then show ?thesis
      using rep(2) i(3) None hv fk by (auto simp: hash_add_def Let_def released_def)
  next
    case (Some k)
    then have k: "k = key" using i(2) by (auto simp: probe_ends_def stops_def)
    let ?c = "(?tab ! i)\<lparr>hval := Some v\<rparr>"
    note upd = tab_update [OF ok(1) i(1) Some [unfolded k], where v = v]
    have cu: "live (?tab[i := ?c]) + of_bool (hval (?tab ! i) \<noteq> None) = Suc (live ?tab)"
      "dead (?tab[i := ?c]) + of_bool (hval (?tab ! i) = None) = dead ?tab"
      using live_upd [OF i(1), of ?c] dead_upd [OF i(1), of ?c] Some by simp_all
    show ?thesis
    proof (cases "hval (?tab ! i)")
      case None
      have "unat (htombs m - 1) = unat (htombs m) - 1" using cu(2) None cnt(2) by (simp add: u64_sub)
      with cu None cnt suc ok upd rep i Some fk show ?thesis
        by (auto simp: hash_add_def Let_def released_def hm_rep_def occupied_def)
    next
      case (Some old)
      then have "hash_elem_free m old = Ok (released m (f key))"
        using cb [of old] fk by (cases "hfree m") (simp_all add: hash_elem_free_def released_def)
      with Some cu cnt ok upd rep i \<open>hkey (?tab ! i) = Some k\<close> show ?thesis
        by (auto simp: hash_add_def Let_def hm_rep_def occupied_def)
    qed
  qed
qed

text \<open>The first insertion allocates the table; afterwards the previous lemma applies.\<close>

lemma hash_add_rep:
  fixes m :: "'v hashmap"
  assumes rep: "hm_rep m f" and room: "occupied m < hash_limit"
    and cb: "\<And>old g. f key = Some old \<Longrightarrow> hfree m = Some g \<Longrightarrow> g old = Ok ()"
  shows "\<exists>m'. hash_add plenty m key v = Ok (m', released m (f key)) \<and> hm_rep m' (f(key \<mapsto> v))
    \<and> hsize m' \<noteq> 0 \<and> occupied m' \<le> Suc (occupied m) \<and> hfree m' = hfree m"
proof (cases "hsize m = 0")
  case False
  with assms show ?thesis by (intro hash_add_allocated)
next
  case True
  then have m: "htable m = []" "helems m = 0" "htombs m = 0" and f: "f = Map.empty"
    using rep by (auto simp: hm_rep_def tab_ok_def pow2_table_def)
  then have "\<exists>m1. hash_resize_if_needed plenty m = Ok m1 \<and> hm_rep m1 (cell_lookup (htable m))
      \<and> hsize m1 \<noteq> 0 \<and> occupied m1 \<le> occupied m \<and> hfree m1 = hfree m"
    using True room by (intro hash_resize_ok) (auto simp: occupied_def)
  then obtain m1 where m1: "hash_resize_if_needed plenty m = Ok m1" "hm_rep m1 f" "hsize m1 \<noteq> 0"
    "occupied m1 \<le> occupied m" "hfree m1 = hfree m" using m f by auto
  have "hash_add plenty m key v = hash_add plenty m1 key v"
    using True m1 by (simp add: hash_add_def)
  moreover have "\<exists>m'. hash_add plenty m1 key v = Ok (m', released m1 (f key)) \<and> hm_rep m' (f(key \<mapsto> v))
      \<and> hsize m' \<noteq> 0 \<and> occupied m' \<le> Suc (occupied m1) \<and> hfree m' = hfree m1"
    using m1 room f by (intro hash_add_allocated) auto
  moreover have "released m1 (f key) = released m (f key)" by (simp add: f released_def)
  ultimately show ?thesis using m1 by auto
qed

section \<open>Release\<close>

lemma rfold_collect:
  assumes "\<And>x. x \<in> set xs \<Longrightarrow> g x = Ok (h x)"
  shows "rfold (\<lambda>fr x. rbind (g x) (\<lambda>y. Ok (fr @ y))) acc xs = Ok (acc @ concat (map h xs))"
  using assms by (induction xs arbitrary: acc) auto

lemma tab_ok_cells:
  assumes "tab_ok tab sz"
  shows "distinct (cell_keys tab)" "\<forall>c \<in> set tab. hkey c = None \<longrightarrow> hval c = None"
  using assms tab_key_unique [OF assms] by (auto intro!: distinct_cell_keys simp: tab_ok_def in_set_conv_nth)

fun live_keys :: "'v hcell list \<Rightarrow> string list" where
  "live_keys [] = []"
| "live_keys (c # cs) = (if hval c = None then live_keys cs else the (hkey c) # live_keys cs)"

lemma live_keys_enumerate:
  assumes "distinct (cell_keys tab)" "\<forall>c \<in> set tab. hkey c = None \<longrightarrow> hval c = None"
  shows "distinct (live_keys tab) \<and> set (live_keys tab) \<subseteq> set (cell_keys tab)
    \<and> set (live_keys tab) = dom (cell_lookup tab)
    \<and> map (\<lambda>k. the (cell_lookup tab k)) (live_keys tab) = map (\<lambda>c. the (hval c)) (filter (\<lambda>c. hval c \<noteq> None) tab)"
  using assms
proof (induction tab)
  case Nil
  then show ?case by simp
next
  case (Cons c cs)
  then have IH: "distinct (live_keys cs)" "set (live_keys cs) \<subseteq> set (cell_keys cs)"
    "set (live_keys cs) = dom (cell_lookup cs)"
    "map (\<lambda>k. the (cell_lookup cs k)) (live_keys cs) = map (\<lambda>c. the (hval c)) (filter (\<lambda>c. hval c \<noteq> None) cs)"
    by (auto split: option.splits)
  show ?case
  proof (cases "hkey c")
    case None
    then have "cell_lookup (c # cs) = cell_lookup cs" "hval c = None"
      using Cons.prems(2) by (auto simp: cell_lookup_Cons fun_eq_iff)
    then show ?thesis using IH None by simp
  next
    case (Some k)
    then have fresh: "k \<notin> set (cell_keys cs)" using Cons.prems(1) by simp
    then have old: "cell_lookup (c # cs) k' = cell_lookup cs k'" if "k' \<in> set (live_keys cs)" for k'
      using that IH(2) Some by (auto simp: cell_lookup_Cons)
    have "dom (cell_lookup (c # cs)) = (if hval c = None then {} else {k}) \<union> dom (cell_lookup cs)"
      using Some cell_lookup_absent [OF fresh] by (auto simp: cell_lookup_Cons dom_def)
    moreover have "map (\<lambda>k. the (cell_lookup (c # cs) k)) (live_keys cs) = map (\<lambda>k. the (cell_lookup cs k)) (live_keys cs)"
      using old by simp
    ultimately show ?thesis using IH Some fresh by (auto simp: cell_lookup_Cons)
  qed
qed

lemma hash_clear_rep:
  fixes m :: "'v hashmap"
  assumes rep: "hm_rep m f" and cb: "hfree m = Some g" "\<And>v. v \<in> ran f \<Longrightarrow> g v = Ok ()"
  shows "\<exists>ks. hash_clear m = Ok (hash_zero (Some g), map (\<lambda>k. the (f k)) ks) \<and> distinct ks \<and> set ks = dom f"
proof -
  let ?tab = "htable m"
  have len: "length ?tab = unat (hsize m)" and f: "cell_lookup ?tab = f"
    using rep by (auto simp: hm_rep_def tab_ok_def pow2_table_def)
  have cells: "distinct (cell_keys ?tab)" "\<forall>c \<in> set ?tab. hkey c = None \<longrightarrow> hval c = None"
    using rep tab_ok_cells [of ?tab "hsize m"] by (auto simp: hm_rep_def)
  note enum = live_keys_enumerate [OF cells, unfolded f]
  define h where "h c = (case hval c of None \<Rightarrow> [] | Some v \<Rightarrow> [v])" for c :: "'v hcell"
  have vals: "concat (map h cs) = map (\<lambda>c. the (hval c)) (filter (\<lambda>c. hval c \<noteq> None) cs)" for cs
    by (induction cs) (auto simp: h_def)
  have ok: "g v = Ok ()" if "c \<in> set ?tab" "hval c = Some v" for c v
  proof -
    have "v \<in> set (map (\<lambda>c. the (hval c)) (filter (\<lambda>c. hval c \<noteq> None) ?tab))" using that by force
    also have "\<dots> = (\<lambda>k. the (f k)) ` set (live_keys ?tab)" using enum by (metis list.set_map)
    finally obtain k where "k \<in> dom f" "v = the (f k)" using enum by blast
    then have "v \<in> ran f" by (auto simp: ran_def)
    then show ?thesis by (rule cb(2))
  qed
  have "hash_clear m = rbind (rfold (\<lambda>fr c. rbind (case hval c of None \<Rightarrow> Ok [] | Some v \<Rightarrow> hash_elem_free m v)
      (\<lambda>y. Ok (fr @ y))) [] ?tab) (\<lambda>fr. Ok (hash_zero (Some g), fr))"
    using len cb(1) unfolding hash_clear_def hash_zero_def
    by (cases m) (auto intro!: arg_cong2 [where f = rbind] arg_cong [where f = "\<lambda>x. rfold x [] _"] ext split: option.split)
  also have "\<dots> = Ok (hash_zero (Some g), concat (map h ?tab))"
    using ok by (subst rfold_collect [where h = h]) (auto simp: h_def hash_elem_free_def cb(1) split: option.split)
  finally show ?thesis using enum vals by metis
qed

section \<open>The dictionary interface\<close>

definition accepts_all :: "'v hashmap \<Rightarrow> bool" where
  "accepts_all m \<longleftrightarrow> (\<forall>g. hfree m = Some g \<longrightarrow> (\<forall>v. g v = Ok ()))"

definition hash_insert :: "'v hashmap \<Rightarrow> string \<Rightarrow> 'v \<Rightarrow> 'v hashmap result" where
  "hash_insert m k v = rbind (hash_add plenty m k v) (\<lambda>(m', fr). Ok m')"

interpretation hash_dict: dict "hash_zero None" hash_insert hash_get
    "\<lambda>m f n. hm_rep m f \<and> accepts_all m \<and> occupied m \<le> n" hash_limit
proof
  show "hm_rep (hash_zero None :: 'v hashmap) Map.empty \<and> accepts_all (hash_zero None :: 'v hashmap)
      \<and> occupied (hash_zero None :: 'v hashmap) \<le> 0"
    by (simp add: accepts_all_def hash_zero_def occupied_def hm_rep_def)
next
  fix m :: "'v hashmap" and f n k v
  assume m: "hm_rep m f \<and> accepts_all m \<and> occupied m \<le> n" and n: "n < hash_limit"
  then have "\<exists>m'. hash_add plenty m k v = Ok (m', released m (f k)) \<and> hm_rep m' (f(k \<mapsto> v))
      \<and> hsize m' \<noteq> 0 \<and> occupied m' \<le> Suc (occupied m) \<and> hfree m' = hfree m"
    by (intro hash_add_rep) (auto simp: accepts_all_def)
  with m show "\<exists>m'. hash_insert m k v = Ok m' \<and> hm_rep m' (f(k \<mapsto> v)) \<and> accepts_all m' \<and> occupied m' \<le> Suc n"
    by (auto simp: hash_insert_def accepts_all_def)
next
  fix m :: "'v hashmap" and f n k
  assume "hm_rep m f \<and> accepts_all m \<and> occupied m \<le> n" "f \<noteq> Map.empty"
  then show "hash_get m k = Ok (f k)" using hash_get_rep hm_rep_size_zero by metis
qed

section \<open>Properties\<close>

text \<open>
  C3: The open-addressing table is a map. Any sequence of up to \<open>2^56\<close> insertions into
  an empty table returns (no probe runs forever, no assertion fails, no cell outside the
  table is touched, whatever resizing happens on the way), and every later lookup returns
  the value inserted last under its key, or NULL for a key never inserted.
\<close>

theorem hash_last_insert_wins:
  assumes "kvs \<noteq> []" "length kvs \<le> hash_limit"
  shows "\<exists>m. rfold (\<lambda>m (k, v). hash_insert m k v) (hash_zero None) kvs = Ok m
    \<and> (\<forall>k. hash_get m k = Ok (map_of (rev kvs) k))"
  by (rule hash_dict.last_insert_wins [OF assms])

theorem hash_last_insert_wins_witness:
  "\<exists>m. rfold (\<lambda>m (k, v). hash_insert m k v) (hash_zero None) [(''ab'', 1 :: nat), (''ba'', 2), (''ab'', 3)] = Ok m
    \<and> (\<forall>k. hash_get m k = Ok (map_of (rev [(''ab'', 1), (''ba'', 2), (''ab'', 3)]) k))"
  by (rule hash_last_insert_wins) (simp_all add: hash_limit_def)

text \<open>
  Insertion on every branch (fresh key, live key, tombstone): the map changes at
  exactly that key, the value it replaces is the only one handed to \<open>elem_free\<close>, and the
  representation invariant (power-of-two size, load below 80 percent, exact counters,
  every key reachable by its own probe) is kept.
\<close>

theorem hash_add_refines:
  fixes m :: "'v hashmap"
  assumes "hm_rep m f" "occupied m < hash_limit"
    and "\<And>old g. f key = Some old \<Longrightarrow> hfree m = Some g \<Longrightarrow> g old = Ok ()"
  shows "\<exists>m'. hash_add plenty m key v = Ok (m', released m (f key)) \<and> hm_rep m' (f(key \<mapsto> v))"
  using hash_add_rep [of m f key v] assms by blast

theorem hash_add_refines_witness:
  "\<exists>m'. hash_add plenty (hash_zero (Some (\<lambda>v :: nat. Ok ()))) ''a1'' 7
      = Ok (m', released (hash_zero (Some (\<lambda>v :: nat. Ok ()))) (Map.empty ''a1''))
    \<and> hm_rep m' (Map.empty(''a1'' \<mapsto> 7))"
  by (rule hash_add_refines) (simp_all add: hash_limit_def)

text \<open>
  \<open>hash_clear\<close> hands every stored value to \<open>elem_free\<close> exactly once and leaves the
  zeroed map.
\<close>

theorem hash_clear_releases_once:
  fixes m :: "'v hashmap"
  assumes "hm_rep m f" "hfree m = Some g" "\<And>v. v \<in> ran f \<Longrightarrow> g v = Ok ()"
  shows "\<exists>ks. hash_clear m = Ok (hash_zero (Some g), map (\<lambda>k. the (f k)) ks) \<and> distinct ks \<and> set ks = dom f"
  using assms by (rule hash_clear_rep)

lemma one_entry_map:
  obtains m where "hm_rep m [''a1'' \<mapsto> 7 :: nat]" "hfree m = Some (\<lambda>v :: nat. Ok ())"
proof -
  obtain m' where "hm_rep m' (Map.empty(''a1'' \<mapsto> 7 :: nat))" "hfree m' = hfree (hash_zero (Some (\<lambda>v :: nat. Ok ())))"
    using hash_add_rep [of "hash_zero (Some (\<lambda>v :: nat. Ok ()))" Map.empty "''a1''" 7]
    by (auto simp: hash_limit_def)
  then show ?thesis using that by (simp add: hash_zero_def)
qed

theorem hash_clear_releases_once_witness:
  "\<exists>m ks. hm_rep m [''a1'' \<mapsto> 7 :: nat]
    \<and> hash_clear m = Ok (hash_zero (Some (\<lambda>v. Ok ())), map (\<lambda>k. the ([''a1'' \<mapsto> 7] k)) ks)
    \<and> distinct ks \<and> set ks = dom [''a1'' \<mapsto> 7 :: nat]"
proof -
  obtain m where m: "hm_rep m [''a1'' \<mapsto> 7 :: nat]" "hfree m = Some (\<lambda>v :: nat. Ok ())" by (rule one_entry_map)
  then show ?thesis using hash_clear_releases_once [OF m] by blast
qed

text \<open>
  A lookup on a map that never held anything does not return NULL but fails the
  assertion \<open>size > 0\<close>.
\<close>

theorem hash_get_empty_aborts: "hash_get (hash_zero f) key = Err Assert_Fail"
  by (rule hash_get_unallocated) (simp add: hash_zero_def)

lemma hash_inner_fold:
  "hash_inner 0 part s = (fold (\<lambda>c p. p XOR ucast (word_of_int (schar c) :: u32)) s part, [])"
  by (induction s arbitrary: part) simp_all

lemma hash_outer_once:
  "hash_outer ret s = (if mset s = {#} then ret else hash_mix (ret XOR fst (hash_inner 0 0x5555555555555555 s)))"
  by (subst hash_outer.simps) (simp add: hash_inner_rest Let_def hash_outer.simps [of _ "[]"])

lemma hash_inner_mset: "mset s = mset t \<Longrightarrow> hash_inner 0 part s = hash_inner 0 part t"
  unfolding hash_inner_fold
  by (subst fold_permuted_eq [where P = "\<lambda>_. True"]) (simp_all add: ac_simps)

lemma hash_outer_mset:
  assumes "mset s = mset t" shows "hash_outer ret s = hash_outer ret t"
  unfolding hash_outer_once hash_inner_mset [OF assms] by (simp only: assms)

text \<open>
  Because the inner loop never advances its shift counter, the hash depends only on
  which characters occur how often: all rearrangements of a key collide.
\<close>

theorem hashfn_ignores_order: "mset s = mset t \<Longrightarrow> hashfn s = hashfn t"
  unfolding hashfn_def by (drule hash_outer_mset) (rule arg_cong [where f = "\<lambda>h. hash_mix (hash_mix h)"])

theorem hashfn_ignores_order_witness: "hashfn ''ab'' = hashfn ''ba''"
  by (rule hashfn_ignores_order) simp

end
