(* ===== verification/Pipeline.thy ===== *)
theory Pipeline
  imports Vec
begin

text \<open>
  How the interpreter of \<open>lab5/zad1/main.c\<close> runs one line \<open>n1 | n2 | ...\<close>: the double loop
  of \<open>parser_sm\<close> over the names of the line and the commands of each definition, with the
  descriptor tables of the interpreter and of every child it forks.

  The system calls are modelled by what POSIX says of them: \<open>pipe\<close> and \<open>dup2\<close> on a table
  that maps descriptors to open files, allocating the lowest free descriptors below a
  limit; \<open>close\<close> fails on a closed descriptor; \<open>fork\<close> copies the table. Which of the forks
  succeed is a parameter. A child ends its set-up with \<open>execlp("sh", "sh", "-c", cmd)\<close>,
  recorded as the command with the table it inherits, or with \<open>exit(1)\<close>.
\<close>

section \<open>Descriptor tables\<close>

datatype ofile = Inherited nat | Pipe_Read nat | Pipe_Write nat

type_synonym fdtab = "nat \<rightharpoonup> ofile"

definition lowest_free :: "nat \<Rightarrow> fdtab \<Rightarrow> nat option" where
  "lowest_free lim t = find (\<lambda>d. t d = None) [0..<lim]"

text \<open>\<open>pipe(fd)\<close>: the new table, \<open>fd[0]\<close> and \<open>fd[1]\<close>; \<open>None\<close> is the return value -1.\<close>

definition sys_pipe :: "nat \<Rightarrow> nat \<Rightarrow> fdtab \<Rightarrow> (fdtab \<times> nat \<times> nat) option" where
  "sys_pipe lim pid t =
     (case lowest_free lim t of
        None \<Rightarrow> None
      | Some r \<Rightarrow>
          (case lowest_free lim (t(r \<mapsto> Pipe_Read pid)) of
             None \<Rightarrow> None
           | Some w \<Rightarrow> Some (t(r \<mapsto> Pipe_Read pid, w \<mapsto> Pipe_Write pid), r, w)))"

definition sys_dup2 :: "nat \<Rightarrow> nat \<Rightarrow> fdtab \<Rightarrow> fdtab option" where
  "sys_dup2 old new t = (case t old of None \<Rightarrow> None | Some f \<Rightarrow> Some (t(new \<mapsto> f)))"

definition sys_close :: "nat \<Rightarrow> fdtab \<Rightarrow> fdtab option" where
  "sys_close d t = (if t d = None then None else Some (t(d := None)))"

text \<open>\<open>if (call < 0) { perror(...); exit(1); }\<close>\<close>

definition or_exit :: "'a option \<Rightarrow> 'a result" where
  "or_exit r = (case r of None \<Rightarrow> Err (Exit_Status 1) | Some x \<Rightarrow> Ok x)"

section \<open>One child\<close>

record env =
  fd_limit :: nat
  fork_ok :: "nat \<Rightarrow> bool"

record world =
  w_fds :: fdtab
  w_pipes :: nat
  w_forks :: nat
  w_live :: nat
  w_execs :: "(string \<times> fdtab result) list"

text \<open>The loop variables \<open>pipefd\<close> and \<open>nchild\<close> of one line.\<close>

record loop =
  pipefd0 :: nat
  pipefd1 :: nat
  nchild :: nat

definition child_setup :: "bool \<Rightarrow> bool \<Rightarrow> nat \<Rightarrow> nat \<Rightarrow> nat \<Rightarrow> fdtab \<Rightarrow> fdtab result" where
  "child_setup is_first is_last lastinfd p0 p1 t =
     rbind (if is_first then Ok t
            else rbind (or_exit (sys_dup2 lastinfd 0 t)) (\<lambda>t.
                 or_exit (sys_close lastinfd t))) (\<lambda>t.
     if is_last then Ok t
     else rbind (or_exit (sys_dup2 p1 1 t)) (\<lambda>t.
          rbind (or_exit (sys_close p0 t)) (\<lambda>t.
                 or_exit (sys_close p1 t))))"

definition parent_cleanup :: "bool \<Rightarrow> bool \<Rightarrow> nat \<Rightarrow> nat \<Rightarrow> fdtab \<Rightarrow> fdtab result" where
  "parent_cleanup is_first is_last lastinfd p1 t =
     rbind (if is_last then Ok t else or_exit (sys_close p1 t)) (\<lambda>t.
     if is_first then Ok t else or_exit (sys_close lastinfd t))"

definition spawn :: "env \<Rightarrow> bool \<Rightarrow> bool \<Rightarrow> string \<Rightarrow> world \<times> loop \<Rightarrow> (world \<times> loop) result" where
  "spawn env is_first is_last cmd = (\<lambda>(w, l).
     let lastinfd = pipefd0 l;
         l1 = l\<lparr>nchild := nchild l + 1\<rparr>
     in rbind (if is_last then Ok (w, l1)
               else rbind (or_exit (sys_pipe (fd_limit env) (w_pipes w) (w_fds w))) (\<lambda>(t, r, p).
                    Ok (w\<lparr>w_fds := t, w_pipes := w_pipes w + 1\<rparr>, l1\<lparr>pipefd0 := r, pipefd1 := p\<rparr>)))
          (\<lambda>(w, l).
        if \<not> fork_ok env (w_forks w) then Err (Exit_Status 1)
        else let child = child_setup is_first is_last lastinfd (pipefd0 l) (pipefd1 l) (w_fds w)
             in rbind (parent_cleanup is_first is_last lastinfd (pipefd1 l) (w_fds w)) (\<lambda>t.
                Ok (w\<lparr>w_fds := t, w_forks := w_forks w + 1, w_live := w_live w + 1,
                       w_execs := w_execs w @ [(cmd, child)]\<rparr>, l))))"

section \<open>One line\<close>

text \<open>
  The two \<open>for\<close> loops. \<open>lookup\<close> is \<open>hash_get\<close> on the definitions; \<open>j\<close> starts at 1 because
  element 0 of a definition is its name.
\<close>

definition run_elem ::
    "env \<Rightarrow> u64 \<Rightarrow> nat \<Rightarrow> string vec \<Rightarrow> world \<times> loop \<Rightarrow> (world \<times> loop) result" where
  "run_elem env n i elem st =
     rfold (\<lambda>st j.
       let is_first = (j = 1 \<and> i = 0);
           is_last = (j = unat (vlen elem - 1) \<and> i = unat (n - 1))
       in rbind (vec_nth elem j) (\<lambda>cmd. spawn env is_first is_last cmd st)) st [1..<unat (vlen elem)]"

definition run_line ::
    "env \<Rightarrow> (string \<Rightarrow> string vec option result) \<Rightarrow> string vec \<Rightarrow> world \<Rightarrow> (world \<times> loop) result" where
  "run_line env lookup expr w =
     rfold (\<lambda>st i.
       rbind (vec_nth expr i) (\<lambda>name.
       rbind (lookup name) (\<lambda>res.
         case res of
           None \<Rightarrow> Err Assert_Fail
         | Some elem \<Rightarrow> run_elem env (vlen expr) i elem st)))
       (w, \<lparr>pipefd0 = 0, pipefd1 = 0, nchild = 0\<rparr>) [0..<unat (vlen expr)]"

text \<open>\<open>wait\<close> fails only when no child is left; the loop continues and the exit comes after it.\<close>

fun wait_children :: "nat \<Rightarrow> bool \<Rightarrow> world \<Rightarrow> world result" where
  "wait_children 0 errored w = (if errored then Err (Exit_Status 1) else Ok w)"
| "wait_children (Suc n) errored w =
     (if w_live w = 0 then wait_children n True w
      else wait_children n errored (w\<lparr>w_live := w_live w - 1\<rparr>))"

definition run_pipeline ::
    "env \<Rightarrow> (string \<Rightarrow> string vec option result) \<Rightarrow> string vec \<Rightarrow> world \<Rightarrow> world result" where
  "run_pipeline env lookup expr w =
     rbind (run_line env lookup expr w) (\<lambda>(w, l). wait_children (nchild l) False w)"

section \<open>The plumbing of a line\<close>

text \<open>
  What the \<open>n\<close> children of a line should get: the table of the interpreter, with the
  read end of the previous pipe as standard input (except the first) and the write end of
  the next one as standard output (except the last), and no other pipe end.
\<close>

definition child_tab :: "fdtab \<Rightarrow> nat \<Rightarrow> nat \<Rightarrow> nat \<Rightarrow> fdtab" where
  "child_tab t base n k =
     t(0 := (if k = 0 then t 0 else Some (Pipe_Read (base + k - 1))),
       1 := (if Suc k = n then t 1 else Some (Pipe_Write (base + k))))"

definition line_execs :: "fdtab \<Rightarrow> nat \<Rightarrow> string list \<Rightarrow> nat \<Rightarrow> (string \<times> fdtab result) list" where
  "line_execs t base cmds k = map (\<lambda>j. (cmds ! j, Ok (child_tab t base (length cmds) j))) [0..<k]"

definition pipeline_world :: "world \<Rightarrow> string list \<Rightarrow> world" where
  "pipeline_world w cmds =
     w\<lparr>w_pipes := w_pipes w + (length cmds - 1), w_forks := w_forks w + length cmds,
       w_execs := w_execs w @ line_execs (w_fds w) (w_pipes w) cmds (length cmds)\<rparr>"

text \<open>Standard input and output are open, three descriptors are free and forks succeed.\<close>

definition env_ok :: "env \<Rightarrow> fdtab \<Rightarrow> bool" where
  "env_ok env t \<longleftrightarrow> t 0 \<noteq> None \<and> t 1 \<noteq> None \<and> 3 \<le> card {d. d < fd_limit env \<and> t d = None}
     \<and> (\<forall>k. fork_ok env k)"

lemma lowest_free_Some: "lowest_free lim t = Some d \<Longrightarrow> d < lim \<and> t d = None"
  by (auto simp: lowest_free_def find_Some_iff)

lemma lowest_free_ex:
  assumes "0 < card {d. d < lim \<and> t d = None}" shows "\<exists>d. lowest_free lim t = Some d"
proof -
  have "\<exists>d < lim. t d = None" using assms by (auto simp: card_gt_0_iff)
  then have "find (\<lambda>d. t d = None) [0..<lim] \<noteq> None" by (subst find_None_iff) auto
  then show ?thesis by (simp add: lowest_free_def)
qed

lemma free_upd:
  fixes lim :: nat
  shows "card {d. d < lim \<and> t d = None} \<le> Suc (card {d. d < lim \<and> (t(x := y)) d = None})"
proof -
  have fin: "finite {d. d < lim \<and> (t(x := y)) d = None}" by (rule finite_subset [of _ "{..<lim}"]) auto
  have "{d. d < lim \<and> t d = None} \<subseteq> insert x {d. d < lim \<and> (t(x := y)) d = None}" by auto
  then have "card {d. d < lim \<and> t d = None} \<le> card (insert x {d. d < lim \<and> (t(x := y)) d = None})"
    by (rule card_mono [rotated]) (simp add: fin del: fun_upd_apply)
  also have "\<dots> \<le> Suc (card {d. d < lim \<and> (t(x := y)) d = None})"
    by (subst card_insert_if) (simp_all add: fin del: fun_upd_apply)
  finally show ?thesis .
qed

lemma sys_pipe_ok:
  assumes "2 \<le> card {d. d < lim \<and> t d = None}"
  shows "\<exists>r w. sys_pipe lim p t = Some (t(r \<mapsto> Pipe_Read p, w \<mapsto> Pipe_Write p), r, w)
    \<and> t r = None \<and> t w = None \<and> r \<noteq> w"
proof -
  obtain r where r: "lowest_free lim t = Some r" using assms lowest_free_ex [of lim t] by auto
  have "0 < card {d. d < lim \<and> (t(r \<mapsto> Pipe_Read p)) d = None}"
    using assms free_upd [of lim t r "Some (Pipe_Read p)"] by linarith
  then obtain w where w: "lowest_free lim (t(r \<mapsto> Pipe_Read p)) = Some w" using lowest_free_ex by blast
  show ?thesis
    using r w lowest_free_Some [OF r] lowest_free_Some [OF w]
    by (intro exI [of _ r] exI [of _ w]) (auto simp: sys_pipe_def split: if_splits)
qed

text \<open>
  The state between two forks: after \<open>k\<close> of \<open>n\<close> children the interpreter holds at most the
  read end of the last pipe, in \<open>pipefd[0]\<close>.
\<close>

definition midway :: "world \<Rightarrow> string list \<Rightarrow> nat \<Rightarrow> world \<times> loop \<Rightarrow> bool" where
  "midway w0 cmds k = (\<lambda>(w, l).
     nchild l = k \<and> w_pipes w = w_pipes w0 + (if k = length cmds then k - 1 else k)
     \<and> w_forks w = w_forks w0 + k \<and> w_live w = w_live w0 + k
     \<and> w_execs w = w_execs w0 @ line_execs (w_fds w0) (w_pipes w0) cmds k
     \<and> (if k = 0 \<or> k = length cmds then w_fds w = w_fds w0
        else w_fds w0 (pipefd0 l) = None \<and> w_fds w = (w_fds w0)(pipefd0 l \<mapsto> Pipe_Read (w_pipes w0 + k - 1))))"

lemma child_first:
  assumes "t 0 \<noteq> None" "t 1 \<noteq> None" "t r = None" "t w = None" "r \<noteq> w"
  shows "child_setup True False x r w (t(r \<mapsto> a, w \<mapsto> b)) = Ok (t(1 \<mapsto> b))"
proof -
  have "r \<noteq> 1" "w \<noteq> 1" using assms by auto
  with assms show ?thesis
    by (auto simp: child_setup_def or_exit_def sys_dup2_def sys_close_def fun_eq_iff)
qed

lemma child_last:
  assumes "t 0 \<noteq> None" "t x = None"
  shows "child_setup False True x r w (t(x \<mapsto> a)) = Ok (t(0 \<mapsto> a))"
proof -
  have "x \<noteq> 0" using assms by (metis)
  with assms show ?thesis
    by (auto simp: child_setup_def or_exit_def sys_dup2_def sys_close_def fun_eq_iff)
qed

lemma child_middle:
  assumes "t 0 \<noteq> None" "t 1 \<noteq> None" "t x = None" "t r = None" "t w = None" "r \<noteq> w" "x \<noteq> r" "x \<noteq> w"
  shows "child_setup False False x r w (t(x \<mapsto> a, r \<mapsto> b, w \<mapsto> c)) = Ok (t(0 \<mapsto> a, 1 \<mapsto> c))"
proof -
  have "x \<noteq> 0" "x \<noteq> 1" "r \<noteq> 0" "r \<noteq> 1" "w \<noteq> 0" "w \<noteq> 1" using assms by metis+
  with assms show ?thesis
    by (auto simp: child_setup_def or_exit_def sys_dup2_def sys_close_def fun_eq_iff)
qed

lemma parent_middle:
  assumes "t x = None" "t w = None" "r \<noteq> w" "x \<noteq> r" "x \<noteq> w"
  shows "parent_cleanup False False x w (t(x \<mapsto> a, r \<mapsto> b, w \<mapsto> c)) = Ok (t(r \<mapsto> b))"
  using assms by (auto simp: parent_cleanup_def or_exit_def sys_close_def fun_eq_iff)

lemma parent_first:
  "t w = None \<Longrightarrow> r \<noteq> w \<Longrightarrow> parent_cleanup True False y w (t(r \<mapsto> b, w \<mapsto> c)) = Ok (t(r \<mapsto> b))"
  by (auto simp: parent_cleanup_def or_exit_def sys_close_def fun_eq_iff)

lemma parent_last: "t x = None \<Longrightarrow> parent_cleanup False True x y (t(x \<mapsto> a)) = Ok t"
  by (auto simp: parent_cleanup_def or_exit_def sys_close_def fun_eq_iff)

lemma parent_only: "parent_cleanup True True y z t = Ok t"
  by (simp add: parent_cleanup_def)

lemma line_execs_Suc:
  "line_execs t base cmds (Suc k) = line_execs t base cmds k @ [(cmds ! k, Ok (child_tab t base (length cmds) k))]"
  by (simp add: line_execs_def)

lemma spawn_step:
  assumes env: "env_ok env (w_fds w0)" and mid: "midway w0 cmds k st" and k: "k < length cmds"
  shows "\<exists>st'. spawn env (k = 0) (Suc k = length cmds) (cmds ! k) st = Ok st' \<and> midway w0 cmds (Suc k) st'"
proof -
  obtain w l where st: "st = (w, l)" by (cases st)
  let ?t = "w_fds w0" and ?b = "w_pipes w0"
  have t: "?t 0 \<noteq> None" "?t 1 \<noteq> None" "3 \<le> card {d. d < fd_limit env \<and> ?t d = None}"
    and fk: "\<And>k. fork_ok env k" using env by (auto simp: env_ok_def)
  have upd0: "?t(0 := ?t 0) = ?t" by simp
  show ?thesis
  proof (cases "Suc k = length cmds")
    case True
    have le: "line_execs t b cmds (length cmds) = line_execs t b cmds k @ [(cmds ! k, Ok (child_tab t b (length cmds) k))]" for t b
      by (simp flip: True add: line_execs_Suc)
    show ?thesis
    proof (cases "k = 0")
      case True
      with mid st k \<open>Suc k = length cmds\<close> fk show ?thesis
        by (auto simp: spawn_def midway_def parent_only child_setup_def Let_def le child_tab_def)
    next
      case False
      then have m: "?t (pipefd0 l) = None" "w_fds w = ?t(pipefd0 l \<mapsto> Pipe_Read (?b + k - 1))"
        using mid st k by (auto simp: midway_def)
      have ct: "child_tab ?t ?b (length cmds) k = ?t(0 \<mapsto> Pipe_Read (?b + k - 1))"
        using False True t by (auto simp: child_tab_def fun_eq_iff)
      show ?thesis using mid st k True False fk m t ct le [of ?t ?b]
        by (auto simp: spawn_def midway_def parent_last child_last Let_def)
    qed
  next
    case False
    show ?thesis
    proof (cases "k = 0")
      case True
      then have w: "w_fds w = ?t" "w_pipes w = ?b" using mid st k by (auto simp: midway_def)
      obtain r p where rp: "sys_pipe (fd_limit env) ?b ?t = Some (?t(r \<mapsto> Pipe_Read ?b, p \<mapsto> Pipe_Write ?b), r, p)"
        "?t r = None" "?t p = None" "r \<noteq> p"
        using sys_pipe_ok [of "fd_limit env" ?t ?b] t by auto
      have ct: "child_tab ?t ?b (length cmds) 0 = ?t(1 \<mapsto> Pipe_Write ?b)"
        using False True by (auto simp: child_tab_def fun_eq_iff)
      show ?thesis using mid st k True False fk w rp t ct
        by (auto simp: spawn_def midway_def parent_first child_first Let_def line_execs_Suc or_exit_def)
    next
      case kn: False
      let ?x = "pipefd0 l" and ?a = "Pipe_Read (?b + k - 1)"
      have m: "?t ?x = None" "w_fds w = ?t(?x \<mapsto> ?a)" "w_pipes w = ?b + k"
        using mid st k kn by (auto simp: midway_def)
      have "2 \<le> card {d. d < fd_limit env \<and> (?t(?x \<mapsto> ?a)) d = None}"
        using t(3) free_upd [of "fd_limit env" ?t ?x "Some ?a"] by linarith
      then obtain r p where rp: "sys_pipe (fd_limit env) (?b + k) (?t(?x \<mapsto> ?a))
          = Some (?t(?x \<mapsto> ?a, r \<mapsto> Pipe_Read (?b + k), p \<mapsto> Pipe_Write (?b + k)), r, p)"
        "?t r = None" "?t p = None" "r \<noteq> p" "?x \<noteq> r" "?x \<noteq> p"
        using sys_pipe_ok [of "fd_limit env" "?t(?x \<mapsto> ?a)" "?b + k"] by (auto split: if_splits)
      have ct: "child_tab ?t ?b (length cmds) k = ?t(0 \<mapsto> ?a, 1 \<mapsto> Pipe_Write (?b + k))"
        using False kn by (auto simp: child_tab_def fun_eq_iff)
      show ?thesis using mid st k kn False fk m rp t ct
        by (auto simp: spawn_def midway_def parent_middle child_middle Let_def line_execs_Suc or_exit_def)
    qed
  qed
qed

section \<open>The double loop is a loop over all commands of the line\<close>

lemma nth_concat_take:
  "i < length xss \<Longrightarrow> j < length (xss ! i) \<Longrightarrow> concat xss ! (length (concat (take i xss)) + j) = xss ! i ! j"
proof (induction xss arbitrary: i)
  case Nil
  then show ?case by simp
next
  case (Cons xs xss)
  then show ?case by (cases i) (simp_all add: nth_append)
qed

lemma concat_take_Suc: "i < length xss \<Longrightarrow> length (concat (take (Suc i) xss)) = length (concat (take i xss)) + length (xss ! i)"
  by (simp add: take_Suc_conv_app_nth)

lemma concat_take_le: "i \<le> length xss \<Longrightarrow> length (concat (take i xss)) \<le> length (concat xss)"
proof -
  have "length (concat xss) = length (concat (take i xss)) + length (concat (drop i xss))"
    by (metis append_take_drop_id concat_append length_append)
  then show ?thesis by simp
qed

text \<open>With non-empty definitions, only the last command of the last definition comes last.\<close>

lemma last_command:
  assumes "\<forall>xs \<in> set xss. xs \<noteq> []" "i < length xss" "j < length (xss ! i)"
  shows "Suc (length (concat (take i xss)) + j) = length (concat xss) \<longleftrightarrow> Suc j = length (xss ! i) \<and> Suc i = length xss"
proof -
  have eq: "length (concat xss) = length (concat (take i xss)) + length (xss ! i) + length (concat (drop (Suc i) xss))"
    by (metis assms(2) append_take_drop_id concat_append concat_take_Suc length_append)
  show ?thesis
  proof (cases "Suc i = length xss")
    case True
    then show ?thesis using eq assms(3) by simp
  next
    case False
    then have "xss ! Suc i \<in> set (drop (Suc i) xss)" using assms(2)
      by (metis Cons_nth_drop_Suc Suc_lessI list.set_intros(1))
    moreover have "xss ! Suc i \<noteq> []" using assms(1,2) False by simp
    ultimately have "concat (drop (Suc i) xss) \<noteq> []" by (metis concat_eq_Nil_conv)
    then have "0 < length (concat (drop (Suc i) xss))" by blast
    then show ?thesis using eq assms(3) False by linarith
  qed
qed

lemma first_command:
  assumes "\<forall>xs \<in> set xss. xs \<noteq> []" "i < length xss"
  shows "length (concat (take i xss)) + j = 0 \<longleftrightarrow> j = 0 \<and> i = 0"
proof (cases i)
  case 0
  then show ?thesis by simp
next
  case (Suc i')
  then obtain x xs where "xss = x # xs" using assms(2) by (cases xss) auto
  then show ?thesis using assms(1) Suc by simp
qed

lemma run_elem_mid:
  fixes elem :: "string vec"
  assumes env: "env_ok env (w_fds w0)" and ne: "\<forall>xs \<in> set xss. xs \<noteq> []" and i: "i < length xss" "unat n = length xss"
    and elem: "vec_rep elem (key # xss ! i)" and st: "midway w0 (concat xss) (length (concat (take i xss))) st"
  shows "\<exists>st'. run_elem env n i elem st = Ok st' \<and> midway w0 (concat xss) (length (concat (take (Suc i) xss))) st'"
proof -
  let ?off = "length (concat (take i xss))"
  have len: "unat (vlen elem) = Suc (length (xss ! i))" using vec_rep_len [OF elem] by simp
  have n1: "unat (vlen elem - 1) = length (xss ! i)" "unat (n - 1) = length xss - 1"
    using len i by (simp_all add: u64_sub)
  have "\<exists>st'. run_elem env n i elem st = Ok st' \<and> midway w0 (concat xss) (?off + (unat (vlen elem) - 1)) st'"
    unfolding run_elem_def
  proof (rule rfold_upt)
    fix j s
    assume j: "1 \<le> j" "j < unat (vlen elem)" and mid: "midway w0 (concat xss) (?off + (j - 1)) s"
    then obtain j' where j': "j = Suc j'" "j' < length (xss ! i)" using len by (cases j) auto
    have cmd: "vec_nth elem j = Ok (xss ! i ! j')" using vec_nth_rep [OF elem, of j] j' by simp
    have "?off + j' < length (concat xss)"
      using j'(2) concat_take_Suc [OF i(1)] concat_take_le [of "Suc i" xss] i(1) by linarith
    then obtain s' where s': "spawn env (?off + j' = 0) (Suc (?off + j') = length (concat xss)) (concat xss ! (?off + j')) s = Ok s'"
      "midway w0 (concat xss) (Suc (?off + j')) s'"
      using spawn_step [OF env, of "concat xss" "?off + j'" s] mid j' by auto
    moreover have "(j = 1 \<and> i = 0) \<longleftrightarrow> ?off + j' = 0" using first_command [OF ne i(1), of j'] j' by simp
    moreover have "(j = unat (vlen elem - 1) \<and> i = unat (n - 1)) \<longleftrightarrow> Suc (?off + j') = length (concat xss)"
      using last_command [OF ne i(1) j'(2)] i j' n1 by auto
    ultimately show "\<exists>s'. (let is_first = j = 1 \<and> i = 0; is_last = j = unat (vlen elem - 1) \<and> i = unat (n - 1)
        in rbind (vec_nth elem j) (\<lambda>cmd. spawn env is_first is_last cmd s)) = Ok s'
        \<and> midway w0 (concat xss) (?off + (Suc j - 1)) s'"
      using cmd j' nth_concat_take [OF i(1) j'(2)] by (auto simp: Let_def)
  qed (use st len in auto)
  then show ?thesis using len concat_take_Suc [OF i(1)] by simp
qed

lemma wait_all: "n \<le> w_live w \<Longrightarrow> wait_children n False w = Ok (w\<lparr>w_live := w_live w - n\<rparr>)"
  by (induction n arbitrary: w) auto

lemma run_pipeline_ok:
  fixes expr :: "string vec" and lookup :: "string \<Rightarrow> string vec option result"
  assumes env: "env_ok env (w_fds w)" and expr: "vec_rep expr names"
    and xss: "length xss = length names" "\<forall>xs \<in> set xss. xs \<noteq> []"
    and look: "\<forall>i < length names. \<exists>elem key. lookup (names ! i) = Ok (Some elem) \<and> vec_rep elem (key # xss ! i)"
  shows "run_pipeline env lookup expr w = Ok (pipeline_world w (concat xss))"
proof -
  have len: "unat (vlen expr) = length names" using vec_rep_len [OF expr] .
  have "\<exists>st'. run_line env lookup expr w = Ok st'
      \<and> midway w (concat xss) (length (concat (take (unat (vlen expr)) xss))) st'"
    unfolding run_line_def
  proof (rule rfold_upt)
    fix i s
    assume i: "i < unat (vlen expr)" and mid: "midway w (concat xss) (length (concat (take i xss))) s"
    then obtain elem key where e: "lookup (names ! i) = Ok (Some elem)" "vec_rep elem (key # xss ! i)"
      using look len by auto
    then show "\<exists>s'. rbind (vec_nth expr i) (\<lambda>name. rbind (lookup name) (\<lambda>res. case res of
        None \<Rightarrow> Err Assert_Fail | Some elem \<Rightarrow> run_elem env (vlen expr) i elem s)) = Ok s'
        \<and> midway w (concat xss) (length (concat (take (Suc i) xss))) s'"
      using run_elem_mid [OF env xss(2), of i "vlen expr" elem key s] mid i len xss(1) vec_nth_rep [OF expr, of i]
      by simp
  qed (auto simp: midway_def line_execs_def)
  then obtain w' l where st: "run_line env lookup expr w = Ok (w', l)"
    and mid: "midway w (concat xss) (length (concat xss)) (w', l)"
    using len xss(1) by auto
  have "w'\<lparr>w_live := w_live w' - nchild l\<rparr> = pipeline_world w (concat xss)"
    using mid by (auto simp: midway_def pipeline_world_def)
  then show ?thesis using mid st by (simp add: run_pipeline_def wait_all midway_def)
qed

section \<open>Properties\<close>

text \<open>
  C27: a line of defined names forks one child per command of the concatenated
  definitions, in order. Child \<open>k\<close> reads from pipe \<open>k - 1\<close> and writes to pipe \<open>k\<close> (the
  first inherits standard input, the last standard output), inherits no other pipe end,
  the interpreter ends with the descriptors it started with and waits for every child.
\<close>

theorem pipeline_plumbing:
  fixes expr :: "string vec" and lookup :: "string \<Rightarrow> string vec option result"
  assumes "env_ok env (w_fds w)" "vec_rep expr names" "length xss = length names" "\<forall>xs \<in> set xss. xs \<noteq> []"
    and "\<forall>i < length names. \<exists>elem key. lookup (names ! i) = Ok (Some elem) \<and> vec_rep elem (key # xss ! i)"
  shows "\<exists>w'. run_pipeline env lookup expr w = Ok w' \<and> w_fds w' = w_fds w \<and> w_live w' = w_live w
    \<and> w_execs w' = w_execs w @ map (\<lambda>k. (concat xss ! k, Ok (child_tab (w_fds w) (w_pipes w) (length (concat xss)) k)))
        [0..<length (concat xss)]"
  using run_pipeline_ok [OF assms] by (simp add: pipeline_world_def line_execs_def)

definition demo_env :: env where
  "demo_env = \<lparr>fd_limit = 10, fork_ok = \<lambda>_. True\<rparr>"

definition demo_world :: world where
  "demo_world = \<lparr>w_fds = [0 \<mapsto> Inherited 0, 1 \<mapsto> Inherited 1, 2 \<mapsto> Inherited 2],
     w_pipes = 0, w_forks = 0, w_live = 0, w_execs = []\<rparr>"

lemma demo_env_ok: "env_ok demo_env (w_fds demo_world)"
proof -
  have "card {3, 4, 5 :: nat} \<le> card {d. d < fd_limit demo_env \<and> w_fds demo_world d = None}"
    by (rule card_mono) (auto simp: demo_env_def demo_world_def)
  then show ?thesis by (simp add: env_ok_def) (simp add: demo_env_def demo_world_def)
qed

lemma vec_rep_block: "length xs < 2 ^ 64 \<Longrightarrow>
    vec_rep \<lparr>vcap = of_nat (length xs), vlen = of_nat (length xs), vdata = Some (map Some xs)\<rparr> xs"
  by (simp add: vec_rep_def unat_of_nat)

theorem pipeline_plumbing_witness:
  "\<exists>expr lookup w'. run_pipeline demo_env lookup (expr :: string vec) demo_world = Ok w'
    \<and> w_fds w' = w_fds demo_world \<and> w_live w' = w_live demo_world
    \<and> w_execs w' = w_execs demo_world @ map (\<lambda>k. (concat [[''ls'', ''sort''], [''wc'']] ! k,
        Ok (child_tab (w_fds demo_world) (w_pipes demo_world) (length (concat [[''ls'', ''sort''], [''wc'']])) k)))
        [0..<length (concat [[''ls'', ''sort''], [''wc'']])]"
proof -
  let ?v = "\<lambda>xs :: string list. \<lparr>vcap = of_nat (length xs), vlen = of_nat (length xs), vdata = Some (map Some xs)\<rparr>"
  let ?look = "\<lambda>n. Ok (Some (if n = ''a'' then ?v [''a'', ''ls'', ''sort''] else ?v [''b'', ''wc'']))"
  have rep: "vec_rep (?v xs) xs" if "length xs < 2 ^ 64" for xs :: "string list"
    using that by (rule vec_rep_block)
  have look: "\<forall>i < length [''a'', ''b'']. \<exists>elem key. ?look ([''a'', ''b''] ! i) = Ok (Some elem)
      \<and> vec_rep elem (key # [[''ls'', ''sort''], [''wc'']] ! i)"
  proof (intro allI impI)
    fix i assume "i < length [''a'', ''b'']"
    then consider "i = 0" | "i = 1" by fastforce
    then show "\<exists>elem key. ?look ([''a'', ''b''] ! i) = Ok (Some elem)
        \<and> vec_rep elem (key # [[''ls'', ''sort''], [''wc'']] ! i)"
    proof cases
      case 1
      then show ?thesis by (intro exI [of _ "?v [''a'', ''ls'', ''sort'']"] exI [of _ "''a''"]) (simp add: vec_rep_def)
    next
      case 2
      then show ?thesis by (intro exI [of _ "?v [''b'', ''wc'']"] exI [of _ "''b''"]) (simp add: vec_rep_def)
    qed
  qed
  show ?thesis
    by (rule exI, rule exI, rule pipeline_plumbing [OF demo_env_ok rep [of "[''a'', ''b'']"] _ _ look]) simp_all
qed

text \<open>
  Started with standard input closed, the interpreter breaks every line of two
  commands: the pipe's read end becomes descriptor 0, so in the second child \<open>dup2\<close> changes
  nothing and the \<open>close\<close> after it closes the standard input just set up.
\<close>

theorem second_child_loses_stdin:
  "t 0 = Some (Pipe_Read p) \<Longrightarrow> child_setup False True 0 r w t = Ok (t(0 := None))"
  by (simp add: child_setup_def or_exit_def sys_dup2_def sys_close_def)

theorem second_child_loses_stdin_witness:
  "child_setup False True 0 3 4 [0 \<mapsto> Pipe_Read 7] = Ok ([0 \<mapsto> Pipe_Read 7](0 := None))"
  by (rule second_child_loses_stdin) simp

end
