(* ===== verification/Interp.thy ===== *)
theory Interp
  imports Hashmap Vec Sized_Str Pipeline
begin

text \<open>
  The command interpreter of \<open>lab5/zad1/main.c\<close>: \<open>enum sm_state\<close>, \<open>struct sm_data\<close>, the
  state machine \<open>parser_sm\<close> with its three cached pointers, and \<open>main\<close>. A buffer is a
  string, a pointer into it an index, and the cached pointers \<open>nl\<close>, \<open>eq\<close> and \<open>pi\<close> (NULL or
  the next terminator) are arguments of the loop, so that a stale pointer is visible.
\<close>

section \<open>States\<close>

datatype sm_state =
    S_INVALID
  | S_DEF_BEFORE_WORD | S_DEF_INSIDE_WORD
  | S_EXP_BEFORE_WORD | S_EXP_INSIDE_WORD
  | S_ANY_BEFORE_WORD | S_ANY_INSIDE_WORD

primrec sm_code :: "sm_state \<Rightarrow> int" where
  "sm_code S_INVALID = -1"
| "sm_code S_DEF_BEFORE_WORD = 2"
| "sm_code S_DEF_INSIDE_WORD = 3"
| "sm_code S_EXP_BEFORE_WORD = 4"
| "sm_code S_EXP_INSIDE_WORD = 5"
| "sm_code S_ANY_BEFORE_WORD = 6"
| "sm_code S_ANY_INSIDE_WORD = 7"

definition sm_of :: "int \<Rightarrow> sm_state" where
  "sm_of n =
     (if n = 2 then S_DEF_BEFORE_WORD else if n = 3 then S_DEF_INSIDE_WORD
      else if n = 4 then S_EXP_BEFORE_WORD else if n = 5 then S_EXP_INSIDE_WORD
      else if n = 6 then S_ANY_BEFORE_WORD else if n = 7 then S_ANY_INSIDE_WORD
      else S_INVALID)"

text \<open>\<open>M_INSIDE\<close> is 1, \<open>M_DEF\<close> is 2, \<open>M_EXP\<close> is 4.\<close>

definition is_inside :: "sm_state \<Rightarrow> bool" where "is_inside s \<longleftrightarrow> sm_code s AND 1 \<noteq> 0"
definition is_def :: "sm_state \<Rightarrow> bool" where "is_def s \<longleftrightarrow> sm_code s AND 2 \<noteq> 0"
definition is_exp :: "sm_state \<Rightarrow> bool" where "is_exp s \<longleftrightarrow> sm_code s AND 4 \<noteq> 0"
definition only_def :: "sm_state \<Rightarrow> bool" where "only_def s \<longleftrightarrow> sm_code s AND (2 OR 4) = 2"
definition set_inside :: "sm_state \<Rightarrow> sm_state" where "set_inside s = sm_of (sm_code s OR 1)"
definition clear_inside :: "sm_state \<Rightarrow> sm_state" where "clear_inside s = sm_of (sm_code s AND NOT 1)"

lemma sm_table [simp]:
  "is_inside s \<longleftrightarrow> s \<in> {S_INVALID, S_DEF_INSIDE_WORD, S_EXP_INSIDE_WORD, S_ANY_INSIDE_WORD}"
  "is_def s \<longleftrightarrow> s \<notin> {S_EXP_BEFORE_WORD, S_EXP_INSIDE_WORD}"
  "is_exp s \<longleftrightarrow> s \<notin> {S_DEF_BEFORE_WORD, S_DEF_INSIDE_WORD}"
  "only_def s \<longleftrightarrow> s \<in> {S_DEF_BEFORE_WORD, S_DEF_INSIDE_WORD}"
  by (cases s; simp add: is_inside_def is_def_def is_exp_def only_def_def)+

lemma sm_changes [simp]:
  "set_inside S_DEF_BEFORE_WORD = S_DEF_INSIDE_WORD" "set_inside S_EXP_BEFORE_WORD = S_EXP_INSIDE_WORD"
  "set_inside S_ANY_BEFORE_WORD = S_ANY_INSIDE_WORD" "clear_inside S_DEF_INSIDE_WORD = S_DEF_BEFORE_WORD"
  "clear_inside S_EXP_INSIDE_WORD = S_EXP_BEFORE_WORD" "clear_inside S_ANY_INSIDE_WORD = S_ANY_BEFORE_WORD"
  "clear_inside S_DEF_BEFORE_WORD = S_DEF_BEFORE_WORD"
  by (simp_all add: set_inside_def clear_inside_def sm_of_def)

section \<open>The context\<close>

datatype diag =
    Expected_Word_Got char
  | Expected_Word_Got_Newline
  | Expected_Word_Got_Control
  | Unknown_Definition string
  | Got_Equals

record sm_data =
  lineno :: u64
  definitions :: "string vec hashmap"
  cur_expr :: "string vec"
  scratch :: sstr

text \<open>The context with the effects: what was written to \<open>stderr\<close>, and the processes.\<close>

record istate = sm_data +
  err_out :: "(u64 \<times> diag) list"
  sm_world :: world

definition hash_free_fn :: "string vec \<Rightarrow> unit result" where
  "hash_free_fn v = rbind (vec_free v True) (\<lambda>_. Ok ())"

definition parser_init :: "world \<Rightarrow> istate \<times> sm_state" where
  "parser_init w =
     (\<lparr>lineno = 1, definitions = hash_zero (Some hash_free_fn), cur_expr = vec_zero, scratch = ss_zero,
       err_out = [], sm_world = w\<rparr>, S_ANY_BEFORE_WORD)"

definition report :: "diag \<Rightarrow> istate \<Rightarrow> istate" where
  "report d ctx = ctx\<lparr>err_out := err_out ctx @ [(lineno ctx, d)]\<rparr>"

section \<open>Before a word\<close>

definition skip_spaces :: "string \<Rightarrow> nat \<Rightarrow> nat" where
  "skip_spaces buf b = b + length (takeWhile (\<lambda>c. c = SPC) (drop b buf))"

datatype start =
    Return istate sm_state
  | Empty_Line nat istate
  | In_Word nat sm_state

definition word_start :: "string \<Rightarrow> nat \<Rightarrow> istate \<Rightarrow> sm_state \<Rightarrow> start" where
  "word_start buf b0 ctx s =
     (if is_inside s then In_Word b0 s
      else let b = skip_spaces buf b0
           in if b = length buf then Return ctx s
              else let c = buf ! b
                   in if c = CHR ''='' \<or> c = CHR ''|'' then Return (report (Expected_Word_Got c) ctx) S_INVALID
                      else if c = NL then
                        (if s \<noteq> S_ANY_BEFORE_WORD then Return (report Expected_Word_Got_Newline ctx) S_INVALID
                         else Empty_Line (b + 1) (ctx\<lparr>lineno := lineno ctx + 1\<rparr>))
                      else if schar c < 0x20 then Return (report Expected_Word_Got_Control ctx) S_INVALID
                      else In_Word b (set_inside s))"

section \<open>The end of a word\<close>

text \<open>The nearest terminator; \<open>'='\<close> is not one in a definition.\<close>

definition word_term :: "nat option \<Rightarrow> nat option \<Rightarrow> nat option \<Rightarrow> sm_state \<Rightarrow> nat option" where
  "word_term nl eq pi s =
     (let t1 = (if \<not> only_def s \<and> eq \<noteq> None \<and> (nl = None \<or> the nl > the eq) then eq else nl)
      in if pi \<noteq> None \<and> (t1 = None \<or> the t1 > the pi) then pi else t1)"

text \<open>
  The stripping loop, on the block and the length. \<open>p\<close> starts at \<open>data[len - 1]\<close>; walking
  below \<open>data[0]\<close> is undefined.
\<close>

fun strip_spaces :: "string \<Rightarrow> nat \<Rightarrow> (string \<times> nat) result" where
  "strip_spaces d 0 = Err Undef_Behaviour"
| "strip_spaces d (Suc p) =
     (if length d \<le> p then Err Undef_Behaviour
      else if d ! p = SPC then strip_spaces (d[p := NUL]) p
      else Ok (d, Suc p))"

definition strip_scratch :: "sstr \<Rightarrow> sstr result" where
  "strip_scratch ss =
     (case sdata ss of
        None \<Rightarrow> Err Undef_Behaviour
      | Some d \<Rightarrow> rbind (strip_spaces d (unat (slen ss))) (\<lambda>(d, l). Ok (ss\<lparr>sdata := Some d, slen := of_nat l\<rparr>)))"

definition finish_word :: "allocator \<Rightarrow> istate \<Rightarrow> istate result" where
  "finish_word al ctx =
     rbind (strip_scratch (scratch ctx)) (\<lambda>ss.
       case ss_take ss of
         (None, _) \<Rightarrow> Err Undef_Behaviour
       | (Some w, ss) \<Rightarrow>
           rbind (vec_push al (cur_expr ctx) w) (\<lambda>v. Ok (ctx\<lparr>scratch := ss, cur_expr := v\<rparr>)))"

text \<open>Fail early for expressions referencing nonexistent definitions.\<close>

definition early_check :: "istate \<Rightarrow> (bool \<times> istate) result" where
  "early_check ctx =
     rbind (vec_nth (cur_expr ctx) (unat (vlen (cur_expr ctx) - 1))) (\<lambda>name.
     rbind (hash_get (definitions ctx) name) (\<lambda>res.
       Ok (case res of None \<Rightarrow> (False, report (Unknown_Definition name) ctx) | Some _ \<Rightarrow> (True, ctx))))"

definition line_end :: "allocator \<Rightarrow> env \<Rightarrow> istate \<Rightarrow> sm_state \<Rightarrow> (istate \<times> sm_state) result" where
  "line_end al env ctx s =
     (if is_exp s then
        rbind (early_check ctx) (\<lambda>(ok, ctx).
          if \<not> ok then Ok (ctx, S_INVALID)
          else rbind (run_pipeline env (hash_get (definitions ctx)) (cur_expr ctx) (sm_world ctx)) (\<lambda>w.
               rbind (vec_free (cur_expr ctx) True) (\<lambda>_.
                 Ok (ctx\<lparr>sm_world := w, cur_expr := vec_zero, lineno := lineno ctx + 1\<rparr>, S_ANY_BEFORE_WORD))))
      else
        rbind (vec_nth (cur_expr ctx) 0) (\<lambda>key.
          if \<not> al 24 then Err Undef_Behaviour
          else rbind (hash_add al (definitions ctx) key (cur_expr ctx)) (\<lambda>(m, _).
                 Ok (ctx\<lparr>cur_expr := vec_zero, definitions := m, lineno := lineno ctx + 1\<rparr>, S_ANY_BEFORE_WORD))))"

definition word_pipe :: "istate \<Rightarrow> sm_state \<Rightarrow> (istate \<times> sm_state) result" where
  "word_pipe ctx s0 =
     (let s = (if is_def s0 \<and> is_exp s0 then S_EXP_BEFORE_WORD else s0)
      in if is_exp s then rbind (early_check ctx) (\<lambda>(ok, ctx). Ok (ctx, if ok then s else S_INVALID))
         else Ok (ctx, s))"

definition word_equals :: "istate \<Rightarrow> sm_state \<Rightarrow> (istate \<times> sm_state) result" where
  "word_equals ctx s =
     (if s \<noteq> S_ANY_BEFORE_WORD
      then rbind (c_assert (s = S_EXP_BEFORE_WORD)) (\<lambda>_. Ok (report Got_Equals ctx, S_INVALID))
      else Ok (ctx, S_DEF_BEFORE_WORD))"

text \<open>From the stripping to the end of the \<open>switch\<close>, for the terminator \<open>c\<close>.\<close>

definition word_end :: "allocator \<Rightarrow> env \<Rightarrow> istate \<Rightarrow> sm_state \<Rightarrow> char \<Rightarrow> (istate \<times> sm_state) result" where
  "word_end al env ctx s0 c =
     rbind (finish_word al ctx) (\<lambda>ctx.
       let s = clear_inside s0
       in if c = NL then line_end al env ctx s
          else if c = CHR ''|'' then word_pipe ctx s
          else if c = CHR ''='' then word_equals ctx s
          else Err Assert_Fail)"

section \<open>The loop\<close>

text \<open>
  \<open>while (begin < end && *s != S_INVALID)\<close>. Each \<open>return\<close> with \<open>S_INVALID\<close> is a last turn.
  The pointers are refreshed as the code does it: \<open>nl\<close> and \<open>eq\<close> after a line, \<open>nl\<close> alone
  after an empty line, \<open>pi\<close> after a pipe, \<open>eq\<close> after an equals sign. A terminator behind
  \<open>begin\<close> would make \<open>ss_push\<close> read a negative length.
\<close>

lemma word_start_ge:
  "word_start buf b ctx s = In_Word b' s' \<Longrightarrow> b \<le> b'"
  "word_start buf b ctx s = Empty_Line b' ctx' \<Longrightarrow> b < b'"
  by (auto simp: word_start_def skip_spaces_def Let_def split: if_splits)

function parser_loop ::
    "allocator \<Rightarrow> env \<Rightarrow> string \<Rightarrow> nat \<Rightarrow> nat option \<Rightarrow> nat option \<Rightarrow> nat option \<Rightarrow>
      istate \<Rightarrow> sm_state \<Rightarrow> (istate \<times> sm_state) result" where
  "parser_loop al env buf b nl eq pi ctx s =
     (if \<not> (b < length buf \<and> s \<noteq> S_INVALID) then Ok (ctx, s)
      else case word_start buf b ctx s of
        Return ctx s \<Rightarrow> Ok (ctx, s)
      | Empty_Line b' ctx' \<Rightarrow> parser_loop al env buf b' (memchr_from buf b' NL) eq pi ctx' s
      | In_Word b' s' \<Rightarrow>
          (case word_term nl eq pi s' of
             None \<Rightarrow> rbind (ss_push al (scratch ctx) (drop b' buf)) (\<lambda>ss. Ok (ctx\<lparr>scratch := ss\<rparr>, s'))
           | Some t \<Rightarrow>
               if t < b' \<or> length buf \<le> t then Err Undef_Behaviour
               else rbind (ss_push al (scratch ctx) (take (t - b') (drop b' buf))) (\<lambda>ss.
                    rbind (word_end al env (ctx\<lparr>scratch := ss\<rparr>) s' (buf ! t)) (\<lambda>(ctx', s'').
                      let c = buf ! t; b'' = t + 1
                      in parser_loop al env buf b''
                           (if c = NL then memchr_from buf b'' NL else nl)
                           (if c = NL \<or> c = CHR ''='' then memchr_from buf b'' (CHR ''='') else eq)
                           (if c = CHR ''|'' then memchr_from buf b'' (CHR ''|'') else pi)
                           ctx' s''))))"
  by pat_completeness auto
termination
  by (relation "measure (\<lambda>(al, env, buf, b, nl, eq, pi, ctx, s). length buf - b)")
    (auto dest: word_start_ge)

declare parser_loop.simps [simp del]

definition parser_sm ::
    "allocator \<Rightarrow> env \<Rightarrow> istate \<Rightarrow> sm_state \<Rightarrow> string \<Rightarrow> (istate \<times> sm_state) result" where
  "parser_sm al env ctx s buf =
     parser_loop al env buf 0 (memchr_from buf 0 NL) (memchr_from buf 0 (CHR ''=''))
       (memchr_from buf 0 (CHR ''|'')) ctx s"

text \<open>
  \<open>main\<close> after the file is open: \<open>blocks\<close> is what the calls of \<open>read\<close> deliver, \<open>read_err\<close>
  says that the last call failed. The result is the exit status with the final state.
\<close>

fun read_loop ::
    "allocator \<Rightarrow> env \<Rightarrow> bool \<Rightarrow> string list \<Rightarrow> istate \<Rightarrow> sm_state \<Rightarrow> (int \<times> istate) result" where
  "read_loop al env read_err [] ctx s =
     (if read_err then Ok (1, ctx)
      else rbind (hash_clear (definitions ctx)) (\<lambda>(m, _). Ok (0, ctx\<lparr>definitions := m\<rparr>)))"
| "read_loop al env read_err (buf # bufs) ctx s =
     rbind (parser_sm al env ctx s buf) (\<lambda>(ctx, s).
       if s = S_INVALID then Ok (1, ctx) else read_loop al env read_err bufs ctx s)"

definition interp_main :: "allocator \<Rightarrow> env \<Rightarrow> bool \<Rightarrow> world \<Rightarrow> string list \<Rightarrow> (int \<times> istate) result" where
  "interp_main al env read_err w blocks =
     (let (ctx, s) = parser_init w in read_loop al env read_err blocks ctx s)"

end
