(* ===== verification/Interp_Ref.thy ===== *)
theory Interp_Ref
  imports Interp
begin

text \<open>
  What the interpreter of \<open>lab5/zad1/main.c\<close> is meant to do, as a machine that consumes one
  character at a time and keeps plain lists, and the proof that \<open>parser_sm\<close>, with its
  cached pointers, growing buffers and hash table, implements that machine on every block.
\<close>

section \<open>The reference machine\<close>

record rstate =
  r_mode :: sm_state
  r_words :: "string list"
  r_scratch :: string
  r_defs :: "(string \<times> string list) list"
  r_line :: u64
  r_err :: "(u64 \<times> diag) list"
  r_world :: world

definition rstrip :: "string \<Rightarrow> string" where
  "rstrip s = rev (dropWhile (\<lambda>c. c = SPC) (rev s))"

definition r_report :: "diag \<Rightarrow> rstate \<Rightarrow> rstate" where
  "r_report d r = r\<lparr>r_err := r_err r @ [(r_line r, d)], r_mode := S_INVALID\<rparr>"

definition is_term :: "sm_state \<Rightarrow> char \<Rightarrow> bool" where
  "is_term s c \<longleftrightarrow> c = NL \<or> c = CHR ''|'' \<or> c = CHR ''='' \<and> \<not> only_def s"

text \<open>The name just completed must be defined; a lookup in an empty table aborts.\<close>

definition ref_check :: "rstate \<Rightarrow> (bool \<times> rstate) result" where
  "ref_check r =
     (if r_defs r = [] then Err Assert_Fail
      else case map_of (r_defs r) (last (r_words r)) of
             None \<Rightarrow> Ok (False, r_report (Unknown_Definition (last (r_words r))) r)
           | Some _ \<Rightarrow> Ok (True, r))"

definition ref_commands :: "rstate \<Rightarrow> string list" where
  "ref_commands r = concat (map (\<lambda>n. the (map_of (r_defs r) n)) (r_words r))"

definition ref_line :: "rstate \<Rightarrow> rstate result" where
  "ref_line r =
     (if is_exp (r_mode r) then
        rbind (ref_check r) (\<lambda>(ok, r). Ok
          (if ok then r\<lparr>r_world := pipeline_world (r_world r) (ref_commands r), r_words := [],
                       r_line := r_line r + 1, r_mode := S_ANY_BEFORE_WORD\<rparr>
           else r))
      else Ok (r\<lparr>r_defs := (hd (r_words r), tl (r_words r)) # r_defs r, r_words := [],
                 r_line := r_line r + 1, r_mode := S_ANY_BEFORE_WORD\<rparr>))"

definition ref_pipe :: "rstate \<Rightarrow> rstate result" where
  "ref_pipe r =
     (let r = (if r_mode r = S_ANY_BEFORE_WORD then r\<lparr>r_mode := S_EXP_BEFORE_WORD\<rparr> else r)
      in if is_exp (r_mode r) then rbind (ref_check r) (\<lambda>(_, r). Ok r) else Ok r)"

definition ref_equals :: "rstate \<Rightarrow> rstate result" where
  "ref_equals r =
     Ok (if r_mode r = S_ANY_BEFORE_WORD then r\<lparr>r_mode := S_DEF_BEFORE_WORD\<rparr> else r_report Got_Equals r)"

definition ref_word_end :: "char \<Rightarrow> rstate \<Rightarrow> rstate result" where
  "ref_word_end c r0 =
     (let r = r0\<lparr>r_words := r_words r0 @ [rstrip (r_scratch r0)], r_scratch := [],
                 r_mode := clear_inside (r_mode r0)\<rparr>
      in if c = NL then ref_line r else if c = CHR ''|'' then ref_pipe r else ref_equals r)"

definition ref_before :: "char \<Rightarrow> rstate \<Rightarrow> rstate" where
  "ref_before c r =
     (if c = SPC then r
      else if c = CHR ''='' \<or> c = CHR ''|'' then r_report (Expected_Word_Got c) r
      else if c = NL then
        (if r_mode r = S_ANY_BEFORE_WORD then r\<lparr>r_line := r_line r + 1\<rparr>
         else r_report Expected_Word_Got_Newline r)
      else if schar c < 0x20 then r_report Expected_Word_Got_Control r
      else r\<lparr>r_mode := set_inside (r_mode r), r_scratch := [c]\<rparr>)"

definition ref_step :: "rstate \<Rightarrow> char \<Rightarrow> rstate result" where
  "ref_step r c =
     (if r_mode r = S_INVALID then Ok r
      else if is_inside (r_mode r) then
        (if is_term (r_mode r) c then ref_word_end c r else Ok (r\<lparr>r_scratch := r_scratch r @ [c]\<rparr>))
      else Ok (ref_before c r))"

definition ref_init :: "world \<Rightarrow> rstate" where
  "ref_init w = \<lparr>r_mode = S_ANY_BEFORE_WORD, r_words = [], r_scratch = [], r_defs = [],
     r_line = 1, r_err = [], r_world = w\<rparr>"

lemma ref_invalid: "r_mode r = S_INVALID \<Longrightarrow> rfold ref_step r cs = Ok r"
  by (induction cs) (simp_all add: ref_step_def)

lemma ref_spaces:
  assumes "r_mode r \<noteq> S_INVALID" "\<not> is_inside (r_mode r)" "\<forall>c \<in> set cs. c = SPC"
  shows "rfold ref_step r cs = Ok r"
  using assms by (induction cs) (simp_all add: ref_step_def ref_before_def del: sm_table)

lemma ref_word:
  assumes "r_mode r \<noteq> S_INVALID" "is_inside (r_mode r)" "\<forall>c \<in> set cs. \<not> is_term (r_mode r) c"
  shows "rfold ref_step r cs = Ok (r\<lparr>r_scratch := r_scratch r @ cs\<rparr>)"
  using assms by (induction cs arbitrary: r) (simp_all add: ref_step_def del: sm_table)

section \<open>The simulation relation\<close>

definition starts_word :: "string \<Rightarrow> bool" where
  "starts_word s \<longleftrightarrow> s \<noteq> [] \<and> hd s \<noteq> SPC"

text \<open>What the reference machine knows in each mode.\<close>

definition mode_inv :: "rstate \<Rightarrow> bool" where
  "mode_inv r \<longleftrightarrow>
     (if is_inside (r_mode r) then starts_word (r_scratch r) else r_scratch r = [])
     \<and> (r_mode r \<in> {S_ANY_BEFORE_WORD, S_ANY_INSIDE_WORD} \<longrightarrow> r_words r = [])
     \<and> (r_mode r \<in> {S_DEF_BEFORE_WORD, S_DEF_INSIDE_WORD} \<longrightarrow> r_words r \<noteq> [])
     \<and> (r_mode r \<in> {S_EXP_BEFORE_WORD, S_EXP_INSIDE_WORD} \<longrightarrow>
          r_words r \<noteq> [] \<and> set (r_words r) \<subseteq> dom (map_of (r_defs r)))
     \<and> (\<forall>d \<in> set (r_defs r). snd d \<noteq> [])"

definition defs_rep :: "string vec hashmap \<Rightarrow> (string \<times> string list) list \<Rightarrow> nat \<Rightarrow> bool" where
  "defs_rep m ds n \<longleftrightarrow> (\<exists>f. hm_rep m f \<and> hfree m = Some hash_free_fn \<and> occupied m \<le> n
     \<and> (hsize m = 0 \<longleftrightarrow> ds = [])
     \<and> (\<forall>k. rel_option (\<lambda>v cmds. vec_rep v (k # cmds)) (f k) (map_of ds k)))"

definition rel :: "env \<Rightarrow> nat \<Rightarrow> istate \<Rightarrow> rstate \<Rightarrow> bool" where
  "rel env n ctx r \<longleftrightarrow>
     lineno ctx = r_line r \<and> err_out ctx = r_err r \<and> sm_world ctx = r_world r
     \<and> (r_mode r \<noteq> S_INVALID \<longrightarrow> env_ok env (w_fds (r_world r))
        \<and> ss_rep (scratch ctx) (r_scratch r) \<and> length (r_scratch r) \<le> n
        \<and> vec_rep (cur_expr ctx) (r_words r) \<and> length (r_words r) \<le> n
        \<and> defs_rep (definitions ctx) (r_defs r) n \<and> mode_inv r)"

text \<open>Outcomes that correspond.\<close>

definition matches :: "env \<Rightarrow> nat \<Rightarrow> (istate \<times> sm_state) result \<Rightarrow> rstate result \<Rightarrow> bool" where
  "matches env n impl spec \<longleftrightarrow>
     (case spec of
        Inl e \<Rightarrow> impl = Inl e
      | Inr r \<Rightarrow> \<exists>ctx. impl = Inr (ctx, r_mode r) \<and> rel env n ctx r)"

text \<open>The number of characters up to which no buffer or table reaches its limit.\<close>

definition interp_limit :: nat where "interp_limit = 2 ^ 55"

lemma matches_Ok: "rel env n ctx r \<Longrightarrow> s = r_mode r \<Longrightarrow> matches env n (Ok (ctx, s)) (Ok r)"
  by (simp add: matches_def)

lemma matches_mono: "matches env n impl spec \<Longrightarrow> (\<And>ctx r. rel env n ctx r \<Longrightarrow> rel env n' ctx r) \<Longrightarrow> matches env n' impl spec"
  by (auto simp: matches_def split: sum.splits)

lemma rel_mono: "rel env n ctx r \<Longrightarrow> n \<le> n' \<Longrightarrow> rel env n' ctx r"
  unfolding rel_def defs_rep_def by (meson order_trans)

section \<open>Stripping\<close>

lemma rstrip_snoc: "rstrip (s @ [c]) = (if c = SPC then rstrip s else s @ [c])"
  by (simp add: rstrip_def)

lemma rstrip_nonempty: "starts_word s \<Longrightarrow> rstrip s \<noteq> []"
  by (cases s) (auto simp: starts_word_def rstrip_def dropWhile_append)

lemma strip_spaces_ok:
  "take (Suc (length s)) d = s @ [NUL] \<Longrightarrow> rstrip s \<noteq> [] \<Longrightarrow>
    \<exists>d'. strip_spaces d (length s) = Ok (d', length (rstrip s)) \<and> length d' = length d
      \<and> take (Suc (length (rstrip s))) d' = rstrip s @ [NUL]"
proof (induction s arbitrary: d rule: rev_induct)
  case Nil
  then show ?case by (simp add: rstrip_def)
next
  case (snoc c s)
  then have t: "take (Suc (Suc (length s))) d = s @ [c, NUL]" by simp
  have len: "length (take (Suc (Suc (length s))) d) = Suc (Suc (length s))" using t by simp
  then have d: "Suc (length s) < length d" by simp
  have c: "d ! length s = c" using t d by (metis length_append_singleton lessI less_SucI nth_append_length nth_take)
  show ?case
  proof (cases "c = SPC")
    case False
    then show ?thesis using snoc.prems c d by (simp add: rstrip_snoc)
  next
    case True
    have "take (Suc (length s)) (d[length s := NUL]) = s @ [NUL]"
      using t d by (simp add: take_Suc_conv_app_nth list_update_append)
    with snoc.IH [of "d[length s := NUL]"] snoc.prems True c d show ?thesis
      by (simp add: rstrip_snoc)
  qed
qed

lemma strip_scratch_rep:
  assumes rep: "ss_rep ss s" and s: "starts_word s" "length s \<le> interp_limit"
  shows "\<exists>ss'. strip_scratch ss = Ok ss' \<and> ss_take ss' = (Some (rstrip s), ss_zero)"
proof -
  have ne: "rstrip s \<noteq> []" using s(1) by (rule rstrip_nonempty)
  obtain d where d: "sdata ss = Some d" using ss_rep_nonempty [OF rep] s(1) by (auto simp: starts_word_def)
  have t: "take (Suc (length s)) d = s @ [NUL]" and n: "NUL \<notin> set s" and cap: "Suc (unat (scap ss)) \<le> length d"
    and l: "unat (slen ss) = length s" using rep d by (auto simp: ss_rep_def)
  obtain d' where d': "strip_spaces d (length s) = Ok (d', length (rstrip s))" "length d' = length d"
    "take (Suc (length (rstrip s))) d' = rstrip s @ [NUL]"
    using strip_spaces_ok [OF t ne] by blast
  have sub: "set (rstrip s) \<subseteq> set s" unfolding rstrip_def by (auto dest: set_dropWhileD)
  have "length (rstrip s) \<le> length s" unfolding rstrip_def by (metis length_dropWhile_le length_rev)
  then have l': "unat (of_nat (length (rstrip s)) :: u64) = length (rstrip s)"
    using s(2) by (intro u64_of_nat) (simp add: interp_limit_def)
  let ?ss = "ss\<lparr>sdata := Some d', slen := of_nat (length (rstrip s))\<rparr>"
  have "ss_rep ?ss (rstrip s)" using d' l' n sub cap by (auto simp: ss_rep_def)
  then have "ss_take ?ss = (Some (rstrip s), ss_zero)" using ne by (rule ss_take_rep)
  then show ?thesis using d d' l by (simp add: strip_scratch_def)
qed

section \<open>The end of a word\<close>

lemma finish_word_ok:
  assumes "ss_rep (scratch ctx) s" "starts_word s" "length s \<le> interp_limit"
    and "vec_rep (cur_expr ctx) ws" "length ws < interp_limit"
  shows "\<exists>v. finish_word plenty ctx = Ok (ctx\<lparr>scratch := ss_zero, cur_expr := v\<rparr>) \<and> vec_rep v (ws @ [rstrip s])"
proof -
  obtain ss where "strip_scratch (scratch ctx) = Ok ss" "ss_take ss = (Some (rstrip s), ss_zero)"
    using strip_scratch_rep assms by blast
  moreover obtain v where "vec_push plenty (cur_expr ctx) (rstrip s) = Ok v" "vec_rep v (ws @ [rstrip s])"
    using vec_push_rep [OF assms(4), of "rstrip s"] assms(5) by (auto simp: vec_limit_def interp_limit_def)
  ultimately show ?thesis by (intro exI [of _ v]) (simp add: finish_word_def)
qed

lemma defs_lookup:
  assumes "defs_rep m ds n" "ds \<noteq> []"
  shows "\<exists>r. hash_get m k = Ok r \<and> rel_option (\<lambda>v cmds. vec_rep v (k # cmds)) r (map_of ds k)"
proof -
  obtain f where f: "hm_rep m f" "hsize m \<noteq> 0" "rel_option (\<lambda>v cmds. vec_rep v (k # cmds)) (f k) (map_of ds k)"
    using assms by (auto simp: defs_rep_def)
  then show ?thesis using hash_get_rep by blast
qed

lemma last_of_vec:
  assumes "vec_rep v ws" "ws \<noteq> []"
  shows "vec_nth v (unat (vlen v - 1)) = Ok (last ws)"
proof -
  have "unat (vlen v - 1) = length ws - 1"
    using assms by (subst u64_sub) (auto simp: vec_rep_len Suc_le_eq)
  then show ?thesis using vec_nth_rep [OF assms(1), of "length ws - 1"] assms(2) by (simp add: last_conv_nth)
qed

lemma early_check_ok:
  assumes defs: "defs_rep (definitions ctx) ds n" and ws: "vec_rep (cur_expr ctx) ws" "ws \<noteq> []"
  shows "early_check ctx =
    (if ds = [] then Err Assert_Fail
     else Ok (case map_of ds (last ws) of
                None \<Rightarrow> (False, report (Unknown_Definition (last ws)) ctx)
              | Some _ \<Rightarrow> (True, ctx)))"
proof (cases "ds = []")
  case True
  then have "hsize (definitions ctx) = 0" using defs by (auto simp: defs_rep_def)
  then show ?thesis using True last_of_vec [OF ws] by (simp add: early_check_def hash_get_unallocated)
next
  case False
  with defs_lookup [OF defs, of "last ws"] last_of_vec [OF ws] show ?thesis
    by (auto simp: early_check_def elim!: option.rel_cases)
qed

lemma vec_free_any:
  fixes v :: "'a vec"
  assumes "vec_rep v ws" "ws \<noteq> []"
  shows "vec_free v True = Ok (vec_zero, ws)"
  using assms by (simp add: vec_free_rep vec_rep_nonempty)

lemma run_names_ok:
  assumes defs: "defs_rep (definitions ctx) ds n" and ws: "vec_rep (cur_expr ctx) ws" "ds \<noteq> []"
    and dom: "set ws \<subseteq> dom (map_of ds)" and ne: "\<forall>d \<in> set ds. snd d \<noteq> []"
    and env: "env_ok env (w_fds (sm_world ctx))"
  shows "run_pipeline env (hash_get (definitions ctx)) (cur_expr ctx) (sm_world ctx)
    = Ok (pipeline_world (sm_world ctx) (concat (map (\<lambda>n. the (map_of ds n)) ws)))"
proof (rule run_pipeline_ok [OF env ws(1)])
  show "\<forall>xs \<in> set (map (\<lambda>n. the (map_of ds n)) ws). xs \<noteq> []"
    using dom ne by (force dest: map_of_SomeD)
  show "\<forall>i < length ws. \<exists>elem key. hash_get (definitions ctx) (ws ! i) = Ok (Some elem)
      \<and> vec_rep elem (key # map (\<lambda>n. the (map_of ds n)) ws ! i)"
  proof (intro allI impI)
    fix i assume i: "i < length ws"
    then have "ws ! i \<in> dom (map_of ds)" using dom nth_mem by blast
    then obtain cmds where "map_of ds (ws ! i) = Some cmds" by blast
    with defs_lookup [OF defs ws(2), of "ws ! i"] i
    show "\<exists>elem key. hash_get (definitions ctx) (ws ! i) = Ok (Some elem)
        \<and> vec_rep elem (key # map (\<lambda>n. the (map_of ds n)) ws ! i)"
      by (auto simp: option_rel_Some2)
  qed
qed simp

lemma defs_add:
  assumes defs: "defs_rep m ds n" and v: "vec_rep v (k # cmds)" and n: "n < interp_limit"
  shows "\<exists>m' fr. hash_add plenty m k v = Ok (m', fr) \<and> defs_rep m' ((k, cmds) # ds) (Suc n)"
proof -
  obtain f where f: "hm_rep m f" "hfree m = Some hash_free_fn" "occupied m \<le> n"
    "\<forall>k. rel_option (\<lambda>v cmds. vec_rep v (k # cmds)) (f k) (map_of ds k)"
    using defs by (auto simp: defs_rep_def)
  have cb: "g old = Ok ()" if "f k = Some old" "hfree m = Some g" for old g
  proof -
    have "rel_option (\<lambda>v cmds. vec_rep v (k # cmds)) (f k) (map_of ds k)" using f(4) by blast
    with that f(2) show ?thesis by (auto simp: option_rel_Some1 hash_free_fn_def vec_free_any)
  qed
  obtain m' where m': "hash_add plenty m k v = Ok (m', released m (f k))" "hm_rep m' (f(k \<mapsto> v))"
    "hsize m' \<noteq> 0" "occupied m' \<le> Suc (occupied m)" "hfree m' = hfree m"
    using hash_add_rep [of m f k v] f(1,3) n cb by (auto simp: interp_limit_def hash_limit_def)
  then have "defs_rep m' ((k, cmds) # ds) (Suc n)"
    using f v unfolding defs_rep_def by (intro exI [of _ "f(k \<mapsto> v)"]) auto
  with m' show ?thesis by blast
qed

text \<open>After the word is pushed and before the \<open>switch\<close>.\<close>

definition word_done :: "env \<Rightarrow> nat \<Rightarrow> istate \<Rightarrow> rstate \<Rightarrow> bool" where
  "word_done env n ctx r \<longleftrightarrow>
     lineno ctx = r_line r \<and> err_out ctx = r_err r \<and> sm_world ctx = r_world r
     \<and> env_ok env (w_fds (r_world r)) \<and> scratch ctx = ss_zero \<and> r_scratch r = []
     \<and> vec_rep (cur_expr ctx) (r_words r) \<and> length (r_words r) \<le> n \<and> r_words r \<noteq> []
     \<and> defs_rep (definitions ctx) (r_defs r) (n - 1) \<and> 0 < n \<and> n \<le> interp_limit
     \<and> r_mode r \<in> {S_DEF_BEFORE_WORD, S_EXP_BEFORE_WORD, S_ANY_BEFORE_WORD}
     \<and> (r_mode r = S_ANY_BEFORE_WORD \<longrightarrow> length (r_words r) = 1)
     \<and> (r_mode r = S_DEF_BEFORE_WORD \<longrightarrow> tl (r_words r) \<noteq> [])
     \<and> (r_mode r = S_EXP_BEFORE_WORD \<longrightarrow> set (butlast (r_words r)) \<subseteq> dom (map_of (r_defs r)))
     \<and> (\<forall>d \<in> set (r_defs r). snd d \<noteq> [])"

lemma defs_rep_mono: "defs_rep m ds n \<Longrightarrow> n \<le> n' \<Longrightarrow> defs_rep m ds n'"
  unfolding defs_rep_def by (meson order_trans)

lemma pipeline_world_fds [simp]: "w_fds (pipeline_world w cmds) = w_fds w"
  by (simp add: pipeline_world_def)

lemma names_defined:
  assumes "word_done env n ctx r" "is_exp (r_mode r)" "map_of (r_defs r) (last (r_words r)) = Some cmds"
  shows "set (r_words r) \<subseteq> dom (map_of (r_defs r))"
proof -
  have ne: "r_words r \<noteq> []" using assms(1) by (simp add: word_done_def)
  have "set (butlast (r_words r)) \<subseteq> dom (map_of (r_defs r))"
    using assms(1,2) by (cases "r_words r") (auto simp: word_done_def)
  moreover have "r_words r = butlast (r_words r) @ [last (r_words r)]" using ne by simp
  then have "set (r_words r) = insert (last (r_words r)) (set (butlast (r_words r)))"
    by (metis list.set(1) list.set(2) set_append Un_insert_right sup_bot_right)
  ultimately show ?thesis using assms(3) by auto
qed

lemma line_matches:
  assumes wd: "word_done env n ctx r"
  shows "matches env n (line_end plenty env ctx (r_mode r)) (ref_line r)"
proof (cases "is_exp (r_mode r)")
  case True
  have defs: "defs_rep (definitions ctx) (r_defs r) (n - 1)" and ws: "vec_rep (cur_expr ctx) (r_words r)" "r_words r \<noteq> []"
    and eqs: "lineno ctx = r_line r" "err_out ctx = r_err r" "sm_world ctx = r_world r"
    using wd by (auto simp: word_done_def)
  note check = early_check_ok [OF defs ws]
  show ?thesis
  proof (cases "r_defs r = []")
    case True
    with \<open>is_exp (r_mode r)\<close> check show ?thesis
      by (simp add: line_end_def ref_line_def ref_check_def matches_def del: sm_table)
  next
    case False
    show ?thesis
    proof (cases "map_of (r_defs r) (last (r_words r))")
      case None
      have "rel env n (report (Unknown_Definition (last (r_words r))) ctx) (r_report (Unknown_Definition (last (r_words r))) r)"
        using eqs by (simp add: rel_def report_def r_report_def)
      with None False \<open>is_exp (r_mode r)\<close> check show ?thesis
        by (simp add: line_end_def ref_line_def ref_check_def matches_def del: sm_table)
          (simp add: r_report_def)
    next
      case (Some cmds)
      have "env_ok env (w_fds (sm_world ctx))" "\<forall>d \<in> set (r_defs r). snd d \<noteq> []"
        using wd by (auto simp: word_done_def)
      then have run: "run_pipeline env (hash_get (definitions ctx)) (cur_expr ctx) (sm_world ctx)
          = Ok (pipeline_world (r_world r) (ref_commands r))"
        using run_names_ok [OF defs ws(1) False names_defined [OF wd \<open>is_exp (r_mode r)\<close> Some]] eqs
        by (simp add: ref_commands_def)
      have "defs_rep (definitions ctx) (r_defs r) n" using defs by (rule defs_rep_mono) simp
      then have "rel env n (ctx\<lparr>sm_world := pipeline_world (r_world r) (ref_commands r), cur_expr := vec_zero, lineno := lineno ctx + 1\<rparr>)
          (r\<lparr>r_world := pipeline_world (r_world r) (ref_commands r), r_words := [], r_line := r_line r + 1, r_mode := S_ANY_BEFORE_WORD\<rparr>)"
        using wd by (auto simp: rel_def word_done_def mode_inv_def)
      with Some False \<open>is_exp (r_mode r)\<close> check run show ?thesis
        by (simp add: line_end_def ref_line_def ref_check_def matches_def vec_free_any [OF ws] del: sm_table)
    qed
  qed
next
  case False
  have ws: "vec_rep (cur_expr ctx) (hd (r_words r) # tl (r_words r))" "r_words r \<noteq> []" "tl (r_words r) \<noteq> []"
    using wd False by (auto simp: word_done_def)
  have "vec_nth (cur_expr ctx) 0 = Ok (hd (r_words r))" using vec_nth_rep [OF ws(1), of 0] by simp
  moreover have defs: "defs_rep (definitions ctx) (r_defs r) (n - 1)" "n - 1 < interp_limit" "Suc (n - 1) = n"
    using wd by (auto simp: word_done_def)
  moreover obtain m fr where "hash_add plenty (definitions ctx) (hd (r_words r)) (cur_expr ctx) = Ok (m, fr)"
    "defs_rep m ((hd (r_words r), tl (r_words r)) # r_defs r) n"
    using defs_add [OF defs(1) ws(1) defs(2)] defs(3) by auto
  ultimately show ?thesis using False wd ws
    by (auto simp: line_end_def ref_line_def matches_def rel_def word_done_def mode_inv_def)
qed

lemma pipe_matches:
  assumes wd: "word_done env n ctx r"
  shows "matches env n (word_pipe ctx (r_mode r)) (ref_pipe r)"
proof -
  let ?r = "if r_mode r = S_ANY_BEFORE_WORD then r\<lparr>r_mode := S_EXP_BEFORE_WORD\<rparr> else r"
  have defs: "defs_rep (definitions ctx) (r_defs r) (n - 1)" and ws: "vec_rep (cur_expr ctx) (r_words r)" "r_words r \<noteq> []"
    using wd by (auto simp: word_done_def)
  have defs': "defs_rep (definitions ctx) (r_defs r) n" using defs by (rule defs_rep_mono) simp
  show ?thesis
  proof (cases "r_mode r = S_DEF_BEFORE_WORD")
    case True
    then show ?thesis using wd defs'
      by (auto simp: word_pipe_def ref_pipe_def matches_def rel_def word_done_def mode_inv_def)
  next
    case False
    then have mode: "r_mode ?r = S_EXP_BEFORE_WORD" and def: "is_exp (r_mode r)"
      using wd by (auto simp: word_done_def)
    have "r_defs ?r = r_defs r" "r_words ?r = r_words r" by simp_all
    then show ?thesis
      using wd mode early_check_ok [OF defs ws] names_defined [OF wd def] defs' False
      by (cases "map_of (r_defs r) (last (r_words r))")
        (auto simp: word_pipe_def ref_pipe_def ref_check_def matches_def rel_def word_done_def mode_inv_def
          report_def r_report_def Let_def)
  qed
qed

lemma equals_matches:
  assumes wd: "word_done env n ctx r" and mode: "r_mode r \<noteq> S_DEF_BEFORE_WORD"
  shows "matches env n (word_equals ctx (r_mode r)) (ref_equals r)"
proof -
  have "defs_rep (definitions ctx) (r_defs r) n" using wd by (auto simp: word_done_def intro: defs_rep_mono)
  with assms show ?thesis
    by (auto simp: word_equals_def ref_equals_def matches_def rel_def word_done_def mode_inv_def report_def r_report_def)
qed

lemma word_end_matches:
  assumes rel: "rel env n ctx r" and n: "n < interp_limit"
    and inside: "r_mode r \<noteq> S_INVALID" "is_inside (r_mode r)" and c: "is_term (r_mode r) c"
  shows "matches env (Suc n) (word_end plenty env ctx (r_mode r) c) (ref_word_end c r)"
proof -
  have inv: "mode_inv r" "ss_rep (scratch ctx) (r_scratch r)" "length (r_scratch r) \<le> n"
    "vec_rep (cur_expr ctx) (r_words r)" "length (r_words r) \<le> n"
    using rel inside by (auto simp: rel_def)
  then have "starts_word (r_scratch r)" using inside by (simp add: mode_inv_def)
  then obtain v where v: "finish_word plenty ctx = Ok (ctx\<lparr>scratch := ss_zero, cur_expr := v\<rparr>)"
    "vec_rep v (r_words r @ [rstrip (r_scratch r)])"
    using finish_word_ok [OF inv(2) _ _ inv(4)] inv n by auto
  let ?ctx = "ctx\<lparr>scratch := ss_zero, cur_expr := v\<rparr>"
  let ?r = "r\<lparr>r_words := r_words r @ [rstrip (r_scratch r)], r_scratch := [], r_mode := clear_inside (r_mode r)\<rparr>"
  have wd: "word_done env (Suc n) ?ctx ?r"
    using rel inside v n inv by (auto simp: rel_def word_done_def mode_inv_def)
  have m: "r_mode ?r = clear_inside (r_mode r)" by simp
  show ?thesis
    using line_matches [OF wd] pipe_matches [OF wd] equals_matches [OF wd] c inside v(1)
    by (auto simp: word_end_def ref_word_end_def Let_def is_term_def)
qed

section \<open>The cached pointers\<close>

text \<open>
  Except for \<open>eq\<close> inside a definition, each pointer is what \<open>memchr\<close> would return from the
  current position.
\<close>

definition caches :: "string \<Rightarrow> nat \<Rightarrow> nat option \<Rightarrow> nat option \<Rightarrow> nat option \<Rightarrow> sm_state \<Rightarrow> bool" where
  "caches buf b nl eq pi s \<longleftrightarrow>
     nl = memchr_from buf b NL \<and> pi = memchr_from buf b (CHR ''|'')
     \<and> (\<not> only_def s \<and> s \<noteq> S_INVALID \<longrightarrow> eq = memchr_from buf b (CHR ''=''))"

lemma memchr_from_Some:
  assumes "b \<le> length buf"
  shows "memchr_from buf b c = Some t \<longleftrightarrow> b \<le> t \<and> t < length buf \<and> buf ! t = c \<and> c \<notin> set (take (t - b) (drop b buf))"
  using assms by (auto simp: memchr_from_def find_index_Some less_diff_conv intro!: exI [of _ "t - b"])

lemma memchr_from_None: "memchr_from buf b c = None \<longleftrightarrow> c \<notin> set (drop b buf)"
  by (simp add: memchr_from_def find_index_None)

lemma drop_split: "b \<le> b' \<Longrightarrow> drop b buf = take (b' - b) (drop b buf) @ drop b' buf"
  by (metis append_take_drop_id drop_drop le_add_diff_inverse2)

lemma memchr_advance:
  assumes "b \<le> b'" "b' \<le> length buf" "c \<notin> set (take (b' - b) (drop b buf))"
  shows "memchr_from buf b' c = memchr_from buf b c"
proof -
  have "find_index c (drop b buf) = map_option (\<lambda>k. (b' - b) + k) (find_index c (drop b' buf))"
    using find_index_append [OF assms(3), of "drop b' buf"] assms drop_split [OF assms(1), of buf] by simp
  then show ?thesis using assms(1)
    by (cases "find_index c (drop b' buf)") (simp_all add: memchr_from_def)
qed

lemma word_term_None:
  assumes "caches buf b nl eq pi s" "s \<noteq> S_INVALID" "word_term nl eq pi s = None"
  shows "\<forall>c \<in> set (drop b buf). \<not> is_term s c"
proof -
  have "nl = None" "pi = None" "\<not> only_def s \<longrightarrow> eq = None"
    using assms(3) by (auto simp: word_term_def Let_def simp del: sm_table split: if_splits)
  then have "NL \<notin> set (drop b buf)" "CHR ''|'' \<notin> set (drop b buf)" "\<not> only_def s \<longrightarrow> CHR ''='' \<notin> set (drop b buf)"
    using assms(1,2) by (auto simp: caches_def memchr_from_None [symmetric] simp del: sm_table)
  then show ?thesis by (auto simp: is_term_def simp del: sm_table)
qed

lemma word_term_Some:
  assumes caches: "caches buf b nl eq pi s" "s \<noteq> S_INVALID" and t: "word_term nl eq pi s = Some t" and b: "b \<le> length buf"
  shows "b \<le> t \<and> t < length buf \<and> is_term s (buf ! t) \<and> (\<forall>c \<in> set (take (t - b) (drop b buf)). \<not> is_term s c)"
proof -
  have first: "c \<notin> set (take (t - b) (drop b buf))" if "memchr_from buf b c = None \<or> t \<le> the (memchr_from buf b c)" for c
  proof (cases "memchr_from buf b c")
    case None
    then show ?thesis by (auto simp: memchr_from_None dest: in_set_takeD)
  next
    case (Some t')
    then have "t \<le> t'" using that by simp
    then have "t - b \<le> t' - b" "c \<notin> set (take (t' - b) (drop b buf))"
      using iffD1 [OF memchr_from_Some [OF b] Some] by (simp_all add: diff_le_mono)
    then show ?thesis using set_take_subset_set_take [of "t - b" "t' - b" "drop b buf"] by auto
  qed
  have "Some t = nl \<or> Some t = pi \<or> Some t = eq \<and> \<not> only_def s"
    using t by (auto simp: word_term_def Let_def simp del: sm_table split: if_splits)
  then have "memchr_from buf b NL = Some t \<or> memchr_from buf b (CHR ''|'') = Some t
      \<or> memchr_from buf b (CHR ''='') = Some t \<and> \<not> only_def s"
    using caches unfolding caches_def by metis
  then obtain c where c: "is_term s c" "memchr_from buf b c = Some t" unfolding is_term_def by metis
  have hit: "b \<le> t \<and> t < length buf \<and> is_term s (buf ! t)"
    using iffD1 [OF memchr_from_Some [OF b] c(2)] c(1) by auto
  have "nl = None \<or> t \<le> the nl" "pi = None \<or> t \<le> the pi" "\<not> only_def s \<longrightarrow> eq = None \<or> t \<le> the eq"
    using t by (auto simp: word_term_def Let_def simp del: sm_table split: if_splits)
  then have "NL \<notin> set (take (t - b) (drop b buf))" "CHR ''|'' \<notin> set (take (t - b) (drop b buf))"
    "\<not> only_def s \<longrightarrow> CHR ''='' \<notin> set (take (t - b) (drop b buf))"
    using caches first by (auto simp: caches_def simp del: sm_table)
  then show ?thesis using hit by (auto simp: is_term_def simp del: sm_table)
qed

text \<open>A pipe leaves a definition a definition, so that a stale \<open>eq\<close> is never used.\<close>

lemma pipe_keeps_def:
  assumes "ref_word_end (CHR ''|'') r = Ok r'" "only_def (r_mode r)" "r_mode r \<noteq> S_INVALID"
  shows "only_def (r_mode r')"
  using assms by (auto simp: ref_word_end_def ref_pipe_def Let_def)

lemma caches_after:
  assumes caches: "caches buf b nl eq pi s" "s \<noteq> S_INVALID" and s: "s = r_mode r"
    and t: "b \<le> t" "t < length buf" "is_term s (buf ! t)"
    and before: "\<forall>c \<in> set (take (t - b) (drop b buf)). \<not> is_term s c"
    and r': "ref_word_end (buf ! t) r1 = Ok r'" "r_mode r1 = r_mode r"
  shows "caches buf (Suc t)
    (if buf ! t = NL then memchr_from buf (Suc t) NL else nl)
    (if buf ! t = NL \<or> buf ! t = CHR ''='' then memchr_from buf (Suc t) (CHR ''='') else eq)
    (if buf ! t = CHR ''|'' then memchr_from buf (Suc t) (CHR ''|'') else pi) (r_mode r')"
proof -
  have seg: "take (Suc t - b) (drop b buf) = take (t - b) (drop b buf) @ [buf ! t]"
    using t by (simp add: Suc_diff_le take_Suc_conv_app_nth)
  have adv: "memchr_from buf (Suc t) c = memchr_from buf b c" if "is_term s c" "c \<noteq> buf ! t" for c
    using that before t by (intro memchr_advance) (auto simp: seg)
  have "eq = memchr_from buf (Suc t) (CHR ''='')"
    if "buf ! t \<noteq> NL" "buf ! t \<noteq> CHR ''=''" "\<not> only_def (r_mode r')" "r_mode r' \<noteq> S_INVALID"
  proof -
    have "buf ! t = CHR ''|''" using t(3) that by (simp add: is_term_def)
    then have "\<not> only_def s" using pipe_keeps_def [of r1 r'] r' that s caches(2) by auto
    then show ?thesis using adv [of "CHR ''=''"] caches that by (simp add: caches_def is_term_def del: sm_table)
  qed
  then show ?thesis
    using adv [of NL] adv [of "CHR ''|''"] caches by (auto simp: caches_def is_term_def simp del: sm_table)
qed

section \<open>The loop\<close>

text \<open>Inside a word whose first characters may still be in the buffer.\<close>

definition inword :: "env \<Rightarrow> nat \<Rightarrow> istate \<Rightarrow> rstate \<Rightarrow> bool" where
  "inword env n ctx r \<longleftrightarrow>
     lineno ctx = r_line r \<and> err_out ctx = r_err r \<and> sm_world ctx = r_world r
     \<and> r_mode r \<noteq> S_INVALID \<and> is_inside (r_mode r) \<and> env_ok env (w_fds (r_world r))
     \<and> ss_rep (scratch ctx) (r_scratch r) \<and> length (r_scratch r) \<le> n
     \<and> vec_rep (cur_expr ctx) (r_words r) \<and> length (r_words r) \<le> n
     \<and> defs_rep (definitions ctx) (r_defs r) n \<and> mode_inv (r\<lparr>r_scratch := ''x''\<rparr>)"

lemma inword_push:
  assumes inw: "inword env n ctx r" and xs: "starts_word (r_scratch r @ xs)" "NUL \<notin> set xs" "n + length xs \<le> interp_limit"
    "r_scratch r \<noteq> [] \<or> xs \<noteq> []"
  shows "\<exists>ss. ss_push plenty (scratch ctx) xs = Ok ss
    \<and> rel env (n + length xs) (ctx\<lparr>scratch := ss\<rparr>) (r\<lparr>r_scratch := r_scratch r @ xs\<rparr>)"
proof -
  have rep: "ss_rep (scratch ctx) (r_scratch r)" "length (r_scratch r) \<le> n" using inw by (auto simp: inword_def)
  obtain ss where ss: "ss_push plenty (scratch ctx) xs = Ok ss" "ss_rep ss (r_scratch r @ xs)"
    using ss_push_rep [OF rep(1) xs(2,4)] rep(2) xs(3) by (auto simp: ss_limit_def interp_limit_def)
  moreover have "defs_rep (definitions ctx) (r_defs r) (n + length xs)"
    using inw defs_rep_mono [of _ _ n] by (auto simp: inword_def)
  ultimately show ?thesis using inw xs(1) by (auto simp: inword_def rel_def mode_inv_def)
qed

lemma starts_word_mono: "starts_word (s @ xs @ ys) \<Longrightarrow> s \<noteq> [] \<or> xs \<noteq> [] \<Longrightarrow> starts_word (s @ xs)"
  by (cases s; cases xs) (auto simp: starts_word_def)

lemma word_part:
  assumes inw: "inword env n ctx r" and b: "b < length buf" and nul: "NUL \<notin> set buf"
    and start: "starts_word (r_scratch r @ drop b buf)" "r_scratch r = [] \<Longrightarrow> \<not> is_term (r_mode r) (buf ! b)"
    and caches: "caches buf b nl eq pi (r_mode r)" and room: "n + (length buf - b) \<le> interp_limit"
    and loop: "b0 < length buf" "s0 \<noteq> S_INVALID" "word_start buf b0 ctx s0 = In_Word b (r_mode r)"
    and IH: "\<And>t nl eq pi ctx' r'. b \<le> t \<Longrightarrow> t < length buf \<Longrightarrow> caches buf (Suc t) nl eq pi (r_mode r') \<Longrightarrow>
      rel env (n + (Suc t - b)) ctx' r' \<Longrightarrow>
      matches env (n + (Suc t - b) + (length buf - Suc t)) (parser_loop plenty env buf (Suc t) nl eq pi ctx' (r_mode r'))
        (rfold ref_step r' (drop (Suc t) buf))"
  shows "matches env (n + (length buf - b)) (parser_loop plenty env buf b0 nl eq pi ctx s0) (rfold ref_step r (drop b buf))"
proof -
  have mode: "r_mode r \<noteq> S_INVALID" "is_inside (r_mode r)" using inw by (auto simp: inword_def)
  show ?thesis
  proof (cases "word_term nl eq pi (r_mode r)")
    case None
    have "NUL \<notin> set (drop b buf)" using nul by (auto dest: in_set_dropD)
    then obtain ss where ss: "ss_push plenty (scratch ctx) (drop b buf) = Ok ss"
      "rel env (n + (length buf - b)) (ctx\<lparr>scratch := ss\<rparr>) (r\<lparr>r_scratch := r_scratch r @ drop b buf\<rparr>)"
      using inword_push [OF inw start(1)] room b by auto
    have "rfold ref_step r (drop b buf) = Ok (r\<lparr>r_scratch := r_scratch r @ drop b buf\<rparr>)"
      using ref_word [OF mode word_term_None [OF caches mode(1) None]] .
    then show ?thesis using None loop ss by (subst parser_loop.simps) (simp add: matches_def)
  next
    case (Some t)
    let ?xs = "take (t - b) (drop b buf)"
    have t: "b \<le> t" "t < length buf" "is_term (r_mode r) (buf ! t)" "\<forall>c \<in> set ?xs. \<not> is_term (r_mode r) c"
      using word_term_Some [OF caches mode(1) Some] b by auto
    have split: "drop b buf = ?xs @ buf ! t # drop (Suc t) buf"
      using drop_split [OF t(1), of buf] t(2) by (simp add: Cons_nth_drop_Suc)
    have len: "length ?xs = t - b" using t by simp
    have "r_scratch r = [] \<Longrightarrow> b \<noteq> t" using start(2) t(3) by auto
    then have ne: "r_scratch r \<noteq> [] \<or> ?xs \<noteq> []" using len t(1) by (cases "b = t") auto
    have "NUL \<notin> set ?xs" using nul by (auto dest: in_set_takeD in_set_dropD)
    moreover have "starts_word (r_scratch r @ ?xs)" using start(1) ne split starts_word_mono by metis
    moreover have "n + length ?xs \<le> interp_limit" using room t len by linarith
    ultimately obtain ss where ss: "ss_push plenty (scratch ctx) ?xs = Ok ss"
      "rel env (n + (t - b)) (ctx\<lparr>scratch := ss\<rparr>) (r\<lparr>r_scratch := r_scratch r @ ?xs\<rparr>)"
      using inword_push [OF inw _ _ _ ne] len by auto
    let ?ctx = "ctx\<lparr>scratch := ss\<rparr>" and ?r = "r\<lparr>r_scratch := r_scratch r @ ?xs\<rparr>"
    have m: "matches env (n + (Suc t - b)) (word_end plenty env ?ctx (r_mode r) (buf ! t)) (ref_word_end (buf ! t) ?r)"
      using word_end_matches [OF ss(2), of "buf ! t"] mode t room by (simp add: Suc_diff_le del: sm_table)
    have step: "ref_step ?r (buf ! t) = ref_word_end (buf ! t) ?r"
      using mode t(3) by (simp add: ref_step_def del: sm_table)
    have ref: "rfold ref_step r (drop b buf)
        = rbind (ref_word_end (buf ! t) ?r) (\<lambda>r'. rfold ref_step r' (drop (Suc t) buf))"
      using ref_word [OF mode t(4)] by (subst split) (simp add: rfold_append step)
    have eq: "n + (Suc t - b) + (length buf - Suc t) = n + (length buf - b)" using t by simp
    show ?thesis
    proof (cases "ref_word_end (buf ! t) ?r")
      case (Inl e)
      then show ?thesis using m ref Some loop ss(1) t
        by (subst parser_loop.simps) (simp add: matches_def)
    next
      case (Inr r')
      then obtain ctx' where ctx': "word_end plenty env ?ctx (r_mode r) (buf ! t) = Ok (ctx', r_mode r')"
        "rel env (n + (Suc t - b)) ctx' r'" using m by (auto simp: matches_def)
      note ca = caches_after [OF caches mode(1) refl t Inr]
      show ?thesis
        using IH [OF t(1,2) ca ctx'(2)] eq ref Inr Some loop ss(1) t ctx'(1)
        by (subst parser_loop.simps) (simp add: Let_def)
    qed
  qed
qed

lemma skip_spaces_split:
  assumes "b \<le> length buf"
  shows "skip_spaces buf b \<le> length buf" "b \<le> skip_spaces buf b"
    "\<exists>sp. drop b buf = sp @ drop (skip_spaces buf b) buf \<and> (\<forall>c \<in> set sp. c = SPC)"
    "skip_spaces buf b < length buf \<Longrightarrow> buf ! skip_spaces buf b \<noteq> SPC"
proof -
  let ?tw = "takeWhile (\<lambda>c. c = SPC) (drop b buf)" and ?b = "skip_spaces buf b"
  have "length ?tw \<le> length (drop b buf)" by (rule length_takeWhile_le)
  then show "?b \<le> length buf" using assms by (simp add: skip_spaces_def)
  show "b \<le> ?b" by (simp add: skip_spaces_def)
  have dw: "dropWhile (\<lambda>c. c = SPC) (drop b buf) = drop ?b buf"
    by (simp add: skip_spaces_def dropWhile_eq_drop add.commute)
  then have "drop b buf = ?tw @ drop ?b buf" by (metis takeWhile_dropWhile_id)
  then show "\<exists>sp. drop b buf = sp @ drop ?b buf \<and> (\<forall>c \<in> set sp. c = SPC)"
    by (intro exI [of _ ?tw]) (auto dest: set_takeWhileD)
  show "buf ! ?b \<noteq> SPC" if "?b < length buf"
  proof -
    have "hd (drop ?b buf) = buf ! ?b" "drop ?b buf \<noteq> []" using that by (simp_all add: hd_drop_conv_nth)
    then show ?thesis using hd_dropWhile [of "\<lambda>c. c = SPC" "drop b buf"] dw by auto
  qed
qed

lemma skip_spaces_ref:
  assumes b: "b \<le> length buf" and mode: "r_mode r \<noteq> S_INVALID" "\<not> is_inside (r_mode r)"
    and caches: "caches buf b nl eq pi (r_mode r)"
  shows "rfold ref_step r (drop b buf) = rfold ref_step r (drop (skip_spaces buf b) buf)"
    "caches buf (skip_spaces buf b) nl eq pi (r_mode r)"
proof -
  let ?b = "skip_spaces buf b"
  note skip = skip_spaces_split [OF b]
  obtain sp where sp: "drop b buf = sp @ drop ?b buf" "\<forall>c \<in> set sp. c = SPC" using skip(3) by blast
  show "rfold ref_step r (drop b buf) = rfold ref_step r (drop ?b buf)"
    using ref_spaces [OF mode sp(2)] by (subst sp(1)) (simp add: rfold_append)
  have "length (drop b buf) = length sp + length (drop ?b buf)" by (subst sp(1)) simp
  then have "length sp = ?b - b" using skip(1,2) by simp
  then have "set (take (?b - b) (drop b buf)) \<subseteq> {SPC}" using sp by auto
  then have "memchr_from buf ?b c = memchr_from buf b c" if "c \<noteq> SPC" for c
    using that skip(1,2) by (intro memchr_advance) auto
  then show "caches buf ?b nl eq pi (r_mode r)"
    using caches by (simp add: caches_def del: sm_table)
qed

text \<open>The three ways to leave the spaces before a word.\<close>

lemma ref_empty_line:
  assumes "r_mode r = S_ANY_BEFORE_WORD" "b < length buf" "buf ! b = NL"
  shows "rfold ref_step r (drop b buf) = rfold ref_step (r\<lparr>r_line := r_line r + 1\<rparr>) (drop (Suc b) buf)"
  using assms by (subst Cons_nth_drop_Suc [symmetric]) (simp_all add: ref_step_def ref_before_def)

lemma caches_empty_line:
  assumes "caches buf b nl eq pi S_ANY_BEFORE_WORD" "b < length buf" "buf ! b = NL"
  shows "caches buf (Suc b) (memchr_from buf (Suc b) NL) eq pi S_ANY_BEFORE_WORD"
proof -
  have "memchr_from buf (Suc b) c = memchr_from buf b c" if "c \<noteq> NL" for c
    using assms that by (intro memchr_advance) (auto simp: take_Suc_conv_app_nth hd_drop_conv_nth take_Suc)
  then show ?thesis using assms by (simp add: caches_def)
qed

lemma ref_bad_start:
  assumes mode: "r_mode r \<noteq> S_INVALID" "\<not> is_inside (r_mode r)" and b: "skip_spaces buf b < length buf"
    and c: "buf ! skip_spaces buf b = c" "c \<noteq> SPC" "\<not> (c = NL \<and> r_mode r = S_ANY_BEFORE_WORD)"
    and bad: "c = NL \<or> c = CHR ''='' \<or> c = CHR ''|'' \<or> schar c < 0x20"
  shows "\<exists>d. rfold ref_step r (drop (skip_spaces buf b) buf) = Ok (r_report d r)
    \<and> word_start buf b ctx (r_mode r) = Return (report d ctx) S_INVALID"
proof -
  let ?d = "if c = CHR ''='' \<or> c = CHR ''|'' then Expected_Word_Got c
    else if c = NL then Expected_Word_Got_Newline else Expected_Word_Got_Control"
  have "ref_before c r = r_report ?d r" using c bad by (auto simp: ref_before_def)
  then have "rfold ref_step r (drop (skip_spaces buf b) buf) = Ok (r_report ?d r)"
    using mode b c(1) by (subst Cons_nth_drop_Suc [symmetric])
      (simp_all add: ref_step_def ref_invalid r_report_def del: sm_table)
  moreover have "word_start buf b ctx (r_mode r) = Return (report ?d ctx) S_INVALID"
    using mode b c bad by (auto simp: word_start_def Let_def simp del: sm_table)
  ultimately show ?thesis by blast
qed

lemma ref_good_start:
  assumes mode: "r_mode r \<noteq> S_INVALID" "\<not> is_inside (r_mode r)" and b: "b < length buf" and rel: "rel env n ctx r"
    and c: "buf ! b = c" "c \<noteq> SPC" "c \<noteq> NL" "c \<noteq> CHR ''=''" "c \<noteq> CHR ''|''" "\<not> schar c < 0x20"
  shows "rfold ref_step r (drop b buf) = rfold ref_step (r\<lparr>r_mode := set_inside (r_mode r)\<rparr>) (drop b buf)"
    "inword env n ctx (r\<lparr>r_mode := set_inside (r_mode r)\<rparr>)" "r_scratch r = []"
proof -
  show sc: "r_scratch r = []" using rel mode by (auto simp: rel_def mode_inv_def simp del: sm_table)
  consider "r_mode r = S_DEF_BEFORE_WORD" | "r_mode r = S_EXP_BEFORE_WORD" | "r_mode r = S_ANY_BEFORE_WORD"
    using mode by (cases "r_mode r") auto
  note modes = this
  let ?r = "r\<lparr>r_mode := set_inside (r_mode r)\<rparr>"
  have "ref_step r c = ref_step ?r c"
    using modes c(2-) sc by cases (simp_all add: ref_step_def ref_before_def is_term_def)
  then show "rfold ref_step r (drop b buf) = rfold ref_step ?r (drop b buf)"
    using b c(1) by (subst (1 2) Cons_nth_drop_Suc [symmetric]) simp_all
  show "inword env n ctx ?r"
    using modes rel by cases (auto simp: rel_def inword_def mode_inv_def starts_word_def)
qed

lemma loop_matches:
  assumes "rel env n ctx r" "caches buf b nl eq pi (r_mode r)" "b \<le> length buf" "NUL \<notin> set buf"
    and "n + (length buf - b) \<le> interp_limit"
  shows "matches env (n + (length buf - b)) (parser_loop plenty env buf b nl eq pi ctx (r_mode r))
    (rfold ref_step r (drop b buf))"
  using assms
proof (induction "length buf - b" arbitrary: b nl eq pi n ctx r rule: less_induct)
  case less
  note rel = less.prems(1) and caches = less.prems(2) and b = less.prems(3) and nul = less.prems(4) and room = less.prems(5)
  have IH: "matches env (m + (Suc t - b0) + (length buf - Suc t)) (parser_loop plenty env buf (Suc t) nl eq pi ctx' (r_mode r'))
      (rfold ref_step r' (drop (Suc t) buf))"
    if "b \<le> b0" "b0 \<le> t" "t < length buf" "caches buf (Suc t) nl eq pi (r_mode r')" "rel env (m + (Suc t - b0)) ctx' r'"
      "m + (length buf - b0) \<le> interp_limit" for b0 t nl eq pi ctx' r' m
    using that by (intro less.hyps nul) auto
  show ?case
  proof (cases "b < length buf \<and> r_mode r \<noteq> S_INVALID")
    case False
    then have "rfold ref_step r (drop b buf) = Ok r" using b by (auto simp: ref_invalid)
    then show ?thesis using False rel_mono [OF rel, of "n + (length buf - b)"]
      by (subst parser_loop.simps) (simp add: matches_def)
  next
    case run: True
    show ?thesis
    proof (cases "is_inside (r_mode r)")
      case inside: True
      have inw: "inword env n ctx r"
        using rel inside run by (auto simp: rel_def inword_def mode_inv_def starts_word_def)
      have "starts_word (r_scratch r)" using rel inside run by (auto simp: rel_def mode_inv_def)
      then have start: "starts_word (r_scratch r @ drop b buf)" "r_scratch r = [] \<Longrightarrow> \<not> is_term (r_mode r) (buf ! b)"
        by (auto simp: starts_word_def)
      have word: "word_start buf b ctx (r_mode r) = In_Word b (r_mode r)"
        using inside by (simp add: word_start_def del: sm_table)
      show ?thesis
        by (rule word_part [OF inw conjunct1 [OF run] nul start caches room run [THEN conjunct1] run [THEN conjunct2]
              word IH [OF order_refl _ _ _ _ room]])
    next
      case outside: False
      let ?b = "skip_spaces buf b"
      note skip = skip_spaces_split [OF b]
      note ref = skip_spaces_ref [OF b conjunct2 [OF run] outside caches] and mode = conjunct2 [OF run]
      have grow: "rel env (n + (length buf - b)) ctx r" by (rule rel_mono [OF rel]) simp
      show ?thesis
      proof (cases "?b = length buf")
        case True
        then show ?thesis using run outside ref(1) grow
          by (subst parser_loop.simps) (simp add: matches_def word_start_def del: sm_table)
      next
        case False
        then have lt: "?b < length buf" and c: "buf ! ?b \<noteq> SPC" using skip(1,4) by simp_all
        consider (line) "buf ! ?b = NL" "r_mode r = S_ANY_BEFORE_WORD"
          | (bad) "\<not> (buf ! ?b = NL \<and> r_mode r = S_ANY_BEFORE_WORD)"
              "buf ! ?b = NL \<or> buf ! ?b = CHR ''='' \<or> buf ! ?b = CHR ''|'' \<or> schar (buf ! ?b) < 0x20"
          | (good) "buf ! ?b \<noteq> NL" "buf ! ?b \<noteq> CHR ''=''" "buf ! ?b \<noteq> CHR ''|''" "\<not> schar (buf ! ?b) < 0x20"
          by blast
        then show ?thesis
        proof cases
          case line
          let ?ctx = "ctx\<lparr>lineno := lineno ctx + 1\<rparr>" and ?r = "r\<lparr>r_line := r_line r + 1\<rparr>"
          have "rel env (n + (Suc ?b - b)) ?ctx ?r"
            using rel_mono [OF rel, of "n + (Suc ?b - b)"] by (simp add: rel_def mode_inv_def)
          moreover have "caches buf (Suc ?b) (memchr_from buf (Suc ?b) NL) eq pi (r_mode ?r)"
            using caches_empty_line [OF _ lt line(1)] ref(2) line mode by simp
          ultimately show ?thesis
            using IH [of b ?b "memchr_from buf (Suc ?b) NL" eq pi ?r n ?ctx] line run lt skip room ref(1) ref_empty_line [OF line(2) lt line(1)]
            by (subst parser_loop.simps) (simp add: word_start_def Let_def)
        next
          case bad
          then obtain d where "rfold ref_step r (drop ?b buf) = Ok (r_report d r)"
            "word_start buf b ctx (r_mode r) = Return (report d ctx) S_INVALID"
            using ref_bad_start [OF mode outside lt refl c] by metis
          moreover have "rel env m (report d ctx) (r_report d r)" for m
            using rel by (simp add: rel_def report_def r_report_def)
          ultimately show ?thesis using run ref(1)
            by (subst parser_loop.simps) (simp add: matches_def r_report_def)
        next
          case good
          note start = ref_good_start [OF mode outside lt rel refl c good]
          let ?r = "r\<lparr>r_mode := set_inside (r_mode r)\<rparr>"
          have caches': "caches buf ?b nl eq pi (r_mode ?r)" using ref(2) mode outside
            by (cases "r_mode r") (auto simp: caches_def)
          have word: "word_start buf b ctx (r_mode r) = In_Word ?b (r_mode ?r)"
            using outside good False c by (simp add: word_start_def Let_def del: sm_table)
          have "drop ?b buf \<noteq> []" "hd (drop ?b buf) \<noteq> SPC" using lt c by (simp_all add: hd_drop_conv_nth)
          then have first: "starts_word (r_scratch ?r @ drop ?b buf)" "r_scratch ?r = [] \<Longrightarrow> \<not> is_term (r_mode ?r) (buf ! ?b)"
            using start(3) good by (auto simp: starts_word_def is_term_def)
          have room': "n + (length buf - ?b) \<le> interp_limit" using room skip(1,2) by linarith
          have "matches env (n + (length buf - ?b)) (parser_loop plenty env buf b nl eq pi ctx (r_mode r))
              (rfold ref_step ?r (drop ?b buf))"
            by (rule word_part [OF start(2) lt nul first caches' room' run [THEN conjunct1] run [THEN conjunct2]
                  word IH [OF skip(2) _ _ _ _ room']])
          moreover have "n + (length buf - ?b) \<le> n + (length buf - b)" using skip(2) by simp
          ultimately show ?thesis unfolding ref(1) start(1)
            by (blast intro: matches_mono rel_mono)
        qed
      qed
    qed
  qed
qed

section \<open>Blocks and the whole run\<close>

lemma parser_sm_block:
  assumes "rel env n ctx r" "NUL \<notin> set buf" "n + length buf \<le> interp_limit"
  shows "matches env (n + length buf) (parser_sm plenty env ctx (r_mode r) buf) (rfold ref_step r buf)"
  using loop_matches [OF assms(1), of buf 0] assms(2,3)
  by (simp add: parser_sm_def caches_def)

interpretation ref_feed: chunk_machine "\<lambda>st cs. rbind st (\<lambda>r. rfold ref_step r cs)"
proof
  show "rbind s (\<lambda>r. rfold ref_step r []) = s" for s by (cases s) simp_all
  show "rbind s (\<lambda>r. rfold ref_step r (xs @ ys)) = rbind (rbind s (\<lambda>r. rfold ref_step r xs)) (\<lambda>r. rfold ref_step r ys)"
    for s xs ys by (simp add: rfold_append rbind_assoc)
qed

text \<open>What an observer sees: the exit status, the processes and the diagnostics.\<close>

definition outcome :: "(int \<times> istate) result \<Rightarrow> (int \<times> world \<times> (u64 \<times> diag) list) result" where
  "outcome res = rbind res (\<lambda>(n, ctx). Ok (n, sm_world ctx, err_out ctx))"

definition ref_outcome :: "rstate result \<Rightarrow> (int \<times> world \<times> (u64 \<times> diag) list) result" where
  "ref_outcome res = rbind res (\<lambda>r. Ok (if r_mode r = S_INVALID then 1 else 0, r_world r, r_err r))"

lemma defs_clear:
  assumes "defs_rep m ds n" shows "\<exists>m' fr. hash_clear m = Ok (m', fr)"
proof -
  obtain f where f: "hm_rep m f" "hfree m = Some hash_free_fn" "\<forall>k. rel_option (\<lambda>v cmds. vec_rep v (k # cmds)) (f k) (map_of ds k)"
    using assms by (auto simp: defs_rep_def)
  have "hash_free_fn v = Ok ()" if v: "v \<in> ran f" for v
  proof -
    obtain k where "f k = Some v" using v by (auto simp: ran_def)
    moreover have "rel_option (\<lambda>v cmds. vec_rep v (k # cmds)) (f k) (map_of ds k)" using f(3) by blast
    ultimately show ?thesis by (auto simp: option_rel_Some1 hash_free_fn_def vec_free_any)
  qed
  with hash_clear_rep [OF f(1,2)] show ?thesis by metis
qed

lemma read_loop_matches:
  assumes "rel env n ctx r" "\<forall>b \<in> set blocks. NUL \<notin> set b" "n + length (concat blocks) \<le> interp_limit" "r_mode r \<noteq> S_INVALID"
  shows "outcome (read_loop plenty env False blocks ctx (r_mode r))
    = ref_outcome (foldl (\<lambda>st cs. rbind st (\<lambda>r. rfold ref_step r cs)) (Ok r) blocks)"
  using assms
proof (induction blocks arbitrary: n ctx r)
  case Nil
  then have "defs_rep (definitions ctx) (r_defs r) n" by (simp add: rel_def)
  then obtain m fr where "hash_clear (definitions ctx) = Ok (m, fr)" using defs_clear by blast
  with Nil show ?case by (simp add: outcome_def ref_outcome_def rel_def)
next
  case (Cons b bs)
  have m: "matches env (n + length b) (parser_sm plenty env ctx (r_mode r) b) (rfold ref_step r b)"
    using Cons.prems by (intro parser_sm_block) auto
  show ?case
  proof (cases "rfold ref_step r b")
    case (Inl e)
    have "foldl (\<lambda>st cs. rbind st (\<lambda>r. rfold ref_step r cs)) (Inl e) bs = Inl e" by (induction bs) simp_all
    then show ?thesis using m Inl by (simp add: matches_def outcome_def ref_outcome_def del: plenty)
  next
    case (Inr r')
    then obtain ctx' where ctx': "parser_sm plenty env ctx (r_mode r) b = Ok (ctx', r_mode r')" "rel env (n + length b) ctx' r'"
      using m by (auto simp: matches_def)
    show ?thesis
    proof (cases "r_mode r' = S_INVALID")
      case True
      then have "foldl (\<lambda>st cs. rbind st (\<lambda>r. rfold ref_step r cs)) (Inr r') bs = Inr r'"
        by (simp add: ref_feed.feed_blocks ref_invalid)
      then show ?thesis using True ctx' Inr by (simp add: outcome_def ref_outcome_def rel_def del: plenty)
    next
      case False
      then show ?thesis using Cons.IH [OF ctx'(2)] Cons.prems ctx' Inr by (simp add: add.assoc outcome_def del: plenty)
    qed
  qed
qed

lemma rel_init: "env_ok env (w_fds w) \<Longrightarrow> rel env 0 (fst (parser_init w)) (ref_init w)"
  by (auto simp: rel_def parser_init_def ref_init_def mode_inv_def defs_rep_def
      intro!: exI [of _ Map.empty]) (simp_all add: hash_zero_def)

lemma interp_run:
  assumes "env_ok env (w_fds w)" "\<forall>b \<in> set blocks. NUL \<notin> set b" "length (concat blocks) \<le> interp_limit"
  shows "outcome (interp_main plenty env False w blocks) = ref_outcome (rfold ref_step (ref_init w) (concat blocks))"
proof -
  have "outcome (interp_main plenty env False w blocks)
      = outcome (read_loop plenty env False blocks (fst (parser_init w)) (r_mode (ref_init w)))"
    by (simp add: interp_main_def parser_init_def ref_init_def)
  also have "\<dots> = ref_outcome (foldl (\<lambda>st cs. rbind st (\<lambda>r. rfold ref_step r cs)) (Ok (ref_init w)) blocks)"
    using assms by (intro read_loop_matches [OF rel_init]) (auto simp: ref_init_def)
  also have "\<dots> = ref_outcome (rfold ref_step (ref_init w) (concat blocks))" by (simp add: ref_feed.feed_blocks)
  finally show ?thesis .
qed

section \<open>Properties\<close>

text \<open>
  C2: one call of \<open>parser_sm\<close>, on any block and from any state that corresponds to a state
  of the reference machine, does what that machine does character by character: it
  aborts where the machine aborts, and otherwise ends in the same state with the same
  words, definitions, processes and diagnostics. In particular the cached pointers never
  go stale where they matter, and no buffer or table is used out of bounds.
\<close>

theorem parser_sm_refines:
  assumes "rel env n ctx r" "NUL \<notin> set buf" "n + length buf \<le> interp_limit"
  shows "matches env (n + length buf) (parser_sm plenty env ctx (r_mode r) buf) (rfold ref_step r buf)"
  using assms by (rule parser_sm_block)

theorem parser_sm_refines_witness:
  "matches demo_env (0 + length ''a = ls | sort'')
    (parser_sm plenty demo_env (fst (parser_init demo_world)) (r_mode (ref_init demo_world)) ''a = ls | sort'')
    (rfold ref_step (ref_init demo_world) ''a = ls | sort'')"
  by (rule parser_sm_refines [OF rel_init [OF demo_env_ok]]) (simp_all add: interp_limit_def)

text \<open>
  The outcome of a run (exit status, processes started, diagnostics) is that of the
  reference machine on the whole file.
\<close>

theorem interp_main_refines:
  assumes "env_ok env (w_fds w)" "\<forall>b \<in> set blocks. NUL \<notin> set b" "length (concat blocks) \<le> interp_limit"
  shows "outcome (interp_main plenty env False w blocks) = ref_outcome (rfold ref_step (ref_init w) (concat blocks))"
  using assms by (rule interp_run)

theorem interp_main_refines_witness:
  "outcome (interp_main plenty demo_env False demo_world [''a = l'', ''s | sort'', [NL]])
    = ref_outcome (rfold ref_step (ref_init demo_world) (concat [''a = l'', ''s | sort'', [NL]]))"
  by (rule interp_main_refines [OF demo_env_ok]) (simp_all add: interp_limit_def)

text \<open>
  Where \<open>read\<close> cuts the file does not matter.
\<close>

theorem interp_blocks_irrelevant:
  assumes "env_ok env (w_fds w)" "concat blocks = concat blocks'" "NUL \<notin> set (concat blocks)"
    and "length (concat blocks) \<le> interp_limit"
  shows "outcome (interp_main plenty env False w blocks) = outcome (interp_main plenty env False w blocks')"
proof -
  have "\<forall>b \<in> set blocks. NUL \<notin> set b" using assms(3) by auto
  moreover have "\<forall>b \<in> set blocks'. NUL \<notin> set b" using assms(3) unfolding assms(2) by auto
  ultimately show ?thesis using interp_run [OF assms(1)] assms(2,4) by simp
qed

theorem interp_blocks_irrelevant_witness:
  "outcome (interp_main plenty demo_env False demo_world [''a = ls | so'', ''rt'' @ [NL] @ ''a'', [NL]])
    = outcome (interp_main plenty demo_env False demo_world [''a = ls'', '' | sort'' @ [NL] @ ''a'' @ [NL]])"
  by (rule interp_blocks_irrelevant [OF demo_env_ok]) (simp_all add: interp_limit_def)

end
