(* ===== verification/Interp_Script.thy ===== *)
theory Interp_Script
  imports Interp_Ref
begin

text \<open>
  What the interpreter of \<open>lab5/zad1/main.c\<close> does with a whole file: the abstract syntax of
  its input (the grammar comment above \<open>parser_sm\<close>), its concrete form, its meaning as a
  list of pipelines, and the theorems that the program computes this meaning.
\<close>

section \<open>Syntax\<close>

text \<open>A word with the spaces before and after it.\<close>

type_synonym token = "nat \<times> string \<times> nat"

datatype item = Blank nat | Define token "token list" | Run "token list"

abbreviation word_of :: "token \<Rightarrow> string" where "word_of t \<equiv> fst (snd t)"

text \<open>
  The words of the grammar as the program accepts them: a definition body may contain
  \<open>'='\<close>, but not start with it.
\<close>

definition plain_word :: "string \<Rightarrow> bool" where
  "plain_word w \<longleftrightarrow> w \<noteq> [] \<and> hd w \<noteq> SPC \<and> last w \<noteq> SPC \<and> \<not> schar (hd w) < 0x20 \<and> hd w \<noteq> CHR ''=''
     \<and> NL \<notin> set w \<and> CHR ''|'' \<notin> set w \<and> NUL \<notin> set w"

definition ident :: "string \<Rightarrow> bool" where
  "ident w \<longleftrightarrow> plain_word w \<and> CHR ''='' \<notin> set w"

primrec valid_item :: "item \<Rightarrow> bool" where
  "valid_item (Blank n) = True"
| "valid_item (Define k cs) = (ident (word_of k) \<and> cs \<noteq> [] \<and> list_all (\<lambda>c. plain_word (word_of c)) cs)"
| "valid_item (Run ns) = (ns \<noteq> [] \<and> list_all (\<lambda>n. ident (word_of n)) ns)"

definition render_token :: "token \<Rightarrow> string" where
  "render_token = (\<lambda>(a, w, b). replicate a SPC @ w @ replicate b SPC)"

fun render_tokens :: "token list \<Rightarrow> string" where
  "render_tokens [] = []"
| "render_tokens [t] = render_token t @ [NL]"
| "render_tokens (t # ts) = render_token t @ ''|'' @ render_tokens ts"

primrec render_item :: "item \<Rightarrow> string" where
  "render_item (Blank n) = replicate n SPC @ [NL]"
| "render_item (Define k cs) = render_token k @ ''='' @ render_tokens cs"
| "render_item (Run ns) = render_tokens ns"

definition render :: "item list \<Rightarrow> string" where
  "render its = concat (map render_item its)"

section \<open>Meaning\<close>

type_synonym script_state = "(string \<times> string list) list \<times> world"

primrec run_item :: "script_state \<Rightarrow> item \<Rightarrow> script_state" where
  "run_item st (Blank n) = st"
| "run_item st (Define k cs) = ((word_of k, map word_of cs) # fst st, snd st)"
| "run_item st (Run ns) = (fst st, pipeline_world (snd st) (concat (map (\<lambda>n. the (map_of (fst st) (word_of n))) ns)))"

definition run_script :: "world \<Rightarrow> item list \<Rightarrow> script_state" where
  "run_script w its = foldl run_item ([], w) its"

text \<open>Every name is defined before it is used.\<close>

fun closed_from :: "string set \<Rightarrow> item list \<Rightarrow> bool" where
  "closed_from names [] = True"
| "closed_from names (Blank n # its) = closed_from names its"
| "closed_from names (Define k cs # its) = closed_from (insert (word_of k) names) its"
| "closed_from names (Run ns # its) = ((\<forall>n \<in> set ns. word_of n \<in> names) \<and> closed_from names its)"

section \<open>The reference machine on rendered text\<close>

lemma rstrip_token: "w \<noteq> [] \<Longrightarrow> last w \<noteq> SPC \<Longrightarrow> rstrip (w @ replicate n SPC) = w"
proof (induction n)
  case 0
  then show ?case by (cases w rule: rev_cases) (simp_all add: rstrip_def)
next
  case (Suc n)
  have "w @ replicate (Suc n) SPC = (w @ replicate n SPC) @ [SPC]"
    by (simp only: replicate_Suc append_assoc replicate_append_same)
  then show ?case using Suc by (simp only: rstrip_snoc) simp
qed

definition ref_terminator :: "char \<Rightarrow> rstate \<Rightarrow> rstate result" where
  "ref_terminator c r = (if c = NL then ref_line r else if c = CHR ''|'' then ref_pipe r else ref_equals r)"

definition inside_token :: "rstate \<Rightarrow> token \<Rightarrow> rstate" where
  "inside_token r t = r\<lparr>r_mode := set_inside (r_mode r), r_scratch := word_of t @ replicate (snd (snd t)) SPC\<rparr>"

lemma ref_token_open:
  assumes mode: "r_mode r \<in> {S_DEF_BEFORE_WORD, S_EXP_BEFORE_WORD, S_ANY_BEFORE_WORD}"
    and word: "plain_word (word_of t)" "only_def (r_mode r) \<or> ident (word_of t)"
  shows "rfold ref_step r (render_token t) = Ok (inside_token r t)"
proof -
  obtain a w b where t: "t = (a, w, b)" by (cases t)
  let ?r = "r\<lparr>r_mode := set_inside (r_mode r)\<rparr>"
  have before: "rfold ref_step r (replicate a SPC) = Ok r"
    using mode by (intro ref_spaces) auto
  obtain x xs where w: "w = x # xs" using word t by (cases w) (auto simp: plain_word_def)
  have "ref_step r x = Ok (?r\<lparr>r_scratch := [x]\<rparr>)"
    using mode word t w by (auto simp: ref_step_def ref_before_def plain_word_def)
  moreover have ins: "r_mode ?r \<noteq> S_INVALID" "is_inside (r_mode ?r)" using mode by auto
  moreover have "\<forall>c \<in> set (xs @ replicate b SPC). \<not> is_term (r_mode ?r) c"
    using mode word t w by (auto simp: is_term_def plain_word_def ident_def)
  then have "rfold ref_step (?r\<lparr>r_scratch := [x]\<rparr>) (xs @ replicate b SPC) = Ok (?r\<lparr>r_scratch := w @ replicate b SPC\<rparr>)"
    using ref_word [of "?r\<lparr>r_scratch := [x]\<rparr>" "xs @ replicate b SPC"] ins w by simp
  ultimately have "rfold ref_step r (w @ replicate b SPC) = Ok (?r\<lparr>r_scratch := w @ replicate b SPC\<rparr>)"
    using w by simp
  moreover have "render_token t = replicate a SPC @ (w @ replicate b SPC)"
    by (simp add: t render_token_def)
  ultimately show ?thesis using t
    by (simp only: rfold_append [of ref_step r "replicate a SPC"] before rbind_Inr inside_token_def snd_conv fst_conv)
qed

lemma ref_token:
  assumes mode: "r_mode r \<in> {S_DEF_BEFORE_WORD, S_EXP_BEFORE_WORD, S_ANY_BEFORE_WORD}"
    and word: "plain_word (word_of t)" "only_def (r_mode r) \<or> ident (word_of t)" and c: "is_term (r_mode r) c"
    and sc: "r_scratch r = []"
  shows "rfold ref_step r (render_token t @ c # cs)
    = rbind (ref_terminator c (r\<lparr>r_words := r_words r @ [word_of t]\<rparr>)) (\<lambda>r. rfold ref_step r cs)"
proof -
  let ?w = "word_of t" and ?inw = "inside_token r t"
  have "r_mode ?inw \<noteq> S_INVALID" "is_inside (r_mode ?inw)" "is_term (r_mode ?inw) c"
    using c mode by (auto simp: is_term_def inside_token_def)
  then have "ref_step ?inw c = ref_word_end c ?inw" by (simp add: ref_step_def del: sm_table)
  also have "\<dots> = ref_terminator c (r\<lparr>r_words := r_words r @ [?w]\<rparr>)"
  proof -
    have "r\<lparr>r_words := r_words r @ [?w], r_scratch := [], r_mode := clear_inside (set_inside (r_mode r))\<rparr>
        = r\<lparr>r_words := r_words r @ [?w]\<rparr>"
      using mode sc by (cases r) auto
    then show ?thesis using word
      by (simp add: ref_word_end_def ref_terminator_def rstrip_token plain_word_def inside_token_def Let_def)
  qed
  finally have "ref_step ?inw c = ref_terminator c (r\<lparr>r_words := r_words r @ [?w]\<rparr>)" .
  then show ?thesis
    by (simp only: rfold_append [of ref_step r "render_token t"] ref_token_open [OF mode word] rbind_Inr rfold.simps)
qed

lemma ref_define_body:
  assumes "cs \<noteq> []" "list_all (\<lambda>c. plain_word (word_of c)) cs" "r_words r \<noteq> []"
    and "r_mode r = S_DEF_BEFORE_WORD" "r_scratch r = []"
  shows "rfold ref_step r (render_tokens cs @ rest)
    = rfold ref_step (r\<lparr>r_defs := (hd (r_words r), tl (r_words r) @ map word_of cs) # r_defs r, r_words := [],
        r_line := r_line r + 1, r_mode := S_ANY_BEFORE_WORD\<rparr>) rest"
  using assms
proof (induction cs arbitrary: r rule: render_tokens.induct)
  case 1
  then show ?case by simp
next
  case (2 t)
  then show ?case
    by (simp add: ref_token is_term_def ref_terminator_def ref_line_def)
next
  case (3 t t' ts)
  let ?r = "r\<lparr>r_words := r_words r @ [word_of t]\<rparr>"
  have "rfold ref_step r (render_tokens (t # t' # ts) @ rest) = rfold ref_step ?r (render_tokens (t' # ts) @ rest)"
    using 3 by (simp add: ref_token is_term_def ref_terminator_def ref_pipe_def Let_def)
  then show ?case using 3 by simp
qed

lemma ref_define:
  assumes "valid_item (Define k cs)" "r_mode r = S_ANY_BEFORE_WORD" "r_scratch r = []" "r_words r = []"
  shows "rfold ref_step r (render_item (Define k cs) @ rest)
    = rfold ref_step (r\<lparr>r_defs := (word_of k, map word_of cs) # r_defs r, r_line := r_line r + 1\<rparr>) rest"
proof -
  have "rfold ref_step r (render_item (Define k cs) @ rest)
      = rfold ref_step (r\<lparr>r_words := [word_of k], r_mode := S_DEF_BEFORE_WORD\<rparr>) (render_tokens cs @ rest)"
    using assms by (simp add: ref_token is_term_def ident_def ref_terminator_def ref_equals_def)
  also have "\<dots> = rfold ref_step (r\<lparr>r_defs := (word_of k, map word_of cs) # r_defs r,
      r_words := [], r_line := r_line r + 1, r_mode := S_ANY_BEFORE_WORD\<rparr>) rest"
    using assms by (simp add: ref_define_body)
  also have "r\<lparr>r_defs := (word_of k, map word_of cs) # r_defs r, r_words := [], r_line := r_line r + 1,
      r_mode := S_ANY_BEFORE_WORD\<rparr> = r\<lparr>r_defs := (word_of k, map word_of cs) # r_defs r, r_line := r_line r + 1\<rparr>"
    using assms by (cases r) simp
  finally show ?thesis .
qed

lemma r_report_mode [simp]: "r_report d (r\<lparr>r_mode := m, r_words := ws\<rparr>) = r_report d (r\<lparr>r_words := ws\<rparr>)"
  by (cases r) (simp add: r_report_def)

text \<open>An expression, up to the first unknown name.\<close>

lemma ref_run:
  assumes "ns \<noteq> []" "list_all (\<lambda>n. ident (word_of n)) ns" "r_mode r \<in> {S_ANY_BEFORE_WORD, S_EXP_BEFORE_WORD}"
    and "r_scratch r = []" "r_defs r \<noteq> []"
  shows "rfold ref_step r (render_tokens ns @ rest) =
    (case find (\<lambda>n. map_of (r_defs r) (word_of n) = None) ns of
       None \<Rightarrow> rfold ref_step (r\<lparr>r_world := pipeline_world (r_world r)
           (concat (map (\<lambda>n. the (map_of (r_defs r) n)) (r_words r @ map word_of ns))),
           r_words := [], r_line := r_line r + 1, r_mode := S_ANY_BEFORE_WORD\<rparr>) rest
     | Some n \<Rightarrow> Ok (r_report (Unknown_Definition (word_of n))
           (r\<lparr>r_words := r_words r @ map word_of (takeWhile (\<lambda>n. map_of (r_defs r) (word_of n) \<noteq> None) ns) @ [word_of n]\<rparr>)))"
  using assms
proof (induction ns arbitrary: r rule: render_tokens.induct)
  case 1
  then show ?case by simp
next
  case (2 t)
  then show ?case
    by (cases "map_of (r_defs r) (word_of t)")
      (auto simp: ref_token is_term_def ident_def ref_terminator_def ref_line_def ref_check_def ref_commands_def
        ref_invalid r_report_def)
next
  case (3 t t' ts)
  let ?r = "r\<lparr>r_words := r_words r @ [word_of t], r_mode := S_EXP_BEFORE_WORD\<rparr>"
  show ?case
  proof (cases "map_of (r_defs r) (word_of t)")
    case None
    then have "rfold ref_step r (render_tokens (t # t' # ts) @ rest)
        = Ok (r_report (Unknown_Definition (word_of t)) (r\<lparr>r_words := r_words r @ [word_of t]\<rparr>))"
      using 3 by (auto simp: ref_token is_term_def ident_def ref_terminator_def ref_pipe_def ref_check_def
          ref_invalid r_report_def Let_def)
    then show ?thesis using None by simp
  next
    case (Some cmds)
    let ?w = "r\<lparr>r_words := r_words r @ [word_of t]\<rparr>"
    have "?w = ?r" if "r_mode r = S_EXP_BEFORE_WORD" using that by (cases r) simp
    then have "(if r_mode r = S_ANY_BEFORE_WORD then ?r else ?w) = ?r" using "3.prems"(3) by auto
    moreover have "rfold ref_step r (render_tokens (t # t' # ts) @ rest)
        = rfold ref_step (if r_mode r = S_ANY_BEFORE_WORD then ?r else ?w) (render_tokens (t' # ts) @ rest)"
      using "3.prems" Some
      by (auto simp: ref_token is_term_def ident_def ref_terminator_def ref_pipe_def ref_check_def Let_def)
    ultimately have next_word: "rfold ref_step r (render_tokens (t # t' # ts) @ rest) = rfold ref_step ?r (render_tokens (t' # ts) @ rest)"
      by simp
    have IH: "rfold ref_step ?r (render_tokens (t' # ts) @ rest) =
      (case find (\<lambda>n. map_of (r_defs ?r) (word_of n) = None) (t' # ts) of
         None \<Rightarrow> rfold ref_step (?r\<lparr>r_world := pipeline_world (r_world ?r)
             (concat (map (\<lambda>n. the (map_of (r_defs ?r) n)) (r_words ?r @ map word_of (t' # ts)))),
             r_words := [], r_line := r_line ?r + 1, r_mode := S_ANY_BEFORE_WORD\<rparr>) rest
       | Some n \<Rightarrow> Ok (r_report (Unknown_Definition (word_of n))
             (?r\<lparr>r_words := r_words ?r @ map word_of (takeWhile (\<lambda>n. map_of (r_defs ?r) (word_of n) \<noteq> None) (t' # ts)) @ [word_of n]\<rparr>)))"
      using "3.prems" by (intro "3.IH") simp_all
    have upd: "?r\<lparr>r_world := x, r_words := [], r_line := y, r_mode := S_ANY_BEFORE_WORD\<rparr>
        = r\<lparr>r_world := x, r_words := [], r_line := y, r_mode := S_ANY_BEFORE_WORD\<rparr>"
      "r_report d (?r\<lparr>r_words := ws\<rparr>) = r_report d (r\<lparr>r_words := ws\<rparr>)" for x y d ws
      by (cases r, simp add: r_report_def)+
    show ?thesis unfolding next_word IH upd using Some by (simp cong: option.case_cong)
  qed
qed

section \<open>Whole scripts\<close>

definition script_rel :: "rstate \<Rightarrow> script_state \<Rightarrow> bool" where
  "script_rel r st \<longleftrightarrow> r_mode r = S_ANY_BEFORE_WORD \<and> r_scratch r = [] \<and> r_words r = [] \<and> r_err r = []
     \<and> r_defs r = fst st \<and> r_world r = snd st"

lemma ref_blank:
  assumes "r_mode r = S_ANY_BEFORE_WORD"
  shows "rfold ref_step r (render_item (Blank n) @ rest) = rfold ref_step (r\<lparr>r_line := r_line r + 1\<rparr>) rest"
  using assms ref_spaces [of r "replicate n SPC"]
  by (simp add: rfold_append ref_step_def ref_before_def)

lemma ref_item:
  assumes "script_rel r st" "valid_item it" "closed_from (fst ` set (fst st)) [it]"
  shows "\<exists>r'. rfold ref_step r (render_item it @ rest) = rfold ref_step r' rest
    \<and> script_rel r' (run_item st it) \<and> r_line r' = r_line r + 1"
proof (cases it)
  case (Blank n)
  then show ?thesis using assms ref_blank [of r n rest] by (auto simp: script_rel_def)
next
  case (Define k cs)
  then show ?thesis using assms ref_define [of k cs r rest] by (auto simp: script_rel_def)
next
  case (Run ns)
  then have names: "\<forall>n \<in> set ns. word_of n \<in> fst ` set (fst st)" "ns \<noteq> []" using assms(2,3) by simp_all
  then have "map_of (fst st) (word_of n) \<noteq> None" if "n \<in> set ns" for n
    using that by (simp add: map_of_eq_None_iff)
  then have "find (\<lambda>n. map_of (r_defs r) (word_of n) = None) ns = None"
    using assms(1) unfolding find_None_iff script_rel_def by auto
  moreover have "fst st \<noteq> []" using names by (cases ns) auto
  ultimately have "find (\<lambda>n. map_of (r_defs r) (word_of n) = None) ns = None" "fst st \<noteq> []" .
  then show ?thesis using Run assms ref_run [of ns r rest]
    by (auto simp: script_rel_def comp_def)
qed

lemma closed_step:
  "closed_from (fst ` set (fst st)) (it # its) \<Longrightarrow>
    closed_from (fst ` set (fst st)) [it] \<and> closed_from (fst ` set (fst (run_item st it))) its"
  by (cases it) auto

lemma ref_script:
  assumes "script_rel r st" "\<forall>it \<in> set its. valid_item it" "closed_from (fst ` set (fst st)) its"
  shows "\<exists>r'. rfold ref_step r (render its @ rest) = rfold ref_step r' rest
    \<and> script_rel r' (foldl run_item st its) \<and> r_line r' = r_line r + of_nat (length its)"
  using assms
proof (induction its arbitrary: r st)
  case Nil
  then show ?case by (auto simp: render_def)
next
  case (Cons it its)
  then obtain r' where r': "rfold ref_step r (render_item it @ render its @ rest) = rfold ref_step r' (render its @ rest)"
    "script_rel r' (run_item st it)" "r_line r' = r_line r + 1"
    using ref_item [of r st it "render its @ rest"] closed_step [OF Cons.prems(3)] by auto
  moreover obtain r'' where "rfold ref_step r' (render its @ rest) = rfold ref_step r'' rest"
    "script_rel r'' (foldl run_item (run_item st it) its)" "r_line r'' = r_line r' + of_nat (length its)"
    using Cons.IH [OF r'(2)] Cons.prems(2) closed_step [OF Cons.prems(3)] by auto
  ultimately show ?case by (auto simp: render_def)
qed

lemma script_rel_init: "script_rel (ref_init w) ([], w)"
  by (simp add: script_rel_def ref_init_def)

lemma render_tokens_nul: "list_all (\<lambda>n. plain_word (word_of n)) ts \<Longrightarrow> NUL \<notin> set (render_tokens ts)"
  by (induction ts rule: render_tokens.induct) (auto simp: render_token_def plain_word_def split: prod.splits)

lemma plain_idents: "list_all (\<lambda>n. ident (word_of n)) ts \<Longrightarrow> list_all (\<lambda>n. plain_word (word_of n)) ts"
  by (auto simp: list_all_iff ident_def)

lemma render_nul: "\<forall>it \<in> set its. valid_item it \<Longrightarrow> NUL \<notin> set (render its)"
proof (induction its)
  case Nil
  then show ?case by (simp add: render_def)
next
  case (Cons it its)
  have "NUL \<notin> set (render_item it)"
    using Cons.prems render_tokens_nul plain_idents
    by (cases it) (auto simp: render_token_def ident_def plain_word_def split: prod.splits)
  then show ?case using Cons by (simp add: render_def)
qed

text \<open>Running a script and then some other text.\<close>

lemma interp_after_script:
  assumes "env_ok env (w_fds w)" "\<forall>it \<in> set its. valid_item it" "closed_from {} its"
    and "concat blocks = render its @ rest" "NUL \<notin> set rest" "length (concat blocks) \<le> interp_limit"
  obtains r where "outcome (interp_main plenty env False w blocks) = ref_outcome (rfold ref_step r rest)"
    "script_rel r (run_script w its)" "r_line r = 1 + of_nat (length its)"
proof -
  have "NUL \<notin> set (concat blocks)" using assms(4,5) render_nul [OF assms(2)] by simp
  then have "\<forall>b \<in> set blocks. NUL \<notin> set b" by auto
  then have run: "outcome (interp_main plenty env False w blocks) = ref_outcome (rfold ref_step (ref_init w) (render its @ rest))"
    using interp_run [OF assms(1) _ assms(6)] assms(4) by simp
  obtain r where "rfold ref_step (ref_init w) (render its @ rest) = rfold ref_step r rest"
    "script_rel r (foldl run_item ([], w) its)" "r_line r = r_line (ref_init w) + of_nat (length its)"
    using ref_script [OF script_rel_init assms(2), of w rest] assms(3) by auto
  with run show ?thesis using that by (simp add: run_script_def ref_init_def)
qed

section \<open>Properties\<close>

text \<open>
  C1: a well-formed script whose names are defined before they are used, cut into blocks
  anywhere, with any spaces around its words, makes the program exit with status 0, report
  nothing and run exactly the pipelines of its expressions, each with the commands of its
  definitions (a redefinition replaces, a command may contain \<open>'='\<close>) and the plumbing of
  \<open>pipeline_world\<close>.
\<close>

theorem interp_runs_script:
  assumes "env_ok env (w_fds w)" "\<forall>it \<in> set its. valid_item it" "closed_from {} its"
    and "concat blocks = render its" "length (concat blocks) \<le> interp_limit"
  shows "outcome (interp_main plenty env False w blocks) = Ok (0, snd (run_script w its), [])"
proof -
  obtain r where "outcome (interp_main plenty env False w blocks) = ref_outcome (rfold ref_step r [])"
    "script_rel r (run_script w its)"
    using interp_after_script [OF assms(1-3), of blocks "[]"] assms(4,5) by auto
  then show ?thesis by (simp add: ref_outcome_def script_rel_def)
qed

definition demo_script :: "item list" where
  "demo_script = [Define (0, ''a'', 1) [(1, ''ls -l'', 1), (1, ''grep x=y'', 0)], Blank 2,
     Define (0, ''b'', 0) [(0, ''wc'', 0)], Run [(0, ''a'', 1), (1, ''b'', 0)]]"

lemma demo_script_ok: "\<forall>it \<in> set demo_script. valid_item it" "closed_from {} demo_script"
  by (simp_all add: demo_script_def ident_def plain_word_def schar_def)

theorem interp_runs_script_witness:
  "outcome (interp_main plenty demo_env False demo_world [take 9 (render demo_script), drop 9 (render demo_script)])
    = Ok (0, snd (run_script demo_world demo_script), [])"
  by (rule interp_runs_script [OF demo_env_ok demo_script_ok])
    (simp_all add: demo_script_def render_def render_token_def interp_limit_def)

text \<open>
  An expression with an undefined name, after a script with at least one definition,
  ends the program with status 1, one diagnostic that names the line and the first
  undefined name, and none of the commands of that line started.
\<close>

theorem interp_unknown_definition:
  assumes "env_ok env (w_fds w)" "\<forall>it \<in> set its. valid_item it" "closed_from {} its" "valid_item (Run ns)"
    and "fst (run_script w its) \<noteq> []"
    and "find (\<lambda>n. map_of (fst (run_script w its)) (word_of n) = None) ns = Some u"
    and "concat blocks = render (its @ [Run ns])" "length (concat blocks) \<le> interp_limit"
  shows "outcome (interp_main plenty env False w blocks)
    = Ok (1, snd (run_script w its), [(1 + of_nat (length its), Unknown_Definition (word_of u))])"
proof -
  have "NUL \<notin> set (render_tokens ns)" using assms(4) by (simp add: render_tokens_nul plain_idents)
  then obtain r where r: "outcome (interp_main plenty env False w blocks) = ref_outcome (rfold ref_step r (render_tokens ns))"
    "script_rel r (run_script w its)" "r_line r = 1 + of_nat (length its)"
    using interp_after_script [OF assms(1-3), of blocks "render_tokens ns"] assms(7,8) by (auto simp: render_def)
  then have "rfold ref_step r (render_tokens ns) = Ok (r_report (Unknown_Definition (word_of u))
      (r\<lparr>r_words := r_words r @ map word_of (takeWhile (\<lambda>n. map_of (r_defs r) (word_of n) \<noteq> None) ns) @ [word_of u]\<rparr>))"
    using ref_run [of ns r "[]"] assms(4,5,6) by (simp add: script_rel_def)
  then show ?thesis using r by (simp add: ref_outcome_def script_rel_def r_report_def)
qed

theorem interp_unknown_definition_witness:
  "outcome (interp_main plenty demo_env False demo_world [render (demo_script @ [Run [(0, ''b'', 0), (0, ''c'', 0)]])])
    = Ok (1, snd (run_script demo_world demo_script), [(1 + of_nat (length demo_script), Unknown_Definition ''c'')])"
  by (rule interp_unknown_definition [OF demo_env_ok demo_script_ok, where ns = "[(0, ''b'', 0), (0, ''c'', 0)]" and u = "(0, ''c'', 0)", simplified])
    (simp_all add: demo_script_def run_script_def render_def render_token_def interp_limit_def ident_def plain_word_def schar_def)

text \<open>
  An expression before any definition does not get that diagnostic: the program
  aborts on the assertion of the hash table.
\<close>

theorem interp_no_definitions_aborts:
  assumes "env_ok env (w_fds w)" "valid_item (Run ns)" "concat blocks = render_item (Run ns)"
    and "length (concat blocks) \<le> interp_limit"
  shows "outcome (interp_main plenty env False w blocks) = Err Assert_Fail"
proof -
  have nul: "NUL \<notin> set (render_tokens ns)" using assms(2) by (simp add: render_tokens_nul plain_idents)
  obtain r where r: "outcome (interp_main plenty env False w blocks) = ref_outcome (rfold ref_step r (render_tokens ns))"
    "script_rel r (run_script w [])"
    using interp_after_script [OF assms(1), of "[]" blocks "render_tokens ns"] assms(3,4) nul by (auto simp: render_def)
  obtain t ts where ns: "ns = t # ts" using assms(2) by (cases ns) auto
  have "rfold ref_step r (render_tokens ns) = Err Assert_Fail"
    using r(2) assms(2) ns
    by (cases ts) (auto simp: ref_token script_rel_def run_script_def ident_def is_term_def ref_terminator_def
        ref_line_def ref_pipe_def ref_check_def Let_def)
  then show ?thesis using r(1) by (simp add: ref_outcome_def)
qed

theorem interp_no_definitions_aborts_witness:
  "outcome (interp_main plenty demo_env False demo_world [render_item (Run [(0, ''ls'', 0)])]) = Err Assert_Fail"
  by (rule interp_no_definitions_aborts [OF demo_env_ok, where ns = "[(0, ''ls'', 0)]"])
    (simp_all add: render_token_def interp_limit_def ident_def plain_word_def schar_def)

text \<open>
  A last line without a newline is silently ignored, although the grammar in the
  source separates lines by newlines and does not ask for one at the end.
\<close>

theorem interp_ignores_unterminated_line:
  assumes "env_ok env (w_fds w)" "\<forall>it \<in> set its. valid_item it" "closed_from {} its" "ident (word_of t)"
    and "concat blocks = render its @ render_token t" "length (concat blocks) \<le> interp_limit"
  shows "outcome (interp_main plenty env False w blocks) = Ok (0, snd (run_script w its), [])"
proof -
  have "NUL \<notin> set (render_token t)" using assms(4) by (auto simp: render_token_def ident_def plain_word_def split: prod.splits)
  then obtain r where r: "outcome (interp_main plenty env False w blocks) = ref_outcome (rfold ref_step r (render_token t))"
    "script_rel r (run_script w its)"
    using interp_after_script [OF assms(1-3), of blocks "render_token t"] assms(5,6) by auto
  have "rfold ref_step r (render_token t) = Ok (inside_token r t)"
    using r(2) assms(4) by (intro ref_token_open) (auto simp: script_rel_def ident_def)
  then show ?thesis using r by (simp add: ref_outcome_def script_rel_def inside_token_def)
qed

theorem interp_ignores_unterminated_line_witness:
  "outcome (interp_main plenty demo_env False demo_world [render demo_script @ render_token (0, ''b'', 0)])
    = Ok (0, snd (run_script demo_world demo_script), [])"
  by (rule interp_ignores_unterminated_line [OF demo_env_ok demo_script_ok, where t = "(0, ''b'', 0)"])
    (simp_all add: demo_script_def render_def render_token_def interp_limit_def ident_def plain_word_def schar_def)

text \<open>
  A word that starts with a byte above 0x7f is rejected as a control character, since
  \<open>char\<close> is signed; the grammar in the source allows it.
\<close>

theorem interp_rejects_high_bytes:
  assumes "env_ok env (w_fds w)" "128 \<le> (of_char c :: nat)" "NUL \<notin> set cs" "Suc (length cs) \<le> interp_limit"
  shows "outcome (interp_main plenty env False w [c # cs]) = Ok (1, w, [(1, Expected_Word_Got_Control)])"
proof -
  have hi: "schar c < 0x20" using schar_high [OF assms(2)] by simp
  have ne: "c \<noteq> NUL" "c \<noteq> SPC" "c \<noteq> NL" "c \<noteq> CHR ''=''" "c \<noteq> CHR ''|''" using assms(2) by auto
  have "outcome (interp_main plenty env False w [c # cs]) = ref_outcome (rfold ref_step (ref_init w) (c # cs))"
    using interp_run [OF assms(1), of "[c # cs]"] assms(3,4) ne(1) by simp
  also have "rfold ref_step (ref_init w) (c # cs) = Ok (r_report Expected_Word_Got_Control (ref_init w))"
    using hi ne by (simp add: ref_step_def ref_init_def ref_before_def) (simp add: ref_invalid r_report_def)
  finally show ?thesis by (simp add: ref_outcome_def r_report_def ref_init_def del: plenty)
qed

theorem interp_rejects_high_bytes_witness:
  "outcome (interp_main plenty demo_env False demo_world [CHR 0xC5 # ''a''])
    = Ok (1, demo_world, [(1, Expected_Word_Got_Control)])"
  by (rule interp_rejects_high_bytes [OF demo_env_ok]) (simp_all add: interp_limit_def)

end
