(* ===== verification/Path_Str.thy ===== *)
theory Path_Str
  imports Sized_Str
begin

text \<open>
  The sized string of the directory walker (\<open>lab2/zad3/main.c\<close>): the same structure as the
  interpreter's, but it holds a path. A component is pushed after a slash, and popped by
  cutting the string at its last slash. Unlike the interpreter's it always records the
  capacity of its first buffer.
\<close>

section \<open>Operations\<close>

definition path_alloc :: "allocator \<Rightarrow> u64 \<Rightarrow> sstr" where
  "path_alloc al len = \<lparr>scap = len, slen = 0, sdata = calloc_bytes al (len + 1)\<rparr>"

definition path_realloc :: "allocator \<Rightarrow> sstr \<Rightarrow> u64 \<Rightarrow> sstr result" where
  "path_realloc al ss newlen =
     rbind (c_assert (newlen > scap ss)) (\<lambda>_.
       case calloc_bytes al (newlen + 1) of
         None \<Rightarrow> Ok (ss\<lparr>sdata := None\<rparr>)
       | Some nd \<Rightarrow>
           (case sdata ss of
              None \<Rightarrow> Err Undef_Behaviour
            | Some od \<Rightarrow> rbind (c_strcpy nd od) (\<lambda>d. Ok (ss\<lparr>sdata := Some d, scap := newlen\<rparr>))))"

definition path_free :: "sstr \<Rightarrow> sstr result" where
  "path_free ss = rbind (c_assert (sdata ss \<noteq> None)) (\<lambda>_.
     Ok (ss\<lparr>sdata := None, slen := 0, scap := 0\<rparr>))"

definition path_ensure :: "allocator \<Rightarrow> sstr \<Rightarrow> u64 \<Rightarrow> bool \<Rightarrow> sstr result" where
  "path_ensure al ss len realloc =
     (if len > scap ss then
        rbind (next_size_m1 (len - 1)) (\<lambda>wanted.
        rbind (c_assert (wanted \<ge> len)) (\<lambda>_.
        rbind (if realloc then path_realloc al ss wanted
               else rbind (if sdata ss \<noteq> None then path_free ss else Ok ss)
                      (\<lambda>_. Ok (path_alloc al wanted))) (\<lambda>ss'.
          if sdata ss' = None then Err (Exit_Status 65) else Ok ss')))
      else Ok ss)"

text \<open>\<open>strcpy(d + off, s)\<close> for a string \<open>s\<close> without NUL bytes.\<close>

definition put_cstr :: "sstr \<Rightarrow> nat \<Rightarrow> string \<Rightarrow> sstr result" where
  "put_cstr ss off s = (case sdata ss of
     None \<Rightarrow> Err Undef_Behaviour
   | Some d \<Rightarrow> rbind (c_memcpy d off (s @ [NUL])) (\<lambda>d. Ok (ss\<lparr>sdata := Some d\<rparr>)))"

definition path_assign :: "allocator \<Rightarrow> sstr \<Rightarrow> string \<Rightarrow> sstr result" where
  "path_assign al ss s =
     rbind (path_ensure al ss (of_nat (length s)) False) (\<lambda>ss.
     rbind (put_cstr ss 0 s) (\<lambda>ss. Ok (ss\<lparr>slen := of_nat (length s)\<rparr>)))"

definition path_push :: "allocator \<Rightarrow> sstr \<Rightarrow> string \<Rightarrow> sstr result" where
  "path_push al ss name =
     rbind (path_ensure al ss (slen ss + of_nat (length name) + 1) True) (\<lambda>ss.
     case sdata ss of
       None \<Rightarrow> Err Undef_Behaviour
     | Some d \<Rightarrow>
         rbind (c_putc d (unat (slen ss)) CHR ''/'') (\<lambda>d.
         rbind (put_cstr (ss\<lparr>sdata := Some d, slen := slen ss + 1\<rparr>) (unat (slen ss + 1)) name) (\<lambda>ss.
           Ok (ss\<lparr>slen := slen ss + of_nat (length name)\<rparr>))))"

text \<open>\<open>strrchr\<close>: the last position of a character.\<close>

definition rfind_index :: "'a \<Rightarrow> 'a list \<Rightarrow> nat option" where
  "rfind_index c xs = map_option (\<lambda>k. length xs - Suc k) (find_index c (rev xs))"

text \<open>The result is the text after the cut, or \<open>None\<close> for a null pointer.\<close>

definition path_pop :: "sstr \<Rightarrow> (string option \<times> sstr) result" where
  "path_pop ss = (case sdata ss of
     None \<Rightarrow> Err Undef_Behaviour
   | Some d \<Rightarrow>
       (case rfind_index CHR ''/'' (cstr d) of
          None \<Rightarrow> Ok (None, ss)
        | Some i \<Rightarrow> rbind (c_putc d i NUL) (\<lambda>d'.
            Ok (Some (cstr (drop (Suc i) d)), ss\<lparr>slen := of_nat i, sdata := Some d'\<rparr>))))"

section \<open>What the operations do to the path represented\<close>

lemma rfind_index_append:
  "c \<notin> set ys \<Longrightarrow> rfind_index c (xs @ c # ys) = Some (length xs)"
  by (simp add: rfind_index_def find_index_append)

lemma put_cstr_rep:
  assumes "sdata ss = Some d" "NUL \<notin> set s" "NUL \<notin> set p" "take (length p) d = p"
    and "length p + length s < length d" "Suc (unat (scap ss)) \<le> length d"
  shows "\<exists>d'. put_cstr ss (length p) s = Ok (ss\<lparr>sdata := Some d'\<rparr>) \<and>
    take (Suc (length (p @ s))) d' = (p @ s) @ [NUL] \<and> length d' = length d"
  using assms by (auto simp: put_cstr_def c_memcpy_def)

lemma path_ensure_rep:
  assumes rep: "ss_rep ss s" and s: "sdata ss \<noteq> None"
    and len: "unat len \<le> ss_limit" "length s \<le> unat len" "0 < unat len"
  shows "\<exists>ss' d. path_ensure plenty ss len True = Ok ss' \<and> ss_rep ss' s \<and> sdata ss' = Some d
    \<and> unat len < length d"
proof (cases "len > scap ss")
  case False
  then show ?thesis using rep len s
    by (auto simp: path_ensure_def ss_rep_def word_less_nat_alt split: option.splits)
next
  case True
  obtain w where w: "next_size_m1 (len - 1) = Ok w" "unat len \<le> unat w" "unat w \<le> 2 * unat len + 7"
    using len(3) by (rule next_size_m1_ge)
  have "unat (w + 1) = Suc (unat w)" using w(3) len(1) by (intro u64_suc) (simp add: ss_limit_def)
  then have nd: "calloc_bytes plenty (w + 1) = Some (replicate (Suc (unat w)) NUL)"
    by (simp add: calloc_bytes_def)
  from w(2) True have gt: "w > scap ss" by (simp add: word_less_nat_alt)
  obtain od where od: "sdata ss = Some od" using s by auto
  have "c_strcpy (replicate (Suc (unat w)) NUL) od
      = Ok (s @ NUL # drop (Suc (length s)) (replicate (Suc (unat w)) NUL))"
    using ss_rep_data [OF rep od] w(2) len by (simp add: c_strcpy_def)
  with True rep gt nd w len od show ?thesis
    by (auto simp: path_ensure_def path_realloc_def ss_rep_def word_le_nat_alt)
qed

lemma path_assign_rep:
  assumes s: "s \<noteq> []" "NUL \<notin> set s" "length s \<le> ss_limit"
  shows "\<exists>ss. path_assign plenty ss_zero s = Ok ss \<and> ss_rep ss s \<and> sdata ss \<noteq> None"
proof -
  let ?len = "of_nat (length s) :: u64"
  have len: "unat ?len = length s" using s(3) by (intro u64_of_nat) (simp add: ss_limit_def)
  then have pos: "0 < unat ?len" using s(1) by simp
  obtain w where w: "next_size_m1 (?len - 1) = Ok w" "unat ?len \<le> unat w" "unat w \<le> 2 * unat ?len + 7"
    using pos by (rule next_size_m1_ge)
  have "unat (w + 1) = Suc (unat w)"
    using w(3) s(3) len by (intro u64_suc) (simp add: ss_limit_def)
  then have nd: "calloc_bytes plenty (w + 1) = Some (replicate (Suc (unat w)) NUL)"
    by (simp add: calloc_bytes_def)
  let ?ss = "\<lparr>scap = w, slen = 0, sdata = Some (replicate (Suc (unat w)) NUL)\<rparr>"
  have "path_ensure plenty ss_zero ?len False = Ok ?ss"
    using w pos nd by (simp add: path_ensure_def ss_zero_def path_alloc_def word_less_nat_alt word_le_nat_alt)
  moreover obtain d where d: "put_cstr ?ss 0 s = Ok (?ss\<lparr>sdata := Some d\<rparr>)"
    "take (Suc (length s)) d = s @ [NUL]" "length d = Suc (unat w)"
    using put_cstr_rep [of ?ss "replicate (Suc (unat w)) NUL" s "[]"] s(2) w(2) len by auto
  ultimately show ?thesis
    using s(2) len by (auto simp: path_assign_def ss_rep_def)
qed

lemma path_push_rep:
  assumes rep: "ss_rep ss s" "sdata ss \<noteq> None" and n: "NUL \<notin> set name"
    and room: "Suc (length s + length name) \<le> ss_limit"
  shows "\<exists>ss'. path_push plenty ss name = Ok ss' \<and> ss_rep ss' (s @ CHR ''/'' # name) \<and> sdata ss' \<noteq> None"
proof -
  let ?l = "slen ss + of_nat (length name) + 1"
  have sl: "unat (slen ss) = length s" by (rule ss_rep_len [OF rep(1)])
  have nm: "unat (of_nat (length name) :: u64) = length name"
    using room by (intro u64_of_nat) (simp add: ss_limit_def)
  have "unat (slen ss + of_nat (length name)) = length s + length name"
    using room by (subst u64_add) (simp_all add: sl nm ss_limit_def)
  then have l: "unat ?l = Suc (length s + length name)"
    using room by (subst u64_suc) (simp_all add: ss_limit_def)
  obtain ss' d where ss': "path_ensure plenty ss ?l True = Ok ss'" "ss_rep ss' s"
    "sdata ss' = Some d" "unat ?l < length d"
    using path_ensure_rep [OF rep, of ?l] l room by auto
  have sl': "unat (slen ss') = length s" by (rule ss_rep_len [OF ss'(2)])
  have sl1: "unat (slen ss' + 1) = Suc (length s)"
    using room sl' by (subst u64_suc) (simp_all add: ss_limit_def)
  have sl2: "unat (slen ss' + 1 + of_nat (length name)) = Suc (length s + length name)"
    using room by (subst u64_add) (simp_all add: sl1 nm ss_limit_def)
  note d = ss_rep_data [OF ss'(2,3)]
  have s_nul: "NUL \<notin> set s" and cap: "Suc (unat (scap ss')) \<le> length d"
    using ss'(2,3) by (simp_all add: ss_rep_def)
  let ?p = "s @ [CHR ''/'']" and ?d = "d[length s := CHR ''/'']"
  let ?ss = "ss'\<lparr>sdata := Some ?d, slen := slen ss' + 1\<rparr>"
  have "take (length ?p) ?d = ?p"
    using d(2,3) by (simp add: take_Suc_conv_app_nth)
  then obtain d' where d': "put_cstr ?ss (length ?p) name = Ok (?ss\<lparr>sdata := Some d'\<rparr>)"
    "take (Suc (length (?p @ name))) d' = (?p @ name) @ [NUL]" "length d' = length d"
    using put_cstr_rep [of ?ss ?d name ?p] n s_nul ss'(4) l cap by auto
  then have "ss_rep (?ss\<lparr>sdata := Some d', slen := slen ss' + 1 + of_nat (length name)\<rparr>)
      (s @ CHR ''/'' # name)"
    using n s_nul cap sl2 by (simp add: ss_rep_def)
  then show ?thesis
    using ss' d(3) d'(1) sl' sl1 by (simp add: path_push_def c_putc_def)
qed

lemma path_pop_rep:
  assumes rep: "ss_rep ss (s @ CHR ''/'' # name)" and n: "CHR ''/'' \<notin> set name"
    and room: "length s \<le> ss_limit"
  shows "\<exists>ss'. path_pop ss = Ok (Some name, ss') \<and> ss_rep ss' s \<and> sdata ss' \<noteq> None"
proof -
  let ?s = "s @ CHR ''/'' # name"
  obtain d where d: "sdata ss = Some d" using ss_rep_nonempty [OF rep] by auto
  note data = ss_rep_data [OF rep d]
  have nul: "NUL \<notin> set ?s" and cap: "Suc (unat (scap ss)) \<le> length d"
    and tk: "take (Suc (length ?s)) d = ?s @ [NUL]"
    using rep d by (simp_all add: ss_rep_def)
  obtain r where r: "d = ?s @ NUL # r"
    using tk append_take_drop_id [of "Suc (length ?s)" d] by (metis append.assoc append_Cons append_Nil)
  have "cstr (drop (Suc (length s)) d) = name"
    using nul cstr_append_NUL [of name r] by (simp add: r)
  moreover have "unat (of_nat (length s) :: u64) = length s"
    using room by (intro u64_of_nat) (simp add: ss_limit_def)
  moreover have "take (Suc (length s)) (d[length s := NUL]) = s @ [NUL]"
    by (simp add: r list_update_append)
  ultimately show ?thesis
    using data nul cap d rfind_index_append [OF n, of s]
    by (simp add: path_pop_def c_putc_def ss_rep_def)
qed

end
