(* ===== verification/Dir_Walk.thy ===== *)
theory Dir_Walk
  imports Path_Str
begin

text \<open>
  The directory walker of \<open>lab2/zad3/main.c\<close> (the build with \<open>readdir\<close>): a loop with an
  explicit stack of open directories and one path string that is pushed and popped along
  the way. The file system is a parameter: what \<open>lstat\<close> and \<open>opendir\<close> answer for a path,
  and which names a directory stream yields before it ends. It does not change during
  the walk. A directory stream that fails, a directory that cannot be opened or closed,
  and the limit on the nesting are branches of the model.
\<close>

section \<open>The file system seen through system calls\<close>

record fstat =
  st_mode :: u32
  st_nlink :: nat
  st_size :: int
  st_uid :: nat
  st_gid :: nat
  st_atime :: "string option"
  st_mtime :: "string option"

text \<open>How a directory stream ends: with its last entry (and then \<open>closedir\<close> may fail), or in an error.\<close>

datatype dir_end = Closes | Close_Fails | Read_Fails

type_synonym dirstream = "string list \<times> dir_end"

record fsys =
  fs_lstat :: "string \<Rightarrow> fstat option"
  fs_opendir :: "string \<Rightarrow> dirstream option"
  fs_uid :: nat
  fs_gid :: nat

section \<open>Statistics and the report of an entry\<close>

record walk_stats =
  n_file :: u32
  n_dir :: u32
  n_char :: u32
  n_blk :: u32
  n_fifo :: u32
  n_sym :: u32
  n_sock :: u32
  n_fail :: u32
  total_bytes :: u64

definition zero_stats :: walk_stats where
  "zero_stats = \<lparr>n_file = 0, n_dir = 0, n_char = 0, n_blk = 0, n_fifo = 0, n_sym = 0, n_sock = 0,
     n_fail = 0, total_bytes = 0\<rparr>"

datatype walk_line =
    Entry string nat string int "string option" "string option"
  | Unknown_Mode string u32
  | No_Stat string
  | Read_Error string
  | Too_Many_Levels

record tally =
  t_stats :: walk_stats
  t_lines :: "walk_line list"

definition say_line :: "walk_line \<Rightarrow> 'a tally_scheme \<Rightarrow> 'a tally_scheme" where
  "say_line l t = t\<lparr>t_lines := t_lines t @ [l]\<rparr>"

definition count_fail :: "'a tally_scheme \<Rightarrow> 'a tally_scheme" where
  "count_fail t = t\<lparr>t_stats := (t_stats t)\<lparr>n_fail := n_fail (t_stats t) + 1\<rparr>\<rparr>"

definition S_IFMT :: u32 where "S_IFMT = 0xF000"
definition S_IFDIR :: u32 where "S_IFDIR = 0x4000"

definition mode_desc :: "u32 \<Rightarrow> walk_stats \<Rightarrow> (string \<times> walk_stats) option" where
  "mode_desc mode s = (let f = mode AND S_IFMT in
     if f = 0xC000 then Some (''sock'', s\<lparr>n_sock := n_sock s + 1\<rparr>)
     else if f = 0xA000 then Some (''syml'', s\<lparr>n_sym := n_sym s + 1\<rparr>)
     else if f = 0x8000 then Some (''file'', s\<lparr>n_file := n_file s + 1\<rparr>)
     else if f = 0x6000 then Some (''bdev'', s\<lparr>n_blk := n_blk s + 1\<rparr>)
     else if f = S_IFDIR then Some (''dir '', s\<lparr>n_dir := n_dir s + 1\<rparr>)
     else if f = 0x2000 then Some (''cdev'', s\<lparr>n_char := n_char s + 1\<rparr>)
     else if f = 0x1000 then Some (''fifo'', s\<lparr>n_fifo := n_fifo s + 1\<rparr>)
     else None)"

definition walk_report :: "string \<Rightarrow> fstat \<Rightarrow> 'a tally_scheme \<Rightarrow> 'a tally_scheme" where
  "walk_report fpath sb t = (case mode_desc (st_mode sb) (t_stats t) of
     None \<Rightarrow> count_fail (say_line (Unknown_Mode fpath (st_mode sb)) t)
   | Some (desc, s) \<Rightarrow>
       say_line (Entry fpath (st_nlink sb) desc (st_size sb) (st_atime sb) (st_mtime sb))
         (t\<lparr>t_stats := s\<lparr>total_bytes := total_bytes s + of_int (st_size sb)\<rparr>\<rparr>))"

text \<open>Whether to descend: a directory whose read and execute bits for this user are set.\<close>

definition descend :: "fsys \<Rightarrow> fstat \<Rightarrow> bool" where
  "descend fs sb \<longleftrightarrow> st_mode sb AND S_IFMT = S_IFDIR \<and>
     (if st_uid sb = fs_uid fs then st_mode sb AND 0x100 > 0 \<and> st_mode sb AND 0x40 > 0
      else if st_gid sb = fs_gid fs then st_mode sb AND 0x20 > 0 \<and> st_mode sb AND 0x8 > 0
      else st_mode sb AND 0x4 > 0 \<and> st_mode sb AND 0x1 > 0)"

definition walk_process :: "fsys \<Rightarrow> string \<Rightarrow> 'a tally_scheme \<Rightarrow> bool \<times> 'a tally_scheme" where
  "walk_process fs path t = (case fs_lstat fs path of
     None \<Rightarrow> (False, count_fail (say_line (No_Stat path) t))
   | Some sb \<Rightarrow> (descend fs sb, walk_report path sb t))"

section \<open>The loop\<close>

text \<open>The stack holds \<open>dirs[depth], ..., dirs[0]\<close>: its length is \<open>depth + 1\<close>.\<close>

record walk = tally +
  fullpath :: sstr
  dirs :: "dirstream list"

definition max_dirs :: nat where "max_dirs = 256"

definition is_dot :: "string \<Rightarrow> bool" where
  "is_dot n \<longleftrightarrow> n = ''.'' \<or> n = ''..''"

text \<open>\<open>fullpath.data\<close> as the C string the system calls see, and \<open>ss_pop\<close> with its assertion.\<close>

definition cur_path :: "walk \<Rightarrow> string" where
  "cur_path w = (case sdata (fullpath w) of None \<Rightarrow> [] | Some d \<Rightarrow> cstr d)"

definition pop_path :: "walk \<Rightarrow> walk result" where
  "pop_path w = rbind (path_pop (fullpath w)) (\<lambda>(popped, ss).
     rbind (c_assert (popped \<noteq> None)) (\<lambda>_. Ok (w\<lparr>fullpath := ss\<rparr>)))"

datatype loop_ctl = Again walk | Stop walk

definition leave_dir :: "walk \<Rightarrow> loop_ctl result" where
  "leave_dir w = (if length (dirs w) \<le> 1 then Ok (Stop w)
     else rbind (pop_path (w\<lparr>dirs := tl (dirs w)\<rparr>)) (\<lambda>w. Ok (Again w)))"

definition enter_entry :: "allocator \<Rightarrow> fsys \<Rightarrow> string \<Rightarrow> walk \<Rightarrow> loop_ctl result" where
  "enter_entry al fs name w =
     rbind (path_push al (fullpath w) name) (\<lambda>ss.
     let (rec, w) = walk_process fs (cur_path (w\<lparr>fullpath := ss\<rparr>)) (w\<lparr>fullpath := ss\<rparr>) in
     if rec then
       (if length (dirs w) \<ge> max_dirs then
          rbind (pop_path (say_line Too_Many_Levels w)) (\<lambda>w. Ok (Again (count_fail w)))
        else (case fs_opendir fs (cur_path w) of
            None \<Rightarrow> Err (Exit_Status 1)
          | Some d \<Rightarrow> Ok (Again (w\<lparr>dirs := d # dirs w\<rparr>))))
     else rbind (pop_path w) (\<lambda>w. Ok (Again w)))"

definition walk_step :: "allocator \<Rightarrow> fsys \<Rightarrow> walk \<Rightarrow> loop_ctl result" where
  "walk_step al fs w = (case dirs w of
     [] \<Rightarrow> Err Undef_Behaviour
   | (names, e) # rest \<Rightarrow>
       (case names of
          name # names' \<Rightarrow>
            (if is_dot name then Ok (Again (w\<lparr>dirs := (names', e) # rest\<rparr>))
             else enter_entry al fs name (w\<lparr>dirs := (names', e) # rest\<rparr>))
        | [] \<Rightarrow>
            (case e of
               Closes \<Rightarrow> leave_dir w
             | Close_Fails \<Rightarrow> Err (Exit_Status 1)
             | Read_Fails \<Rightarrow> leave_dir (count_fail (say_line (Read_Error (cur_path w)) w)))))"

partial_function (option) walk_loop :: "allocator \<Rightarrow> fsys \<Rightarrow> walk \<Rightarrow> walk result option" where
  "walk_loop al fs w = (case walk_step al fs w of
     Inl e \<Rightarrow> Some (Inl e)
   | Inr (Stop w') \<Rightarrow> Some (Inr w')
   | Inr (Again w') \<Rightarrow> walk_loop al fs w')"

text \<open>\<open>walk\<close>: the statistics and the lines printed; \<open>None\<close> is a walk that never ends.\<close>

definition walk_dir :: "allocator \<Rightarrow> fsys \<Rightarrow> string \<Rightarrow> tally result option" where
  "walk_dir al fs path = (case path_assign al ss_zero path of
     Inl e \<Rightarrow> Some (Inl e)
   | Inr ss \<Rightarrow>
       (let w0 = \<lparr>t_stats = zero_stats, t_lines = [], fullpath = ss, dirs = []\<rparr>;
            (rec, w) = walk_process fs (cur_path w0) w0
        in if \<not> rec then Some (Inr (tally.truncate w))
           else (case fs_opendir fs (cur_path w) of
               None \<Rightarrow> Some (Inl (Exit_Status 1))
             | Some d \<Rightarrow> map_option (\<lambda>r. rbind r (\<lambda>w. rbind (path_free (fullpath w))
                 (\<lambda>_. Ok (tally.truncate w)))) (walk_loop al fs (w\<lparr>dirs := [d]\<rparr>)))))"

text \<open>The exit status of the program and what it printed.\<close>

definition walk_main :: "allocator \<Rightarrow> fsys \<Rightarrow> (string \<Rightarrow> string option) \<Rightarrow> string list \<Rightarrow>
    (int \<times> tally option) result option" where
  "walk_main al fs realpath argv =
     (if length argv \<noteq> 2 then Some (Ok (2, None))
      else (case realpath (argv ! 1) of
          None \<Rightarrow> Some (Ok (1, None))
        | Some path \<Rightarrow> map_option (\<lambda>r. rbind r (\<lambda>t.
            Ok (if n_fail (t_stats t) > 0 then 1 else 0, Some t))) (walk_dir al fs path)))"

end
