(* ===== verification/Dir_Spec.thy ===== *)
theory Dir_Spec
  imports Dir_Walk
begin

text \<open>
  What the directory walker does. \<open>visit\<close> is the recursive traversal, with the number of
  levels left instead of a stack and with paths as plain strings; the loop of \<open>walk\<close> is
  shown to compute it, and so to end, on every file system. On a file system that shows a
  tree of known entries the traversal is the preorder of the tree.
\<close>

section \<open>The recursive traversal\<close>

abbreviation path_in :: "string \<Rightarrow> string \<Rightarrow> string" where
  "path_in p n \<equiv> p @ CHR ''/'' # n"

function visit :: "fsys \<Rightarrow> nat \<Rightarrow> string \<Rightarrow> string list \<Rightarrow> dir_end \<Rightarrow> tally \<Rightarrow> tally result" where
  "visit fs k path [] e t = (case e of
     Closes \<Rightarrow> Ok t
   | Close_Fails \<Rightarrow> Err (Exit_Status 1)
   | Read_Fails \<Rightarrow> Ok (count_fail (say_line (Read_Error path) t)))"
| "visit fs k path (n # ns) e t =
     (if is_dot n then visit fs k path ns e t
      else (case walk_process fs (path_in path n) t of (rec, t') \<Rightarrow>
        (if \<not> rec then visit fs k path ns e t'
         else (case k of
             0 \<Rightarrow> visit fs 0 path ns e (count_fail (say_line Too_Many_Levels t'))
           | Suc k' \<Rightarrow>
               (case fs_opendir fs (path_in path n) of
                  None \<Rightarrow> Err (Exit_Status 1)
                | Some (ms, e') \<Rightarrow>
                    rbind (visit fs k' (path_in path n) ms e' t') (visit fs k path ns e))))))"
  by pat_completeness auto
termination
  by (relation "measures [\<lambda>(fs, k, path, ns, e, t). k, \<lambda>(fs, k, path, ns, e, t). length ns]") auto

definition visit_root :: "fsys \<Rightarrow> string \<Rightarrow> tally result" where
  "visit_root fs path = (case walk_process fs path \<lparr>t_stats = zero_stats, t_lines = []\<rparr> of (rec, t) \<Rightarrow>
     if \<not> rec then Ok t
     else (case fs_opendir fs path of
         None \<Rightarrow> Err (Exit_Status 1)
       | Some (ns, e) \<Rightarrow> visit fs (max_dirs - 1) path ns e t))"

text \<open>Names as \<open>readdir\<close> gives them: no slash, no NUL, at most \<open>NAME_MAX\<close> bytes.\<close>

definition name_ok :: "string \<Rightarrow> bool" where
  "name_ok n \<longleftrightarrow> CHR ''/'' \<notin> set n \<and> NUL \<notin> set n \<and> length n \<le> 255"

definition names_ok :: "fsys \<Rightarrow> bool" where
  "names_ok fs \<longleftrightarrow> (\<forall>p ns e. fs_opendir fs p = Some (ns, e) \<longrightarrow> (\<forall>n \<in> set ns. name_ok n))"

section \<open>The loop computes the traversal\<close>

definition walk_of :: "tally \<Rightarrow> sstr \<Rightarrow> dirstream list \<Rightarrow> walk" where
  "walk_of t fp ds = \<lparr>t_stats = t_stats t, t_lines = t_lines t, fullpath = fp, dirs = ds\<rparr>"

lemma walk_of_simps [simp]:
  "fullpath (walk_of t fp ds) = fp" "dirs (walk_of t fp ds) = ds"
  "(walk_of t fp ds)\<lparr>fullpath := fp'\<rparr> = walk_of t fp' ds"
  "(walk_of t fp ds)\<lparr>dirs := ds'\<rparr> = walk_of t fp ds'"
  "say_line l (walk_of t fp ds) = walk_of (say_line l t) fp ds"
  "count_fail (walk_of t fp ds) = walk_of (count_fail t) fp ds"
  "tally.truncate (walk_of t fp ds) = t"
  by (simp_all add: walk_of_def say_line_def count_fail_def tally.truncate_def)

lemma report_walk_of [simp]: "walk_report p sb (walk_of t fp ds) = walk_of (walk_report p sb t) fp ds"
  by (simp add: walk_report_def walk_of_def say_line_def count_fail_def split: option.split)

lemma process_walk_of [simp]:
  "walk_process fs p (walk_of t fp ds) = (case walk_process fs p t of (b, t') \<Rightarrow> (b, walk_of t' fp ds))"
  by (simp add: walk_process_def split: option.split)

text \<open>The buffer holds a path.\<close>

definition holds :: "sstr \<Rightarrow> string \<Rightarrow> bool" where
  "holds fp path \<longleftrightarrow> ss_rep fp path \<and> sdata fp \<noteq> None"

lemma cur_path_holds: "holds fp path \<Longrightarrow> cur_path (walk_of t fp ds) = path"
  by (auto simp: holds_def cur_path_def ss_rep_data)

lemma push_holds:
  assumes "holds fp path" "name_ok n" "length path + 256 \<le> ss_limit"
  obtains fp' where "path_push plenty fp n = Ok fp'" "holds fp' (path_in path n)"
  using path_push_rep [of fp path n] assms by (auto simp: holds_def name_ok_def)

lemma pop_holds:
  assumes "holds fp (path_in path n)" "name_ok n" "length path \<le> ss_limit"
  obtains fp' where "pop_path (walk_of t fp ds) = Ok (walk_of t fp' ds)" "holds fp' path"
  using path_pop_rep [of fp path n] assms by (auto simp: holds_def name_ok_def pop_path_def)

definition resume :: "fsys \<Rightarrow> loop_ctl result \<Rightarrow> walk result option" where
  "resume fs r = (case r of
     Inl e \<Rightarrow> Some (Inl e) | Inr (Stop w) \<Rightarrow> Some (Inr w) | Inr (Again w) \<Rightarrow> walk_loop plenty fs w)"

lemma resume_simps [simp]:
  "resume fs (Inl x) = Some (Inl x)" "resume fs (Inr (Stop w)) = Some (Inr w)"
  "resume fs (Inr (Again w)) = walk_loop plenty fs w"
  by (simp_all add: resume_def)

lemma walk_loop_resume: "walk_loop plenty fs w = resume fs (walk_step plenty fs w)"
  unfolding resume_def by (subst walk_loop.simps) (simp split: sum.split loop_ctl.split)

text \<open>What remains to be done once a directory has been read to its end.\<close>

definition finishes :: "fsys \<Rightarrow> string \<Rightarrow> dirstream list \<Rightarrow> walk \<Rightarrow> tally result \<Rightarrow> bool" where
  "finishes fs path rest w r = (case r of
     Inl x \<Rightarrow> walk_loop plenty fs w = Some (Inl x)
   | Inr t \<Rightarrow> \<exists>fp d. holds fp path \<and>
       walk_loop plenty fs w = resume fs (leave_dir (walk_of t fp (d # rest))))"

lemma finishes_cong:
  "walk_loop plenty fs w = walk_loop plenty fs w' \<Longrightarrow> finishes fs path rest w r = finishes fs path rest w' r"
  unfolding finishes_def by (cases r) simp_all

lemma finishes_again:
  "walk_step plenty fs w = Ok (Again w') \<Longrightarrow> finishes fs path rest w' r \<Longrightarrow> finishes fs path rest w r"
  by (subst finishes_cong [of fs w w']) (simp_all add: walk_loop_resume [of fs w])

lemma finishes_end:
  assumes "holds fp path"
  shows "finishes fs path rest (walk_of t fp (([], e) # rest)) (visit fs k path [] e t)"
  using assms cur_path_holds [OF assms]
  by (cases e) (auto simp: finishes_def walk_loop_resume walk_step_def intro!: exI [of _ fp])

text \<open>After a subdirectory has been visited the loop goes on in its parent.\<close>

lemma finishes_child:
  assumes child: "finishes fs (path_in path n) (d # rest) w r"
    and n: "name_ok n" "length path \<le> ss_limit"
    and parent: "\<And>t fp. r = Ok t \<Longrightarrow> holds fp path \<Longrightarrow> finishes fs path rest (walk_of t fp (d # rest)) (f t)"
  shows "finishes fs path rest w (rbind r f)"
proof (cases r)
  case (Inl x)
  then show ?thesis using child by (simp add: finishes_def)
next
  case (Inr t)
  then obtain fp d' where fp: "holds fp (path_in path n)"
    "walk_loop plenty fs w = resume fs (leave_dir (walk_of t fp (d' # d # rest)))"
    using child by (auto simp: finishes_def)
  obtain fp' where fp': "pop_path (walk_of t fp (d # rest)) = Ok (walk_of t fp' (d # rest))"
    "holds fp' path"
    using fp(1) n by (rule pop_holds)
  have eq: "walk_loop plenty fs w = walk_loop plenty fs (walk_of t fp' (d # rest))"
    using fp(2) fp'(1) by (simp add: leave_dir_def)
  then show ?thesis
    using parent [OF Inr fp'(2)] finishes_cong [OF eq] by (simp add: Inr)
qed

lemma walk_step_entry:
  assumes "holds fp path" "name_ok n" "length path + 256 \<le> ss_limit" "\<not> is_dot n"
    and "walk_process fs (path_in path n) t = (b, t')"
  obtains fp' where "holds fp' (path_in path n)"
    "walk_step plenty fs (walk_of t fp ((n # ns, e) # rest)) =
      (if b then
         (if max_dirs \<le> Suc (length rest) then
            rbind (pop_path (walk_of (say_line Too_Many_Levels t') fp' ((ns, e) # rest)))
              (\<lambda>w. Ok (Again (count_fail w)))
          else (case fs_opendir fs (path_in path n) of
              None \<Rightarrow> Err (Exit_Status 1)
            | Some d \<Rightarrow> Ok (Again (walk_of t' fp' (d # (ns, e) # rest)))))
       else rbind (pop_path (walk_of t' fp' ((ns, e) # rest))) (\<lambda>w. Ok (Again w)))"
proof -
  obtain fp' where fp': "path_push plenty fp n = Ok fp'" "holds fp' (path_in path n)"
    using assms(1-3) by (rule push_holds)
  show thesis
    by (rule that [OF fp'(2)])
      (simp add: walk_step_def enter_entry_def assms(4,5) fp'(1) cur_path_holds [OF fp'(2)]
        split: option.split)
qed

lemma walk_loop_visit:
  assumes "names_ok fs" "\<forall>n \<in> set ns. name_ok n" "holds fp path"
    and "length rest + k = max_dirs - 1" "length path + 256 * (k + 2) \<le> ss_limit"
  shows "finishes fs path rest (walk_of t fp ((ns, e) # rest)) (visit fs k path ns e t)"
  using assms
proof (induction fs k path ns e t arbitrary: fp rest rule: visit.induct)
  case (1 fs k path e t)
  show ?case by (rule finishes_end [OF 1(3)])
next
  case (2 fs k path n ns e t)
  note IH = 2(1-5)
  have n: "name_ok n" and ns: "\<forall>n \<in> set ns. name_ok n" using 2(7) by auto
  have room: "length path + 256 \<le> ss_limit" "length path \<le> ss_limit" using 2(10) by auto
  obtain b t' where pr: "walk_process fs (path_in path n) t = (b, t')"
    by (cases "walk_process fs (path_in path n) t")
  show ?case
  proof (cases "is_dot n")
    case True
    have fin: "finishes fs path rest (walk_of t fp ((ns, e) # rest)) (visit fs k path ns e t)"
      by (rule IH(1) [OF True 2(6) ns 2(8-10)])
    have "walk_step plenty fs (walk_of t fp ((n # ns, e) # rest)) = Ok (Again (walk_of t fp ((ns, e) # rest)))"
      using True by (simp add: walk_step_def)
    from finishes_again [OF this fin] show ?thesis using True by simp
  next
    case dot: False
    obtain fp1 where fp1: "holds fp1 (path_in path n)"
      and step: "walk_step plenty fs (walk_of t fp ((n # ns, e) # rest)) =
      (if b then
         (if max_dirs \<le> Suc (length rest) then
            rbind (pop_path (walk_of (say_line Too_Many_Levels t') fp1 ((ns, e) # rest)))
              (\<lambda>w. Ok (Again (count_fail w)))
          else (case fs_opendir fs (path_in path n) of
              None \<Rightarrow> Err (Exit_Status 1)
            | Some d \<Rightarrow> Ok (Again (walk_of t' fp1 (d # (ns, e) # rest)))))
       else rbind (pop_path (walk_of t' fp1 ((ns, e) # rest))) (\<lambda>w. Ok (Again w)))"
      using 2(8) n room(1) dot pr by (rule walk_step_entry)
    consider (skip) "\<not> b" | (deep) "b" "k = 0" | (down) k' where "b" "k = Suc k'"
      by (cases k) auto
    then show ?thesis
    proof cases
      case skip
      obtain fp2 where fp2: "pop_path (walk_of t' fp1 ((ns, e) # rest)) = Ok (walk_of t' fp2 ((ns, e) # rest))"
        "holds fp2 path"
        using fp1 n room(2) by (rule pop_holds)
      have fin: "finishes fs path rest (walk_of t' fp2 ((ns, e) # rest)) (visit fs k path ns e t')"
        by (rule IH(2)) (use dot pr skip 2(6,9,10) ns fp2(2) in auto)
      from finishes_again [OF _ fin] show ?thesis
        using skip dot pr step fp2(1) by simp
    next
      case deep
      let ?t = "say_line Too_Many_Levels t'"
      obtain fp2 where fp2: "pop_path (walk_of ?t fp1 ((ns, e) # rest)) = Ok (walk_of ?t fp2 ((ns, e) # rest))"
        "holds fp2 path"
        using fp1 n room(2) by (rule pop_holds)
      have fin: "finishes fs path rest (walk_of (count_fail ?t) fp2 ((ns, e) # rest))
          (visit fs 0 path ns e (count_fail ?t))"
        by (rule IH(3)) (use dot pr deep 2(6,9,10) ns fp2(2) in auto)
      have "max_dirs \<le> Suc (length rest)" using 2(9) deep by (simp add: max_dirs_def)
      then show ?thesis
        using finishes_again [OF _ fin] deep dot pr step fp2(1) by simp
    next
      case down
      have lim: "\<not> max_dirs \<le> Suc (length rest)" using 2(9) down(2) by (simp add: max_dirs_def)
      show ?thesis
      proof (cases "fs_opendir fs (path_in path n)")
        case None
        then show ?thesis
          using down dot pr step lim by (simp add: finishes_def walk_loop_resume)
      next
        case (Some d)
        obtain ms e' where d: "d = (ms, e')" by (cases d)
        have ms: "\<forall>n \<in> set ms. name_ok n" using 2(6) Some d by (auto simp: names_ok_def)
        have len: "length (path_in path n) + 256 * (k' + 2) \<le> ss_limit"
          using 2(10) n down(2) by (simp add: name_ok_def)
        have "finishes fs (path_in path n) ((ns, e) # rest) (walk_of t' fp1 ((ms, e') # (ns, e) # rest))
            (visit fs k' (path_in path n) ms e' t')"
          by (rule IH(4)) (use dot pr down Some d 2(6,9) ms fp1 len in auto)
        then have fin: "finishes fs path rest (walk_of t' fp1 ((ms, e') # (ns, e) # rest))
            (rbind (visit fs k' (path_in path n) ms e' t') (visit fs k path ns e))"
          by (rule finishes_child [OF _ n room(2)])
            (rule IH(5), use dot pr down Some d 2(6-10) ns in auto)
        from finishes_again [OF _ fin] show ?thesis
          using down dot pr step lim Some d by simp
      qed
    qed
  qed
qed

definition root_ok :: "string \<Rightarrow> bool" where
  "root_ok path \<longleftrightarrow> path \<noteq> [] \<and> NUL \<notin> set path \<and> length path \<le> 4096"

lemma walk_dir_visit:
  assumes fs: "names_ok fs" and path: "root_ok path"
  shows "walk_dir plenty fs path = Some (visit_root fs path)"
proof -
  have len: "length path + 256 * (max_dirs - 1 + 2) \<le> ss_limit"
    using path by (simp add: root_ok_def max_dirs_def ss_limit_def)
  obtain ss where ss: "path_assign plenty ss_zero path = Ok ss" "holds ss path"
    using path_assign_rep [of path] path len by (auto simp: root_ok_def holds_def)
  let ?t0 = "\<lparr>t_stats = zero_stats, t_lines = []\<rparr>"
  have w0: "\<lparr>t_stats = zero_stats, t_lines = [], fullpath = ss, dirs = []\<rparr> = walk_of ?t0 ss []"
    by (simp add: walk_of_def)
  obtain b t where pr: "walk_process fs path ?t0 = (b, t)" by (cases "walk_process fs path ?t0")
  have root: "walk_dir plenty fs path = (if \<not> b then Some (Ok t) else (case fs_opendir fs path of
      None \<Rightarrow> Some (Inl (Exit_Status 1))
    | Some d \<Rightarrow> map_option (\<lambda>r. rbind r (\<lambda>w. rbind (path_free (fullpath w))
        (\<lambda>_. Ok (tally.truncate w)))) (walk_loop plenty fs (walk_of t ss [d]))))"
    by (simp add: walk_dir_def ss(1) w0 cur_path_holds [OF ss(2)] pr split: option.split)
  show ?thesis
  proof (cases "b \<and> fs_opendir fs path \<noteq> None")
    case True
    then obtain ns e where d: "b" "fs_opendir fs path = Some (ns, e)" by auto
    then have ns: "\<forall>n \<in> set ns. name_ok n" using fs by (auto simp: names_ok_def)
    have "finishes fs path [] (walk_of t ss [(ns, e)]) (visit fs (max_dirs - 1) path ns e t)"
      by (rule walk_loop_visit [OF fs ns ss(2) _ len]) simp
    then show ?thesis
      using d root pr
      by (auto simp: finishes_def visit_root_def leave_dir_def path_free_def holds_def
          split: sum.split_asm)
  next
    case False
    then show ?thesis
      using root pr by (cases "fs_opendir fs path") (auto simp: visit_root_def)
  qed
qed

section \<open>Trees\<close>

datatype tree = Tree fstat "(string \<times> tree) list"

text \<open>The system calls show a tree of entries of known kinds, all readable, below a path.\<close>

fun shows_tree :: "fsys \<Rightarrow> string \<Rightarrow> tree \<Rightarrow> bool" where
  "shows_tree fs p (Tree sb cs) \<longleftrightarrow>
     fs_lstat fs p = Some sb \<and> mode_desc (st_mode sb) zero_stats \<noteq> None \<and>
     (if descend fs sb
      then (case fs_opendir fs p of
          Some (names, Closes) \<Rightarrow> filter (\<lambda>n. \<not> is_dot n) names = map fst cs
        | _ \<Rightarrow> False)
      else cs = []) \<and>
     (\<forall>(n, c) \<in> set cs. shows_tree fs (path_in p n) c)"

text \<open>How many directories lie on top of each other.\<close>

fun dir_levels :: "fsys \<Rightarrow> tree \<Rightarrow> nat" where
  "dir_levels fs (Tree sb cs) =
     (if descend fs sb then Suc (fold max (map (\<lambda>(n, c). dir_levels fs c) cs) 0) else 0)"

fun tree_entries :: "string \<Rightarrow> tree \<Rightarrow> (string \<times> fstat) list" where
  "tree_entries p (Tree sb cs) = (p, sb) # concat (map (\<lambda>(n, c). tree_entries (path_in p n) c) cs)"

definition report_all :: "(string \<times> fstat) list \<Rightarrow> tally \<Rightarrow> tally" where
  "report_all es t = fold (\<lambda>(p, sb). walk_report p sb) es t"

lemma report_all_simps [simp]:
  "report_all [] t = t" "report_all ((p, sb) # es) t = report_all es (walk_report p sb t)"
  "report_all (xs @ ys) t = report_all ys (report_all xs t)"
  by (simp_all add: report_all_def)

lemma fold_max: "(x :: nat) \<in> set xs \<Longrightarrow> x \<le> fold max xs a"
proof (induction xs arbitrary: a)
  case (Cons y xs)
  have "z \<le> fold max xs z" for z :: nat
    by (induction xs arbitrary: z) (auto intro: le_trans [OF max.cobounded2])
  then show ?case using Cons by (auto intro: le_trans [OF max.cobounded1])
qed simp

text \<open>The traversal of a directory whose entries are trees, by induction on the trees.\<close>

definition visits_tree :: "fsys \<Rightarrow> tree \<Rightarrow> bool" where
  "visits_tree fs c \<longleftrightarrow> (\<forall>p sb cs t k ns. c = Tree sb cs \<longrightarrow> shows_tree fs p c \<longrightarrow> dir_levels fs c \<le> Suc k \<longrightarrow>
     descend fs sb \<longrightarrow> fs_opendir fs p = Some (ns, Closes) \<longrightarrow>
     visit fs k p ns Closes t = Ok (report_all (concat (map (\<lambda>(n, c). tree_entries (path_in p n) c) cs)) t))"

lemma visit_children:
  assumes "\<And>n c. (n, c) \<in> set cs \<Longrightarrow> visits_tree fs c"
    and "filter (\<lambda>n. \<not> is_dot n) ns = map fst cs"
    and "\<And>n c. (n, c) \<in> set cs \<Longrightarrow> shows_tree fs (path_in p n) c \<and> dir_levels fs c \<le> k"
  shows "visit fs k p ns Closes t =
    Ok (report_all (concat (map (\<lambda>(n, c). tree_entries (path_in p n) c) cs)) t)"
  using assms
proof (induction ns arbitrary: cs t)
  case (Cons n ns)
  show ?case
  proof (cases "is_dot n")
    case True
    then show ?thesis using Cons by simp
  next
    case False
    then obtain c cs' where cs: "cs = (n, c) # cs'" "filter (\<lambda>n. \<not> is_dot n) ns = map fst cs'"
      using Cons.prems(2) by (cases cs) auto
    obtain sb ds where c: "c = Tree sb ds" by (cases c)
    let ?p = "path_in p n" and ?kids = "\<lambda>p ds. concat (map (\<lambda>(n, c). tree_entries (path_in p n) c) ds)"
    have rest: "visit fs k p ns Closes t' = Ok (report_all (?kids p cs') t')" for t'
      by (rule Cons.IH) (use Cons.prems cs in auto)
    have sh: "shows_tree fs ?p c" and lv: "dir_levels fs c \<le> k" and vt: "visits_tree fs c"
      using Cons.prems(1,3) cs by auto
    have pr: "walk_process fs ?p t' = (descend fs sb, walk_report ?p sb t')" for t' :: tally
      using sh by (simp add: c walk_process_def)
    show ?thesis
    proof (cases "descend fs sb")
      case True
      obtain ms where ms: "fs_opendir fs ?p = Some (ms, Closes)"
        using sh True by (auto simp: c split: option.split_asm prod.split_asm dir_end.split_asm)
      obtain k' where k': "k = Suc k'" using lv True by (cases k) (auto simp: c)
      have "visit fs k' ?p ms Closes t' = Ok (report_all (?kids ?p ds) t')" for t'
        using vt sh lv True ms k' by (auto simp: visits_tree_def c)
      then show ?thesis using False pr True ms k' rest by (simp add: cs c)
    next
      case noleaf: False
      then have "ds = []" using sh by (simp add: c)
      then show ?thesis using False pr noleaf rest by (simp add: cs c)
    qed
  qed
qed simp

lemma visit_tree: "visits_tree fs c"
proof (induction c)
  case (Tree sb cs)
  show ?case
    unfolding visits_tree_def
  proof (intro allI impI)
    fix p sb' cs' t k ns
    assume eq: "Tree sb cs = Tree sb' cs'" and sh: "shows_tree fs p (Tree sb cs)"
      and lv: "dir_levels fs (Tree sb cs) \<le> Suc k" and desc: "descend fs sb'"
      and od: "fs_opendir fs p = Some (ns, Closes)"
    have "dir_levels fs c \<le> k" if "(n, c) \<in> set cs" for n c
    proof -
      have "dir_levels fs c \<le> fold max (map (\<lambda>(n, c). dir_levels fs c) cs) 0"
        using that by (intro fold_max) force
      then show ?thesis using lv desc eq by auto
    qed
    moreover have "visits_tree fs c" if "(n, c) \<in> set cs" for n c
      using Tree that by (auto simp: snds.simps)
    ultimately have "visit fs k p ns Closes t =
        Ok (report_all (concat (map (\<lambda>(n, c). tree_entries (path_in p n) c) cs)) t)"
      using sh od desc eq by (intro visit_children) auto
    then show "visit fs k p ns Closes t =
        Ok (report_all (concat (map (\<lambda>(n, c). tree_entries (path_in p n) c) cs')) t)"
      using eq by simp
  qed
qed

section \<open>What is reported for a tree\<close>

definition entry_line :: "string \<times> fstat \<Rightarrow> walk_line" where
  "entry_line e = (case e of (p, sb) \<Rightarrow> Entry p (st_nlink sb) (fst (the (mode_desc (st_mode sb) zero_stats)))
     (st_size sb) (st_atime sb) (st_mtime sb))"

definition of_kind :: "u32 \<Rightarrow> (string \<times> fstat) list \<Rightarrow> nat" where
  "of_kind k es = length (filter (\<lambda>(p, sb). st_mode sb AND S_IFMT = k) es)"

lemma report_known:
  assumes "mode_desc (st_mode sb) zero_stats \<noteq> None"
  shows "t_lines (walk_report p sb t) = t_lines t @ [entry_line (p, sb)] \<and>
    total_bytes (t_stats (walk_report p sb t)) = total_bytes (t_stats t) + of_int (st_size sb) \<and>
    n_file (t_stats (walk_report p sb t)) = n_file (t_stats t) + of_nat (of_kind 0x8000 [(p, sb)]) \<and>
    n_dir (t_stats (walk_report p sb t)) = n_dir (t_stats t) + of_nat (of_kind S_IFDIR [(p, sb)]) \<and>
    n_fail (t_stats (walk_report p sb t)) = n_fail (t_stats t)"
  using assms
  by (simp add: walk_report_def mode_desc_def say_line_def entry_line_def of_kind_def Let_def
      zero_stats_def S_IFDIR_def split: if_split_asm)

lemma report_all_known:
  assumes "\<forall>(p, sb) \<in> set es. mode_desc (st_mode sb) zero_stats \<noteq> None"
  shows "t_lines (report_all es t) = t_lines t @ map entry_line es \<and>
    total_bytes (t_stats (report_all es t)) = total_bytes (t_stats t) + of_int (\<Sum>(p, sb)\<leftarrow>es. st_size sb) \<and>
    n_file (t_stats (report_all es t)) = n_file (t_stats t) + of_nat (of_kind 0x8000 es) \<and>
    n_dir (t_stats (report_all es t)) = n_dir (t_stats t) + of_nat (of_kind S_IFDIR es) \<and>
    n_fail (t_stats (report_all es t)) = n_fail (t_stats t)"
  using assms
proof (induction es arbitrary: t)
  case (Cons e es)
  obtain p sb where e: "e = (p, sb)" by (cases e)
  have kinds: "of_kind k (e # es) = of_kind k [(p, sb)] + of_kind k es" for k
    by (simp add: of_kind_def e)
  from Cons.prems have known: "mode_desc (st_mode sb) zero_stats \<noteq> None" by (simp add: e)
  from Cons.IH [of "walk_report p sb t"] Cons.prems report_known [OF known, of p t]
  show ?case unfolding kinds by (simp add: e algebra_simps)
qed (simp add: of_kind_def)

lemma tree_entries_known:
  "shows_tree fs p c \<Longrightarrow> (q, sb) \<in> set (tree_entries p c) \<Longrightarrow> mode_desc (st_mode sb) zero_stats \<noteq> None"
  by (induction c arbitrary: p) (fastforce simp: snds.simps)

lemma visit_root_tree:
  assumes "shows_tree fs path c" "dir_levels fs c \<le> max_dirs"
  shows "visit_root fs path = Ok (report_all (tree_entries path c) \<lparr>t_stats = zero_stats, t_lines = []\<rparr>)"
proof -
  obtain sb cs where c: "c = Tree sb cs" by (cases c)
  have pr: "walk_process fs path t = (descend fs sb, walk_report path sb t)" for t :: tally
    using assms(1) by (simp add: c walk_process_def)
  show ?thesis
  proof (cases "descend fs sb")
    case True
    obtain ns where ns: "fs_opendir fs path = Some (ns, Closes)"
      using assms(1) True by (auto simp: c split: option.split_asm prod.split_asm dir_end.split_asm)
    have "dir_levels fs c \<le> Suc (max_dirs - 1)" using assms(2) by (simp add: max_dirs_def)
    then have "visit fs (max_dirs - 1) path ns Closes t =
        Ok (report_all (concat (map (\<lambda>(n, c). tree_entries (path_in path n) c) cs)) t)" for t
      using visit_tree [of fs c] assms(1) True ns by (auto simp: visits_tree_def c)
    then show ?thesis using True pr ns by (simp add: visit_root_def c)
  next
    case False
    then show ?thesis using assms(1) pr by (simp add: visit_root_def c)
  qed
qed

section \<open>Properties\<close>

text \<open>
  C23: on every file system, whatever fails in it and however deep it is, the walk ends, no
  path leaves its buffer, and what it prints, counts and returns is the recursive
  traversal's.
\<close>

theorem walk_main_refines:
  assumes "names_ok fs" "realpath arg = Some path" "root_ok path"
  shows "walk_main plenty fs realpath [prog, arg] = Some (rbind (visit_root fs path) (\<lambda>t.
    Ok (if n_fail (t_stats t) > 0 then 1 else 0, Some t)))"
  using assms by (simp add: walk_main_def walk_dir_visit)

text \<open>A small file system: a directory with a file, an unreadable directory and a link.\<close>

definition demo_stat :: "u32 \<Rightarrow> int \<Rightarrow> fstat" where
  "demo_stat mode sz = \<lparr>st_mode = mode, st_nlink = 1, st_size = sz, st_uid = 1, st_gid = 1,
     st_atime = None, st_mtime = None\<rparr>"

definition demo_fs :: fsys where
  "demo_fs = \<lparr>fs_lstat = map_of [(''/d'', demo_stat 0x41ED 40), (''/d/a'', demo_stat 0x81A4 7),
       (''/d/b'', demo_stat 0x4000 0), (''/d/c'', demo_stat 0xA1FF 1)],
     fs_opendir = map_of [(''/d'', ([''.'', ''..'', ''a'', ''b'', ''c''], Closes))],
     fs_uid = 1, fs_gid = 1\<rparr>"

definition demo_tree :: tree where
  "demo_tree = Tree (demo_stat 0x41ED 40) [(''a'', Tree (demo_stat 0x81A4 7) []),
     (''b'', Tree (demo_stat 0x4000 0) []), (''c'', Tree (demo_stat 0xA1FF 1) [])]"

lemma demo_fs_ok: "names_ok demo_fs" "root_ok ''/d''"
  by (auto simp: names_ok_def demo_fs_def name_ok_def root_ok_def split: if_split_asm)

lemma demo_fs_shows: "shows_tree demo_fs ''/d'' demo_tree" "dir_levels demo_fs demo_tree \<le> max_dirs"
  by code_simp+

theorem walk_main_refines_witness:
  "walk_main plenty demo_fs Some [''main'', ''/d''] = Some (rbind (visit_root demo_fs ''/d'') (\<lambda>t.
     Ok (if n_fail (t_stats t) > 0 then 1 else 0, Some t)))"
  by (rule walk_main_refines) (simp_all add: demo_fs_ok)

text \<open>
  C15: where the file system shows a tree of entries of known kinds, with at most 256
  directories on top of each other, the program prints the entries in preorder with their
  full paths, counts them (modulo \<open>2^32\<close>), adds up their sizes (modulo \<open>2^64\<close>) and exits
  with status 0.
\<close>

theorem walk_main_lists_tree:
  assumes "names_ok fs" "realpath arg = Some path" "root_ok path"
    and "shows_tree fs path c" "dir_levels fs c \<le> max_dirs"
  shows "\<exists>t. walk_main plenty fs realpath [prog, arg] = Some (Ok (0, Some t)) \<and>
    t_lines t = map entry_line (tree_entries path c) \<and>
    total_bytes (t_stats t) = of_int (\<Sum>(p, sb)\<leftarrow>tree_entries path c. st_size sb) \<and>
    n_file (t_stats t) = of_nat (of_kind 0x8000 (tree_entries path c)) \<and>
    n_dir (t_stats t) = of_nat (of_kind S_IFDIR (tree_entries path c))"
proof -
  let ?t = "report_all (tree_entries path c) \<lparr>t_stats = zero_stats, t_lines = []\<rparr>"
  have "\<forall>(p, sb) \<in> set (tree_entries path c). mode_desc (st_mode sb) zero_stats \<noteq> None"
    using tree_entries_known [OF assms(4)] by auto
  from report_all_known [OF this, of "\<lparr>t_stats = zero_stats, t_lines = []\<rparr>"]
  show ?thesis
    using visit_root_tree [OF assms(4,5)] assms(1-3)
    by (intro exI [of _ ?t]) (simp add: walk_main_def walk_dir_visit zero_stats_def)
qed

theorem walk_main_lists_tree_witness:
  "\<exists>t. walk_main plenty demo_fs Some [''main'', ''/d''] = Some (Ok (0, Some t)) \<and>
    total_bytes (t_stats t) = 48 \<and> n_file (t_stats t) = 1 \<and> n_dir (t_stats t) = 2"
proof -
  have "tree_entries ''/d'' demo_tree = [(''/d'', demo_stat 0x41ED 40), (''/d/a'', demo_stat 0x81A4 7),
      (''/d/b'', demo_stat 0x4000 0), (''/d/c'', demo_stat 0xA1FF 1)]"
    by (simp add: demo_tree_def)
  then show ?thesis
    using walk_main_lists_tree [OF demo_fs_ok(1) _ demo_fs_ok(2) demo_fs_shows, of Some "''/d''" "''main''"]
    by (auto simp: demo_stat_def of_kind_def S_IFMT_def S_IFDIR_def)
qed

end
