(* ===== verification/Dir_Nftw.thy ===== *)
theory Dir_Nftw
  imports Dir_Spec
begin

text \<open>
  The other build of the directory walker (\<open>main-nftw\<close>, with \<open>NFTW\<close> defined): the library's
  \<open>nftw\<close> does the traversal and calls \<open>nftw_func\<close> for every object. \<open>nftw\<close> is modelled as
  it is documented for the flag \<open>FTW_PHYS\<close>: an object is reported before what lies below
  it, a directory that may not be read is reported as such and not entered, an object
  whose \<open>lstat\<close> fails (with \<open>EACCES\<close> or \<open>ENOENT\<close>) is reported without a usable \<open>struct stat\<close>, and
  the first nonzero answer of the function, or an error, ends the traversal. A name is put behind
  its directory with a slash, unless that ends in one (the root directory does). It shares the
  file system, the statistics and the lines with the build that uses \<open>readdir\<close>. Below every
  directory but the root both are shown to agree.
\<close>

section \<open>The library's traversal\<close>

datatype ftw_type = FTW_F | FTW_D | FTW_DNR | FTW_SL | FTW_NS

type_synonym 't ftw_fun = "string \<Rightarrow> fstat \<Rightarrow> ftw_type \<Rightarrow> 't \<Rightarrow> int \<times> 't"

text \<open>Whether this user may read the directory: if not, \<open>opendir\<close> fails with \<open>EACCES\<close>.\<close>

definition may_read :: "fsys \<Rightarrow> fstat \<Rightarrow> bool" where
  "may_read fs sb \<longleftrightarrow>
     (if st_uid sb = fs_uid fs then st_mode sb AND 0x100 > 0
      else if st_gid sb = fs_gid fs then st_mode sb AND 0x20 > 0
      else st_mode sb AND 0x4 > 0)"

text \<open>One object after the other, until one of them ends the traversal with a nonzero value.\<close>

fun ftw_each :: "('n \<Rightarrow> 't \<Rightarrow> (int \<times> 't) option) \<Rightarrow> 'n list \<Rightarrow> 't \<Rightarrow> (int \<times> 't) option" where
  "ftw_each g [] t = Some (0, t)"
| "ftw_each g (n # ns) t = (case g n t of
     None \<Rightarrow> None
   | Some (r, t') \<Rightarrow> if r \<noteq> 0 then Some (r, t') else ftw_each g ns t')"

text \<open>The name of an object, behind the directory it is in.\<close>

definition ftw_path :: "string \<Rightarrow> string \<Rightarrow> string" where
  "ftw_path p n = (if p \<noteq> [] \<and> last p = CHR ''/'' then p @ n else p @ CHR ''/'' # n)"

text \<open>
  The objects from \<open>p\<close> downwards, on at most \<open>k\<close> levels; \<open>None\<close> when there are more. \<open>junk\<close>
  is what the function finds in the \<open>struct stat\<close> of an object that could not be examined.
\<close>

fun ftw_object :: "fsys \<Rightarrow> fstat \<Rightarrow> 't ftw_fun \<Rightarrow> nat \<Rightarrow> string \<Rightarrow> 't \<Rightarrow> (int \<times> 't) option" where
  "ftw_object fs junk f 0 p t = None"
| "ftw_object fs junk f (Suc k) p t = (case fs_lstat fs p of
     None \<Rightarrow> Some (f p junk FTW_NS t)
   | Some sb \<Rightarrow>
       if st_mode sb AND S_IFMT \<noteq> S_IFDIR
       then Some (f p sb (if st_mode sb AND S_IFMT = 0xA000 then FTW_SL else FTW_F) t)
       else (case fs_opendir fs p of
           None \<Rightarrow> if may_read fs sb then Some (- 1, t) else Some (f p sb FTW_DNR t)
         | Some (names, _) \<Rightarrow>
             (case f p sb FTW_D t of (r, t') \<Rightarrow>
               if r \<noteq> 0 then Some (r, t')
               else ftw_each (\<lambda>n. ftw_object fs junk f k (ftw_path p n))
                      (filter (\<lambda>n. \<not> is_dot n) names) t')))"

definition nftw :: "fsys \<Rightarrow> fstat \<Rightarrow> 't ftw_fun \<Rightarrow> nat \<Rightarrow> string \<Rightarrow> 't \<Rightarrow> (int \<times> 't) option" where
  "nftw fs junk f k path t =
     (if fs_lstat fs path = None then Some (- 1, t) else ftw_object fs junk f k path t)"

section \<open>The program around it\<close>

definition nftw_func :: "tally ftw_fun" where
  "nftw_func fpath sb type t =
     (if type = FTW_NS then (0, say_line (No_Stat fpath) (count_fail t))
      else (0, walk_report fpath sb t))"

definition nftw_walk :: "fsys \<Rightarrow> fstat \<Rightarrow> nat \<Rightarrow> string \<Rightarrow> tally result option" where
  "nftw_walk fs junk k path =
     map_option (\<lambda>(err, t). if err \<noteq> 0 then Err (Exit_Status 2) else Ok t)
       (nftw fs junk nftw_func k path \<lparr>t_stats = zero_stats, t_lines = []\<rparr>)"

definition nftw_main :: "fsys \<Rightarrow> fstat \<Rightarrow> nat \<Rightarrow> (string \<Rightarrow> string option) \<Rightarrow> string list \<Rightarrow>
    (int \<times> tally option) result option" where
  "nftw_main fs junk k realpath argv =
     (if length argv \<noteq> 2 then Some (Ok (2, None))
      else (case realpath (argv ! 1) of
          None \<Rightarrow> Some (Ok (1, None))
        | Some path \<Rightarrow> map_option (\<lambda>r. rbind r (\<lambda>t.
            Ok (if n_fail (t_stats t) > 0 then 1 else 0, Some t))) (nftw_walk fs junk k path)))"

section \<open>The traversal of a tree\<close>

text \<open>No directory may be read but not searched: there the two builds differ.\<close>

definition bits_decide :: "fsys \<Rightarrow> bool" where
  "bits_decide fs \<longleftrightarrow> (\<forall>p sb. fs_lstat fs p = Some sb \<longrightarrow> st_mode sb AND S_IFMT = S_IFDIR \<longrightarrow>
     \<not> descend fs sb \<longrightarrow> fs_opendir fs p = None \<and> \<not> may_read fs sb)"

text \<open>No directory has an entry with an empty name.\<close>

definition names_given :: "fsys \<Rightarrow> bool" where
  "names_given fs \<longleftrightarrow> (\<forall>p ns e. fs_opendir fs p = Some (ns, e) \<longrightarrow> [] \<notin> set ns)"

text \<open>A path other than the root.\<close>

definition inner_path :: "string \<Rightarrow> bool" where
  "inner_path p \<longleftrightarrow> p \<noteq> [] \<and> last p \<noteq> CHR ''/''"

lemma ftw_path_inner: "inner_path p \<Longrightarrow> ftw_path p n = path_in p n"
  by (simp add: inner_path_def ftw_path_def)

lemma inner_path_in: "name_ok n \<Longrightarrow> n \<noteq> [] \<Longrightarrow> inner_path (path_in p n)"
  by (auto simp: inner_path_def name_ok_def dest: last_in_set)

lemma ftw_each_trees:
  assumes "\<And>n c t. (n, c) \<in> set cs \<Longrightarrow> g n t = Some (0, report_all (tree_entries (path_in p n) c) t)"
  shows "ftw_each g (map fst cs) t =
    Some (0, report_all (concat (map (\<lambda>(n, c). tree_entries (path_in p n) c) cs)) t)"
  using assms by (induction cs arbitrary: t) fastforce+

lemma nftw_func_report: "type \<noteq> FTW_NS \<Longrightarrow> nftw_func p sb type t = (0, walk_report p sb t)"
  by (simp add: nftw_func_def)

lemma dir_levels_child:
  assumes "(n, c) \<in> set cs" "descend fs sb"
  shows "dir_levels fs c < dir_levels fs (Tree sb cs)"
proof -
  have "dir_levels fs c \<le> fold max (map (\<lambda>(n, c). dir_levels fs c) cs) 0"
    using assms(1) by (intro fold_max) force
  then show ?thesis using assms(2) by simp
qed

lemma ftw_object_tree:
  assumes "names_ok fs" "names_given fs" "bits_decide fs"
    and "shows_tree fs p c" "dir_levels fs c < k" "inner_path p"
  shows "ftw_object fs junk nftw_func k p t = Some (0, report_all (tree_entries p c) t)"
  using assms(4-6)
proof (induction c arbitrary: p k t)
  case (Tree sb cs)
  obtain k' where k: "k = Suc k'" using Tree.prems(2) by (cases k) auto
  show ?case
  proof (cases "descend fs sb")
    case True
    then have dir: "st_mode sb AND S_IFMT = S_IFDIR" by (simp add: descend_def)
    obtain ns where ns: "fs_opendir fs p = Some (ns, Closes)" "filter (\<lambda>n. \<not> is_dot n) ns = map fst cs"
      using Tree.prems(1) True by (auto split: option.split_asm prod.split_asm dir_end.split_asm)
    have "ftw_object fs junk nftw_func k' (ftw_path p n) t =
        Some (0, report_all (tree_entries (path_in p n) c) t)" if "(n, c) \<in> set cs" for n c t
    proof -
      have "dir_levels fs c < k'"
        using dir_levels_child [OF that True] Tree.prems(2) k by linarith
      moreover have "shows_tree fs (path_in p n) c" using Tree.prems(1) that by auto
      moreover have "c \<in> Basic_BNFs.snds (n, c)" by (simp add: snds.simps)
      moreover have "inner_path (path_in p n)"
      proof (rule inner_path_in)
        have "n \<in> set ns" using arg_cong [OF ns(2), of set] that by force
        then show "name_ok n" "n \<noteq> []" using ns(1) assms(1,2) unfolding names_ok_def names_given_def by blast+
      qed
      ultimately show ?thesis
        using Tree.IH [OF that] Tree.prems(3) by (simp add: ftw_path_inner)
    qed
    then show ?thesis
      using Tree.prems(1) dir by (simp add: k ns nftw_func_report ftw_each_trees)
  next
    case False
    then show ?thesis
      using Tree.prems(1) assms(3) by (auto simp: k nftw_func_report bits_decide_def)
  qed
qed

section \<open>Properties\<close>

text \<open>
  C24: on a file system that shows a tree of entries of known kinds below a directory other than
  the root, with at most 256 directories on top of each other and none that may be read but not
  searched, the two builds of the program print the same lines, count the same and exit alike: the
  stack of open directories and the one path buffer do what \<open>nftw\<close> does.
\<close>

theorem walk_builds_agree:
  assumes "names_ok fs" "names_given fs" "realpath arg = Some path" "root_ok path" "last path \<noteq> CHR ''/''"
    and "shows_tree fs path c" "dir_levels fs c \<le> max_dirs" "dir_levels fs c < k" "bits_decide fs"
  shows "nftw_main fs junk k realpath [prog, arg] = walk_main plenty fs realpath [prog, arg]"
proof -
  have "fs_lstat fs path \<noteq> None" using assms(6) by (cases c) simp
  moreover have "inner_path path" using assms(4,5) by (simp add: inner_path_def root_ok_def)
  ultimately show ?thesis
    using assms visit_root_tree [OF assms(6,7)] ftw_object_tree [OF assms(1,2,9,6,8)]
    by (simp add: nftw_main_def nftw_walk_def nftw_def walk_main_def walk_dir_visit)
qed

lemma demo_fs_bits: "bits_decide demo_fs" "dir_levels demo_fs demo_tree < 2" "names_given demo_fs"
proof -
  show "names_given demo_fs" by (auto simp: names_given_def demo_fs_def split: if_split_asm)
  show "bits_decide demo_fs"
    by (auto simp: bits_decide_def demo_fs_def demo_stat_def descend_def may_read_def S_IFMT_def
        S_IFDIR_def split: if_split_asm)
qed (code_simp)

theorem walk_builds_agree_witness:
  "nftw_main demo_fs (demo_stat 0 0) 2 Some [''main'', ''/d''] =
     walk_main plenty demo_fs Some [''main'', ''/d'']"
  by (rule walk_builds_agree [OF demo_fs_ok(1) demo_fs_bits(3) _ demo_fs_ok(2) _ demo_fs_shows(1,2) demo_fs_bits(2,1)]) simp_all

text \<open>
  Below the root the builds print different paths: the one with \<open>readdir\<close> puts a second slash behind the
  first (\<open>ss_push\<close>), \<open>nftw\<close> does not.
\<close>

definition slash_fs :: fsys where
  "slash_fs = \<lparr>fs_lstat = map_of [(''/'', demo_stat 0x41ED 40), (''/a'', demo_stat 0x81A4 7),
       (''//a'', demo_stat 0x81A4 7)],
     fs_opendir = map_of [(''/'', ([''.'', ''..'', ''a''], Closes))], fs_uid = 1, fs_gid = 1\<rparr>"

definition slash_tree :: tree where
  "slash_tree = Tree (demo_stat 0x41ED 40) [(''a'', Tree (demo_stat 0x81A4 7) [])]"

theorem walk_builds_root:
  "(\<exists>t. walk_main plenty slash_fs Some [''main'', ''/''] = Some (Ok (0, Some t)) \<and>
      t_lines t = map entry_line [(''/'', demo_stat 0x41ED 40), (''//a'', demo_stat 0x81A4 7)]) \<and>
   (\<exists>t. nftw_main slash_fs junk 2 Some [''main'', ''/''] = Some (Ok (0, Some t)) \<and>
      t_lines t = map entry_line [(''/'', demo_stat 0x41ED 40), (''/a'', demo_stat 0x81A4 7)])"
proof
  have "names_ok slash_fs" "root_ok ''/''"
    by (auto simp: names_ok_def slash_fs_def name_ok_def root_ok_def split: if_split_asm)
  moreover have "visit_root slash_fs ''/'' =
      Ok (report_all (tree_entries ''/'' slash_tree) \<lparr>t_stats = zero_stats, t_lines = []\<rparr>)"
    by (rule visit_root_tree) code_simp+
  ultimately show "\<exists>t. walk_main plenty slash_fs Some [''main'', ''/''] = Some (Ok (0, Some t)) \<and>
      t_lines t = map entry_line [(''/'', demo_stat 0x41ED 40), (''//a'', demo_stat 0x81A4 7)]"
    by (simp add: walk_main_def walk_dir_visit slash_tree_def demo_stat_def walk_report_def mode_desc_def
        S_IFMT_def S_IFDIR_def say_line_def zero_stats_def entry_line_def)
  have two: "nftw_main fs junk 2 = nftw_main fs junk (Suc (Suc 0))" for fs by (simp only: numeral_2_eq_2)
  show "\<exists>t. nftw_main slash_fs junk 2 Some [''main'', ''/''] = Some (Ok (0, Some t)) \<and>
      t_lines t = map entry_line [(''/'', demo_stat 0x41ED 40), (''/a'', demo_stat 0x81A4 7)]"
    by (simp add: two nftw_main_def nftw_walk_def nftw_def nftw_func_def slash_fs_def demo_stat_def is_dot_def
        walk_report_def mode_desc_def S_IFMT_def S_IFDIR_def say_line_def zero_stats_def ftw_path_def entry_line_def)
qed

text \<open>
  Where a directory may be read but not searched the builds part: the one with \<open>readdir\<close> does not
  enter it, \<open>nftw\<close> does and counts every name in it as a failure.
\<close>

definition noexec_fs :: fsys where
  "noexec_fs = \<lparr>fs_lstat = map_of [(''/d'', demo_stat 0x4124 40)],
     fs_opendir = map_of [(''/d'', ([''.'', ''..'', ''a''], Closes))], fs_uid = 1, fs_gid = 1\<rparr>"

theorem walk_builds_differ:
  "(\<exists>t. walk_main plenty noexec_fs Some [''main'', ''/d''] = Some (Ok (0, Some t))) \<and>
   (\<exists>t. nftw_main noexec_fs junk 2 Some [''main'', ''/d''] = Some (Ok (1, Some t)))"
proof
  have ok: "names_ok noexec_fs"
    by (auto simp: names_ok_def noexec_fs_def name_ok_def split: if_split_asm)
  show "\<exists>t. walk_main plenty noexec_fs Some [''main'', ''/d''] = Some (Ok (0, Some t))"
    using walk_dir_visit [OF ok demo_fs_ok(2)]
    by (simp add: walk_main_def visit_root_def walk_process_def noexec_fs_def descend_def demo_stat_def
        walk_report_def mode_desc_def S_IFMT_def S_IFDIR_def say_line_def zero_stats_def)
  show "\<exists>t. nftw_main noexec_fs junk 2 Some [''main'', ''/d''] = Some (Ok (1, Some t))"
    by (simp add: nftw_main_def nftw_walk_def nftw_def nftw_func_def noexec_fs_def demo_stat_def is_dot_def
        walk_report_def mode_desc_def S_IFMT_def S_IFDIR_def say_line_def zero_stats_def count_fail_def
        ftw_path_def numeral_2_eq_2)
qed

end
