(* ===== verification/Libwc.thy ===== *)
theory Libwc
  imports Prelude
begin

text \<open>
  The result-table library of \<open>lab1/zad1/libwc.c\<close>: a context with a growing table of
  results addressed by handles, the construction of the shell command that counts the
  words of some files, and the loading of its output from the temporary file.

  A pointer to a result is an \<open>option\<close>, the table a list of slots. What \<open>free\<close> receives is
  returned as a list of \<open>block\<close>s. The C library's view of a file is a \<open>stream\<close>: its bytes
  and which of the calls on it succeed.
\<close>

section \<open>The context\<close>

record raw_context =
  tmpfile :: string
  cx_len :: u64
  cx_cap :: u64
  cx_data :: "string option list"

datatype block = Result_Block nat | Table_Block | Context_Block

definition libwc_create :: "allocator \<Rightarrow> raw_context option" where
  "libwc_create al =
     (if al 32 then Some \<lparr>tmpfile = ''/tmp/libwc.txt'', cx_len = 0, cx_cap = 0, cx_data = []\<rparr> else None)"

text \<open>The argument \<open>None\<close> is the NULL pointer. The context built is not what is returned.\<close>

definition libwc_create_custom :: "allocator \<Rightarrow> string option \<Rightarrow> raw_context option result" where
  "libwc_create_custom al path =
     (case path of
        None \<Rightarrow> Err Assert_Fail
      | Some t \<Rightarrow>
          rbind (c_assert (t \<noteq> [])) (\<lambda>_.
          rbind (c_assert (hd t \<noteq> SPC)) (\<lambda>_.
            if \<not> al 32 then Ok None
            else let ctx = \<lparr>tmpfile = t, cx_len = 0, cx_cap = 0, cx_data = []\<rparr> in Ok None)))"

text \<open>\<open>libwc_destroy\<close> returns the blocks it frees, in order.\<close>

definition libwc_destroy :: "raw_context \<Rightarrow> block list result" where
  "libwc_destroy ctx =
     (if cx_data ctx \<noteq> [] \<and> length (cx_data ctx) < unat (cx_len ctx) then Err Undef_Behaviour
      else Ok ((if cx_data ctx \<noteq> []
                then [Result_Block i. i \<leftarrow> [0..<unat (cx_len ctx)], cx_data ctx ! i \<noteq> None]
                else []) @ [Context_Block]))"

definition ensure_space :: "allocator \<Rightarrow> raw_context \<Rightarrow> (bool \<times> raw_context) result" where
  "ensure_space al ctx =
     (if cx_cap ctx > cx_len ctx then Ok (True, ctx)
      else let n = 2 * cx_cap ctx;
               new_size = (if n = 0 then 32 div 8 else n)
           in if \<not> al (unat new_size * 8) then Ok (False, ctx)
              else if unat (cx_len ctx * 8) div 8 \<le> length (cx_data ctx) \<and> unat (cx_len ctx * 8) div 8 \<le> unat new_size
              then Ok (True, ctx\<lparr>cx_cap := new_size,
                     cx_data := take (unat (cx_len ctx * 8) div 8) (cx_data ctx)
                       @ replicate (unat new_size - unat (cx_len ctx * 8) div 8) None\<rparr>)
              else Err Undef_Behaviour)"

section \<open>The shell command\<close>

definition is_arg_safe :: "char \<Rightarrow> bool" where
  "is_arg_safe c \<longleftrightarrow>
     schar (CHR ''-'') \<le> schar c \<and> schar c \<le> schar (CHR '':'')
     \<or> schar (CHR ''@'') \<le> schar c \<and> schar c \<le> schar (CHR ''Z'')
     \<or> schar (CHR ''a'') \<le> schar c \<and> schar c \<le> schar (CHR ''z'')
     \<or> c = CHR ''_'' \<or> c = CHR ''~'' \<or> c = CHR ''@'' \<or> c = CHR ''+''"

text \<open>\<open>*p++ = c\<close> on the buffer and the offset of \<open>p\<close>.\<close>

definition put :: "string \<times> nat \<Rightarrow> char \<Rightarrow> (string \<times> nat) result" where
  "put = (\<lambda>(d, p) c. rbind (c_putc d p c) (\<lambda>d. Ok (d, p + 1)))"

definition put_tmp_char :: "string \<times> nat \<Rightarrow> char \<Rightarrow> (string \<times> nat) result" where
  "put_tmp_char dp c = rbind (if \<not> is_arg_safe c then put dp (CHR 0x5C) else Ok dp) (\<lambda>dp. put dp c)"

definition put_path_char :: "(string \<times> nat) \<times> bool \<Rightarrow> char \<Rightarrow> ((string \<times> nat) \<times> bool) result" where
  "put_path_char = (\<lambda>(dp, start) c.
     rbind (if start \<and> c = CHR ''-'' then rbind (put dp (CHR ''.'')) (\<lambda>dp. put dp (CHR ''/'')) else Ok dp) (\<lambda>dp.
     rbind (if \<not> is_arg_safe c \<and> c \<noteq> SPC then put dp (CHR 0x5C) else Ok dp) (\<lambda>dp.
     rbind (put dp c) (\<lambda>dp. Ok (dp, c = SPC)))))"

definition sysbuf_size :: "string \<Rightarrow> string \<Rightarrow> nat" where
  "sysbuf_size tmp paths = 2 * (length paths + 1) + 2 * length tmp + 6"

text \<open>The string handed to \<open>system\<close>. A refused \<open>calloc\<close> makes \<open>strcat\<close> write through NULL.\<close>

definition stats_command :: "allocator \<Rightarrow> raw_context \<Rightarrow> string \<Rightarrow> string result" where
  "stats_command al ctx paths =
     (if \<not> al (sysbuf_size (tmpfile ctx) paths) then Err Undef_Behaviour
      else rbind (c_memcpy (replicate (sysbuf_size (tmpfile ctx) paths) NUL) 0 (''wc >'' @ [NUL])) (\<lambda>d.
           rbind (rfold put_tmp_char (d, 4) (tmpfile ctx)) (\<lambda>dp.
           rbind (put dp SPC) (\<lambda>dp.
           rbind (rfold put_path_char (dp, True) paths) (\<lambda>((d, p), _).
             if NUL \<in> set d then Ok (cstr d) else Err Undef_Behaviour)))))"

text \<open>\<open>system\<close> belongs to the host: it turns the command and the files into a status and the new files.\<close>

definition libwc_stats_to_tmpfile ::
    "allocator \<Rightarrow> (string \<Rightarrow> 'fs \<Rightarrow> int \<times> 'fs) \<Rightarrow> raw_context \<Rightarrow> string \<Rightarrow> 'fs \<Rightarrow> 'fs result" where
  "libwc_stats_to_tmpfile al system ctx paths fs =
     rbind (stats_command al ctx paths) (\<lambda>cmd.
       let (err, fs') = system cmd fs in rbind (c_assert (err = 0)) (\<lambda>_. Ok fs'))"

section \<open>Results\<close>

record stream =
  st_data :: string
  st_seek_end :: bool
  st_tell :: bool
  st_seek_set :: bool
  st_close :: bool

text \<open>
  \<open>libwc_load_result\<close> on the result of \<open>fopen\<close>. It returns the handle (the index as a
  32-bit signed integer, or -1), the context, and how many streams it left open.
\<close>

definition to_handle :: "u64 \<Rightarrow> int" where
  "to_handle i = sint (ucast i :: 32 word)"

definition libwc_load_result ::
    "allocator \<Rightarrow> stream option \<Rightarrow> raw_context \<Rightarrow> (int \<times> raw_context \<times> nat) result" where
  "libwc_load_result al opened ctx0 =
     rbind (ensure_space al ctx0) (\<lambda>(ok, ctx).
       if \<not> ok then Ok (-1, ctx, 0)
       else case opened of
         None \<Rightarrow> Ok (-1, ctx, 0)
       | Some f \<Rightarrow>
           if \<not> st_seek_end f \<or> \<not> st_tell f \<or> \<not> st_seek_set f then Ok (-1, ctx, 1)
           else let idx = cx_len ctx
                in if length (cx_data ctx) \<le> unat idx then Err Undef_Behaviour
                   else rbind (c_assert (cx_data ctx ! unat idx = None)) (\<lambda>_.
                     if \<not> al (length (st_data f) + 1) then Ok (-1, ctx, 1)
                     else rbind (c_assert (st_close f)) (\<lambda>_.
                       Ok (to_handle idx,
                           ctx\<lparr>cx_len := idx + 1, cx_data := (cx_data ctx)[unat idx := Some (st_data f)]\<rparr>, 0))))"

text \<open>A handle is a signed 32-bit integer; \<open>(size_t)handle\<close> is the index.\<close>

definition libwc_del_result :: "raw_context \<Rightarrow> int \<Rightarrow> (bool \<times> raw_context) result" where
  "libwc_del_result ctx h =
     (if h < 0 \<or> word_of_int h \<ge> cx_len ctx then Ok (False, ctx)
      else if length (cx_data ctx) \<le> nat h then Err Undef_Behaviour
      else if cx_data ctx ! nat h = None then Ok (False, ctx)
      else Ok (True, ctx\<lparr>cx_data := (cx_data ctx)[nat h := None]\<rparr>))"

definition libwc_get_result :: "raw_context \<Rightarrow> int \<Rightarrow> string option result" where
  "libwc_get_result ctx h =
     rbind (c_assert (h \<ge> 0 \<and> word_of_int h < cx_len ctx)) (\<lambda>_.
       if length (cx_data ctx) \<le> nat h then Err Undef_Behaviour else Ok (cx_data ctx ! nat h))"

section \<open>The command is quoted and fits its buffer\<close>

text \<open>What the two escaping loops write.\<close>

definition quote_char :: "char \<Rightarrow> string" where
  "quote_char c = (if is_arg_safe c then [c] else [CHR 0x5C, c])"

fun quote_paths :: "bool \<Rightarrow> string \<Rightarrow> string" where
  "quote_paths start [] = []"
| "quote_paths start (c # cs) =
     (if start \<and> c = CHR ''-'' then ''./'' else []) @ (if c = SPC then [c] else quote_char c) @ quote_paths (c = SPC) cs"

definition quoted_command :: "string \<Rightarrow> string \<Rightarrow> string" where
  "quoted_command tmp paths = ''wc >'' @ concat (map quote_char tmp) @ '' '' @ quote_paths True paths"

text \<open>A buffer whose first \<open>p\<close> bytes are \<open>s\<close> and whose other bytes are still zero.\<close>

definition filled :: "nat \<Rightarrow> string \<Rightarrow> string \<times> nat \<Rightarrow> bool" where
  "filled n s dp \<longleftrightarrow> dp = (s @ replicate (n - length s) NUL, length s)"

lemma put_filled: "filled n s dp \<Longrightarrow> length s < n \<Longrightarrow> \<exists>dp'. put dp c = Ok dp' \<and> filled n (s @ [c]) dp'"
proof -
  assume a: "filled n s dp" "length s < n"
  then obtain m where m: "n - length s = Suc m" by (cases "n - length s") auto
  then have "n - Suc (length s) = m" by simp
  with a m show ?thesis by (simp add: put_def filled_def c_putc_def list_update_append)
qed

interpretation sysbuf: append_buffer "(replicate n NUL, 0)" put "\<lambda>dp s. filled n s dp" "\<lambda>c. [c]" "\<lambda>_. True" n for n
proof
  show "filled n [] (replicate n NUL, 0)" by (simp add: filled_def)
  show "\<exists>dp'. put dp c = Ok dp' \<and> filled n (s @ [c]) dp'" if "filled n s dp" "length s + length [c] \<le> n" for dp s c
    using that put_filled [of n s dp c] by simp
qed

lemma put_tmp_char_put: "put_tmp_char dp c = rfold put dp (quote_char c)"
  by (cases "put dp (CHR 0x5C)"; cases "put dp c") (auto simp: put_tmp_char_def quote_char_def rbind_def split: sum.splits)

lemma put_path_char_put:
  "put_path_char (dp, start) c = rbind (rfold put dp (quote_paths start [c])) (\<lambda>dp. Ok (dp, c = SPC))"
  by (auto simp: put_path_char_def quote_char_def rbind_def split: sum.splits)

lemma put_tmp_loop: "rfold put_tmp_char dp s = rfold put dp (concat (map quote_char s))"
  by (induction s arbitrary: dp) (simp_all add: put_tmp_char_put rfold_append)

lemma quote_paths_Cons: "quote_paths start (c # cs) = quote_paths start [c] @ quote_paths (c = SPC) cs"
  by simp

lemma put_path_loop:
  "\<exists>b. rfold put_path_char (dp, start) s = rbind (rfold put dp (quote_paths start s)) (\<lambda>dp. Ok (dp, b))"
proof (induction s arbitrary: dp start)
  case Nil
  then show ?case by auto
next
  case (Cons c cs)
  show ?case
  proof (cases "rfold put dp (quote_paths start [c])")
    case (Inl e)
    then show ?thesis
      by (subst quote_paths_Cons) (simp only: rfold_append rfold.simps put_path_char_put rbind_Inl, simp)
  next
    case (Inr dp')
    obtain b where "rfold put_path_char (dp', c = SPC) cs = rbind (rfold put dp' (quote_paths (c = SPC) cs)) (\<lambda>dp. Ok (dp, b))"
      using Cons.IH by blast
    with Inr show ?thesis
      by (subst quote_paths_Cons) (simp only: rfold_append rfold.simps put_path_char_put rbind_Inr, blast)
  qed
qed

lemma quote_paths_append: "\<exists>start'. quote_paths start (a @ b) = quote_paths start a @ quote_paths start' b"
proof (induction a arbitrary: start)
  case Nil
  then show ?case by auto
next
  case (Cons c cs)
  then obtain start' where "quote_paths (c = SPC) (cs @ b) = quote_paths (c = SPC) cs @ quote_paths start' b" by blast
  then show ?case by (auto simp del: quote_paths.simps simp add: quote_paths.simps(2))
qed

text \<open>Two bytes per character, and one for the \<open>'-'\<close> that may open the list.\<close>

lemma quote_paths_length:
  "length (quote_paths start s) \<le> 2 * length s + (if start then 1 else 0)"
proof (induction s arbitrary: start)
  case Nil
  then show ?case by simp
next
  case (Cons c cs)
  have "is_arg_safe (CHR ''-'')" by (simp add: is_arg_safe_def schar_def)
  then show ?case using Cons.IH [of "c = SPC"] by (auto simp: quote_char_def)
qed

lemma quoted_command_length: "Suc (length (quoted_command tmp paths)) < sysbuf_size tmp paths"
proof -
  have "length (concat (map quote_char tmp)) \<le> 2 * length tmp"
    by (induction tmp) (auto simp: quote_char_def)
  then show ?thesis using quote_paths_length [of True paths] by (simp add: quoted_command_def sysbuf_size_def)
qed

lemma quoted_command_nul: "NUL \<notin> set tmp \<Longrightarrow> NUL \<notin> set paths \<Longrightarrow> NUL \<notin> set (quoted_command tmp paths)"
proof -
  assume nul: "NUL \<notin> set tmp" "NUL \<notin> set paths"
  have "NUL \<notin> set (quote_paths start paths)" for start
    using nul(2) by (induction paths arbitrary: start) (auto simp: quote_char_def)
  then show ?thesis using nul(1) by (auto simp: quoted_command_def quote_char_def)
qed

lemma stats_command_ok:
  assumes "NUL \<notin> set (tmpfile ctx)" "NUL \<notin> set paths"
  shows "stats_command plenty ctx paths = Ok (quoted_command (tmpfile ctx) paths)"
proof -
  let ?n = "sysbuf_size (tmpfile ctx) paths"
  define s1 where "s1 = concat (map quote_char (tmpfile ctx))"
  define s2 where "s2 = quote_paths True paths"
  have cmd: "quoted_command (tmpfile ctx) paths = ''wc >'' @ s1 @ '' '' @ s2" by (simp add: quoted_command_def s1_def s2_def)
  have len: "Suc (length (''wc >'' @ s1 @ '' '' @ s2)) < ?n" using quoted_command_length [of "tmpfile ctx" paths] cmd by simp
  have start: "c_memcpy (replicate ?n NUL) 0 (''wc >'' @ [NUL]) = Ok (''wc >'' @ replicate (?n - 4) NUL)"
  proof -
    have "?n - 4 = Suc (?n - 5)" using len by simp
    then show ?thesis using len by (simp add: c_memcpy_def drop_replicate)
  qed
  have "filled ?n ''wc >'' (''wc >'' @ replicate (?n - 4) NUL, 4)" by (simp add: filled_def)
  then obtain dp where dp: "rfold put (''wc >'' @ replicate (?n - 4) NUL, 4) (s1 @ '' '' @ s2) = Ok dp" "filled ?n (''wc >'' @ s1 @ '' '' @ s2) dp"
    using sysbuf.rep_push_all [of ?n "''wc >''" "(''wc >'' @ replicate (?n - 4) NUL, 4)" "s1 @ '' '' @ s2"] len
    by (auto simp: map_idI)
  obtain dp1 where dp1: "rfold put (''wc >'' @ replicate (?n - 4) NUL, 4) s1 = Ok dp1"
    using dp(1) by (cases "rfold put (''wc >'' @ replicate (?n - 4) NUL, 4) s1") (auto simp: rfold_append)
  obtain dp2 where dp2: "put dp1 SPC = Ok dp2" "rfold put dp2 s2 = Ok dp"
    using dp(1) dp1 by (cases "put dp1 SPC") (auto simp: rfold_append)
  obtain b where b: "rfold put_path_char (dp2, True) paths = Ok (dp, b)"
    using put_path_loop [of dp2 True paths] dp2(2) by (auto simp: s2_def)
  obtain m where "fst dp = (''wc >'' @ s1 @ '' '' @ s2) @ NUL # replicate m NUL"
  proof -
    have "?n - length (''wc >'' @ s1 @ '' '' @ s2) = Suc (?n - Suc (length (''wc >'' @ s1 @ '' '' @ s2)))" using len by simp
    then show ?thesis using dp(2) that [of "?n - Suc (length (''wc >'' @ s1 @ '' '' @ s2))"] by (simp add: filled_def)
  qed
  then have "cstr (fst dp) = quoted_command (tmpfile ctx) paths" "NUL \<in> set (fst dp)"
    using cstr_append_NUL [of "quoted_command (tmpfile ctx) paths"] quoted_command_nul [OF assms] cmd by simp_all
  then show ?thesis
    using dp1 dp2 b start by (cases dp) (simp add: stats_command_def put_tmp_loop s1_def del: append_Cons)
qed

section \<open>Reading the command back\<close>

text \<open>
  Undoing the quoting: the fields of a text in which a backslash quotes the next character and an
  unquoted space separates, and the characters that are not quoted. A shell does the same, but for
  newlines and empty fields (\<open>sh_words\<close>).
\<close>

fun bs_fields :: "string \<Rightarrow> string \<Rightarrow> string list" where
  "bs_fields cur [] = [cur]"
| "bs_fields cur [c] = (if c = CHR 0x5C then [cur] else if c = SPC then [cur, []] else [cur @ [c]])"
| "bs_fields cur (c # d # cs) =
     (if c = CHR 0x5C then bs_fields (cur @ [d]) cs
      else if c = SPC then cur # bs_fields [] (d # cs) else bs_fields (cur @ [c]) (d # cs))"

fun bs_plain :: "string \<Rightarrow> string" where
  "bs_plain [] = []"
| "bs_plain [c] = (if c = CHR 0x5C then [] else [c])"
| "bs_plain (c # d # cs) = (if c = CHR 0x5C then bs_plain cs else c # bs_plain (d # cs))"

text \<open>
  The words a shell makes of a text whose unquoted characters mean nothing to it, but that blanks
  separate words: a backslash and a newline are dropped, a backslash before another character stands
  for that character. \<open>cur\<close> is the word that has begun.
\<close>

fun sh_words :: "string option \<Rightarrow> string \<Rightarrow> string list" where
  "sh_words cur [] = (case cur of None \<Rightarrow> [] | Some w \<Rightarrow> [w])"
| "sh_words cur [c] = (if c = SPC \<or> c = CHR 0x09 then (case cur of None \<Rightarrow> [] | Some w \<Rightarrow> [w])
     else [case cur of None \<Rightarrow> [c] | Some w \<Rightarrow> w @ [c]])"
| "sh_words cur (c # d # cs) =
     (if c = CHR 0x5C
      then (if d = NL then sh_words cur cs
            else sh_words (Some (case cur of None \<Rightarrow> [d] | Some w \<Rightarrow> w @ [d])) cs)
      else if c = SPC \<or> c = CHR 0x09
      then (case cur of None \<Rightarrow> sh_words None (d # cs) | Some w \<Rightarrow> w # sh_words None (d # cs))
      else sh_words (Some (case cur of None \<Rightarrow> [c] | Some w \<Rightarrow> w @ [c])) (d # cs))"

definition no_newlines :: "string \<Rightarrow> string" where
  "no_newlines s = filter (\<lambda>c. c \<noteq> NL) s"

fun split_spaces :: "string \<Rightarrow> string \<Rightarrow> string list" where
  "split_spaces cur [] = [cur]"
| "split_spaces cur (c # cs) = (if c = SPC then cur # split_spaces [] cs else split_spaces (cur @ [c]) cs)"

definition dotted :: "string \<Rightarrow> string" where
  "dotted w = (if w \<noteq> [] \<and> hd w = CHR ''-'' then ''./'' @ w else w)"

lemma unsafe_chars: "\<not> is_arg_safe (CHR 0x5C)" "\<not> is_arg_safe SPC" "is_arg_safe (CHR ''.'')" "is_arg_safe (CHR ''/'')"
  "is_arg_safe (CHR ''-'')"
  by (simp_all add: is_arg_safe_def schar_def)

lemma bs_fields_char:
  assumes "c \<noteq> CHR 0x5C" "c \<noteq> SPC" shows "bs_fields cur (c # cs) = bs_fields (cur @ [c]) cs"
  using assms by (cases cs) auto

lemma bs_fields_space: "bs_fields cur (SPC # cs) = cur # bs_fields [] cs"
  by (cases cs) auto

lemma bs_fields_quote: "bs_fields cur (quote_char c @ cs) = bs_fields (cur @ [c]) cs"
proof (cases "is_arg_safe c")
  case True
  then have "c \<noteq> CHR 0x5C" "c \<noteq> SPC" using unsafe_chars by metis+
  then show ?thesis using True by (simp add: quote_char_def bs_fields_char)
next
  case False
  then show ?thesis by (simp add: quote_char_def)
qed

lemma no_newlines_simps [simp]:
  "no_newlines [] = []" "no_newlines (a @ b) = no_newlines a @ no_newlines b"
  "no_newlines (c # s) = (if c = NL then no_newlines s else c # no_newlines s)"
  by (simp_all add: no_newlines_def)

text \<open>A text that does not end in a backslash that quotes nothing, and in which only harmless characters are unquoted.\<close>

fun shell_safe :: "string \<Rightarrow> bool" where
  "shell_safe [] \<longleftrightarrow> True"
| "shell_safe [c] \<longleftrightarrow> is_arg_safe c \<or> c = SPC"
| "shell_safe (c # d # cs) \<longleftrightarrow> (if c = CHR 0x5C then shell_safe cs else (is_arg_safe c \<or> c = SPC) \<and> shell_safe (d # cs))"

lemma shell_safe_char: "c \<noteq> CHR 0x5C \<Longrightarrow> shell_safe (c # cs) \<longleftrightarrow> (is_arg_safe c \<or> c = SPC) \<and> shell_safe cs"
  by (cases cs) auto

lemma not_arg_safe: "\<not> is_arg_safe NL" "\<not> is_arg_safe (CHR 0x09)"
  by (simp_all add: is_arg_safe_def schar_def)

lemma shell_safe_quote: "shell_safe (quote_char c @ cs) = shell_safe cs"
proof (cases "is_arg_safe c")
  case True
  then have "c \<noteq> CHR 0x5C" using unsafe_chars(1) by blast
  then show ?thesis using True by (simp add: quote_char_def shell_safe_char)
qed (simp add: quote_char_def)

text \<open>Of a safe text a shell makes the fields without their newlines, but for the empty ones.\<close>

lemma sh_words_fields:
  assumes "shell_safe s"
  shows "sh_words (if no_newlines cur = [] then None else Some (no_newlines cur)) s =
    filter (\<lambda>w. w \<noteq> []) (map no_newlines (bs_fields cur s))"
  using assms
proof (induction cur s rule: bs_fields.induct)
  case (2 cur c)
  then show ?case using unsafe_chars not_arg_safe by auto
next
  case (3 cur c d cs)
  consider "c = CHR 0x5C" | "c = SPC" | "c \<noteq> CHR 0x5C" "c \<noteq> SPC" "is_arg_safe c"
    using "3.prems" by (auto split: if_split_asm)
  then show ?case
  proof cases
    case 1
    then show ?thesis using 3(1)[OF 1] "3.prems" by auto
  next
    case 2
    then show ?thesis using 3(2) "3.prems" by auto
  next
    case 3
    then have "c \<noteq> NL" "c \<noteq> CHR 0x09" using not_arg_safe by auto
    then show ?thesis using 3 "3.IH"(3) "3.prems" by auto
  qed
qed simp

lemma bs_plain_char: "c \<noteq> CHR 0x5C \<Longrightarrow> bs_plain (c # cs) = c # bs_plain cs"
  by (cases cs) auto

lemma bs_plain_quote: "bs_plain (quote_char c @ cs) = (if is_arg_safe c then [c] else []) @ bs_plain cs"
proof (cases "is_arg_safe c")
  case True
  then have "c \<noteq> CHR 0x5C" using unsafe_chars by metis
  then show ?thesis using True by (simp add: quote_char_def bs_plain_char)
next
  case False
  then show ?thesis by (simp add: quote_char_def)
qed

lemma fields_of_tmp: "bs_fields cur (concat (map quote_char s)) = [cur @ s]"
  by (induction s arbitrary: cur) (simp_all add: bs_fields_quote)

lemma split_spaces_shift: "split_spaces pre cs = (pre @ hd (split_spaces [] cs)) # tl (split_spaces [] cs)"
proof (induction cs arbitrary: pre)
  case Nil
  then show ?case by simp
next
  case (Cons c cs)
  show ?case
  proof (cases "c = SPC")
    case False
    then have "split_spaces pre (c # cs) = split_spaces (pre @ [c]) cs" "split_spaces [] (c # cs) = split_spaces [c] cs"
      by simp_all
    then show ?thesis using Cons.IH [of "pre @ [c]"] Cons.IH [of "[c]"] by simp
  qed simp
qed

text \<open>A word being read from its middle keeps what was already read.\<close>

lemma fields_of_paths:
  "bs_fields cur (quote_paths False s) = (cur @ hd (split_spaces [] s)) # map dotted (tl (split_spaces [] s))"
  "bs_fields [] (quote_paths True s) = map dotted (split_spaces [] s)"
proof (induction s arbitrary: cur)
  case Nil
  { case 1 then show ?case by simp }
  { case 2 then show ?case by (simp add: dotted_def) }
next
  case (Cons c cs)
  have c: "split_spaces [] (c # cs) = (if c = SPC then [] # split_spaces [] cs
      else (c # hd (split_spaces [] cs)) # tl (split_spaces [] cs))"
    using split_spaces_shift [of "[c]" cs] by simp
  { case 1
    show ?case
    proof (cases "c = SPC")
      case True
      then show ?thesis using Cons(2) by (simp add: bs_fields_space)
    next
      case False
      then have "bs_fields cur (quote_paths False (c # cs)) = bs_fields (cur @ [c]) (quote_paths False cs)"
        by (simp add: bs_fields_quote)
      then show ?thesis using Cons(1) [of "cur @ [c]"] False c by simp
    qed }
  { case 2
    show ?case
    proof (cases "c = SPC")
      case True
      then show ?thesis using Cons(2) by (simp add: bs_fields_space dotted_def)
    next
      case False
      let ?pre = "if c = CHR ''-'' then ''./'' else []"
      have "bs_fields [] (quote_paths True (c # cs)) = bs_fields (?pre @ [c]) (quote_paths False cs)"
        using False by (simp add: bs_fields_char bs_fields_quote)
      then show ?thesis using Cons(1) [of "?pre @ [c]"] False c by (simp add: dotted_def)
    qed }
qed

lemma plain_of_quotes: "c \<in> set (bs_plain (concat (map quote_char s))) \<Longrightarrow> is_arg_safe c"
  by (induction s) (auto simp: bs_plain_quote split: if_splits)

lemma plain_of_paths: "set (bs_plain (quote_paths start s)) \<subseteq> {c. is_arg_safe c \<or> c = SPC}"
proof (induction s arbitrary: start)
  case Nil
  then show ?case by simp
next
  case (Cons c cs)
  let ?pre = "if start \<and> c = CHR ''-'' then ''./'' else []"
  have pre: "set (bs_plain (?pre @ t)) \<subseteq> {c. is_arg_safe c \<or> c = SPC} \<union> set (bs_plain t)" for t
    using unsafe_chars by (auto simp: bs_plain_char)
  have "set (bs_plain ((if c = SPC then [c] else quote_char c) @ quote_paths (c = SPC) cs))
      \<subseteq> {c. is_arg_safe c \<or> c = SPC}"
    using Cons.IH [of "c = SPC"] by (cases "c = SPC") (auto simp: bs_plain_quote bs_plain_char)
  then show ?case using pre [of "(if c = SPC then [c] else quote_char c) @ quote_paths (c = SPC) cs"]
    unfolding quote_paths.simps by blast
qed

section \<open>The table of results\<close>

definition cx_ok :: "raw_context \<Rightarrow> bool" where
  "cx_ok ctx \<longleftrightarrow> length (cx_data ctx) = unat (cx_cap ctx) \<and> unat (cx_len ctx) \<le> unat (cx_cap ctx)
     \<and> (\<forall>i < length (cx_data ctx). unat (cx_len ctx) \<le> i \<longrightarrow> cx_data ctx ! i = None)"

definition results :: "raw_context \<Rightarrow> string option list" where
  "results ctx = take (unat (cx_len ctx)) (cx_data ctx)"

text \<open>The number of handles a 32-bit signed integer can name.\<close>

definition handle_limit :: nat where "handle_limit = 2147483648"

lemma to_handle_small:
  assumes "unat i < handle_limit" shows "to_handle i = int (unat i)"
proof -
  have u: "uint i = int (unat i)" by (rule uint_nat)
  then have i: "uint i < 2147483648" using assms unfolding handle_limit_def by linarith
  have "uint (ucast i :: 32 word) = uint i" using i by (simp add: unsigned_ucast_eq take_bit_int_eq_self)
  moreover have "signed_take_bit 31 (uint i) = uint i" using i order_trans [of "- (2 ^ 31)" 0 "uint i"] by (intro signed_take_bit_int_eq_self) (simp_all del: neg_le_0_iff_le add: uint_ge_0)
  ultimately have "to_handle i = uint i" by (simp add: to_handle_def sint_uint)
  from this u show ?thesis by (rule trans)
qed

lemma ensure_space_ok:
  assumes ok: "cx_ok ctx" and room: "unat (cx_len ctx) < handle_limit"
  shows "\<exists>ctx'. ensure_space plenty ctx = Ok (True, ctx') \<and> cx_ok ctx' \<and> results ctx' = results ctx
    \<and> cx_len ctx' = cx_len ctx \<and> tmpfile ctx' = tmpfile ctx \<and> unat (cx_len ctx) < length (cx_data ctx')"
proof (cases "cx_cap ctx > cx_len ctx")
  case True
  then show ?thesis using ok by (simp add: ensure_space_def cx_ok_def word_less_nat_alt)
next
  case False
  then have full: "unat (cx_cap ctx) = unat (cx_len ctx)" using ok by (simp add: cx_ok_def word_less_nat_alt)
  then have cap: "unat (2 * cx_cap ctx) = 2 * unat (cx_len ctx)"
    using room by (subst u64_mult) (simp_all add: handle_limit_def)
  define n where "n = (if 2 * cx_cap ctx = 0 then 4 else 2 * cx_cap ctx)"
  have n: "unat (cx_len ctx) < unat n" "unat n = (if unat (cx_len ctx) = 0 then 4 else 2 * unat (cx_len ctx))"
    using cap by (auto simp: n_def u64_eq_0)
  have bytes: "unat (cx_len ctx * 8) div 8 = unat (cx_len ctx)"
    using room by (subst u64_mult) (simp_all add: handle_limit_def)
  have len: "length (cx_data ctx) = unat (cx_len ctx)" using ok full by (simp add: cx_ok_def)
  then have "ensure_space plenty ctx = Ok (True, ctx\<lparr>cx_cap := n,
      cx_data := cx_data ctx @ replicate (unat n - unat (cx_len ctx)) None\<rparr>)"
    using False n(1) by (cases "2 * cx_cap ctx = 0") (simp_all add: ensure_space_def Let_def bytes n_def)
  moreover have "cx_ok (ctx\<lparr>cx_cap := n, cx_data := cx_data ctx @ replicate (unat n - unat (cx_len ctx)) None\<rparr>)"
    using len n(1) by (auto simp: cx_ok_def nth_append)
  ultimately show ?thesis using len n(1) by (simp add: results_def)
qed

lemma load_ok:
  assumes ok: "cx_ok ctx" and room: "unat (cx_len ctx) < handle_limit"
    and f: "st_seek_end f" "st_tell f" "st_seek_set f" "st_close f"
  shows "\<exists>ctx'. libwc_load_result plenty (Some f) ctx = Ok (int (length (results ctx)), ctx', 0) \<and> cx_ok ctx'
    \<and> results ctx' = results ctx @ [Some (st_data f)] \<and> unat (cx_len ctx') = Suc (unat (cx_len ctx)) \<and> tmpfile ctx' = tmpfile ctx"
proof -
  obtain c where c: "ensure_space plenty ctx = Ok (True, c)" "cx_ok c" "results c = results ctx" "cx_len c = cx_len ctx"
    "tmpfile c = tmpfile ctx" "unat (cx_len ctx) < length (cx_data c)" using ensure_space_ok [OF ok room] by blast
  let ?i = "unat (cx_len ctx)"
  have suc: "unat (cx_len ctx + 1) = Suc ?i" using room by (intro u64_suc) (simp add: handle_limit_def)
  have len: "length (results ctx) = ?i" using ok by (simp add: results_def cx_ok_def)
  have "cx_data c ! ?i = None" using c by (simp add: cx_ok_def)
  moreover have "cx_ok (c\<lparr>cx_len := cx_len ctx + 1, cx_data := (cx_data c)[?i := Some (st_data f)]\<rparr>)"
    using c(2,4,6) suc by (auto simp: cx_ok_def nth_list_update)
  moreover have "results (c\<lparr>cx_len := cx_len ctx + 1, cx_data := (cx_data c)[?i := Some (st_data f)]\<rparr>)
      = results ctx @ [Some (st_data f)]"
    using c(3,4,6) suc by (simp add: results_def take_Suc_conv_app_nth)
  ultimately show ?thesis
    using c f suc len to_handle_small [OF room] by (simp add: libwc_load_result_def Let_def)
qed

lemma handle_word:
  assumes "0 \<le> h" "h < int handle_limit" shows "unat (word_of_int h :: u64) = nat h"
proof -
  have "take_bit 64 h = h" using assms by (intro take_bit_int_eq_self) (simp_all add: handle_limit_def)
  then show ?thesis by (simp add: unsigned_of_int)
qed

lemma results_length: "cx_ok ctx \<Longrightarrow> length (results ctx) = unat (cx_len ctx)"
  by (simp add: results_def cx_ok_def)

lemma handle_in_range:
  "cx_ok ctx \<Longrightarrow> 0 \<le> h \<Longrightarrow> h < int handle_limit \<Longrightarrow> word_of_int h \<ge> cx_len ctx \<longleftrightarrow> length (results ctx) \<le> nat h"
  by (simp add: word_le_nat_alt handle_word results_length)

lemma results_nth: "cx_ok ctx \<Longrightarrow> i < length (results ctx) \<Longrightarrow> i < length (cx_data ctx) \<and> results ctx ! i = cx_data ctx ! i"
  by (simp add: results_def)

lemma del_ok:
  assumes ok: "cx_ok ctx" and h: "h < int handle_limit"
  shows "\<exists>ctx'. libwc_del_result ctx h
      = Ok (0 \<le> h \<and> nat h < length (results ctx) \<and> results ctx ! nat h \<noteq> None, ctx') \<and> cx_ok ctx'
    \<and> results ctx' = (if 0 \<le> h \<and> nat h < length (results ctx) then (results ctx)[nat h := None] else results ctx)"
proof (cases "0 \<le> h \<and> nat h < length (results ctx)")
  case False
  then show ?thesis using ok h handle_in_range [OF ok, of h] by (auto simp: libwc_del_result_def not_less)
next
  case True
  then have i: "nat h < length (cx_data ctx)" "results ctx ! nat h = cx_data ctx ! nat h"
    using results_nth [OF ok] by auto
  show ?thesis
  proof (cases "cx_data ctx ! nat h")
    case None
    then have "(results ctx)[nat h := None] = results ctx" using i(2) by (metis list_update_id)
    then show ?thesis using True None i ok h handle_in_range [OF ok, of h] by (simp add: libwc_del_result_def)
  next
    case (Some s)
    have "cx_ok (ctx\<lparr>cx_data := (cx_data ctx)[nat h := None]\<rparr>)"
      using ok i(1) unfolding cx_ok_def by (simp add: nth_list_update)
    moreover have "results (ctx\<lparr>cx_data := (cx_data ctx)[nat h := None]\<rparr>) = (results ctx)[nat h := None]"
      by (simp add: results_def take_update_swap)
    ultimately show ?thesis using True Some i h handle_in_range [OF ok, of h] by (simp add: libwc_del_result_def)
  qed
qed

lemma get_ok:
  assumes ok: "cx_ok ctx" and h: "h < int handle_limit"
  shows "libwc_get_result ctx h = (if 0 \<le> h \<and> nat h < length (results ctx) then Ok (results ctx ! nat h) else Err Assert_Fail)"
proof (cases "0 \<le> h \<and> nat h < length (results ctx)")
  case False
  then have "\<not> (h \<ge> 0 \<and> word_of_int h < cx_len ctx)" using handle_in_range [OF ok, of h] h by (auto simp: not_less)
  then have "c_assert (h \<ge> 0 \<and> word_of_int h < cx_len ctx) = Err Assert_Fail" by (simp add: c_assert_def)
  then show ?thesis using False unfolding libwc_get_result_def by simp
next
  case True
  then show ?thesis using handle_in_range [OF ok, of h] h results_nth [OF ok, of "nat h"]
    by (simp add: libwc_get_result_def not_le [symmetric])
qed

text \<open>Loading several outputs one after the other.\<close>

definition load_all :: "raw_context \<Rightarrow> stream list \<Rightarrow> (int list \<times> raw_context) result" where
  "load_all ctx fs = rfold (\<lambda>(hs, ctx) f. rbind (libwc_load_result plenty (Some f) ctx)
     (\<lambda>(h, ctx, _). Ok (hs @ [h], ctx))) ([], ctx) fs"

definition good_stream :: "stream \<Rightarrow> bool" where
  "good_stream f \<longleftrightarrow> st_seek_end f \<and> st_tell f \<and> st_seek_set f \<and> st_close f"

lemma load_many:
  assumes "cx_ok ctx" "\<forall>f \<in> set fs. good_stream f" "length (results ctx) + length fs \<le> handle_limit"
  shows "\<exists>ctx'. rfold (\<lambda>(hs, ctx) f. rbind (libwc_load_result plenty (Some f) ctx) (\<lambda>(h, ctx, _). Ok (hs @ [h], ctx))) (hs, ctx) fs
      = Ok (hs @ map int [length (results ctx)..<length (results ctx) + length fs], ctx')
    \<and> cx_ok ctx' \<and> results ctx' = results ctx @ map (\<lambda>f. Some (st_data f)) fs"
  using assms
proof (induction fs arbitrary: hs ctx)
  case Nil
  then show ?case by auto
next
  case (Cons f fs)
  let ?n = "length (results ctx)"
  obtain c where c: "libwc_load_result plenty (Some f) ctx = Ok (int ?n, c, 0)" "cx_ok c" "results c = results ctx @ [Some (st_data f)]"
    using load_ok [of ctx f] Cons.prems results_length [of ctx] by (auto simp: good_stream_def)
  have "map int [?n..<?n + length (f # fs)] = int ?n # map int [Suc ?n..<Suc ?n + length fs]"
    by (simp add: upt_conv_Cons del: upt_Suc)
  then show ?case using Cons.IH [of c "hs @ [int ?n]"] Cons.prems c by (simp del: plenty upt_Suc)
qed

section \<open>Properties\<close>

text \<open>
  C33: Building the \<open>wc\<close> command never leaves its buffer, for every list of paths and every
  temporary file; in the command a backslash precedes every character that is not in the
  safe set (other than the separating spaces), and undoing the backslashes gives back the
  temporary file and the paths, those that start with \<open>'-'\<close> prefixed by \<open>./\<close>.
\<close>

theorem libwc_command_quoted:
  assumes "NUL \<notin> set (tmpfile ctx)" "NUL \<notin> set paths"
  shows "\<exists>t p. stats_command plenty ctx paths = Ok (''wc >'' @ t @ '' '' @ p)
    \<and> Suc (length (''wc >'' @ t @ '' '' @ p)) \<le> sysbuf_size (tmpfile ctx) paths
    \<and> bs_fields [] t = [tmpfile ctx] \<and> bs_fields [] p = map dotted (split_spaces [] paths)
    \<and> (\<forall>c \<in> set (bs_plain t). is_arg_safe c) \<and> (\<forall>c \<in> set (bs_plain p). is_arg_safe c \<or> c = SPC)"
proof (intro exI conjI)
  let ?t = "concat (map quote_char (tmpfile ctx))" and ?p = "quote_paths True paths"
  show "stats_command plenty ctx paths = Ok (''wc >'' @ ?t @ '' '' @ ?p)"
    using stats_command_ok [OF assms] by (simp add: quoted_command_def)
  show "Suc (length (''wc >'' @ ?t @ '' '' @ ?p)) \<le> sysbuf_size (tmpfile ctx) paths"
    using quoted_command_length [of "tmpfile ctx" paths] by (simp add: quoted_command_def)
  show "bs_fields [] ?t = [tmpfile ctx]" using fields_of_tmp [of "[]"] by simp
  show "bs_fields [] ?p = map dotted (split_spaces [] paths)" by (rule fields_of_paths(2))
  show "\<forall>c \<in> set (bs_plain ?t). is_arg_safe c" using plain_of_quotes by blast
  show "\<forall>c \<in> set (bs_plain ?p). is_arg_safe c \<or> c = SPC" using plain_of_paths [of True paths] by blast
qed

definition empty_context :: raw_context where
  "empty_context = \<lparr>tmpfile = ''/tmp/libwc.txt'', cx_len = 0, cx_cap = 0, cx_data = []\<rparr>"

lemma empty_context_ok: "cx_ok empty_context" "results empty_context = []"
  by (simp_all add: empty_context_def cx_ok_def results_def)

theorem libwc_command_quoted_witness:
  "\<exists>t p. stats_command plenty empty_context ''-a $x'' = Ok (''wc >'' @ t @ '' '' @ p)
    \<and> Suc (length (''wc >'' @ t @ '' '' @ p)) \<le> sysbuf_size (tmpfile empty_context) ''-a $x''
    \<and> bs_fields [] t = [tmpfile empty_context] \<and> bs_fields [] p = map dotted (split_spaces [] ''-a $x'')
    \<and> (\<forall>c \<in> set (bs_plain t). is_arg_safe c) \<and> (\<forall>c \<in> set (bs_plain p). is_arg_safe c \<or> c = SPC)"
  by (rule libwc_command_quoted) (simp_all add: empty_context_def)

text \<open>
  A newline in a path is put after a backslash, which a shell reads as a line
  continuation and drops together with the newline; it is not protected.
\<close>

theorem libwc_newline_escaped:
  assumes "NUL \<notin> set (tmpfile ctx)" "NUL \<notin> set (a @ b)"
  shows "\<exists>x y. stats_command plenty ctx (a @ NL # b) = Ok (x @ [CHR 0x5C, NL] @ y)"
proof -
  have "quote_paths start (NL # b) = [] @ [CHR 0x5C, NL] @ quote_paths False b" for start
    by (simp add: quote_char_def is_arg_safe_def schar_def)
  then obtain x where "quote_paths True (a @ NL # b) = x @ [CHR 0x5C, NL] @ quote_paths False b"
    using quote_paths_append [of True a "NL # b"] by (metis append_assoc append_Nil)
  then have "quoted_command (tmpfile ctx) (a @ NL # b)
      = (''wc >'' @ concat (map quote_char (tmpfile ctx)) @ '' '' @ x) @ [CHR 0x5C, NL] @ quote_paths False b"
    by (simp add: quoted_command_def)
  moreover have "stats_command plenty ctx (a @ NL # b) = Ok (quoted_command (tmpfile ctx) (a @ NL # b))"
    using assms by (intro stats_command_ok) simp_all
  ultimately show ?thesis by metis
qed

theorem libwc_newline_escaped_witness:
  "\<exists>x y. stats_command plenty empty_context (''a'' @ NL # ''b'') = Ok (x @ [CHR 0x5C, NL] @ y)"
  by (rule libwc_newline_escaped) (simp_all add: empty_context_def)

text \<open>
  So the shell that runs the command sees the temporary file and the paths without their
  newlines, and no word for an empty path.
\<close>

theorem libwc_shell_words:
  assumes "NUL \<notin> set (tmpfile ctx)" "NUL \<notin> set paths"
  shows "\<exists>t p. stats_command plenty ctx paths = Ok (''wc >'' @ t @ '' '' @ p)
    \<and> sh_words None t = filter (\<lambda>w. w \<noteq> []) [no_newlines (tmpfile ctx)]
    \<and> sh_words None p = filter (\<lambda>w. w \<noteq> []) (map (no_newlines \<circ> dotted) (split_spaces [] paths))"
proof (intro exI conjI)
  let ?t = "concat (map quote_char (tmpfile ctx))" and ?p = "quote_paths True paths"
  show "stats_command plenty ctx paths = Ok (''wc >'' @ ?t @ '' '' @ ?p)"
    using stats_command_ok [OF assms] by (simp add: quoted_command_def)
  have t: "shell_safe (concat (map quote_char s))" for s
    by (induction s) (simp_all add: shell_safe_quote)
  show "sh_words None ?t = filter (\<lambda>w. w \<noteq> []) [no_newlines (tmpfile ctx)]"
    using sh_words_fields [OF t, of "[]" "tmpfile ctx"] by (simp add: fields_of_tmp)
  have p: "shell_safe (quote_paths start s)" for start s
    using unsafe_chars by (induction s arbitrary: start) (auto simp: shell_safe_quote shell_safe_char)
  show "sh_words None ?p = filter (\<lambda>w. w \<noteq> []) (map (no_newlines \<circ> dotted) (split_spaces [] paths))"
    using sh_words_fields [OF p, of "[]" True paths] by (simp add: fields_of_paths)
qed

theorem libwc_shell_words_witness:
  "\<exists>t p. stats_command plenty empty_context (''-a'' @ NL # ''b  $x'') = Ok (''wc >'' @ t @ '' '' @ p) \<and>
    sh_words None p = [''./-ab'', ''$x'']"
proof -
  obtain t p where "stats_command plenty empty_context (''-a'' @ NL # ''b  $x'') = Ok (''wc >'' @ t @ '' '' @ p)"
    "sh_words None p = filter (\<lambda>w. w \<noteq> []) (map (no_newlines \<circ> dotted) (split_spaces [] (''-a'' @ NL # ''b  $x'')))"
    using libwc_shell_words [of empty_context "''-a'' @ NL # ''b  $x''"] by (auto simp: empty_context_def)
  then show ?thesis by (auto simp: dotted_def no_newlines_def)
qed

text \<open>
  Results are kept under the handles 0, 1, 2, ...: after any number of loads (up to
  the range of a handle) from an empty context, each handle reads back the file it was
  loaded from; every other handle fails the assertion of \<open>libwc_get_result\<close>.
\<close>

theorem libwc_handles_read_back:
  assumes "\<forall>f \<in> set fs. good_stream f" "length fs \<le> handle_limit"
  shows "\<exists>ctx. load_all empty_context fs = Ok (map int [0..<length fs], ctx)
    \<and> (\<forall>h < int handle_limit. libwc_get_result ctx h =
        (if 0 \<le> h \<and> nat h < length fs then Ok (Some (st_data (fs ! nat h))) else Err Assert_Fail))"
proof -
  obtain ctx where ctx: "load_all empty_context fs = Ok (map int [0..<length fs], ctx)" "cx_ok ctx"
    "results ctx = map (\<lambda>f. Some (st_data f)) fs"
    using load_many [OF empty_context_ok(1) assms(1), of "[]"] assms(2) empty_context_ok(2)
    by (auto simp: load_all_def)
  then show ?thesis using get_ok [OF ctx(2)] by (intro exI [of _ ctx]) auto
qed

theorem libwc_handles_read_back_witness:
  "\<exists>ctx. load_all empty_context [\<lparr>st_data = ''1 2 3'', st_seek_end = True, st_tell = True, st_seek_set = True, st_close = True\<rparr>]
      = Ok (map int [0..<1], ctx)
    \<and> (\<forall>h < int handle_limit. libwc_get_result ctx h = (if 0 \<le> h \<and> nat h < 1 then Ok (Some ''1 2 3'') else Err Assert_Fail))"
  using libwc_handles_read_back [of "[\<lparr>st_data = ''1 2 3'', st_seek_end = True, st_tell = True, st_seek_set = True, st_close = True\<rparr>]"]
  by (auto simp: good_stream_def handle_limit_def)

text \<open>
  Deletion is safe for every integer, as the header promises: it answers true exactly
  for a handle whose result is present, removes only that result, and answers false,
  changing nothing, for a negative, unknown or already deleted handle.
\<close>

theorem libwc_del_safe:
  assumes "cx_ok ctx" "h < int handle_limit"
  shows "\<exists>ctx'. libwc_del_result ctx h
      = Ok (0 \<le> h \<and> nat h < length (results ctx) \<and> results ctx ! nat h \<noteq> None, ctx') \<and> cx_ok ctx'
    \<and> results ctx' = (if 0 \<le> h \<and> nat h < length (results ctx) then (results ctx)[nat h := None] else results ctx)"
  using assms by (rule del_ok)

theorem libwc_del_safe_witness:
  "\<exists>ctx'. libwc_del_result empty_context (-7)
      = Ok (0 \<le> (-7 :: int) \<and> nat (-7) < length (results empty_context) \<and> results empty_context ! nat (-7) \<noteq> None, ctx') \<and> cx_ok ctx'
    \<and> results ctx' = (if 0 \<le> (-7 :: int) \<and> nat (-7) < length (results empty_context) then (results empty_context)[nat (-7) := None]
        else results empty_context)"
  by (rule libwc_del_safe) (simp_all add: empty_context_ok handle_limit_def)

text \<open>
  \<open>libwc_create_custom
\<close> never returns a context, whatever the path and the allocator.\<close>

theorem libwc_create_custom_null: "libwc_create_custom al path \<in> {Err Assert_Fail, Ok None}"
  by (auto simp: libwc_create_custom_def c_assert_def rbind_def split: option.splits)

text \<open>
  \<open>libwc_destroy\<close> releases every result still present exactly once and the context,
  but never the table that held the results.
\<close>

theorem libwc_destroy_leaks_table:
  assumes "cx_ok ctx"
  shows "\<exists>bs. libwc_destroy ctx = Ok bs \<and> distinct bs \<and> Table_Block \<notin> set bs \<and> Context_Block \<in> set bs
    \<and> (\<forall>i. Result_Block i \<in> set bs \<longleftrightarrow> i < length (results ctx) \<and> results ctx ! i \<noteq> None)"
proof -
  have len: "unat (cx_len ctx) \<le> length (cx_data ctx)" using assms by (simp add: cx_ok_def)
  have upt: "distinct [Result_Block i. i \<leftarrow> [0..<n], P i]" for n P by (induction n) auto
  show ?thesis using len upt [of "\<lambda>i. cx_data ctx ! i \<noteq> None" "unat (cx_len ctx)"]
    by (auto simp: libwc_destroy_def results_def)
qed

theorem libwc_destroy_leaks_table_witness:
  "\<exists>bs. libwc_destroy empty_context = Ok bs \<and> distinct bs \<and> Table_Block \<notin> set bs \<and> Context_Block \<in> set bs
    \<and> (\<forall>i. Result_Block i \<in> set bs \<longleftrightarrow> i < length (results empty_context) \<and> results empty_context ! i \<noteq> None)"
  by (rule libwc_destroy_leaks_table) (rule empty_context_ok)

end
