(* ===== verification/Decimal.thy ===== *)
theory Decimal
  imports Prelude
begin

text \<open>
  Decimal numbers on the command line: the library's \<open>atoi\<close> (\<open>lab1/zad2\<close>) and \<open>strtol\<close>
  (\<open>lab7\<close>), and a printer that both read back.
\<close>

text \<open>\<open>atoi\<close>: leading white space, a sign, digits; an overflow is undefined.\<close>

definition digit_value :: "char \<Rightarrow> int option" where
  "digit_value c = (if 48 \<le> (of_char c :: nat) \<and> (of_char c :: nat) \<le> 57 then Some (int ((of_char c :: nat) - 48)) else None)"

fun digits_value :: "int \<Rightarrow> string \<Rightarrow> int" where
  "digits_value acc [] = acc"
| "digits_value acc (c # cs) = (case digit_value c of None \<Rightarrow> acc | Some d \<Rightarrow> digits_value (acc * 10 + d) cs)"

definition c_atoi :: "string \<Rightarrow> int result" where
  "c_atoi s =
     (let t = dropWhile is_c_space s;
          n = (if t \<noteq> [] \<and> hd t = CHR ''-'' then - digits_value 0 (tl t)
               else if t \<noteq> [] \<and> hd t = CHR ''+'' then digits_value 0 (tl t) else digits_value 0 t)
      in if - (2 ^ 31) \<le> n \<and> n < 2 ^ 31 then Ok n else Err Undef_Behaviour)"

text \<open>
  \<open>strtol(str, &endptr, 10)\<close>: the value, the text \<open>endptr\<close> points to, and whether \<open>errno\<close> was
  set. Without digits the value is 0 and \<open>endptr\<close> is \<open>str\<close>.
\<close>

definition LONG_MAX :: int where "LONG_MAX = 2 ^ 63 - 1"
definition LONG_MIN :: int where "LONG_MIN = - (2 ^ 63)"

definition strtol10 :: "string \<Rightarrow> int \<times> string \<times> bool" where
  "strtol10 str = (let
     s = dropWhile is_c_space str;
     neg = (s \<noteq> [] \<and> hd s = CHR ''-'');
     ds = (if s \<noteq> [] \<and> (hd s = CHR ''-'' \<or> hd s = CHR ''+'') then tl s else s);
     v = (if neg then - digits_value 0 ds else digits_value 0 ds);
     rest = dropWhile (\<lambda>c. digit_value c \<noteq> None) ds
   in if ds = [] \<or> digit_value (hd ds) = None then (0, str, False)
      else if LONG_MAX < v then (LONG_MAX, rest, True)
      else if v < LONG_MIN then (LONG_MIN, rest, True)
      else (v, rest, False))"

section \<open>Printing and reading back\<close>

fun show_nat :: "nat \<Rightarrow> string" where
  "show_nat n = (if n < 10 then [] else show_nat (n div 10)) @ [char_of (48 + n mod 10)]"

declare show_nat.simps [simp del]

lemma digit_value_char: "d < 10 \<Longrightarrow> digit_value (char_of (48 + d :: nat)) = Some (int d)"
  by (simp add: digit_value_def)

lemma digits_value_snoc:
  "\<forall>c \<in> set s. digit_value c \<noteq> None \<Longrightarrow> digits_value acc (s @ [c]) =
    (case digit_value c of None \<Rightarrow> digits_value acc s | Some d \<Rightarrow> digits_value acc s * 10 + d)"
  by (induction s arbitrary: acc) (auto split: option.splits)

lemma show_nat_digits: "\<forall>c \<in> set (show_nat n). digit_value c \<noteq> None"
proof (induction n rule: show_nat.induct)
  case (1 n)
  then show ?case by (subst show_nat.simps) (auto simp: digit_value_char)
qed

lemma digits_show_nat: "digits_value 0 (show_nat n) = int n"
proof (induction n rule: show_nat.induct)
  case (1 n)
  let ?pre = "if n < 10 then [] else show_nat (n div 10)"
  have pre: "\<forall>c \<in> set ?pre. digit_value c \<noteq> None" using show_nat_digits by simp
  have "digits_value 0 ?pre = int (n div 10)" using 1 by simp
  moreover have "digit_value (char_of (48 + n mod 10)) = Some (int (n mod 10))"
    using digit_value_char [of "n mod 10"] by simp
  ultimately have "digits_value 0 (show_nat n) = int (n div 10) * 10 + int (n mod 10)"
    by (subst show_nat.simps) (simp only: digits_value_snoc [OF pre] option.case)
  also have "\<dots> = int (n div 10 * 10 + n mod 10)" by (simp only: of_nat_add of_nat_mult of_nat_numeral)
  finally show ?case by (simp only: div_mult_mod_eq)
qed

lemma show_nat_length: "n < 10 ^ k \<Longrightarrow> 0 < k \<Longrightarrow> length (show_nat n) \<le> k"
proof (induction k arbitrary: n)
  case (Suc k)
  show ?case
  proof (cases "n < 10")
    case True
    then show ?thesis by (subst show_nat.simps) simp
  next
    case False
    then have "0 < k" using Suc.prems by (cases k) auto
    moreover have "n div 10 < 10 ^ k" using Suc.prems by (simp add: less_mult_imp_div_less)
    ultimately have "length (show_nat (n div 10)) \<le> k" by (intro Suc.IH)
    then show ?thesis using False by (subst show_nat.simps) simp
  qed
qed simp

lemma show_nat_head:
  obtains c cs where "show_nat n = c # cs" "digit_value c \<noteq> None" "\<not> is_c_space c"
    "c \<noteq> CHR ''-''" "c \<noteq> CHR ''+''"
proof -
  have "show_nat n \<noteq> []" by (subst show_nat.simps) simp
  then obtain c cs where s: "show_nat n = c # cs" by (cases "show_nat n") auto
  have dv: "digit_value c \<noteq> None" using show_nat_digits [of n] s by simp
  then have c: "48 \<le> (of_char c :: nat)" "(of_char c :: nat) \<le> 57"
    by (auto simp: digit_value_def split: if_splits)
  have "\<not> is_c_space c"
  proof
    assume "is_c_space c"
    then show False using c by (auto simp: is_c_space_def)
  qed
  moreover have "c \<noteq> CHR ''-''" "c \<noteq> CHR ''+''" using c by auto
  ultimately show thesis using that s dv by blast
qed

lemma strtol_show_nat:
  assumes "int n \<le> LONG_MAX"
  shows "strtol10 (show_nat n) = (int n, [], False)"
    and "strtol10 (CHR ''-'' # show_nat n) = (- int n, [], False)"
proof -
  obtain c cs where s: "show_nat n = c # cs" and c: "digit_value c \<noteq> None" "\<not> is_c_space c"
    "c \<noteq> CHR ''-''" "c \<noteq> CHR ''+''"
    by (rule show_nat_head)
  have val: "digits_value 0 (show_nat n) = int n" by (rule digits_show_nat)
  have range: "\<not> LONG_MAX < int n" "\<not> int n < LONG_MIN" "\<not> LONG_MAX < - int n" "\<not> - int n < LONG_MIN"
    using assms by (simp_all add: LONG_MAX_def LONG_MIN_def)
  have sp: "dropWhile is_c_space (show_nat n) = show_nat n"
    using c s by simp
  have hd: "show_nat n \<noteq> []" "hd (show_nat n) = c" by (simp_all add: s)
  show "strtol10 (show_nat n) = (int n, [], False)"
    unfolding strtol10_def Let_def sp
    by (use c hd range show_nat_digits [of n] in \<open>simp add: val\<close>)
  have minus: "is_c_space CHR ''-'' = False" by (simp add: is_c_space_def)
  show "strtol10 (CHR ''-'' # show_nat n) = (- int n, [], False)"
    unfolding strtol10_def Let_def
    using c hd range show_nat_digits [of n] by (simp add: val minus)
qed

end
