(* ===== verification/Wc_Main.thy ===== *)
theory Wc_Main
  imports Libwc Decimal
begin

text \<open>
  The benchmark driver of \<open>lab1/zad2/main.c\<close>: the five commands, the loop that matches each
  argument against the command table and restarts it after a command, and the exit status.
  The host (clock, \<open>system\<close>, \<open>fopen\<close>) is a record of functions on an arbitrary file system.
\<close>

section \<open>State and host\<close>

record tms =
  tm_real :: int
  tm_user :: int
  tm_cuser :: int
  tm_sys :: int
  tm_csys :: int

definition zero_tms :: tms where
  "zero_tms = \<lparr>tm_real = 0, tm_user = 0, tm_cuser = 0, tm_sys = 0, tm_csys = 0\<rparr>"

record 'fs host =
  h_system :: "string \<Rightarrow> 'fs \<Rightarrow> int \<times> 'fs"
  h_open :: "string \<Rightarrow> 'fs \<Rightarrow> stream option"
  h_clock :: "nat \<Rightarrow> tms"

datatype printed =
    Header_Line
  | Timer_Line string int int int int int
  | Load_Failed
  | Unrecognized string

record 'fs wc_state =
  timer_name :: "string option"
  start_tm :: tms
  end_tm :: tms
  wc_ctx :: "raw_context option"
  ticks_read :: nat
  wc_out :: "printed list"
  wc_fs :: 'fs

section \<open>Commands\<close>

type_synonym 'fs command = "string list \<Rightarrow> 'fs wc_state \<Rightarrow> (nat \<times> 'fs wc_state) result"

definition say :: "printed \<Rightarrow> 'fs wc_state \<Rightarrow> 'fs wc_state" where
  "say p st = st\<lparr>wc_out := wc_out st @ [p]\<rparr>"

definition com_header :: "'fs command" where
  "com_header args st = Ok (0, say Header_Line st)"

definition com_timer :: "'fs host \<Rightarrow> 'fs command" where
  "com_timer h args st =
     rbind (c_assert (length args \<ge> 1)) (\<lambda>_.
       Ok (1, st\<lparr>timer_name := Some (hd args), start_tm := h_clock h (ticks_read st), ticks_read := ticks_read st + 1\<rparr>))"

definition com_endtimer :: "'fs host \<Rightarrow> 'fs command" where
  "com_endtimer h args st =
     (case timer_name st of
        None \<Rightarrow> Err Assert_Fail
      | Some name \<Rightarrow>
          let e = h_clock h (ticks_read st); b = start_tm st
          in Ok (0, say (Timer_Line name (tm_real e - tm_real b) (tm_user e - tm_user b) (tm_cuser e - tm_cuser b)
                           (tm_sys e - tm_sys b) (tm_csys e - tm_csys b))
                      (st\<lparr>end_tm := e, ticks_read := ticks_read st + 1\<rparr>)))"

definition com_count :: "allocator \<Rightarrow> 'fs host \<Rightarrow> 'fs command" where
  "com_count al h args st =
     rbind (c_assert (length args \<ge> 1)) (\<lambda>_.
       case wc_ctx st of
         None \<Rightarrow> Err Undef_Behaviour
       | Some ctx \<Rightarrow>
           rbind (libwc_stats_to_tmpfile al (h_system h) ctx (hd args) (wc_fs st)) (\<lambda>fs.
           rbind (libwc_load_result al (h_open h (tmpfile ctx) fs) ctx) (\<lambda>(res, ctx, _).
             if res < 0 then Err (Exit_Status 1)
             else Ok (1, st\<lparr>wc_ctx := Some ctx, wc_fs := fs\<rparr>))))"

definition com_del :: "'fs command" where
  "com_del args st =
     rbind (c_assert (length args \<ge> 1)) (\<lambda>_.
     rbind (c_atoi (hd args)) (\<lambda>idx.
       case wc_ctx st of
         None \<Rightarrow> Err Undef_Behaviour
       | Some ctx \<Rightarrow>
           rbind (libwc_del_result ctx idx) (\<lambda>(res, ctx).
           rbind (c_assert res) (\<lambda>_. Ok (1, st\<lparr>wc_ctx := Some ctx\<rparr>)))))"

definition commands :: "allocator \<Rightarrow> 'fs host \<Rightarrow> (string \<times> 'fs command) list" where
  "commands al h =
     [(''header'', com_header), (''timer'', com_timer h), (''endtimer'', com_endtimer h),
      (''count'', com_count al h), (''del'', com_del)]"

section \<open>The loop of \<open>main\<close>\<close>

function main_loop :: "(string \<times> 'fs command) list \<Rightarrow> string list \<Rightarrow> nat \<Rightarrow> 'fs wc_state \<Rightarrow> (int \<times> 'fs wc_state) result" where
  "main_loop cmds args i st =
     (if args \<noteq> [] \<and> i < length cmds then
        (if hd args = fst (cmds ! i) then
           rbind (snd (cmds ! i) (tl args) st) (\<lambda>(consumed, st).
             main_loop cmds (drop consumed (tl args)) 0 st)
         else main_loop cmds args (i + 1) st)
      else if args \<noteq> [] then Ok (1, say (Unrecognized (hd args)) st)
      else Ok (0, st))"
  by pat_completeness auto
termination
  by (relation "measures [\<lambda>(cmds, args, i, st). length args, \<lambda>(cmds, args, i, st). length cmds - i]")
    (auto simp: neq_Nil_conv)

declare main_loop.simps [simp del]

definition wc_main :: "allocator \<Rightarrow> 'fs host \<Rightarrow> 'fs \<Rightarrow> string list \<Rightarrow> (int \<times> 'fs wc_state) result" where
  "wc_main al h fs argv =
     main_loop (commands al h) (tl argv) 0
       \<lparr>timer_name = None, start_tm = zero_tms, end_tm = zero_tms, wc_ctx = libwc_create al,
        ticks_read = 0, wc_out = [], wc_fs = fs\<rparr>"

section \<open>The loop is a sequence of commands\<close>

fun run_args :: "nat \<Rightarrow> (string \<times> 'fs command) list \<Rightarrow> string list \<Rightarrow> 'fs wc_state \<Rightarrow> (int \<times> 'fs wc_state) result" where
  "run_args 0 cmds args st = Err Nonterm"
| "run_args (Suc n) cmds [] st = Ok (0, st)"
| "run_args (Suc n) cmds (name # args) st =
     (case map_of cmds name of
        None \<Rightarrow> Ok (1, say (Unrecognized name) st)
      | Some f \<Rightarrow> rbind (f args st) (\<lambda>(k, st). run_args n cmds (drop k args) st))"

lemma main_loop_scan:
  "args \<noteq> [] \<Longrightarrow> i \<le> length cmds \<Longrightarrow> main_loop cmds args i st =
    (case map_of (drop i cmds) (hd args) of
       None \<Rightarrow> Ok (1, say (Unrecognized (hd args)) st)
     | Some f \<Rightarrow> rbind (f (tl args) st) (\<lambda>(k, st). main_loop cmds (drop k (tl args)) 0 st))"
proof (induction "length cmds - i" arbitrary: i)
  case 0
  then show ?case by (simp add: main_loop.simps [of cmds args])
next
  case (Suc n)
  then have i: "i < length cmds" "drop i cmds = cmds ! i # drop (Suc i) cmds" by (simp_all add: Cons_nth_drop_Suc)
  show ?case
  proof (cases "hd args = fst (cmds ! i)")
    case True
    then have "map_of (drop i cmds) (hd args) = Some (snd (cmds ! i))" using i(2) by (cases "cmds ! i") simp
    then show ?thesis using Suc.prems i True by (simp add: main_loop.simps [of cmds args])
  next
    case False
    then have "map_of (drop i cmds) (hd args) = map_of (drop (Suc i) cmds) (hd args)" using i(2) by (cases "cmds ! i") auto
    moreover have "main_loop cmds args i st = main_loop cmds args (Suc i) st"
      using Suc.prems i False by (subst main_loop.simps) simp
    ultimately show ?thesis using Suc by simp
  qed
qed

lemma main_loop_run: "length args < n \<Longrightarrow> main_loop cmds args 0 st = run_args n cmds args st"
proof (induction n arbitrary: args st)
  case 0
  then show ?case by simp
next
  case (Suc n)
  show ?case
  proof (cases args)
    case Nil
    then show ?thesis by (simp add: main_loop.simps)
  next
    case (Cons a as)
    have "main_loop cmds (drop k as) 0 st = run_args n cmds (drop k as) st" for k st
      using Suc Cons by simp
    then show ?thesis using Cons main_loop_scan [of args 0 cmds st]
      by (auto split: option.splits intro!: arg_cong [where f = "rbind _"] ext)
  qed
qed

section \<open>Counting and deleting\<close>

text \<open>
  An abstract account of the commands that work on the table of results: it is a list of
  outputs, \<open>count\<close> appends what the shell wrote and \<open>del\<close> removes one.
\<close>

datatype wc_op = Op_Count string | Op_Del nat

primrec op_args :: "wc_op \<Rightarrow> string list" where
  "op_args (Op_Count p) = [''count'', p]"
| "op_args (Op_Del k) = [''del'', show_nat k]"

abbreviation default_tmp :: string where "default_tmp \<equiv> ''/tmp/libwc.txt''"

definition count_fs :: "'fs host \<Rightarrow> string \<Rightarrow> 'fs \<Rightarrow> 'fs" where
  "count_fs h p fs = snd (h_system h (quoted_command default_tmp p) fs)"

definition count_out :: "'fs host \<Rightarrow> string \<Rightarrow> 'fs \<Rightarrow> string" where
  "count_out h p fs = (case h_open h default_tmp (count_fs h p fs) of None \<Rightarrow> [] | Some f \<Rightarrow> st_data f)"

primrec op_sem :: "'fs host \<Rightarrow> string option list \<times> 'fs \<Rightarrow> wc_op \<Rightarrow> string option list \<times> 'fs" where
  "op_sem h st (Op_Count p) = (fst st @ [Some (count_out h p (snd st))], count_fs h p (snd st))"
| "op_sem h st (Op_Del k) = ((fst st)[k := None], snd st)"

primrec op_valid :: "string option list \<Rightarrow> wc_op \<Rightarrow> bool" where
  "op_valid rs (Op_Count p) = (NUL \<notin> set p)"
| "op_valid rs (Op_Del k) = (k < length rs \<and> rs ! k \<noteq> None)"

fun ops_valid :: "'fs host \<Rightarrow> string option list \<times> 'fs \<Rightarrow> wc_op list \<Rightarrow> bool" where
  "ops_valid h st [] = True"
| "ops_valid h st (oper # ops) = (op_valid (fst st) oper \<and> ops_valid h (op_sem h st oper) ops)"

text \<open>The shell runs \<open>wc\<close> with status 0 and leaves a file that can be read.\<close>

definition good_host :: "'fs host \<Rightarrow> bool" where
  "good_host h \<longleftrightarrow> (\<forall>cmd fs. fst (h_system h cmd fs) = 0
     \<and> (\<exists>f. h_open h default_tmp (snd (h_system h cmd fs)) = Some f \<and> good_stream f))"

lemma atoi_show_nat: "n < 2147483648 \<Longrightarrow> c_atoi (show_nat n) = Ok (int n)"
proof -
  assume n: "n < 2147483648"
  obtain c cs where s: "show_nat n = c # cs" and "\<not> is_c_space c" "c \<noteq> CHR ''-''" "c \<noteq> CHR ''+''"
    by (rule show_nat_head)
  moreover have "int n < 2147483648" using n by linarith
  moreover have "digits_value 0 (c # cs) = int n" using digits_show_nat [of n] s by simp
  ultimately show ?thesis unfolding c_atoi_def s by (simp del: digits_value.simps)
qed

definition drives :: "'fs wc_state \<Rightarrow> string option list \<times> 'fs \<Rightarrow> bool" where
  "drives st a \<longleftrightarrow> (\<exists>ctx. wc_ctx st = Some ctx \<and> cx_ok ctx \<and> results ctx = fst a \<and> tmpfile ctx = default_tmp)
     \<and> wc_fs st = snd a \<and> wc_out st = []"

lemma count_step:
  assumes h: "good_host h" and st: "drives st a" and p: "NUL \<notin> set p" and room: "length (fst a) < handle_limit"
  shows "\<exists>st'. com_count plenty h (p # args) st = Ok (1, st') \<and> drives st' (op_sem h a (Op_Count p))"
proof -
  obtain ctx where ctx: "wc_ctx st = Some ctx" "cx_ok ctx" "results ctx = fst a" "tmpfile ctx = default_tmp"
    and fs: "wc_fs st = snd a" "wc_out st = []"
    using st by (auto simp: drives_def)
  let ?cmd = "quoted_command default_tmp p"
  obtain f where f: "fst (h_system h ?cmd (snd a)) = 0" "h_open h default_tmp (count_fs h p (snd a)) = Some f" "good_stream f"
    using h by (auto simp: good_host_def count_fs_def)
  have "stats_command plenty ctx p = Ok ?cmd" using stats_command_ok [of ctx p] ctx(4) p by simp
  then have "libwc_stats_to_tmpfile plenty (h_system h) ctx p (wc_fs st) = Ok (count_fs h p (snd a))"
    using f(1) fs by (simp add: libwc_stats_to_tmpfile_def count_fs_def case_prod_beta)
  moreover obtain c where "libwc_load_result plenty (Some f) ctx = Ok (int (length (results ctx)), c, 0)" "cx_ok c"
    "results c = results ctx @ [Some (st_data f)]" "tmpfile c = tmpfile ctx"
    using load_ok [of ctx f] ctx room f(3) results_length [of ctx] by (auto simp: good_stream_def)
  ultimately show ?thesis using ctx f fs
    by (simp add: com_count_def drives_def count_out_def del: plenty)
qed

lemma del_step:
  assumes st: "drives st a" and k: "k < length (fst a)" "fst a ! k \<noteq> None" and room: "length (fst a) \<le> handle_limit"
  shows "\<exists>st'. com_del (show_nat k # args) st = Ok (1, st') \<and> drives st' (op_sem h a (Op_Del k))"
proof -
  obtain ctx where ctx: "wc_ctx st = Some ctx" "cx_ok ctx" "results ctx = fst a" "tmpfile ctx = default_tmp"
    and fs: "wc_fs st = snd a" "wc_out st = []"
    using st by (auto simp: drives_def)
  have "c_atoi (show_nat k) = Ok (int k)" using k room by (intro atoi_show_nat) (simp add: handle_limit_def)
  moreover obtain c where "libwc_del_result ctx (int k) = Ok (True, c)" "cx_ok c" "results c = (fst a)[k := None]"
    using del_ok [OF ctx(2), of "int k"] k room ctx(3) by auto
  moreover have "tmpfile c = tmpfile ctx" if "libwc_del_result ctx (int k) = Ok (True, c)" for c
    using that by (auto simp: libwc_del_result_def split: if_splits)
  ultimately show ?thesis using ctx fs by (auto simp: com_del_def drives_def)
qed

lemma op_sem_length: "length (fst (op_sem h a oper)) \<le> Suc (length (fst a))"
  by (cases oper) auto

lemma run_ops:
  assumes "good_host h" "drives st a" "ops_valid h a ops" "length (fst a) + length ops \<le> handle_limit"
    and "length (concat (map op_args ops)) < n"
  shows "\<exists>st'. run_args n (commands plenty h) (concat (map op_args ops)) st = Ok (0, st')
    \<and> drives st' (foldl (op_sem h) a ops)"
  using assms
proof (induction ops arbitrary: st a n)
  case Nil
  then show ?case by (cases n) auto
next
  case (Cons oper ops)
  obtain m where n: "n = Suc m" using Cons.prems(5) by (cases n) auto
  have len: "length (fst (op_sem h a oper)) + length ops \<le> handle_limit"
    using op_sem_length [of h a oper] Cons.prems(4) by simp
  let ?rest = "concat (map op_args ops)"
  have next_ops: "\<exists>st''. run_args m (commands plenty h) ?rest st' = Ok (0, st'') \<and> drives st'' (foldl (op_sem h) (op_sem h a oper) ops)"
    if "drives st' (op_sem h a oper)" for st'
    using Cons.IH [OF Cons.prems(1) that _ len, of m] Cons.prems(3,5) n by (cases oper) (auto simp del: plenty)
  show ?case
  proof (cases oper)
    case (Op_Count p)
    obtain st' where "com_count plenty h (p # ?rest) st = Ok (1, st')" "drives st' (op_sem h a oper)"
      using count_step [OF Cons.prems(1,2), of p ?rest] Cons.prems(3,4) Op_Count by auto
    with next_ops [of st'] Op_Count n show ?thesis
      by (simp add: commands_def del: plenty)
  next
    case (Op_Del k)
    obtain st' where "com_del (show_nat k # ?rest) st = Ok (1, st')" "drives st' (op_sem h a oper)"
      using del_step [OF Cons.prems(2), of k ?rest h] Cons.prems(3,4) Op_Del by auto
    with next_ops [of st'] Op_Del n show ?thesis
      by (simp add: commands_def del: plenty)
  qed
qed

section \<open>Properties\<close>

text \<open>
  The restarting scan of the command table terminates and is the same as executing
  the arguments from left to right: look the word up, run its command, skip what it
  consumed; an unknown word ends the program with status 1.
\<close>

theorem wc_main_sequential:
  "main_loop (commands al h) args 0 st = run_args (Suc (length args)) (commands al h) args st"
  by (rule main_loop_run) simp

text \<open>
  C32: a command line of \<open>count\<close> and \<open>del\<close> commands, each \<open>del\<close> naming a present result, makes the
  program exit with status 0 and leaves in the library exactly the table of outputs the
  commands describe, provided the shell command succeeds and its output can be read.
\<close>

theorem wc_main_table:
  fixes h :: "'fs host"
  assumes "good_host h" "ops_valid h ([], fs) ops" "length ops \<le> handle_limit"
  shows "\<exists>st ctx. wc_main plenty h fs (argv0 # concat (map op_args ops)) = Ok (0, st)
    \<and> wc_ctx st = Some ctx \<and> cx_ok ctx \<and> (results ctx, wc_fs st) = foldl (op_sem h) ([], fs) ops"
proof -
  let ?st = "\<lparr>timer_name = None, start_tm = zero_tms, end_tm = zero_tms, wc_ctx = libwc_create plenty,
        ticks_read = 0, wc_out = [], wc_fs = fs\<rparr> :: 'fs wc_state"
  have "drives ?st ([], fs)" by (simp add: drives_def libwc_create_def cx_ok_def results_def)
  then obtain st' where "run_args (Suc (length (concat (map op_args ops)))) (commands plenty h) (concat (map op_args ops)) ?st = Ok (0, st')"
    "drives st' (foldl (op_sem h) ([], fs) ops)"
    using run_ops [OF assms(1) _ assms(2), of ?st "Suc (length (concat (map op_args ops)))"] assms(3) by auto
  then show ?thesis
    by (auto simp: wc_main_def main_loop_run [of _ "Suc (length (concat (map op_args ops)))"] drives_def simp del: plenty run_args.simps)
qed

definition demo_host :: "nat host" where
  "demo_host = \<lparr>h_system = \<lambda>cmd n. (0, n + length cmd),
     h_open = \<lambda>path n. Some \<lparr>st_data = replicate n (CHR ''1''), st_seek_end = True, st_tell = True, st_seek_set = True, st_close = True\<rparr>,
     h_clock = \<lambda>n. zero_tms\<rparr>"

theorem wc_main_table_witness:
  "\<exists>st ctx. wc_main plenty demo_host 0 (''main'' # concat (map op_args [Op_Count ''a b'', Op_Count ''c'', Op_Del 0])) = Ok (0, st)
    \<and> wc_ctx st = Some ctx \<and> cx_ok ctx
    \<and> (results ctx, wc_fs st) = foldl (op_sem demo_host) ([], 0) [Op_Count ''a b'', Op_Count ''c'', Op_Del 0]"
  by (rule wc_main_table) (simp_all add: good_host_def demo_host_def good_stream_def handle_limit_def)

text \<open>
  Deleting a result twice, or one that was never loaded, aborts the program.
\<close>

theorem com_del_absent_aborts:
  assumes "wc_ctx st = Some ctx" "cx_ok ctx" "k < handle_limit" "length (results ctx) \<le> k \<or> results ctx ! k = None"
  shows "com_del (show_nat k # args) st = Err Assert_Fail"
proof -
  have "c_atoi (show_nat k) = Ok (int k)" using assms(3) by (intro atoi_show_nat) (simp add: handle_limit_def)
  moreover obtain c where "libwc_del_result ctx (int k) = Ok (False, c)"
    using del_ok [OF assms(2), of "int k"] assms(3,4) by auto
  ultimately show ?thesis using assms(1) by (simp add: com_del_def)
qed

theorem com_del_absent_aborts_witness:
  "com_del (show_nat 3 # []) \<lparr>timer_name = None, start_tm = zero_tms, end_tm = zero_tms, wc_ctx = Some empty_context,
     ticks_read = 0, wc_out = [], wc_fs = ()\<rparr> = Err Assert_Fail"
  by (rule com_del_absent_aborts [where ctx = empty_context]) (simp_all add: empty_context_ok handle_limit_def)

end
