(* ===== verification/Char_Count.thy ===== *)
theory Char_Count
  imports Prelude
begin

text \<open>
  The character counter of \<open>lab2/zad2/main.c\<close>: the interpretation of its first argument
  (a character or an escape) and the loop that counts the occurrences of that character
  and the lines that contain it, over the blocks that \<open>read\<close> delivers.
\<close>

section \<open>The argument\<close>

text \<open>
  A string is what precedes its NUL byte; \<open>s\<close> is the part from \<open>str\<close> on, so \<open>str[1]\<close> is NUL
  when \<open>s\<close> has one character left. \<open>(int)(unsigned)c\<close> is the value of the signed \<open>char\<close>.
\<close>

definition retc :: "string \<Rightarrow> int \<Rightarrow> int" where
  "retc s v = (if tl s \<noteq> [] then -1 else v)"

fun octal_loop :: "nat \<Rightarrow> 8 word \<Rightarrow> string \<Rightarrow> (8 word \<times> string) option" where
  "octal_loop i val [] = Some (val, [])"
| "octal_loop i val (c # cs) =
     (if i < 3 then
        (if schar c < schar (CHR ''0'') \<or> schar c > schar (CHR ''7'') then None
         else octal_loop (i + 1) (push_bit 3 val OR word_of_int (schar c - schar (CHR ''0''))) cs)
      else Some (val, c # cs))"

definition interpret_char :: "string \<Rightarrow> int" where
  "interpret_char s =
     (case s of
        [] \<Rightarrow> -1
      | c # t \<Rightarrow>
          if c = CHR 0x5C then
            (case t of
               [] \<Rightarrow> -1
             | d # u \<Rightarrow>
                 if d \<in> {CHR ''0'', CHR ''1'', CHR ''2'', CHR ''3''} then
                   (if u = [] then 0
                    else case octal_loop 0 0 t of
                           None \<Rightarrow> -1
                         | Some (val, rest) \<Rightarrow> if rest \<noteq> [] then -1 else uint val)
                 else if d = CHR ''r'' then retc t 13
                 else if d = CHR ''n'' then retc t 10
                 else if d = CHR ''t'' then retc t 9
                 else if d = CHR ''b'' then retc t 8
                 else if d = CHR ''v'' then retc t 11
                 else if d = CHR ''a'' then retc t 7
                 else if d = CHR ''f'' then retc t 12
                 else if d = CHR 0x5C then retc t 92
                 else -1)
          else retc s (schar c))"

section \<open>Counting\<close>

record counts =
  matchlines :: u32
  matchbytes :: u32
  freshline :: bool

definition count_init :: counts where
  "count_init = \<lparr>matchlines = 0, matchbytes = 0, freshline = True\<rparr>"

definition count_char :: "char \<Rightarrow> counts \<Rightarrow> char \<Rightarrow> counts" where
  "count_char ch st b =
     (let st1 = (if b = ch
                 then st\<lparr>matchbytes := matchbytes st + 1,
                         matchlines := (if freshline st then matchlines st + 1 else matchlines st),
                         freshline := False\<rparr>
                 else st)
      in if b = NL then st1\<lparr>freshline := True\<rparr> else st1)"

definition count_buf :: "char \<Rightarrow> counts \<Rightarrow> string \<Rightarrow> counts" where
  "count_buf ch st buf = foldl (count_char ch) st buf"

text \<open>
  The read loop ends at the first empty block; \<open>None\<close> is a failed read. The result is the
  exit status with the two numbers printed.
\<close>

fun count_loop :: "char \<Rightarrow> counts \<Rightarrow> string option list \<Rightarrow> int \<times> counts" where
  "count_loop ch st [] = (0, st)"
| "count_loop ch st (None # bs) = (1, st)"
| "count_loop ch st (Some b # bs) = (if b = [] then (0, st) else count_loop ch (count_buf ch st b) bs)"

text \<open>\<open>main\<close> for two arguments; \<open>opened\<close> is what the opened file delivers.\<close>

definition count_main :: "string \<Rightarrow> string option list option \<Rightarrow> (int \<times> counts option) result" where
  "count_main arg opened =
     (let chr = interpret_char arg
      in if chr = -1 then Ok (2, None)
         else rbind (c_assert (chr \<ge> 0 \<and> chr < 256)) (\<lambda>_.
              case opened of
                None \<Rightarrow> Ok (1, None)
              | Some blocks \<Rightarrow>
                  let (status, st) = count_loop (char_of chr) count_init blocks
                  in Ok (status, if status = 0 then Some st else None)))"

section \<open>Lines\<close>

text \<open>The lines still to count: of the current line only when nothing was found in it.\<close>

definition lines_with :: "char \<Rightarrow> string \<Rightarrow> nat" where
  "lines_with c s = length (filter (\<lambda>l. c \<in> set l) (split_lines s))"

definition later_lines :: "char \<Rightarrow> bool \<Rightarrow> string \<Rightarrow> nat" where
  "later_lines c fresh s =
     (if fresh then lines_with c s else length (filter (\<lambda>l. c \<in> set l) (tl (split_lines s))))"

lemma later_lines_Cons:
  "later_lines c fresh (b # s) = of_bool (b = c \<and> fresh) + later_lines c (if b = NL then True else fresh \<and> b \<noteq> c) s"
  by (cases "split_lines s") (auto simp: later_lines_def lines_with_def split_lines_Nil)

interpretation counter: chunk_machine "count_buf ch" for ch
  by unfold_locales (simp_all add: count_buf_def)

lemma count_buf_spec:
  "count_buf ch st s = \<lparr>matchlines = matchlines st + of_nat (later_lines ch (freshline st) s),
     matchbytes = matchbytes st + of_nat (count_list s ch),
     freshline = freshline (count_buf ch st s)\<rparr>"
proof (induction s arbitrary: st)
  case Nil
  then show ?case by (simp add: count_buf_def later_lines_def lines_with_def)
next
  case (Cons b s)
  have step: "count_buf ch st (b # s) = count_buf ch (count_char ch st b) s" by (simp add: count_buf_def)
  have "matchlines (count_buf ch st (b # s)) = matchlines st + of_nat (later_lines ch (freshline st) (b # s))"
    "matchbytes (count_buf ch st (b # s)) = matchbytes st + of_nat (count_list (b # s) ch)"
    using arg_cong [OF Cons [of "count_char ch st b"], of matchlines] arg_cong [OF Cons [of "count_char ch st b"], of matchbytes]
    unfolding step later_lines_Cons by (auto simp: count_char_def Let_def)
  then show ?case by (cases "count_buf ch st (b # s)") simp
qed

lemma count_loop_blocks:
  "[] \<notin> set bs \<Longrightarrow> count_loop ch st (map Some bs @ [Some []]) = (0, count_buf ch st (concat bs))"
  by (induction bs arbitrary: st) (auto simp: count_buf_def)

section \<open>Octal escapes\<close>

lemma octal_digit:
  assumes "d < 8"
  shows "schar (char_of (48 + d :: nat)) = 48 + int d" "of_char (char_of (48 + d :: nat)) = 48 + d"
proof -
  show o: "of_char (char_of (48 + d :: nat)) = 48 + d" using assms by simp
  have "(of_char (char_of (48 + d :: nat)) :: int) = int (of_char (char_of (48 + d :: nat)))" by (simp only: of_nat_of_char)
  then show "schar (char_of (48 + d :: nat)) = 48 + int d" using o assms by (simp add: schar_def)
qed

lemma octal_shift:
  assumes "d < 8"
  shows "push_bit 3 (word_of_nat v :: 8 word) OR word_of_int (int d) = word_of_nat (8 * v + d)"
proof -
  have "take_bit 3 d = d" using assms by (simp add: take_bit_nat_eq_self)
  then have d: "(word_of_int (int d) :: 8 word) = take_bit 3 (word_of_nat d)"
    by (simp only: take_bit_of_nat of_int_of_nat_eq)
  have "push_bit 3 (word_of_nat v :: 8 word) AND take_bit 3 (word_of_nat d) = 0"
    by (rule bit_eqI) (simp add: bit_simps)
  then have "push_bit 3 (word_of_nat v :: 8 word) OR word_of_int (int d) = push_bit 3 (word_of_nat v) + word_of_int (int d)"
    unfolding d by (simp only: disjunctive_add_eq_or)
  then show ?thesis by (simp add: push_bit_eq_mult)
qed

lemma octal_loop_digit:
  "d < 8 \<Longrightarrow> i < 3 \<Longrightarrow> octal_loop i (word_of_nat v) (char_of (48 + d :: nat) # cs) = octal_loop (i + 1) (word_of_nat (8 * v + d)) cs"
  using octal_digit [of d] octal_digit [of 7] octal_digit [of 0] octal_shift [of d v]
  by (simp add: schar_def)

lemma octal_loop_stop: "octal_loop 3 val [] = Some (val, [])"
  by simp

lemma char_eq_nat: "(of_char c :: nat) = of_char d \<Longrightarrow> c = d"
  by (rule of_char_eqI)

lemma digit_chars:
  "char_of (48 :: nat) = CHR ''0''" "char_of (49 :: nat) = CHR ''1''" "char_of (50 :: nat) = CHR ''2''"
  "char_of (51 :: nat) = CHR ''3''"
  by (rule char_eq_nat, simp)+

lemma leading_digit: "a < 4 \<Longrightarrow> char_of (48 + a :: nat) \<in> {CHR ''0'', CHR ''1'', CHR ''2'', CHR ''3''}"
proof -
  assume "a < 4"
  then consider "a = 0" | "a = 1" | "a = 2" | "a = 3" by linarith
  then show ?thesis by cases (simp_all only: digit_chars add_0_right numeral_plus_one numeral_plus_numeral add_num_simps, simp_all)
qed

lemma uint_small_word: "n < 256 \<Longrightarrow> uint (word_of_nat n :: 8 word) = int n"
  by (simp add: unsigned_of_nat take_bit_eq_mod)

section \<open>Properties\<close>

text \<open>
  C34: For a valid character argument and any way the file is cut into non-empty blocks,
  the program exits with status 0 and prints, modulo \<open>2^32\<close>, the number of lines that
  contain the character (a newline belongs to the line it ends) and the number of its
  occurrences.
\<close>

theorem count_main_counts:
  assumes "interpret_char arg = int (of_char c)" "[] \<notin> set bs"
  shows "\<exists>st. count_main arg (Some (map Some bs @ [Some []])) = Ok (0, Some st)
    \<and> matchlines st = of_nat (length (filter (\<lambda>l. c \<in> set l) (split_lines (concat bs))))
    \<and> matchbytes st = of_nat (count_list (concat bs) c)"
proof -
  have "(of_char c :: nat) < 256" by simp
  then have range: "0 \<le> interpret_char arg \<and> interpret_char arg < 256 \<and> interpret_char arg \<noteq> -1" using assms(1) by linarith
  have "char_of (interpret_char arg) = c" using assms(1) by (simp add: of_nat_of_char)
  then have "count_main arg (Some (map Some bs @ [Some []])) = Ok (0, Some (count_buf c count_init (concat bs)))"
    using range count_loop_blocks [OF assms(2)] by (simp add: count_main_def Let_def)
  moreover note arg_cong [OF count_buf_spec [of c count_init "concat bs"], of matchlines]
    arg_cong [OF count_buf_spec [of c count_init "concat bs"], of matchbytes]
  ultimately show ?thesis by (simp add: count_init_def later_lines_def lines_with_def)
qed

theorem count_main_counts_witness:
  "\<exists>st. count_main ''a'' (Some (map Some [''ab'', ''a'' @ [NL], ''b''] @ [Some []])) = Ok (0, Some st)
    \<and> matchlines st = of_nat (length (filter (\<lambda>l. CHR ''a'' \<in> set l) (split_lines (concat [''ab'', ''a'' @ [NL], ''b'']))))
    \<and> matchbytes st = of_nat (count_list (concat [''ab'', ''a'' @ [NL], ''b'']) (CHR ''a''))"
  by (rule count_main_counts) (simp_all add: interpret_char_def retc_def schar_def)

definition octal3 :: "nat \<Rightarrow> string" where
  "octal3 n = [CHR 0x5C, char_of (48 + n div 64), char_of (48 + n div 8 mod 8), char_of (48 + n mod 8)]"

text \<open>
  Every byte can be asked for: the argument made of a backslash and the three octal
  digits of a byte denotes that byte.
\<close>

theorem interpret_octal: "n < 256 \<Longrightarrow> interpret_char (octal3 n) = int n"
proof -
  assume n: "n < 256"
  let ?a = "n div 64" and ?b = "n div 8 mod 8" and ?c = "n mod 8"
  have a: "?a < 4" using n by simp
  have b: "?a < 8" "?b < 8" "?c < 8" using a by simp_all
  have "octal_loop 0 0 (tl (octal3 n)) = octal_loop 0 (word_of_nat 0) (tl (octal3 n))" by simp
  also have "\<dots> = octal_loop (0 + 1 + 1 + 1) (word_of_nat (8 * (8 * (8 * 0 + ?a) + ?b) + ?c)) []"
    unfolding octal3_def list.sel
    by (subst octal_loop_digit [OF b(1)], simp, subst octal_loop_digit [OF b(2)], simp,
        subst octal_loop_digit [OF b(3)], simp, rule refl)
  also have "8 * (8 * (8 * 0 + ?a) + ?b) + ?c = n"
  proof -
    have "n div 8 = 8 * (n div 8 div 8) + n div 8 mod 8" by simp
    moreover have "n div 8 div 8 = ?a" by (simp only: div_mult2_eq [symmetric]) simp
    ultimately show ?thesis by simp
  qed
  finally have "octal_loop 0 0 (tl (octal3 n)) = Some (word_of_nat n, [])" by simp
  then show ?thesis using leading_digit [OF a] uint_small_word [OF n] by (simp add: interpret_char_def octal3_def)
qed

theorem interpret_octal_witness: "interpret_char (octal3 255) = 255"
  using interpret_octal [of 255] by simp

text \<open>
  A one-digit octal escape denotes the byte 0 whatever the digit: \<open>\1\<close>, \<open>\2\<close> and \<open>\3\<close>
  count NUL bytes, while the same numbers with a leading zero are read as octal.
\<close>

theorem interpret_one_digit:
  assumes "d < 4"
  shows "interpret_char [CHR 0x5C, char_of (48 + d :: nat)] = 0"
    "interpret_char [CHR 0x5C, CHR ''0'', char_of (48 + d :: nat)] = int d"
proof -
  show "interpret_char [CHR 0x5C, char_of (48 + d :: nat)] = 0"
    using leading_digit [OF assms] by (simp add: interpret_char_def)
  have "CHR ''0'' = char_of (48 + 0 :: nat)" using digit_chars(1) by simp
  then have "octal_loop 0 0 [CHR ''0'', char_of (48 + d :: nat)] = octal_loop 0 (word_of_nat 0) [char_of (48 + 0 :: nat), char_of (48 + d)]"
    by simp
  also have "\<dots> = Some (word_of_nat d, [])" using assms by (simp only: octal_loop_digit) (simp add: octal_loop_digit)
  finally show "interpret_char [CHR 0x5C, CHR ''0'', char_of (48 + d :: nat)] = int d"
    using uint_small_word [of d] assms by (simp add: interpret_char_def)
qed

theorem interpret_one_digit_witness:
  "interpret_char [CHR 0x5C, char_of (48 + 3 :: nat)] = 0 \<and> interpret_char [CHR 0x5C, CHR ''0'', char_of (48 + 3 :: nat)] = int 3"
  using interpret_one_digit [of 3] by simp

text \<open>
  An argument that is a single byte above 0x7f is not counted: 0xff is taken for the
  error value and shows the usage, every other one fails the assertion that follows.
\<close>

theorem count_main_high_byte:
  assumes "128 \<le> (of_char c :: nat)"
  shows "count_main [c] f = (if (of_char c :: nat) = 255 then Ok (2, None) else Err Assert_Fail)"
proof -
  have n: "(of_char c :: int) = int (of_char c :: nat)" by (simp add: of_nat_of_char)
  have lt: "(of_char c :: nat) < 256" by simp
  have "schar c = int (of_char c :: nat) - 256" using assms n by (simp add: schar_def Let_def)
  moreover have "c \<noteq> CHR 0x5C" using assms by auto
  ultimately have "interpret_char [c] = int (of_char c :: nat) - 256" by (simp add: interpret_char_def retc_def)
  then have "interpret_char [c] < 0" "interpret_char [c] = -1 \<longleftrightarrow> (of_char c :: nat) = 255" using lt by linarith+
  then show ?thesis by (simp add: count_main_def Let_def c_assert_def)
qed

theorem count_main_high_byte_witness: "count_main [CHR 0xC4] None = Err Assert_Fail"
  using count_main_high_byte [of "CHR 0xC4" None] by simp

end
