(* ===== verification/Strip_Lines.thy ===== *)
theory Strip_Lines
  imports Prelude "HOL-Library.While_Combinator"
begin

text \<open>
  The blank-line filter of \<open>lab2/zad1/main.c\<close>: it reads a file in blocks, looks for the first
  character of a line that is not white space, and then seeks back to the start of the
  line, which may lie in an earlier block, and copies the line. Both builds are modelled:
  \<open>lib\<close> is the one that asks \<open>ftell\<close> for the offset of a block, the other one adds up what
  it read. Offsets are natural numbers; a write succeeds.
\<close>

section \<open>The machine\<close>

datatype phase = Reading | Scanning | Finished

record strip =
  fpos :: nat
  curseekoff :: nat
  lineseekoff :: nat
  curpos :: nat
  linepos :: nat
  sbuf :: string
  writing :: bool
  postseek :: bool
  sout :: string
  sphase :: phase

definition strip_init :: strip where
  "strip_init = \<lparr>fpos = 0, curseekoff = 0, lineseekoff = 0, curpos = 0, linepos = 0, sbuf = [],
     writing = False, postseek = False, sout = [], sphase = Reading\<rparr>"

text \<open>From the label \<open>read\<close> to the inner loop.\<close>

definition strip_read :: "nat \<Rightarrow> bool \<Rightarrow> string \<Rightarrow> strip \<Rightarrow> strip" where
  "strip_read n lib file s =
     (let b = take n (drop (fpos s) file);
          s1 = s\<lparr>curseekoff := (if lib then fpos s else curseekoff s), sbuf := b, fpos := fpos s + length b\<rparr>;
          s2 = (if postseek s1 then s1\<lparr>curpos := linepos s1, curseekoff := lineseekoff s1\<rparr>
                else s1\<lparr>curpos := 0\<rparr>)
      in s2\<lparr>postseek := False, sphase := Scanning\<rparr>)"

text \<open>One turn of the inner loop, or its end.\<close>

definition strip_scan :: "bool \<Rightarrow> strip \<Rightarrow> strip" where
  "strip_scan lib s =
     (if curpos s < length (sbuf s) then
        (if writing s then
           (case memchr_from (sbuf s) (curpos s) NL of
              None \<Rightarrow> s\<lparr>sout := sout s @ drop (curpos s) (sbuf s), curpos := length (sbuf s)\<rparr>
            | Some eol \<Rightarrow>
                s\<lparr>sout := sout s @ take (eol - curpos s + 1) (drop (curpos s) (sbuf s)), curpos := eol + 1,
                  lineseekoff := curseekoff s, linepos := eol + 1, writing := False\<rparr>)
         else if sbuf s ! curpos s = NL then
           s\<lparr>lineseekoff := curseekoff s, linepos := curpos s + 1, curpos := curpos s + 1\<rparr>
         else if \<not> is_c_space (sbuf s ! curpos s) then
           (if curseekoff s \<noteq> lineseekoff s then
              s\<lparr>fpos := lineseekoff s, curseekoff := lineseekoff s, writing := True, postseek := True, sphase := Reading\<rparr>
            else s\<lparr>curpos := linepos s, writing := True\<rparr>)
         else s\<lparr>curpos := curpos s + 1\<rparr>)
      else s\<lparr>curseekoff := (if lib then curseekoff s else curseekoff s + length (sbuf s)),
             sphase := (if sbuf s = [] then Finished else Reading)\<rparr>)"

definition strip_step :: "nat \<Rightarrow> bool \<Rightarrow> string \<Rightarrow> strip \<Rightarrow> strip" where
  "strip_step n lib file s =
     (case sphase s of Reading \<Rightarrow> strip_read n lib file s | Scanning \<Rightarrow> strip_scan lib s | Finished \<Rightarrow> s)"

definition strip_run :: "nat \<Rightarrow> bool \<Rightarrow> string \<Rightarrow> string option" where
  "strip_run n lib file = map_option sout (while_option (\<lambda>s. sphase s \<noteq> Finished) (strip_step n lib file) strip_init)"

text \<open>\<open>char buf[4096]\<close>\<close>

definition strip_main :: "bool \<Rightarrow> string \<Rightarrow> string option" where
  "strip_main lib file = strip_run 4096 lib file"

section \<open>What it should write\<close>

definition keep_line :: "string \<Rightarrow> bool" where
  "keep_line l \<longleftrightarrow> (\<exists>c \<in> set l. \<not> is_c_space c)"

definition nonblank_lines :: "string \<Rightarrow> string" where
  "nonblank_lines s = concat (filter keep_line (split_lines s))"

lemma nonblank_append: "xs = [] \<or> last xs = NL \<Longrightarrow> nonblank_lines (xs @ ys) = nonblank_lines xs @ nonblank_lines ys"
  by (simp add: nonblank_lines_def split_lines_append)

lemma nl_space [simp]: "is_c_space NL"
  by (simp add: is_c_space_def)

section \<open>The invariant\<close>

text \<open>Offset of the current line, of the block, and of the current character.\<close>

definition line_at :: "strip \<Rightarrow> nat" where "line_at s = lineseekoff s + linepos s"

definition base_at :: "strip \<Rightarrow> nat" where
  "base_at s = (if sphase s = Reading then fpos s else curseekoff s)"

definition char_at :: "strip \<Rightarrow> nat" where
  "char_at s = (case sphase s of
     Reading \<Rightarrow> if postseek s then line_at s else fpos s
   | Scanning \<Rightarrow> curseekoff s + curpos s
   | Finished \<Rightarrow> fpos s)"

text \<open>The line from \<open>l\<close> on has a character that is not white space.\<close>

definition nonblank_from :: "string \<Rightarrow> nat \<Rightarrow> bool" where
  "nonblank_from file l \<longleftrightarrow> (\<exists>q. l \<le> q \<and> q < length file \<and> \<not> is_c_space (file ! q) \<and> NL \<notin> set (sub file l q))"

definition strip_pos :: "nat \<Rightarrow> bool \<Rightarrow> string \<Rightarrow> strip \<Rightarrow> bool" where
  "strip_pos n lib file s \<longleftrightarrow>
     line_at s \<le> char_at s \<and> char_at s \<le> length file \<and> linepos s \<le> n
     \<and> (case sphase s of
          Reading \<Rightarrow> (\<not> lib \<longrightarrow> curseekoff s = fpos s) \<and> (postseek s \<longrightarrow> fpos s = lineseekoff s \<and> writing s)
        | Scanning \<Rightarrow> sbuf s = take n (drop (curseekoff s) file) \<and> fpos s = curseekoff s + length (sbuf s)
            \<and> curpos s \<le> length (sbuf s) \<and> \<not> postseek s
        | Finished \<Rightarrow> fpos s = length file)"

definition strip_content :: "string \<Rightarrow> strip \<Rightarrow> bool" where
  "strip_content file s \<longleftrightarrow>
     (line_at s = 0 \<or> file ! (line_at s - 1) = NL)
     \<and> NL \<notin> set (sub file (line_at s) (char_at s))
     \<and> (if writing s
        then sout s = nonblank_lines (take (line_at s) file) @ sub file (line_at s) (char_at s)
          \<and> nonblank_from file (line_at s)
        else sout s = nonblank_lines (take (line_at s) file)
          \<and> (\<forall>c \<in> set (sub file (line_at s) (char_at s)). is_c_space c))"

definition strip_inv :: "nat \<Rightarrow> bool \<Rightarrow> string \<Rightarrow> strip \<Rightarrow> bool" where
  "strip_inv n lib file s \<longleftrightarrow> strip_pos n lib file s \<and> strip_content file s"

section \<open>The invariant is kept\<close>

lemma line_start:
  assumes "strip_content file s" "line_at s \<le> length file"
  shows "take (line_at s) file = [] \<or> last (take (line_at s) file) = NL"
proof (cases "line_at s")
  case (Suc l)
  then have "take (line_at s) file = take l file @ [file ! l]" using assms(2) by (simp add: take_Suc_conv_app_nth)
  then show ?thesis using assms(1) Suc by (simp add: strip_content_def)
qed simp

text \<open>A complete line moves the start of the current line behind its newline.\<close>

lemma nonblank_line:
  assumes start: "take l file = [] \<or> last (take l file) = NL" and e: "l \<le> e" "e < length file" "file ! e = NL"
    and mid: "NL \<notin> set (sub file l e)"
  shows "nonblank_lines (take (Suc e) file)
    = nonblank_lines (take l file) @ (if keep_line (sub file l e @ [NL]) then sub file l e @ [NL] else [])"
proof -
  have "take (Suc e) file = take l file @ (sub file l e @ [NL])"
    using e take_sub [where i = l and j = "Suc e" and xs = "file"] sub_snoc [where i = l and j = e and xs = "file"] by simp
  then have "nonblank_lines (take (Suc e) file) = nonblank_lines (take l file) @ nonblank_lines (sub file l e @ [NL])"
    using nonblank_append [OF start] by simp
  then show ?thesis using split_lines_full [OF mid] by (simp add: nonblank_lines_def)
qed

lemma keep_complete_line:
  assumes "nonblank_from file l" "l \<le> e" "e < length file" "file ! e = NL" "NL \<notin> set (sub file l e)"
  shows "keep_line (sub file l e @ [NL])"
proof -
  obtain q where q: "l \<le> q" "q < length file" "\<not> is_c_space (file ! q)" "NL \<notin> set (sub file l q)"
    using assms(1) by (auto simp: nonblank_from_def)
  have "q \<noteq> e" using q(3) assms(4) by auto
  moreover have "\<not> e < q" using nth_in_sub [where i = l and q = e and j = q and xs = "file"] assms q by auto
  ultimately have "file ! q \<in> set (sub file l e)" using q(1) assms(3) by (intro nth_in_sub) auto
  then show ?thesis using q(3) by (auto simp: keep_line_def)
qed

text \<open>The block in the buffer is a part of the file.\<close>

lemma block_sub:
  assumes "sbuf s = take n (drop (curseekoff s) file)" "curseekoff s \<le> length file"
  shows "sbuf s = sub file (curseekoff s) (curseekoff s + length (sbuf s))"
    "curseekoff s + length (sbuf s) \<le> length file"
proof -
  have len: "length (sbuf s) = min (length file - curseekoff s) n" using assms(1) by simp
  have "take (min (length file - curseekoff s) n) (drop (curseekoff s) file) = take n (drop (curseekoff s) file)"
    by (cases "n \<le> length file - curseekoff s") simp_all
  then show "sbuf s = sub file (curseekoff s) (curseekoff s + length (sbuf s))"
    using len assms(1) by (simp add: sub_def)
  show "curseekoff s + length (sbuf s) \<le> length file" using len assms(2) by simp
qed

lemma strip_read_inv:
  assumes "strip_inv n lib file s" "sphase s = Reading"
  shows "strip_inv n lib file (strip_read n lib file s)"
proof -
  have pos: "strip_pos n lib file s" and con: "strip_content file s" using assms(1) by (auto simp: strip_inv_def)
  let ?t = "strip_read n lib file s"
  have at: "line_at ?t = line_at s" "char_at ?t = char_at s" "writing ?t = writing s" "sout ?t = sout s"
    using pos assms(2) by (auto simp: strip_read_def Let_def line_at_def char_at_def strip_pos_def)
  have "strip_content file ?t" using con by (simp add: strip_content_def at)
  moreover have "strip_pos n lib file ?t"
    using pos assms(2) at unfolding strip_pos_def
    by (auto simp: strip_read_def Let_def line_at_def char_at_def)
  ultimately show ?thesis by (simp add: strip_inv_def)
qed

lemma strip_scan_end_inv:
  assumes "strip_inv n lib file s" "sphase s = Scanning" "\<not> curpos s < length (sbuf s)" "0 < n"
  shows "strip_inv n lib file (strip_scan lib s)"
proof -
  have pos: "strip_pos n lib file s" and con: "strip_content file s" using assms(1) by (auto simp: strip_inv_def)
  let ?t = "strip_scan lib s"
  have at: "line_at ?t = line_at s" "char_at ?t = char_at s" "writing ?t = writing s" "sout ?t = sout s"
    using pos assms(2,3) by (auto simp: strip_scan_def line_at_def char_at_def strip_pos_def)
  have "strip_content file ?t" using con by (simp add: strip_content_def at)
  moreover have "strip_pos n lib file ?t"
    using pos assms(2-4) at unfolding strip_pos_def
    by (auto simp: strip_scan_def line_at_def char_at_def split: if_splits)
  ultimately show ?thesis by (simp add: strip_inv_def)
qed

lemma scan_here:
  assumes "strip_pos n lib file s" "sphase s = Scanning" "curpos s < length (sbuf s)"
  shows "char_at s = curseekoff s + curpos s" "char_at s < length file" "sbuf s ! curpos s = file ! char_at s"
    "line_at s \<le> char_at s"
proof -
  have b: "sbuf s = take n (drop (curseekoff s) file)" using assms by (simp add: strip_pos_def)
  show at: "char_at s = curseekoff s + curpos s" using assms(2) by (simp add: char_at_def)
  have lt: "curpos s < n" "curseekoff s + curpos s < length file" using assms(3) unfolding b by auto
  show "char_at s < length file" using at lt by simp
  show "sbuf s ! curpos s = file ! char_at s" unfolding b at using lt by simp
  show "line_at s \<le> char_at s" using assms(1) by (simp add: strip_pos_def)
qed

text \<open>One character further in a line of white space.\<close>

lemma strip_scan_space:
  assumes inv: "strip_inv n lib file s" "sphase s = Scanning" and cur: "curpos s < length (sbuf s)" "\<not> writing s"
    and c: "is_c_space (sbuf s ! curpos s)" "sbuf s ! curpos s \<noteq> NL"
  shows "strip_inv n lib file (strip_scan lib s)" "line_at (strip_scan lib s) = line_at s"
    "char_at (strip_scan lib s) = Suc (char_at s)"
proof -
  have pos: "strip_pos n lib file s" and con: "strip_content file s" using inv(1) by (auto simp: strip_inv_def)
  note p = scan_here [OF pos inv(2) cur(1)]
  let ?t = "strip_scan lib s"
  have t: "?t = s\<lparr>curpos := curpos s + 1\<rparr>" using cur c by (simp add: strip_scan_def)
  show at: "line_at ?t = line_at s" "char_at ?t = Suc (char_at s)" using inv(2) by (simp_all add: t line_at_def char_at_def)
  have "line_at s \<le> char_at s" using pos by (simp add: strip_pos_def)
  then have snoc: "sub file (line_at s) (Suc (char_at s)) = sub file (line_at s) (char_at s) @ [file ! char_at s]"
    using p(2) by (rule sub_snoc)
  have "strip_content file ?t" using con c cur(2) p(3) unfolding strip_content_def at snoc by (simp add: t)
  moreover have "strip_pos n lib file ?t" using pos inv(2) cur p by (simp add: strip_pos_def t line_at_def char_at_def)
  ultimately show "strip_inv n lib file ?t" by (simp add: strip_inv_def)
qed

lemma strip_scan_newline:
  assumes inv: "strip_inv n lib file s" "sphase s = Scanning" and cur: "curpos s < length (sbuf s)" "\<not> writing s"
    and c: "sbuf s ! curpos s = NL"
  shows "strip_inv n lib file (strip_scan lib s)" "line_at (strip_scan lib s) = Suc (char_at s)"
    "char_at (strip_scan lib s) = Suc (char_at s)"
proof -
  have pos: "strip_pos n lib file s" and con: "strip_content file s" using inv(1) by (auto simp: strip_inv_def)
  note here = scan_here [OF pos inv(2) cur(1)]
  have p: "char_at s = curseekoff s + curpos s" "char_at s < length file" "file ! char_at s = NL" "line_at s \<le> char_at s"
    using here c by auto
  let ?t = "strip_scan lib s"
  have t: "?t = s\<lparr>lineseekoff := curseekoff s, linepos := curpos s + 1, curpos := curpos s + 1\<rparr>"
    using cur c by (simp add: strip_scan_def)
  show at: "line_at ?t = Suc (char_at s)" "char_at ?t = Suc (char_at s)"
    using inv(2) p(1) by (simp_all add: t line_at_def char_at_def)
  have mid: "NL \<notin> set (sub file (line_at s) (char_at s))" "\<forall>c \<in> set (sub file (line_at s) (char_at s)). is_c_space c"
    "sout s = nonblank_lines (take (line_at s) file)"
    using con cur(2) by (auto simp: strip_content_def)
  have "line_at s \<le> length file" using p by simp
  from nonblank_line [OF line_start [OF con this] p(4,2,3) mid(1)]
  have "nonblank_lines (take (Suc (char_at s)) file) = sout s" using mid(2,3) by (auto simp: keep_line_def)
  then have "strip_content file ?t" using p(3) cur(2) unfolding strip_content_def at by (simp add: t)
  moreover have "length (sbuf s) \<le> n" using pos inv(2) by (simp add: strip_pos_def)
  then have "strip_pos n lib file ?t" using pos inv(2) cur p at by (auto simp: strip_pos_def t)
  ultimately show "strip_inv n lib file ?t" by (simp add: strip_inv_def)
qed

text \<open>A character that is not white space: back to the start of the line.\<close>

lemma strip_scan_found:
  assumes inv: "strip_inv n lib file s" "sphase s = Scanning" and cur: "curpos s < length (sbuf s)" "\<not> writing s"
    and c: "\<not> is_c_space (sbuf s ! curpos s)"
  shows "strip_inv n lib file (strip_scan lib s)" "line_at (strip_scan lib s) = line_at s" "writing (strip_scan lib s)"
    "char_at (strip_scan lib s) = line_at s"
proof -
  have pos: "strip_pos n lib file s" and con: "strip_content file s" using inv(1) by (auto simp: strip_inv_def)
  note p = scan_here [OF pos inv(2) cur(1)]
  have nl: "sbuf s ! curpos s \<noteq> NL" using c by auto
  let ?t = "strip_scan lib s"
  have t: "?t = (if curseekoff s \<noteq> lineseekoff s
      then s\<lparr>fpos := lineseekoff s, curseekoff := lineseekoff s, writing := True, postseek := True, sphase := Reading\<rparr>
      else s\<lparr>curpos := linepos s, writing := True\<rparr>)"
    using cur c nl by (simp add: strip_scan_def)
  show w: "writing ?t" by (simp add: t)
  show at: "line_at ?t = line_at s" "char_at ?t = line_at s"
    using inv(2) by (auto simp: t line_at_def char_at_def)
  have "nonblank_from file (line_at s)"
    using con p c cur(2) unfolding nonblank_from_def strip_content_def by auto
  moreover have "sout ?t = nonblank_lines (take (line_at s) file)" using con cur(2) by (simp add: t strip_content_def)
  ultimately have "strip_content file ?t" using con w unfolding strip_content_def at by simp
  moreover have "strip_pos n lib file ?t"
    using pos inv(2) cur p at by (auto simp: strip_pos_def t line_at_def char_at_def)
  ultimately show "strip_inv n lib file ?t" by (simp add: strip_inv_def)
qed

text \<open>Copying a part of a line, and its end.\<close>

lemma strip_write_part:
  assumes inv: "strip_inv n lib file s" "sphase s = Scanning" and cur: "curpos s < length (sbuf s)" "writing s"
    and none: "memchr_from (sbuf s) (curpos s) NL = None"
  shows "strip_inv n lib file (strip_scan lib s)" "line_at (strip_scan lib s) = line_at s" "writing (strip_scan lib s)"
    "char_at s < char_at (strip_scan lib s)"
proof -
  have pos: "strip_pos n lib file s" and con: "strip_content file s" using inv(1) by (auto simp: strip_inv_def)
  note p = scan_here [OF pos inv(2) cur(1)]
  have b: "sbuf s = take n (drop (curseekoff s) file)" "curseekoff s \<le> length file"
    using pos inv(2) p(1,2) by (simp_all add: strip_pos_def)
  note buf = block_sub [OF b]
  let ?t = "strip_scan lib s" and ?e = "curseekoff s + length (sbuf s)"
  have t: "?t = s\<lparr>sout := sout s @ drop (curpos s) (sbuf s), curpos := length (sbuf s)\<rparr>"
    using cur none by (simp add: strip_scan_def)
  show w: "writing ?t" using cur(2) by (simp add: t)
  show at: "line_at ?t = line_at s" using inv(2) by (simp add: t line_at_def)
  have end_at: "char_at ?t = ?e" using inv(2) by (simp add: t char_at_def)
  show "char_at s < char_at ?t" using p(1) cur(1) end_at by simp
  have part: "drop (curpos s) (sbuf s) = sub file (char_at s) ?e"
    using buf(1) drop_sub [of "curpos s" "file" "curseekoff s" ?e] p(1) by simp
  have "NL \<notin> set (sub file (char_at s) ?e)" using none by (simp add: memchr_from_def find_index_None part [symmetric])
  moreover have "sub file (line_at s) ?e = sub file (line_at s) (char_at s) @ sub file (char_at s) ?e"
    using p(1,4) cur(1) by (intro sub_append [symmetric]) auto
  ultimately have "strip_content file ?t" using con cur(2) w unfolding strip_content_def at end_at by (simp add: t part)
  moreover have "line_at s \<le> ?e" using p(1,4) cur(1) by simp
  then have "strip_pos n lib file ?t" using pos inv(2) buf(2) unfolding strip_pos_def at end_at by (simp add: t)
  ultimately show "strip_inv n lib file ?t" by (simp add: strip_inv_def)
qed

lemma strip_write_line:
  assumes inv: "strip_inv n lib file s" "sphase s = Scanning" and cur: "curpos s < length (sbuf s)" "writing s"
    and some: "memchr_from (sbuf s) (curpos s) NL = Some eol"
  shows "strip_inv n lib file (strip_scan lib s)" "line_at s < line_at (strip_scan lib s)" "\<not> writing (strip_scan lib s)"
    "line_at (strip_scan lib s) = char_at (strip_scan lib s)"
proof -
  have pos: "strip_pos n lib file s" and con: "strip_content file s" using inv(1) by (auto simp: strip_inv_def)
  note p = scan_here [OF pos inv(2) cur(1)]
  have b: "sbuf s = take n (drop (curseekoff s) file)" "curseekoff s \<le> length file"
    using pos inv(2) p(1,2) by (simp_all add: strip_pos_def)
  obtain k where k: "find_index NL (drop (curpos s) (sbuf s)) = Some k" "eol = curpos s + k"
    using some by (auto simp: memchr_from_def)
  then have e: "eol < length (sbuf s)" "sbuf s ! eol = NL" "NL \<notin> set (take k (drop (curpos s) (sbuf s)))"
    by (auto simp: find_index_Some)
  let ?e = "curseekoff s + eol" and ?t = "strip_scan lib s"
  have fe: "?e < length file" "file ! ?e = NL" using e(1,2) unfolding b(1) by auto
  have parts: "take k (drop (curpos s) (sbuf s)) = sub file (char_at s) ?e"
    "take (k + 1) (drop (curpos s) (sbuf s)) = sub file (char_at s) (Suc ?e)"
  proof -
    have "drop (curpos s) (sbuf s) = sub file (char_at s) (curseekoff s + length (sbuf s))"
      using block_sub(1) [OF b] drop_sub [of "curpos s" "file" "curseekoff s" "curseekoff s + length (sbuf s)"] p(1) by simp
    then show "take k (drop (curpos s) (sbuf s)) = sub file (char_at s) ?e"
      "take (k + 1) (drop (curpos s) (sbuf s)) = sub file (char_at s) (Suc ?e)"
      using e(1) k(2) p(1) by (simp_all add: take_of_sub add.assoc)
  qed
  have t: "?t = s\<lparr>sout := sout s @ sub file (char_at s) (Suc ?e), curpos := eol + 1, lineseekoff := curseekoff s,
      linepos := eol + 1, writing := False\<rparr>"
    using cur some parts(2) k(2) by (simp add: strip_scan_def)
  show w: "\<not> writing ?t" by (simp add: t)
  have at: "line_at ?t = Suc ?e" "char_at ?t = Suc ?e" using inv(2) by (simp_all add: t line_at_def char_at_def)
  then show "line_at ?t = char_at ?t" by simp
  have le: "char_at s \<le> ?e" using p(1) k(2) by simp
  then show "line_at s < line_at ?t" using p(4) at by simp
  have line: "sub file (line_at s) ?e = sub file (line_at s) (char_at s) @ sub file (char_at s) ?e"
    using p(4) le by (intro sub_append [symmetric]) auto
  have mid: "NL \<notin> set (sub file (line_at s) ?e)" using con e(3) unfolding line parts(1) by (simp add: strip_content_def)
  have full: "sub file (line_at s) ?e @ [NL] = sub file (line_at s) (char_at s) @ sub file (char_at s) (Suc ?e)"
    using line sub_snoc [OF le fe(1)] fe(2) by simp
  have lf: "line_at s \<le> length file" "line_at s \<le> ?e" using p(2,4) le by simp_all
  have "nonblank_from file (line_at s)" using con cur(2) by (simp add: strip_content_def)
  then have "keep_line (sub file (line_at s) ?e @ [NL])" using keep_complete_line lf(2) fe mid by blast
  then have "nonblank_lines (take (Suc ?e) file) = sout ?t"
    using nonblank_line [OF line_start [OF con lf(1)] lf(2) fe mid] full con cur(2) by (simp add: t strip_content_def)
  then have "strip_content file ?t" using w fe(2) unfolding strip_content_def at by simp
  moreover have "length (sbuf s) \<le> n" using b(1) by simp
  then have "strip_pos n lib file ?t" using pos inv(2) e(1) fe(1) at by (auto simp: strip_pos_def t)
  ultimately show "strip_inv n lib file ?t" by (simp add: strip_inv_def)
qed

section \<open>Termination\<close>

text \<open>
  Each line is left once; inside a line, the copy starts once; then the position grows, or
  the block does, or the phase changes.
\<close>

definition strip_measure :: "string \<Rightarrow> strip \<Rightarrow> nat" where
  "strip_measure file s =
     (2 * (length file - line_at s) + (if writing s then 0 else 1)) * (4 * length file + 10)
     + 2 * (length file - char_at s) + 2 * (length file - base_at s)
     + (case sphase s of Reading \<Rightarrow> 2 | Scanning \<Rightarrow> 1 | Finished \<Rightarrow> 0)"

lemma measure_drop:
  fixes a a' :: nat
  assumes "a' < a" "p' \<le> 2"
  shows "a' * (4 * length file + 10) + 2 * (length file - x') + 2 * (length file - y') + p'
    < a * (4 * length file + 10) + z"
proof -
  have "Suc a' * (4 * length file + 10) \<le> a * (4 * length file + 10)" using assms(1) by (intro mult_le_mono1) simp
  moreover have "2 * (length file - x') \<le> 2 * length file" "2 * (length file - y') \<le> 2 * length file" by simp_all
  ultimately show ?thesis using assms(2) by simp
qed

lemma base_bound: "strip_inv n lib file s \<Longrightarrow> sphase s \<noteq> Finished \<Longrightarrow> base_at s \<le> length file"
  by (auto simp: strip_inv_def strip_pos_def base_at_def char_at_def line_at_def split: phase.splits if_splits)

lemma next_block: "0 < n \<Longrightarrow> c < l \<Longrightarrow> Suc (2 * (l - (c + min (l - c) n))) < 2 * (l - c)" for n c l :: nat
  by (auto simp: min_def)

lemma strip_step_ok:
  assumes inv: "strip_inv n lib file s" and n: "0 < n" and run: "sphase s \<noteq> Finished"
  shows "strip_inv n lib file (strip_step n lib file s) \<and> strip_measure file (strip_step n lib file s) < strip_measure file s"
proof (cases "sphase s")
  case Finished
  then show ?thesis using run by simp
next
  case Reading
  have pos: "strip_pos n lib file s" using inv by (simp add: strip_inv_def)
  let ?t = "strip_read n lib file s"
  have at: "line_at ?t = line_at s" "char_at ?t = char_at s" "writing ?t = writing s" "base_at ?t = base_at s" "sphase ?t = Scanning"
    using pos Reading by (auto simp: strip_read_def Let_def line_at_def char_at_def base_at_def strip_pos_def)
  then show ?thesis using strip_read_inv [OF inv Reading] Reading
    by (simp add: strip_step_def strip_measure_def)
next
  case Scanning
  let ?t = "strip_scan lib s"
  have step: "strip_step n lib file s = ?t" using Scanning by (simp add: strip_step_def)
  have pos: "strip_pos n lib file s" using inv by (simp add: strip_inv_def)
  have big: "strip_measure file ?t < strip_measure file s"
    if "2 * (length file - line_at ?t) + (if writing ?t then 0 else 1) < 2 * (length file - line_at s) + (if writing s then 0 else 1)"
    unfolding strip_measure_def add.assoc using that by (intro measure_drop [unfolded add.assoc]) (auto split: phase.splits)
  show ?thesis
  proof (cases "curpos s < length (sbuf s)")
    case False
    have "base_at s \<le> length file" using base_bound [OF inv run] .
    then have m: "strip_measure file ?t < strip_measure file s"
      using pos Scanning False n
      by (auto simp: strip_scan_def strip_measure_def line_at_def char_at_def base_at_def strip_pos_def next_block not_le)
    then show ?thesis using strip_scan_end_inv [OF inv Scanning False n] step by simp
  next
    case cur: True
    note here = scan_here [OF pos Scanning cur]
    show ?thesis
    proof (cases "writing s")
      case True
      show ?thesis
      proof (cases "memchr_from (sbuf s) (curpos s) NL")
        case None
        note w = strip_write_part [OF inv Scanning cur True None]
        have "sphase ?t = Scanning" "base_at ?t = base_at s"
          using Scanning cur True None by (simp_all add: strip_scan_def base_at_def)
        moreover have "char_at ?t \<le> length file" using w(1) by (simp add: strip_inv_def strip_pos_def)
        ultimately have "strip_measure file ?t < strip_measure file s"
          using w(2-4) True Scanning here(2) by (simp add: strip_measure_def)
        then show ?thesis using w(1) step by simp
      next
        case (Some eol)
        note w = strip_write_line [OF inv Scanning cur True Some]
        have "line_at ?t \<le> length file" using w(1) by (simp add: strip_inv_def strip_pos_def)
        then have "strip_measure file ?t < strip_measure file s" using w(2,3) True by (intro big) simp
        then show ?thesis using w(1) step by simp
      qed
    next
      case False
      consider "sbuf s ! curpos s = NL" | "sbuf s ! curpos s \<noteq> NL" "is_c_space (sbuf s ! curpos s)"
        | "\<not> is_c_space (sbuf s ! curpos s)" by auto
      then show ?thesis
      proof cases
        case 1
        note w = strip_scan_newline [OF inv Scanning cur False 1]
        have "line_at ?t \<le> length file" using w(1) by (simp add: strip_inv_def strip_pos_def)
        moreover have "\<not> writing ?t" using cur False 1 by (simp add: strip_scan_def)
        ultimately have "strip_measure file ?t < strip_measure file s"
          using w(2) here(4) False by (intro big) simp
        then show ?thesis using w(1) step by simp
      next
        case 2
        note w = strip_scan_space [OF inv Scanning cur False 2(2,1)]
        have "sphase ?t = Scanning" "base_at ?t = base_at s" "writing ?t = writing s"
          using Scanning cur False 2 by (simp_all add: strip_scan_def base_at_def)
        then have "strip_measure file ?t < strip_measure file s"
          using w(2,3) Scanning here(2) by (simp add: strip_measure_def)
        then show ?thesis using w(1) step by simp
      next
        case 3
        note w = strip_scan_found [OF inv Scanning cur False 3]
        have "strip_measure file ?t < strip_measure file s" using w(2,3) False by (intro big) simp
        then show ?thesis using w(1) step by simp
      qed
    qed
  qed
qed

section \<open>Properties\<close>

lemma strip_init_inv: "strip_inv n lib file strip_init"
  by (simp add: strip_inv_def strip_pos_def strip_content_def strip_init_def line_at_def char_at_def nonblank_lines_def)

lemma strip_final:
  assumes "strip_inv n lib file s" "sphase s = Finished"
  shows "sout s = nonblank_lines file"
proof -
  have con: "strip_content file s" and at: "char_at s = length file" "line_at s \<le> length file"
    using assms by (auto simp: strip_inv_def strip_pos_def char_at_def)
  let ?l = "sub file (line_at s) (length file)"
  have split: "nonblank_lines file = nonblank_lines (take (line_at s) file) @ nonblank_lines ?l"
    using nonblank_append [OF line_start [OF con at(2)], of ?l] take_sub [OF at(2), where xs = "file"] by simp
  have nl: "NL \<notin> set ?l" using con at(1) by (simp add: strip_content_def)
  show ?thesis
  proof (cases "writing s")
    case True
    then obtain q where q: "line_at s \<le> q" "q < length file" "\<not> is_c_space (file ! q)"
      using con by (auto simp: strip_content_def nonblank_from_def)
    then have "file ! q \<in> set ?l" by (intro nth_in_sub) auto
    then have "keep_line ?l" "?l \<noteq> []" using q(3) by (auto simp: keep_line_def)
    then have "nonblank_lines ?l = ?l" using split_lines_one [OF nl] by (simp add: nonblank_lines_def)
    then show ?thesis using True con at(1) split by (simp add: strip_content_def)
  next
    case False
    then have "\<not> keep_line ?l" using con at(1) by (simp add: strip_content_def keep_line_def)
    then have "nonblank_lines ?l = []" using split_lines_one [OF nl] by (cases "?l = []") (simp_all add: nonblank_lines_def)
    then show ?thesis using False con at(1) split by (simp add: strip_content_def)
  qed
qed

lemma strip_run_ok:
  assumes "0 < n" shows "strip_run n lib file = Some (nonblank_lines file)"
proof -
  have "\<exists>t. while_option (\<lambda>s. sphase s \<noteq> Finished) (strip_step n lib file) strip_init = Some t"
    by (rule measure_while_option_Some [where P = "strip_inv n lib file" and f = "strip_measure file"])
      (use strip_step_ok assms strip_init_inv in auto)
  then obtain t where t: "while_option (\<lambda>s. sphase s \<noteq> Finished) (strip_step n lib file) strip_init = Some t" by blast
  have "strip_inv n lib file t"
    using while_option_rule [where P = "strip_inv n lib file", OF _ t strip_init_inv] strip_step_ok assms by blast
  moreover have "sphase t = Finished" using while_option_stop [OF t] by simp
  ultimately show ?thesis using strip_final t by (simp add: strip_run_def)
qed

text \<open>
  C4: for every file, both builds terminate and write exactly the lines that contain a
  character other than white space, unchanged and in order (a last line without newline
  included), although a line may start in an earlier block than the one that shows it has
  to be copied.
\<close>

theorem strip_main_nonblank: "strip_main lib file = Some (concat (filter keep_line (split_lines file)))"
  using strip_run_ok [of 4096 lib "file"] by (simp add: strip_main_def nonblank_lines_def)

end
