(* ===== verification/Pizza.thy ===== *)
theory Pizza
  imports Decimal
begin

text \<open>
  The pizzeria of \<open>lab7/main.c\<close>: cooks and deliverers in separate processes that share an
  oven, a ring of table places and five semaphores. Both builds are modelled: the POSIX one
  waits for and posts its semaphores one at a time, the System V one hands an array of
  operations to \<open>semop\<close>, which performs them at once or not at all.

  A process is its program counter, its locals and the semaphore operations it still has
  to perform before the statement at the program counter (\<open>pend\<close>). Every statement that
  touches the shared memory is a step of its own, so the processes interleave between the
  statements of a critical section, and that only one of them is inside is a theorem.
\<close>

section \<open>Shared memory and semaphores\<close>

definition SLOTS :: nat where "SLOTS = 5"

record shared =
  ovenslots :: "int list"
  tableslots :: "int list"
  tablehead :: nat
  tabletail :: nat
  inoven :: int
  ontable :: int

datatype semaphore = OVEN_LK | OVEN_CAP | TABLE_LK | TABLE_CAP | TABLE_AVAIL

text \<open>The value of the C enumerator, which indexes the semaphore arrays and orders the type.\<close>

fun sem_num :: "semaphore \<Rightarrow> nat" where
  "sem_num OVEN_LK = 0"
| "sem_num OVEN_CAP = 1"
| "sem_num TABLE_LK = 2"
| "sem_num TABLE_CAP = 3"
| "sem_num TABLE_AVAIL = 4"

lemma sem_num_inj: "sem_num s = sem_num t \<Longrightarrow> s = t"
  by (cases s; cases t) simp_all

instantiation semaphore :: linorder
begin

definition less_eq_semaphore :: "semaphore \<Rightarrow> semaphore \<Rightarrow> bool" where
  "less_eq_semaphore s t \<longleftrightarrow> sem_num s \<le> sem_num t"

definition less_semaphore :: "semaphore \<Rightarrow> semaphore \<Rightarrow> bool" where
  "less_semaphore s t \<longleftrightarrow> sem_num s < sem_num t"

instance
  by standard (auto simp: less_eq_semaphore_def less_semaphore_def intro: sem_num_inj)

end

type_synonym sem_values = "semaphore \<Rightarrow> nat"
type_synonym sembuf = "semaphore \<times> int"

text \<open>The \<open>values\<close> of \<open>SETALL\<close>, which are the initial values of the five \<open>sem_open\<close> calls too.\<close>

definition sem_init_values :: "nat list" where
  "sem_init_values = [1, SLOTS, 1, SLOTS, 0]"

definition setup_sems :: sem_values where
  "setup_sems s = sem_init_values ! sem_num s"

definition setup_shm :: shared where
  "setup_shm = \<lparr>ovenslots = replicate SLOTS (-1), tableslots = replicate SLOTS (-1),
     tablehead = 0, tabletail = 0, inoven = 0, ontable = 0\<rparr>"

text \<open>
  \<open>semop\<close> on an array: each element in turn, an element that would take a semaphore below
  zero makes the whole call wait (\<open>None\<close>). \<open>sem_wait\<close> and \<open>sem_post\<close> are the arrays of one
  element.
\<close>

fun semop :: "sembuf list \<Rightarrow> sem_values \<Rightarrow> sem_values option" where
  "semop [] v = Some v"
| "semop ((s, n) # ops) v =
     (if int (v s) + n < 0 then None else semop ops (v(s := nat (int (v s) + n))))"

section \<open>The synchronisation protocol\<close>

datatype build = POSIX | SYSV

text \<open>
  The semaphore operations of a protocol function: one call of \<open>sem_wait\<close> or \<open>sem_post\<close>
  after the other, or one call of \<open>semop\<close>.
\<close>

fun sem_calls :: "build \<Rightarrow> sembuf list \<Rightarrow> sembuf list list" where
  "sem_calls POSIX ops = map (\<lambda>x. [x]) ops"
| "sem_calls SYSV ops = [ops]"

definition oven_before_insert :: "build \<Rightarrow> sembuf list list" where
  "oven_before_insert b = sem_calls b [(OVEN_CAP, -1), (OVEN_LK, -1)]"

definition oven_after_insert :: "build \<Rightarrow> sembuf list list" where
  "oven_after_insert b = sem_calls b [(OVEN_LK, 1)]"

definition oven_before_remove :: "build \<Rightarrow> sembuf list list" where
  "oven_before_remove b = sem_calls b [(OVEN_LK, -1)]"

definition oven_after_remove :: "build \<Rightarrow> sembuf list list" where
  "oven_after_remove b = sem_calls b [(OVEN_CAP, 1), (OVEN_LK, 1)]"

definition table_before_put :: "build \<Rightarrow> sembuf list list" where
  "table_before_put b = sem_calls b [(TABLE_CAP, -1), (TABLE_LK, -1)]"

definition table_after_put :: "build \<Rightarrow> sembuf list list" where
  "table_after_put b = sem_calls b [(TABLE_LK, 1), (TABLE_AVAIL, 1)]"

definition table_before_get :: "build \<Rightarrow> sembuf list list" where
  "table_before_get b = sem_calls b [(TABLE_AVAIL, -1), (TABLE_LK, -1)]"

definition table_after_get :: "build \<Rightarrow> sembuf list list" where
  "table_after_get b = sem_calls b [(TABLE_LK, 1), (TABLE_CAP, 1)]"

lemmas protocol_defs =
  oven_before_insert_def oven_after_insert_def oven_before_remove_def oven_after_remove_def
  table_before_put_def table_after_put_def table_before_get_def table_after_get_def

section \<open>Processes\<close>

text \<open>One label per statement of \<open>cook_main\<close> and \<open>deliv_main\<close>; \<open>Dead\<close> is a process that aborted.\<close>

datatype label =
    Cook_Prepare | Cook_Init | Cook_Scan | Cook_Check | Cook_Store | Cook_Inc | Cook_Report_In
  | Cook_Nap | Cook_Take | Cook_Clear | Cook_Dec | Cook_Move | Cook_Put | Cook_Wrap
  | Cook_Count | Cook_Report_Out
  | Deliv_Start | Deliv_Take | Deliv_Clear | Deliv_Check | Deliv_Wrap | Deliv_Count
  | Deliv_Report | Deliv_Go
  | Dead

record proc =
  pc :: label
  pend :: "sembuf list list"
  ptype :: int
  slot :: nat
  cooked :: int
  pizza :: int

datatype event =
    Preparing int
  | Cooking int int
  | Cooked int int int
  | Took int int
  | Delivered int

definition new_proc :: "label \<Rightarrow> proc" where
  "new_proc l = \<lparr>pc = l, pend = [], ptype = 0, slot = 0, cooked = 0, pizza = 0\<rparr>"

abbreviation jump :: "label \<Rightarrow> sembuf list list \<Rightarrow> proc \<Rightarrow> proc" where
  "jump l ops p \<equiv> p\<lparr>pc := l, pend := ops\<rparr>"

text \<open>
  One statement. \<open>r\<close> is the value \<open>rand()\<close> returns if the statement calls it. A call of a
  protocol function leaves its semaphore operations in \<open>pend\<close> and goes on to the statement
  after the call; \<open>report\<close> is the event it prints; \<open>nap\<close> only lets other processes move.
\<close>

definition cook_stmt :: "build \<Rightarrow> nat \<Rightarrow> proc \<Rightarrow> shared \<Rightarrow> (proc \<times> shared \<times> event list) result" where
  "cook_stmt b r p m = (case pc p of
     Cook_Prepare \<Rightarrow>
       Ok (jump Cook_Init (oven_before_insert b) (p\<lparr>ptype := int (r mod 10)\<rparr>), m,
         [Preparing (int (r mod 10))])
   | Cook_Init \<Rightarrow> Ok (jump Cook_Scan [] (p\<lparr>slot := 0\<rparr>), m, [])
   | Cook_Scan \<Rightarrow>
       (if slot p < SLOTS then
          rbind (load (ovenslots m) (slot p)) (\<lambda>v.
            if v < 0 then Ok (jump Cook_Check [] p, m, [])
            else Ok (jump Cook_Scan [] (p\<lparr>slot := slot p + 1\<rparr>), m, []))
        else Ok (jump Cook_Check [] p, m, []))
   | Cook_Check \<Rightarrow>
       rbind (load (ovenslots m) (slot p)) (\<lambda>v.
       rbind (c_assert (v < 0)) (\<lambda>_. Ok (jump Cook_Store [] p, m, [])))
   | Cook_Store \<Rightarrow>
       rbind (store (ovenslots m) (slot p) (ptype p)) (\<lambda>xs.
         Ok (jump Cook_Inc [] p, m\<lparr>ovenslots := xs\<rparr>, []))
   | Cook_Inc \<Rightarrow> Ok (jump Cook_Report_In [] p, m\<lparr>inoven := inoven m + 1\<rparr>, [])
   | Cook_Report_In \<Rightarrow>
       Ok (jump Cook_Nap (oven_after_insert b) p, m, [Cooking (ptype p) (inoven m)])
   | Cook_Nap \<Rightarrow> Ok (jump Cook_Take (oven_before_remove b) p, m, [])
   | Cook_Take \<Rightarrow>
       rbind (load (ovenslots m) (slot p)) (\<lambda>v.
         Ok (jump Cook_Clear [] (p\<lparr>cooked := v\<rparr>), m, []))
   | Cook_Clear \<Rightarrow>
       rbind (store (ovenslots m) (slot p) (-1)) (\<lambda>xs.
         Ok (jump Cook_Dec [] p, m\<lparr>ovenslots := xs\<rparr>, []))
   | Cook_Dec \<Rightarrow> Ok (jump Cook_Move (oven_after_remove b) p, m\<lparr>inoven := inoven m - 1\<rparr>, [])
   | Cook_Move \<Rightarrow> Ok (jump Cook_Put (table_before_put b) p, m, [])
   | Cook_Put \<Rightarrow>
       rbind (store (tableslots m) (tablehead m) (cooked p)) (\<lambda>t.
         Ok (jump Cook_Wrap [] p, m\<lparr>tableslots := t, tablehead := tablehead m + 1\<rparr>, []))
   | Cook_Wrap \<Rightarrow> Ok (jump Cook_Count [] p, m\<lparr>tablehead := tablehead m mod SLOTS\<rparr>, [])
   | Cook_Count \<Rightarrow> Ok (jump Cook_Report_Out [] p, m\<lparr>ontable := ontable m + 1\<rparr>, [])
   | Cook_Report_Out \<Rightarrow>
       Ok (jump Cook_Prepare (table_after_put b) p, m,
         [Cooked (cooked p) (inoven m) (ontable m)])
   | _ \<Rightarrow> Err Undef_Behaviour)"

definition deliv_stmt :: "build \<Rightarrow> proc \<Rightarrow> shared \<Rightarrow> (proc \<times> shared \<times> event list) result" where
  "deliv_stmt b p m = (case pc p of
     Deliv_Start \<Rightarrow> Ok (jump Deliv_Take (table_before_get b) p, m, [])
   | Deliv_Take \<Rightarrow>
       rbind (load (tableslots m) (tabletail m)) (\<lambda>v.
         Ok (jump Deliv_Clear [] (p\<lparr>pizza := v\<rparr>), m, []))
   | Deliv_Clear \<Rightarrow>
       rbind (store (tableslots m) (tabletail m) (-1)) (\<lambda>t.
         Ok (jump Deliv_Check [] p, m\<lparr>tableslots := t, tabletail := tabletail m + 1\<rparr>, []))
   | Deliv_Check \<Rightarrow> rbind (c_assert (0 \<le> pizza p)) (\<lambda>_. Ok (jump Deliv_Wrap [] p, m, []))
   | Deliv_Wrap \<Rightarrow> Ok (jump Deliv_Count [] p, m\<lparr>tabletail := tabletail m mod SLOTS\<rparr>, [])
   | Deliv_Count \<Rightarrow> Ok (jump Deliv_Report [] p, m\<lparr>ontable := ontable m - 1\<rparr>, [])
   | Deliv_Report \<Rightarrow>
       Ok (jump Deliv_Go (table_after_get b) p, m, [Took (pizza p) (ontable m)])
   | Deliv_Go \<Rightarrow> Ok (jump Deliv_Start [] p, m, [Delivered (pizza p)])
   | _ \<Rightarrow> Err Undef_Behaviour)"

fun is_deliv :: "label \<Rightarrow> bool" where
  "is_deliv l \<longleftrightarrow> l \<in> {Deliv_Start, Deliv_Take, Deliv_Clear, Deliv_Check, Deliv_Wrap,
     Deliv_Count, Deliv_Report, Deliv_Go}"

definition exec_stmt :: "build \<Rightarrow> nat \<Rightarrow> proc \<Rightarrow> shared \<Rightarrow> (proc \<times> shared \<times> event list) result" where
  "exec_stmt b r p m = (if is_deliv (pc p) then deliv_stmt b p m else cook_stmt b r p m)"

section \<open>The pizzeria\<close>

record pizzeria =
  mem :: shared
  sems :: sem_values
  procs :: "proc list"
  report_log :: "(nat \<times> event) list"

text \<open>
  A step of process \<open>i\<close>: the next semaphore operation, when it does not wait; the next
  statement; or the end of a process whose statement fails.
\<close>

inductive pizza_step :: "build \<Rightarrow> pizzeria \<Rightarrow> pizzeria \<Rightarrow> bool" for b where
  sem_step:
    "i < length (procs st) \<Longrightarrow> pend (procs st ! i) = ops # rest \<Longrightarrow>
     semop ops (sems st) = Some v \<Longrightarrow>
     pizza_step b st (st\<lparr>sems := v, procs := (procs st)[i := (procs st ! i)\<lparr>pend := rest\<rparr>]\<rparr>)"
| stmt_step:
    "i < length (procs st) \<Longrightarrow> pend (procs st ! i) = [] \<Longrightarrow> pc (procs st ! i) \<noteq> Dead \<Longrightarrow>
     exec_stmt b r (procs st ! i) (mem st) = Ok (p, m, out) \<Longrightarrow>
     pizza_step b st (st\<lparr>mem := m, procs := (procs st)[i := p],
       report_log := report_log st @ map (Pair i) out\<rparr>)"
| crash_step:
    "i < length (procs st) \<Longrightarrow> pend (procs st ! i) = [] \<Longrightarrow> pc (procs st ! i) \<noteq> Dead \<Longrightarrow>
     exec_stmt b r (procs st ! i) (mem st) = Err e \<Longrightarrow>
     pizza_step b st (st\<lparr>procs := (procs st)[i := (procs st ! i)\<lparr>pc := Dead\<rparr>]\<rparr>)"

inductive_cases pizza_stepE [consumes 1, case_names sem_step stmt_step crash_step]:
  "pizza_step b st st'"

section \<open>The main function\<close>

definition parse_int :: "string \<Rightarrow> int option" where
  "parse_int str = (if str = [] then None
     else (case strtol10 str of (v, rest, range_err) \<Rightarrow>
       if \<not> range_err \<and> rest = [] then Some v else None))"

datatype main_role = Run_Cook | Run_Deliv | Run_Parent nat nat | Usage

definition pizza_main :: "string list \<Rightarrow> main_role" where
  "pizza_main argv =
    (if length argv = 2 \<and> (argv ! 1 = ''cook'' \<or> argv ! 1 \<noteq> ''deliv'') then
       (if argv ! 1 = ''cook'' then Run_Cook else Run_Deliv)
     else if length argv \<noteq> 3 then Usage
     else (case parse_int (argv ! 1) of
         None \<Rightarrow> Usage
       | Some n \<Rightarrow> if n < 1 then Usage else
          (case parse_int (argv ! 2) of
             None \<Rightarrow> Usage
           | Some m \<Rightarrow> if m < 1 then Usage else Run_Parent (nat n) (nat m))))"

definition progname :: "build \<Rightarrow> string" where
  "progname b = (case b of POSIX \<Rightarrow> ''./posix'' | SYSV \<Rightarrow> ''./sysv'')"

text \<open>The argument vectors the parent gives to \<open>execv\<close>, and the process each one starts.\<close>

definition child_argvs :: "build \<Rightarrow> nat \<Rightarrow> nat \<Rightarrow> string list list" where
  "child_argvs b n m = replicate n [progname b, ''cook''] @ replicate m [progname b, ''dlv'']"

fun start_role :: "main_role \<Rightarrow> proc list" where
  "start_role Run_Cook = [new_proc Cook_Prepare]"
| "start_role Run_Deliv = [new_proc Deliv_Start]"
| "start_role (Run_Parent n m) = []"
| "start_role Usage = []"

text \<open>
  The pizzeria after the parent's \<open>setup_shm\<close> and its two fork loops. A child that has not
  been started yet is a process that has not made its first step.
\<close>

definition open_pizzeria :: "build \<Rightarrow> nat \<Rightarrow> nat \<Rightarrow> pizzeria" where
  "open_pizzeria b n m = \<lparr>mem = setup_shm, sems = setup_sems,
     procs = concat (map (\<lambda>argv. start_role (pizza_main argv)) (child_argvs b n m)),
     report_log = []\<rparr>"

end
