(* ===== verification/Pizza_Inv.thy ===== *)
theory Pizza_Inv
  imports Pizza
begin

text \<open>
  The invariant of the pizzeria and what follows from it. Semaphores are counted with
  tokens: \<open>held p s\<close> is the number of units of \<open>s\<close> a process has taken out and not yet put
  back, \<open>table_items\<close> and the free places account for the rest, and every step moves tokens
  without creating any. Mutual exclusion, the free oven slot, the order of the ring and
  the absence of deadlock all come from this count.
\<close>

section \<open>Sums over the processes\<close>

definition sum_procs :: "(proc \<Rightarrow> int) \<Rightarrow> proc list \<Rightarrow> int" where
  "sum_procs f ps = sum_list (map f ps)"

lemma sum_procs_update:
  "i < length ps \<Longrightarrow> sum_procs f (ps[i := p]) = sum_procs f ps - f (ps ! i) + f p"
  unfolding sum_procs_def by (induction ps arbitrary: i) (auto split: nat.splits)

lemma sum_procs_nonneg: "(\<And>p. p \<in> set ps \<Longrightarrow> 0 \<le> f p) \<Longrightarrow> 0 \<le> sum_procs f ps"
  unfolding sum_procs_def by (induction ps) auto

lemma sum_procs_ge:
  assumes "\<And>p. p \<in> set ps \<Longrightarrow> 0 \<le> f p" "i < length ps"
  shows "f (ps ! i) \<le> sum_procs f ps"
  using assms unfolding sum_procs_def
proof (induction ps arbitrary: i)
  case (Cons p ps)
  have "0 \<le> sum_list (map f ps)"
    using Cons.prems(1) by (intro sum_list_nonneg) auto
  then show ?case
    using Cons by (cases i) (force intro: order_trans[OF _ add_increasing])+
qed simp

lemma sum_procs_ge2:
  assumes "\<And>p. p \<in> set ps \<Longrightarrow> 0 \<le> f p" "i < length ps" "j < length ps" "i \<noteq> j"
  shows "f (ps ! i) + f (ps ! j) \<le> sum_procs f ps"
proof -
  have "(\<Sum>k\<in>{i, j}. f (ps ! k)) \<le> (\<Sum>k = 0..<length ps. f (ps ! k))"
    by (rule sum_mono2) (use assms in auto)
  also have "\<dots> = sum_procs f ps"
    by (simp add: sum_procs_def sum_list_sum_nth)
  finally show ?thesis using assms(4) by simp
qed

lemma sum_procs_cong: "(\<And>p. p \<in> set ps \<Longrightarrow> f p = g p) \<Longrightarrow> sum_procs f ps = sum_procs g ps"
  unfolding sum_procs_def by (induction ps) auto

lemma sum_procs_le:
  "(\<And>p. p \<in> set ps \<Longrightarrow> f p \<le> g p) \<Longrightarrow> sum_procs f ps \<le> sum_procs g ps"
  unfolding sum_procs_def by (induction ps) (auto intro: add_mono)

section \<open>Tokens\<close>

text \<open>The units of semaphores a process has in hand at a label, when nothing is pending.\<close>

fun tokens :: "label \<Rightarrow> semaphore list" where
  "tokens Cook_Init = [OVEN_LK, OVEN_CAP]"
| "tokens Cook_Scan = [OVEN_LK, OVEN_CAP]"
| "tokens Cook_Check = [OVEN_LK, OVEN_CAP]"
| "tokens Cook_Store = [OVEN_LK, OVEN_CAP]"
| "tokens Cook_Inc = [OVEN_LK, OVEN_CAP]"
| "tokens Cook_Report_In = [OVEN_LK, OVEN_CAP]"
| "tokens Cook_Take = [OVEN_LK, OVEN_CAP]"
| "tokens Cook_Clear = [OVEN_LK, OVEN_CAP]"
| "tokens Cook_Dec = [OVEN_LK, OVEN_CAP]"
| "tokens Cook_Nap = [OVEN_CAP]"
| "tokens Cook_Put = [TABLE_LK, TABLE_CAP]"
| "tokens Cook_Wrap = [TABLE_LK, TABLE_AVAIL]"
| "tokens Cook_Count = [TABLE_LK, TABLE_AVAIL]"
| "tokens Cook_Report_Out = [TABLE_LK, TABLE_AVAIL]"
| "tokens Deliv_Take = [TABLE_LK, TABLE_AVAIL]"
| "tokens Deliv_Clear = [TABLE_LK, TABLE_AVAIL]"
| "tokens Deliv_Check = [TABLE_LK, TABLE_CAP]"
| "tokens Deliv_Wrap = [TABLE_LK, TABLE_CAP]"
| "tokens Deliv_Count = [TABLE_LK, TABLE_CAP]"
| "tokens Deliv_Report = [TABLE_LK, TABLE_CAP]"
| "tokens Cook_Prepare = []"
| "tokens Cook_Move = []"
| "tokens Deliv_Start = []"
| "tokens Deliv_Go = []"
| "tokens Dead = []"

definition effect :: "semaphore \<Rightarrow> sembuf list \<Rightarrow> int" where
  "effect s ops = sum_list (map (\<lambda>(t, n). if t = s then n else 0) ops)"

lemma effect_simps [simp]:
  "effect s [] = 0"
  "effect s ((t, n) # ops) = (if t = s then n else 0) + effect s ops"
  "effect s (xs @ ys) = effect s xs + effect s ys"
  by (simp_all add: effect_def)

definition held :: "proc \<Rightarrow> semaphore \<Rightarrow> int" where
  "held p s = int (count_list (tokens (pc p)) s) + effect s (concat (pend p))"

text \<open>The operations that lead to a label: those of the protocol function called before it.\<close>

definition entry :: "build \<Rightarrow> label \<Rightarrow> sembuf list list" where
  "entry b l = (case l of
     Cook_Init \<Rightarrow> oven_before_insert b
   | Cook_Nap \<Rightarrow> oven_after_insert b
   | Cook_Take \<Rightarrow> oven_before_remove b
   | Cook_Move \<Rightarrow> oven_after_remove b
   | Cook_Put \<Rightarrow> table_before_put b
   | Cook_Prepare \<Rightarrow> table_after_put b
   | Deliv_Take \<Rightarrow> table_before_get b
   | Deliv_Go \<Rightarrow> table_after_get b
   | _ \<Rightarrow> [])"

fun tails :: "'a list \<Rightarrow> 'a list list" where
  "tails [] = [[]]"
| "tails (x # xs) = (x # xs) # tails xs"

definition on_track :: "build \<Rightarrow> proc \<Rightarrow> bool" where
  "on_track b p \<longleftrightarrow> pc p \<noteq> Dead \<and> pend p \<in> set (tails (entry b (pc p)))"

lemma tails_self: "xs \<in> set (tails xs)"
  by (cases xs) simp_all

lemma tails_tl: "x # xs \<in> set (tails ys) \<Longrightarrow> xs \<in> set (tails ys)"
  by (induction ys) (auto intro: tails_self)

lemma semop_effect:
  "semop ops v = Some w \<Longrightarrow> int (w s) = int (v s) + effect s ops"
proof (induction ops arbitrary: v)
  case (Cons x ops)
  obtain t n where x: "x = (t, n)" by (cases x)
  from Cons.prems Cons.IH[of "v(t := nat (int (v t) + n))"] show ?case
    by (cases "int (v t) + n < 0"; cases "t = s") (simp_all add: x fun_upd_def)
qed simp

lemma held_eq_tokens:
  "pend p = [] \<Longrightarrow> held p s = int (count_list (tokens (pc p)) s)"
  by (simp add: held_def)

lemma held_nonneg:
  assumes "on_track b p"
  shows "0 \<le> held p s"
  using assms unfolding on_track_def held_def
  by (cases "pc p"; cases b; cases s) (auto simp: entry_def protocol_defs)

definition token_delta :: "label \<Rightarrow> semaphore \<Rightarrow> int" where
  "token_delta l s =
    (if l = Cook_Put then (if s = TABLE_CAP then -1 else if s = TABLE_AVAIL then 1 else 0)
     else if l = Deliv_Clear then (if s = TABLE_CAP then 1 else if s = TABLE_AVAIL then -1 else 0)
     else 0)"

lemmas exec_defs = exec_stmt_def cook_stmt_def deliv_stmt_def rbind_eq_Inr c_assert_def

lemma exec_on_track:
  "exec_stmt b r p m = Ok (p', m', out) \<Longrightarrow> on_track b p' \<and> pend p' = entry b (pc p')"
  unfolding on_track_def
  by (cases "pc p") (auto simp: exec_defs entry_def tails_self split: if_splits)

lemma exec_held:
  "exec_stmt b r p m = Ok (p', m', out) \<Longrightarrow> pend p = [] \<Longrightarrow>
   held p' s = held p s + token_delta (pc p) s"
  by (cases "pc p"; cases b; cases s)
    (auto simp: exec_defs held_def token_delta_def protocol_defs split: if_split_asm)

lemma exec_oven:
  "exec_stmt b r p m = Ok (p', m', out) \<Longrightarrow>
   ovenslots m' = (if pc p = Cook_Store then (ovenslots m)[slot p := ptype p]
     else if pc p = Cook_Clear then (ovenslots m)[slot p := -1] else ovenslots m) \<and>
   inoven m' = inoven m + (if pc p = Cook_Inc then 1 else if pc p = Cook_Dec then -1 else 0)"
  by (cases "pc p") (auto simp: exec_defs store_def split: if_splits)

lemma exec_table:
  "exec_stmt b r p m = Ok (p', m', out) \<Longrightarrow>
   tableslots m' = (if pc p = Cook_Put then (tableslots m)[tablehead m := cooked p]
     else if pc p = Deliv_Clear then (tableslots m)[tabletail m := -1] else tableslots m) \<and>
   tablehead m' = (if pc p = Cook_Put then tablehead m + 1
     else if pc p = Cook_Wrap then tablehead m mod SLOTS else tablehead m) \<and>
   tabletail m' = (if pc p = Deliv_Clear then tabletail m + 1
     else if pc p = Deliv_Wrap then tabletail m mod SLOTS else tabletail m) \<and>
   ontable m' = ontable m + (if pc p = Cook_Count then 1 else if pc p = Deliv_Count then -1 else 0)"
  by (cases "pc p") (auto simp: exec_defs store_def split: if_splits)

section \<open>Counting tokens\<close>

definition sem_units :: "nat \<Rightarrow> semaphore \<Rightarrow> int" where
  "sem_units n s = (case s of OVEN_LK \<Rightarrow> 1 | OVEN_CAP \<Rightarrow> int SLOTS | TABLE_LK \<Rightarrow> 1
     | TABLE_CAP \<Rightarrow> int SLOTS - int n | TABLE_AVAIL \<Rightarrow> int n)"

definition token_inv :: "build \<Rightarrow> sem_values \<Rightarrow> proc list \<Rightarrow> nat \<Rightarrow> bool" where
  "token_inv b v ps n \<longleftrightarrow> (\<forall>p \<in> set ps. on_track b p) \<and>
     (\<forall>s. int (v s) + sum_procs (\<lambda>p. held p s) ps = sem_units n s)"

lemma token_inv_held_le:
  assumes "token_inv b v ps n" "i < length ps"
  shows "int (v s) + held (ps ! i) s \<le> sem_units n s"
proof -
  have "held (ps ! i) s \<le> sum_procs (\<lambda>p. held p s) ps"
    by (rule sum_procs_ge) (use assms held_nonneg in \<open>auto simp: token_inv_def\<close>)
  then show ?thesis
    using assms(1) unfolding token_inv_def by (metis add_left_mono)
qed

lemma token_inv_excl:
  assumes "token_inv b v ps n" "i < length ps" "j < length ps" "i \<noteq> j"
  shows "held (ps ! i) s + held (ps ! j) s \<le> sem_units n s"
proof -
  have "held (ps ! i) s + held (ps ! j) s \<le> sum_procs (\<lambda>p. held p s) ps"
    by (rule sum_procs_ge2) (use assms held_nonneg in \<open>auto simp: token_inv_def\<close>)
  moreover have "int (v s) + sum_procs (\<lambda>p. held p s) ps = sem_units n s"
    using assms(1) by (simp add: token_inv_def)
  ultimately show ?thesis by linarith
qed

lemma token_inv_on_track: "token_inv b v ps n \<Longrightarrow> i < length ps \<Longrightarrow> on_track b (ps ! i)"
  by (simp add: token_inv_def)

lemma update_on_track:
  assumes "\<forall>p \<in> set ps. on_track b p" "on_track b p'"
  shows "\<forall>p \<in> set (ps[i := p']). on_track b p"
  using assms set_update_subset_insert[of ps i p'] by auto

lemma token_inv_update:
  assumes inv: "token_inv b v ps n" and i: "i < length ps" and on: "on_track b p'"
    and moved: "\<And>s. int (w s) + held p' s - sem_units n' s
      = int (v s) + held (ps ! i) s - sem_units n s"
  shows "token_inv b w (ps[i := p']) n'"
  unfolding token_inv_def
proof (intro conjI allI)
  show "\<forall>p \<in> set (ps[i := p']). on_track b p"
    by (rule update_on_track) (use inv on in \<open>simp_all add: token_inv_def\<close>)
  fix s
  have "int (v s) + sum_procs (\<lambda>p. held p s) ps = sem_units n s"
    using inv by (simp add: token_inv_def)
  then show "int (w s) + sum_procs (\<lambda>p. held p s) (ps[i := p']) = sem_units n' s"
    using moved[of s] by (simp add: sum_procs_update[OF i])
qed

lemma token_inv_sem:
  assumes inv: "token_inv b v ps n" and i: "i < length ps"
    and pend: "pend (ps ! i) = ops # rest" and op: "semop ops v = Some w"
  shows "token_inv b w (ps[i := (ps ! i)\<lparr>pend := rest\<rparr>]) n"
proof (rule token_inv_update[OF inv i])
  show "on_track b ((ps ! i)\<lparr>pend := rest\<rparr>)"
    using token_inv_on_track[OF inv i] tails_tl[of ops rest] pend
    by (simp add: on_track_def)
  fix s show "int (w s) + held ((ps ! i)\<lparr>pend := rest\<rparr>) s - sem_units n s
      = int (v s) + held (ps ! i) s - sem_units n s"
    using semop_effect[OF op, of s] by (simp add: held_def pend)
qed

lemma token_inv_stmt:
  assumes inv: "token_inv b v ps n" and i: "i < length ps"
    and pend: "pend (ps ! i) = []" and ex: "exec_stmt b r (ps ! i) m = Ok (p', m', out)"
    and n': "int n' = int n + (if pc (ps ! i) = Cook_Put then 1
       else if pc (ps ! i) = Deliv_Clear then -1 else 0)"
  shows "token_inv b v (ps[i := p']) n'"
proof (rule token_inv_update[OF inv i])
  show "on_track b p'" using exec_on_track[OF ex] by simp
  fix s
  have "sem_units n' s = sem_units n s + token_delta (pc (ps ! i)) s"
    using n' by (cases s) (auto simp: sem_units_def token_delta_def)
  then show "int (v s) + held p' s - sem_units n' s
      = int (v s) + held (ps ! i) s - sem_units n s"
    using exec_held[OF ex pend, of s] by simp
qed

text \<open>
  Mutual exclusion. A process at a statement that holds a lock excludes every other process
  from the statements that need it.
\<close>

lemma lock_excl:
  assumes inv: "token_inv b v ps n" and ij: "i < length ps" "j < length ps" "i \<noteq> j"
    and lk: "lk \<in> {OVEN_LK, TABLE_LK}"
    and pi: "pend (ps ! i) = []" "lk \<in> set (tokens (pc (ps ! i)))"
    and pj: "pend (ps ! j) = []"
  shows "lk \<notin> set (tokens (pc (ps ! j)))"
proof
  assume "lk \<in> set (tokens (pc (ps ! j)))"
  then have "1 \<le> held (ps ! i) lk" "1 \<le> held (ps ! j) lk"
    using pi pj count_list_0_iff[of "tokens (pc (ps ! i))" lk]
      count_list_0_iff[of "tokens (pc (ps ! j))" lk]
    by (simp_all add: held_eq_tokens Suc_le_eq)
  moreover have "held (ps ! i) lk + held (ps ! j) lk \<le> 1"
    using token_inv_excl[OF inv ij, of lk] lk by (auto simp: sem_units_def)
  ultimately show False by linarith
qed

lemma pend_inside:
  "on_track b p \<Longrightarrow> entry b (pc p) = [] \<Longrightarrow> pend p = []"
  by (simp add: on_track_def)

section \<open>The oven\<close>

definition owns_slot :: "label \<Rightarrow> bool" where
  "owns_slot l \<longleftrightarrow> l \<in> {Cook_Inc, Cook_Report_In, Cook_Nap, Cook_Take, Cook_Clear}"

definition oven_adj :: "proc \<Rightarrow> int" where
  "oven_adj p = (if pc p = Cook_Inc then -1 else if pc p = Cook_Dec then 1 else 0)"

definition oven_count :: "int list \<Rightarrow> int" where
  "oven_count xs = sum_list (map (\<lambda>x. of_bool (0 \<le> x)) xs)"

definition oven_local :: "shared \<Rightarrow> proc \<Rightarrow> bool" where
  "oven_local m p \<longleftrightarrow> 0 \<le> ptype p \<and> ptype p < 10 \<and>
     (owns_slot (pc p) \<longrightarrow> slot p < SLOTS \<and> ovenslots m ! slot p = ptype p) \<and>
     (pc p = Cook_Scan \<longrightarrow> slot p \<le> SLOTS \<and> (\<forall>j < slot p. 0 \<le> ovenslots m ! j)) \<and>
     (pc p \<in> {Cook_Check, Cook_Store} \<longrightarrow> slot p < SLOTS \<and> ovenslots m ! slot p < 0) \<and>
     (pc p \<in> {Cook_Clear, Cook_Dec, Cook_Move, Cook_Put, Cook_Wrap, Cook_Count, Cook_Report_Out}
        \<longrightarrow> cooked p = ptype p)"

definition oven_inv :: "shared \<Rightarrow> proc list \<Rightarrow> bool" where
  "oven_inv m ps \<longleftrightarrow> length (ovenslots m) = SLOTS \<and>
     (\<forall>i < length ps. oven_local m (ps ! i)) \<and>
     (\<forall>i < length ps. \<forall>j < length ps. i \<noteq> j \<longrightarrow> owns_slot (pc (ps ! i)) \<longrightarrow>
        owns_slot (pc (ps ! j)) \<longrightarrow> slot (ps ! i) \<noteq> slot (ps ! j)) \<and>
     oven_count (ovenslots m) = sum_procs (\<lambda>p. of_bool (owns_slot (pc p))) ps \<and>
     inoven m = oven_count (ovenslots m) + sum_procs oven_adj ps"

lemma oven_count_update:
  "i < length xs \<Longrightarrow>
   oven_count (xs[i := v]) = oven_count xs - of_bool (0 \<le> xs ! i) + of_bool (0 \<le> v)"
  unfolding oven_count_def by (induction xs arbitrary: i) (auto split: nat.splits)

lemma oven_count_full: "(\<forall>x \<in> set xs. 0 \<le> x) \<Longrightarrow> oven_count xs = int (length xs)"
  unfolding oven_count_def by (induction xs) auto

lemma own_le_cap:
  assumes "on_track b p" shows "of_bool (owns_slot (pc p)) \<le> held p OVEN_CAP"
  using assms unfolding on_track_def held_def owns_slot_def
  by (cases "pc p"; cases b) (auto simp: entry_def protocol_defs)

text \<open>A cook that looks for a slot finds one: it has a unit of the oven's capacity in hand.\<close>

lemma oven_has_free_slot:
  assumes oi: "oven_inv m ps" and ti: "token_inv b v ps n" and i: "i < length ps"
    and pc: "pc (ps ! i) = Cook_Scan" and pend: "pend (ps ! i) = []"
  shows "slot (ps ! i) < SLOTS"
proof (rule ccontr)
  assume full: "\<not> slot (ps ! i) < SLOTS"
  let ?own = "\<lambda>p. of_bool (owns_slot (pc p)) :: int" and ?cap = "\<lambda>p. held p OVEN_CAP"
  have "\<forall>x \<in> set (ovenslots m). 0 \<le> x"
    using oi i pc full unfolding oven_inv_def oven_local_def by (auto simp: in_set_conv_nth)
  then have "sum_procs ?own ps = int SLOTS"
    using oi by (simp add: oven_inv_def oven_count_full)
  moreover have "?own p \<le> ?cap p" if "p \<in> set ps" for p
    by (rule own_le_cap[of b]) (use ti that in \<open>simp add: token_inv_def\<close>)
  then have "?cap (ps ! i) - ?own (ps ! i) \<le> sum_procs (\<lambda>p. ?cap p - ?own p) ps"
    using sum_procs_ge[of ps "\<lambda>p. ?cap p - ?own p" i] i by simp
  moreover have "sum_procs (\<lambda>p. ?cap p - ?own p) ps = sum_procs ?cap ps - sum_procs ?own ps"
    by (simp add: sum_procs_def sum_list_subtractf)
  moreover have "int (v OVEN_CAP) + sum_procs ?cap ps = int SLOTS"
    using ti by (auto simp: token_inv_def sem_units_def)
  moreover have "?cap (ps ! i) = 1" "?own (ps ! i) = 0"
    using pc pend by (simp_all add: held_def owns_slot_def)
  ultimately show False by linarith
qed

end
