(* ===== verification/Pizza_Run.thy ===== *)
theory Pizza_Run
  imports Pizza_Inv
begin

text \<open>
  The invariants of the oven and of the table under the steps of the pizzeria, and the
  properties of every reachable state: no assertion fails and no index leaves its array,
  the locks exclude, the pizzas leave the table in the order they were put there, and the
  pizzeria never comes to a standstill.
\<close>

section \<open>The oven under a step\<close>

lemma exec_owns:
  "exec_stmt b r p m = Ok (p', m', out) \<Longrightarrow>
   owns_slot (pc p') \<longleftrightarrow> pc p = Cook_Store \<or> pc p \<noteq> Cook_Clear \<and> owns_slot (pc p)"
  by (cases "pc p") (auto simp: exec_defs owns_slot_def split: if_split_asm)

lemma exec_slot:
  "exec_stmt b r p m = Ok (p', m', out) \<Longrightarrow> owns_slot (pc p') \<Longrightarrow> slot p' = slot p"
  by (cases "pc p") (auto simp: exec_defs owns_slot_def split: if_split_asm)

lemma exec_oven_adj:
  "exec_stmt b r p m = Ok (p', m', out) \<Longrightarrow>
   oven_adj p' = oven_adj p + (if pc p \<in> {Cook_Inc, Cook_Clear} then 1
     else if pc p \<in> {Cook_Store, Cook_Dec} then -1 else 0)"
  by (cases "pc p") (auto simp: exec_defs oven_adj_def split: if_split_asm)

lemma scan_stmt:
  assumes "pc p = Cook_Scan" "slot p < SLOTS" "length (ovenslots m) = SLOTS"
    and "exec_stmt b r p m = Ok (p', m', out)"
  shows "m' = m \<and> p' = (if ovenslots m ! slot p < 0 then jump Cook_Check [] p
     else jump Cook_Scan [] (p\<lparr>slot := slot p + 1\<rparr>))"
  using assms by (simp add: exec_stmt_def cook_stmt_def load_def split: if_split_asm)

lemma oven_local_scan:
  assumes "oven_local m p" "length (ovenslots m) = SLOTS" "pc p = Cook_Scan" "slot p < SLOTS"
    and "exec_stmt b r p m = Ok (p', m', out)"
  shows "oven_local m' p'"
  using assms(1,3,4) scan_stmt[OF assms(3,4,2,5)]
  by (auto simp: oven_local_def owns_slot_def less_Suc_eq)

lemma oven_local_self:
  assumes "oven_local m p" "length (ovenslots m) = SLOTS" "pc p = Cook_Scan \<Longrightarrow> slot p < SLOTS"
    and "exec_stmt b r p m = Ok (p', m', out)"
  shows "oven_local m' p'"
proof (cases "pc p = Cook_Scan")
  case True
  then show ?thesis using assms oven_local_scan by blast
next
  case False
  then show ?thesis
    using assms(1,2,4)
    by (cases "pc p")
      (simp_all add: exec_defs oven_local_def owns_slot_def load_def store_def split: if_split_asm,
       clarsimp+)
qed

lemma oven_local_other:
  assumes loc: "oven_local m q" and len: "length (ovenslots m) = SLOTS"
    and same: "\<And>k. k \<noteq> s \<Longrightarrow> ovenslots m' ! k = ovenslots m ! k"
    and slot: "owns_slot (pc q) \<Longrightarrow> slot q \<noteq> s"
    and out: "pc q \<notin> {Cook_Scan, Cook_Check, Cook_Store}"
  shows "oven_local m' q"
  using assms by (simp add: oven_local_def)

lemma oven_inv_sem:
  "oven_inv m ps \<Longrightarrow> i < length ps \<Longrightarrow> oven_inv m (ps[i := (ps ! i)\<lparr>pend := x\<rparr>])"
  by (auto simp: oven_inv_def nth_list_update sum_procs_update oven_adj_def oven_local_def)

lemma oven_inv_stmt:
  assumes oi: "oven_inv m ps" and ti: "token_inv b v ps n" and i: "i < length ps"
    and pend: "pend (ps ! i) = []" and ex: "exec_stmt b r (ps ! i) m = Ok (p', m', out)"
  shows "oven_inv m' (ps[i := p'])"
proof -
  let ?p = "ps ! i"
  have len: "length (ovenslots m) = SLOTS"
    and loc: "\<And>j. j < length ps \<Longrightarrow> oven_local m (ps ! j)"
    and dist: "\<And>j k. j < length ps \<Longrightarrow> k < length ps \<Longrightarrow> j \<noteq> k \<Longrightarrow>
      owns_slot (pc (ps ! j)) \<Longrightarrow> owns_slot (pc (ps ! k)) \<Longrightarrow> slot (ps ! j) \<noteq> slot (ps ! k)"
    and count: "oven_count (ovenslots m) = sum_procs (\<lambda>p. of_bool (owns_slot (pc p))) ps"
    and inoven: "inoven m = oven_count (ovenslots m) + sum_procs oven_adj ps"
    using oi by (simp_all add: oven_inv_def)
  have slots: "ovenslots m' = (if pc ?p = Cook_Store then (ovenslots m)[slot ?p := ptype ?p]
      else if pc ?p = Cook_Clear then (ovenslots m)[slot ?p := -1] else ovenslots m)"
    and inoven': "inoven m' = inoven m + (if pc ?p = Cook_Inc then 1 else if pc ?p = Cook_Dec then -1 else 0)"
    using exec_oven[OF ex] by simp_all
  have own_slot: "slot (ps ! j) \<noteq> slot ?p"
    if "j < length ps" "j \<noteq> i" "owns_slot (pc (ps ! j))" "pc ?p \<in> {Cook_Store, Cook_Clear}" for j
  proof
    assume eq: "slot (ps ! j) = slot ?p"
    from that(4) show False
    proof (elim insertE emptyE)
      assume "pc ?p = Cook_Store"
      then show False using loc[OF i] loc[OF that(1)] that(3) eq by (simp add: oven_local_def)
    next
      assume "pc ?p = Cook_Clear"
      then show False using dist[OF that(1) i that(2,3)] eq by (simp add: owns_slot_def)
    qed
  qed
  have others: "oven_local m' (ps ! j)" if j: "j < length ps" "j \<noteq> i" for j
  proof (cases "pc ?p \<in> {Cook_Store, Cook_Clear}")
    case True
    have "pc (ps ! j) \<notin> {Cook_Scan, Cook_Check, Cook_Store}"
    proof
      assume inside: "pc (ps ! j) \<in> {Cook_Scan, Cook_Check, Cook_Store}"
      then have "pend (ps ! j) = []"
        by (intro pend_inside[OF token_inv_on_track[OF ti j(1)]]) (auto simp: entry_def)
      then show False
        using lock_excl[OF ti i j(1) j(2)[symmetric], of OVEN_LK] inside pend True by auto
    qed
    then show ?thesis
      using own_slot[OF j] True
      by (intro oven_local_other[OF loc[OF j(1)] len, of "slot ?p"]) (auto simp: slots)
  next
    case False
    then show ?thesis using loc[OF j(1)] by (simp add: oven_local_def slots)
  qed
  show ?thesis
    unfolding oven_inv_def
  proof (intro conjI allI impI)
    show "length (ovenslots m') = SLOTS" using len by (simp add: slots)
    fix j assume "j < length (ps[i := p'])"
    then show "oven_local m' (ps[i := p'] ! j)"
      using others oven_local_self[OF loc[OF i] len _ ex] oven_has_free_slot[OF oi ti i _ pend]
      by (auto simp: nth_list_update i)
  next
    fix j k
    assume "j < length (ps[i := p'])" "k < length (ps[i := p'])" "j \<noteq> k"
      "owns_slot (pc (ps[i := p'] ! j))" "owns_slot (pc (ps[i := p'] ! k))"
    then show "slot (ps[i := p'] ! j) \<noteq> slot (ps[i := p'] ! k)"
      using dist[of j k] own_slot[of j] own_slot[of k] exec_owns[OF ex] exec_slot[OF ex]
      by (auto simp: nth_list_update i split: if_split_asm)
  next
    have moved: "oven_count (ovenslots m') = oven_count (ovenslots m)
        + (if pc ?p = Cook_Store then 1 else if pc ?p = Cook_Clear then -1 else 0)"
    proof -
      have "pc ?p = Cook_Store \<Longrightarrow> slot ?p < SLOTS \<and> ovenslots m ! slot ?p < 0 \<and> 0 \<le> ptype ?p"
        and "pc ?p = Cook_Clear \<Longrightarrow> slot ?p < SLOTS \<and> 0 \<le> ovenslots m ! slot ?p"
        using loc[OF i] by (simp_all add: oven_local_def owns_slot_def)
      then show ?thesis
        by (cases "pc ?p = Cook_Store"; cases "pc ?p = Cook_Clear")
          (simp_all add: slots oven_count_update len)
    qed
    have "(of_bool (owns_slot (pc p')) :: int) = of_bool (owns_slot (pc ?p))
        + (if pc ?p = Cook_Store then 1 else if pc ?p = Cook_Clear then -1 else 0)"
      using exec_owns[OF ex] by (simp add: owns_slot_def)
    then show "oven_count (ovenslots m') = sum_procs (\<lambda>p. of_bool (owns_slot (pc p))) (ps[i := p'])"
      by (simp add: moved count sum_procs_update i)
    have "oven_adj p' = oven_adj ?p + (inoven m' - inoven m)
        - (oven_count (ovenslots m') - oven_count (ovenslots m))"
      unfolding exec_oven_adj[OF ex] inoven' moved by (cases "pc ?p") simp_all
    then show "inoven m' = oven_count (ovenslots m') + sum_procs oven_adj (ps[i := p'])"
      by (simp add: inoven sum_procs_update i)
  qed
qed

section \<open>The ring of table places\<close>

lemma SLOTS_pos [simp]: "0 < SLOTS"
  by (simp add: SLOTS_def)

definition ring :: "shared \<Rightarrow> int list \<Rightarrow> bool" where
  "ring m q \<longleftrightarrow> length (tableslots m) = SLOTS \<and> tablehead m \<le> SLOTS \<and> tabletail m \<le> SLOTS \<and>
     tablehead m mod SLOTS = (tabletail m + length q) mod SLOTS \<and>
     (\<forall>j < length q. tableslots m ! ((tabletail m + j) mod SLOTS) = q ! j)"

lemma mod_add_neq:
  assumes "j < k" "k < (n::nat)"
  shows "(a + k) mod n \<noteq> (a + j) mod n"
proof
  assume "(a + k) mod n = (a + j) mod n"
  then have "n dvd k - j"
    using assms(1) mod_eq_dvd_iff_nat[of "a + j" "a + k" n] by simp
  then show False using assms by (auto dest: dvd_imp_le)
qed

lemma ring_put:
  assumes "ring m q" "length q < SLOTS" "tablehead m < SLOTS"
  shows "ring (m\<lparr>tableslots := (tableslots m)[tablehead m := c], tablehead := tablehead m + 1\<rparr>) (q @ [c])"
proof -
  have head: "tablehead m = (tabletail m + length q) mod SLOTS"
    using assms by (simp add: ring_def)
  have "tablehead m \<noteq> (tabletail m + j) mod SLOTS" if "j < length q" for j
    using mod_add_neq[of j "length q" SLOTS "tabletail m"] that assms(2) head by auto
  moreover have "(tablehead m + 1) mod SLOTS = (tabletail m + Suc (length q)) mod SLOTS"
    unfolding head by (simp add: mod_Suc_eq)
  ultimately show ?thesis
    using assms by (auto simp: ring_def nth_append less_Suc_eq simp flip: head)
qed

lemma ring_get:
  assumes "ring m q" "q \<noteq> []" "length q \<le> SLOTS" "tabletail m < SLOTS"
  shows "tableslots m ! tabletail m = hd q"
    and "ring (m\<lparr>tableslots := (tableslots m)[tabletail m := c], tabletail := tabletail m + 1\<rparr>) (tl q)"
proof -
  obtain x xs where q: "q = x # xs" using assms(2) by (cases q) auto
  have at: "tableslots m ! ((tabletail m + j) mod SLOTS) = q ! j" if "j < length q" for j
    using assms(1) that by (simp add: ring_def)
  from at[of 0] show "tableslots m ! tabletail m = hd q"
    using assms(4) by (simp add: q)
  have "tabletail m \<noteq> Suc (tabletail m + j) mod SLOTS" if "j < length xs" for j
    using mod_add_neq[of 0 "Suc j" SLOTS "tabletail m"] that assms(3,4) by (auto simp: q)
  then show "ring (m\<lparr>tableslots := (tableslots m)[tabletail m := c],
      tabletail := tabletail m + 1\<rparr>) (tl q)"
    using assms(1,4) at[of "Suc j" for j] by (auto simp: ring_def q)
qed

lemma ring_wrap:
  assumes "ring m q"
  shows "ring (m\<lparr>tablehead := tablehead m mod SLOTS\<rparr>) q"
    and "ring (m\<lparr>tabletail := tabletail m mod SLOTS\<rparr>) q"
  using assms by (simp_all add: ring_def mod_add_left_eq less_imp_le)

lemma ring_other [simp]:
  "ring (m\<lparr>ontable := x\<rparr>) q = ring m q" "ring (m\<lparr>inoven := x\<rparr>) q = ring m q"
  "ring (m\<lparr>ovenslots := o'\<rparr>) q = ring m q"
  by (simp_all add: ring_def)

section \<open>The table under a step\<close>

definition put_of :: "nat \<times> event \<Rightarrow> int list" where
  "put_of e = (case snd e of Cooked c _ _ \<Rightarrow> [c] | _ \<Rightarrow> [])"

definition took_of :: "nat \<times> event \<Rightarrow> int list" where
  "took_of e = (case snd e of Took c _ \<Rightarrow> [c] | _ \<Rightarrow> [])"

text \<open>The pizzas reported as put on the table, and as taken from it, in order.\<close>

definition put_log :: "(nat \<times> event) list \<Rightarrow> int list" where
  "put_log l = concat (map put_of l)"

definition took_log :: "(nat \<times> event) list \<Rightarrow> int list" where
  "took_log l = concat (map took_of l)"

lemma log_append:
  "put_log (l @ k) = put_log l @ put_log k" "took_log (l @ k) = took_log l @ took_log k"
  by (simp_all add: put_log_def took_log_def)

lemma log_single:
  "put_log [] = []" "took_log [] = []"
  "put_log [e] = put_of e" "took_log [e] = took_of e"
  by (simp_all add: put_log_def took_log_def)

definition pending_put :: "proc \<Rightarrow> int list" where
  "pending_put p = (if pc p \<in> {Cook_Wrap, Cook_Count, Cook_Report_Out} then [cooked p] else [])"

definition pending_took :: "proc \<Rightarrow> int list" where
  "pending_took p =
    (if pc p \<in> {Deliv_Check, Deliv_Wrap, Deliv_Count, Deliv_Report} then [pizza p] else [])"

definition table_adj :: "proc \<Rightarrow> int" where
  "table_adj p = (if pc p \<in> {Cook_Wrap, Cook_Count} then 1
     else if pc p \<in> {Deliv_Check, Deliv_Wrap, Deliv_Count} then -1 else 0)"

definition table_local :: "int list \<Rightarrow> proc \<Rightarrow> bool" where
  "table_local q p \<longleftrightarrow> (pc p = Deliv_Clear \<longrightarrow> q \<noteq> [] \<and> pizza p = hd q) \<and>
     (pc p \<in> {Deliv_Check, Deliv_Wrap, Deliv_Count, Deliv_Report, Deliv_Go} \<longrightarrow>
        0 \<le> pizza p \<and> pizza p < 10)"

text \<open>What holds of the table while only process \<open>p\<close> may be between its statements.\<close>

definition solo :: "shared \<Rightarrow> (nat \<times> event) list \<Rightarrow> int list \<Rightarrow> proc \<Rightarrow> bool" where
  "solo m l q p \<longleftrightarrow> ring m q \<and> (\<forall>x \<in> set q. 0 \<le> x \<and> x < 10) \<and>
     (tablehead m = SLOTS \<longrightarrow> pc p = Cook_Wrap) \<and>
     (tabletail m = SLOTS \<longrightarrow> pc p \<in> {Deliv_Check, Deliv_Wrap}) \<and>
     table_local q p \<and> int (length q) = ontable m + table_adj p \<and>
     put_log l @ pending_put p = took_log l @ pending_took p @ q"

definition table_inv :: "shared \<Rightarrow> proc list \<Rightarrow> (nat \<times> event) list \<Rightarrow> int list \<Rightarrow> bool" where
  "table_inv m ps l q \<longleftrightarrow> ring m q \<and> (\<forall>x \<in> set q. 0 \<le> x \<and> x < 10) \<and>
     (tablehead m = SLOTS \<longrightarrow> (\<exists>i < length ps. pc (ps ! i) = Cook_Wrap)) \<and>
     (tabletail m = SLOTS \<longrightarrow> (\<exists>i < length ps. pc (ps ! i) \<in> {Deliv_Check, Deliv_Wrap})) \<and>
     (\<forall>i < length ps. table_local q (ps ! i)) \<and>
     int (length q) = ontable m + sum_procs table_adj ps \<and>
     put_log l @ concat (map pending_put ps) = took_log l @ concat (map pending_took ps) @ q"

text \<open>The items on the table after a statement.\<close>

definition items_after :: "proc \<Rightarrow> int list \<Rightarrow> int list" where
  "items_after p q = (if pc p = Cook_Put then q @ [cooked p]
     else if pc p = Deliv_Clear then tl q else q)"

abbreviation at_table :: "proc \<Rightarrow> bool" where
  "at_table p \<equiv> TABLE_LK \<in> set (tokens (pc p))"

lemmas table_defs = table_local_def table_adj_def pending_put_def pending_took_def

lemma solo_put:
  assumes "solo m l q p" "pc p = Cook_Put" "exec_stmt b r p m = Ok (p', m', out)"
    and "length q < SLOTS" "0 \<le> cooked p" "cooked p < 10"
  shows "solo m' (l @ map (Pair i) out) (q @ [cooked p]) p'"
proof -
  have "tablehead m < SLOTS" "ring m q"
    using assms(1,2) by (auto simp: solo_def ring_def)
  then show ?thesis
    using assms ring_put[of m q "cooked p"]
    by (auto simp: solo_def exec_defs store_def table_defs split: if_split_asm)
qed

lemma solo_get:
  assumes "solo m l q p" "pc p = Deliv_Clear" "exec_stmt b r p m = Ok (p', m', out)"
    and "length q \<le> SLOTS"
  shows "solo m' (l @ map (Pair i) out) (tl q) p'"
proof -
  have tail: "tabletail m < SLOTS" and r: "ring m q" and q: "q \<noteq> []" "pizza p = hd q"
    using assms(1,2) by (auto simp: solo_def ring_def table_local_def)
  obtain x xs where "q = x # xs" using q(1) by (cases q) auto
  then show ?thesis
    using assms ring_get(2)[OF r q(1) assms(4) tail, of "-1"] q(2)
    by (auto simp: solo_def exec_defs store_def table_defs split: if_split_asm)
qed

lemma solo_take:
  assumes "solo m l q p" "pc p = Deliv_Take" "exec_stmt b r p m = Ok (p', m', out)"
    and "q \<noteq> []" "length q \<le> SLOTS"
  shows "solo m' (l @ map (Pair i) out) q p'"
proof -
  have tail: "tabletail m < SLOTS" and r: "ring m q"
    using assms(1,2) by (auto simp: solo_def ring_def)
  then show ?thesis
    using assms ring_get(1)[OF r assms(4,5) tail]
    by (auto simp: solo_def exec_defs load_def table_defs split: if_split_asm)
qed

lemma solo_wrap:
  assumes "solo m l q p" "pc p \<in> {Cook_Wrap, Deliv_Wrap}" "exec_stmt b r p m = Ok (p', m', out)"
  shows "solo m' (l @ map (Pair i) out) q p'"
proof -
  have "x mod SLOTS \<noteq> SLOTS" for x
    using mod_less_divisor[OF SLOTS_pos, of x] by linarith
  then have ne: "(x mod SLOTS = SLOTS) = False" for x by simp
  have r: "ring m q" using assms(1) by (simp add: solo_def)
  from assms(2) show ?thesis
  proof (elim insertE emptyE)
    assume pc: "pc p = Cook_Wrap"
    then have "p' = jump Cook_Count [] p \<and> m' = m\<lparr>tablehead := tablehead m mod SLOTS\<rparr> \<and> out = []"
      using assms(3) by (auto simp: exec_stmt_def cook_stmt_def)
    then show ?thesis using assms(1) pc ring_wrap[OF r] by (simp add: solo_def table_defs ne)
  next
    assume pc: "pc p = Deliv_Wrap"
    then have "p' = jump Deliv_Count [] p \<and> m' = m\<lparr>tabletail := tabletail m mod SLOTS\<rparr> \<and> out = []"
      using assms(3) by (auto simp: exec_stmt_def deliv_stmt_def)
    then show ?thesis using assms(1) pc ring_wrap[OF r] by (simp add: solo_def table_defs ne)
  qed
qed

lemma solo_rest:
  assumes "solo m l q p" "exec_stmt b r p m = Ok (p', m', out)"
    and "pc p \<in> {Cook_Count, Cook_Report_Out, Deliv_Check, Deliv_Count, Deliv_Report}"
  shows "solo m' (l @ map (Pair i) out) q p'"
  using assms(3,1,2)
  by (elim insertE emptyE)
    (auto simp: solo_def exec_defs table_defs log_append log_single put_of_def took_of_def
      split: if_split_asm)

lemma solo_step:
  assumes "solo m l q p" "at_table p" "exec_stmt b r p m = Ok (p', m', out)"
    and "pc p = Cook_Put \<Longrightarrow> length q < SLOTS \<and> 0 \<le> cooked p \<and> cooked p < 10"
    and "pc p = Deliv_Take \<Longrightarrow> q \<noteq> []" "length q \<le> SLOTS"
  shows "solo m' (l @ map (Pair i) out) (items_after p q) p'"
  using assms
    solo_put[OF assms(1) _ assms(3), of i] solo_get[OF assms(1) _ assms(3,6), of i]
    solo_take[OF assms(1) _ assms(3) _ assms(6), of i] solo_wrap[OF assms(1) _ assms(3), of i]
    solo_rest[OF assms(1,3), of i]
  by (cases "pc p") (simp_all add: items_after_def)

text \<open>Statements elsewhere leave the table alone.\<close>

lemma exec_outside:
  assumes "\<not> at_table p" "exec_stmt b r p m = Ok (p', m', out)"
  shows "pending_put p = [] \<and> pending_took p = [] \<and> table_adj p = 0 \<and>
    pending_put p' = [] \<and> pending_took p' = [] \<and> table_adj p' = 0 \<and>
    put_log (map (Pair i) out) = [] \<and> took_log (map (Pair i) out) = [] \<and> items_after p q = q \<and>
    pc p \<notin> {Cook_Wrap, Deliv_Check, Deliv_Wrap}"
  using assms
  by (cases "pc p")
    (auto simp: exec_defs table_defs log_single put_of_def took_of_def items_after_def
      split: if_split_asm)

lemma at_table_go:
  "\<not> at_table p \<Longrightarrow> exec_stmt b r p m = Ok (p', m', out) \<Longrightarrow> table_local q p \<Longrightarrow> table_local q p'"
  by (cases "pc p") (auto simp: exec_defs table_local_def split: if_split_asm)

lemma exec_outside_mem:
  assumes "\<not> at_table p" "exec_stmt b r p m = Ok (p', m', out)"
  shows "ring m' q = ring m q \<and> tablehead m' = tablehead m \<and> tabletail m' = tabletail m \<and>
    ontable m' = ontable m"
proof -
  have "pc p \<noteq> Cook_Put" "pc p \<noteq> Deliv_Clear" "pc p \<noteq> Cook_Wrap" "pc p \<noteq> Deliv_Wrap"
    "pc p \<noteq> Cook_Count" "pc p \<noteq> Deliv_Count"
    using assms(1) by auto
  then show ?thesis using exec_table[OF assms(2)] by (simp add: ring_def)
qed

text \<open>The table when all processes but \<open>i\<close> are elsewhere.\<close>

definition elsewhere :: "proc \<Rightarrow> bool" where
  "elsewhere p \<longleftrightarrow> pc p \<notin> {Cook_Wrap, Cook_Count, Cook_Report_Out, Deliv_Clear, Deliv_Check,
     Deliv_Wrap, Deliv_Count, Deliv_Report}"

lemma concat_single:
  "i < length ps \<Longrightarrow> (\<And>j. j < length ps \<Longrightarrow> j \<noteq> i \<Longrightarrow> g (ps ! j) = []) \<Longrightarrow>
   concat (map g ps) = g (ps ! i)"
proof (induction ps arbitrary: i)
  case (Cons p ps)
  show ?case
  proof (cases i)
    case 0
    have "g x = []" if "x \<in> set ps" for x
      using that Cons.prems(2)[of "Suc k" for k] 0 by (force simp: in_set_conv_nth)
    then show ?thesis by (simp add: 0)
  next
    case (Suc k)
    have "concat (map g ps) = g (ps ! k)"
      using Cons.prems(1) Cons.prems(2)[of "Suc j" for j] Suc by (intro Cons.IH) auto
    then show ?thesis using Cons.prems(2)[of 0] Suc by simp
  qed
qed simp

lemma sum_procs_single:
  assumes "i < length ps" "\<And>j. j < length ps \<Longrightarrow> j \<noteq> i \<Longrightarrow> f (ps ! j) = 0"
  shows "sum_procs f ps = f (ps ! i)"
proof -
  have "sum_procs f ps = (\<Sum>j = 0..<length ps. f (ps ! j))"
    by (simp add: sum_procs_def sum_list_sum_nth)
  also have "\<dots> = (\<Sum>j \<in> {i}. f (ps ! j))"
    by (rule sum.mono_neutral_right) (use assms in auto)
  finally show ?thesis by simp
qed

lemma elsewhere_quiet:
  "elsewhere p \<Longrightarrow> pending_put p = [] \<and> pending_took p = [] \<and> table_adj p = 0 \<and>
    table_local q p = table_local q' p \<and> pc p \<notin> {Cook_Wrap, Deliv_Check, Deliv_Wrap}"
  by (auto simp: elsewhere_def table_defs)

lemma table_inv_solo:
  assumes i: "i < length ps" and els: "\<And>j. j < length ps \<Longrightarrow> j \<noteq> i \<Longrightarrow> elsewhere (ps ! j)"
  shows "table_inv m ps l q \<longleftrightarrow>
    solo m l q (ps ! i) \<and> (\<forall>j < length ps. j \<noteq> i \<longrightarrow> table_local q (ps ! j))"
proof -
  have "concat (map pending_put ps) = pending_put (ps ! i)"
    "concat (map pending_took ps) = pending_took (ps ! i)"
    by (rule concat_single[OF i], use els elsewhere_quiet in blast)+
  moreover have "sum_procs table_adj ps = table_adj (ps ! i)"
    by (rule sum_procs_single[OF i]) (use els elsewhere_quiet in blast)
  moreover have "(\<exists>k < length ps. pc (ps ! k) \<in> L) \<longleftrightarrow> pc (ps ! i) \<in> L"
    if "L \<subseteq> {Cook_Wrap, Deliv_Check, Deliv_Wrap}" for L
    using i els elsewhere_quiet that by blast
  from this[of "{Cook_Wrap}"] this[of "{Deliv_Check, Deliv_Wrap}"]
  have "(\<exists>k < length ps. pc (ps ! k) = Cook_Wrap) \<longleftrightarrow> pc (ps ! i) = Cook_Wrap"
    "(\<exists>k < length ps. pc (ps ! k) \<in> {Deliv_Check, Deliv_Wrap})
      \<longleftrightarrow> pc (ps ! i) \<in> {Deliv_Check, Deliv_Wrap}"
    by simp_all
  moreover have "(\<forall>j < length ps. table_local q (ps ! j)) \<longleftrightarrow>
      table_local q (ps ! i) \<and> (\<forall>j < length ps. j \<noteq> i \<longrightarrow> table_local q (ps ! j))"
    using i by auto
  ultimately show ?thesis unfolding table_inv_def solo_def by (simp only:) blast
qed

lemma alone_at_table:
  assumes ti: "token_inv b v ps n" and i: "i < length ps" "pend (ps ! i) = []" "at_table (ps ! i)"
    and j: "j < length ps" "j \<noteq> i"
  shows "elsewhere (ps ! j)"
proof (rule ccontr)
  assume inside: "\<not> elsewhere (ps ! j)"
  then have "pend (ps ! j) = []"
    by (intro pend_inside[OF token_inv_on_track[OF ti j(1)]]) (auto simp: elsewhere_def entry_def)
  then show False
    using lock_excl[OF ti i(1) j(1) j(2)[symmetric], of TABLE_LK] inside i
    by (auto simp: elsewhere_def)
qed

lemma map_update_same:
  "i < length ps \<Longrightarrow> g p' = g (ps ! i) \<Longrightarrow> map g (ps[i := p']) = map g ps"
  by (metis list_update_id map_update)

lemma pend_irrelevant:
  "pending_put (p\<lparr>pend := x\<rparr>) = pending_put p" "pending_took (p\<lparr>pend := x\<rparr>) = pending_took p"
  "table_adj (p\<lparr>pend := x\<rparr>) = table_adj p" "table_local q (p\<lparr>pend := x\<rparr>) = table_local q p"
  by (simp_all add: table_defs)

lemma table_inv_sem:
  assumes "table_inv m ps l q" "i < length ps"
  shows "table_inv m (ps[i := (ps ! i)\<lparr>pend := x\<rparr>]) l q"
proof -
  let ?ps = "ps[i := (ps ! i)\<lparr>pend := x\<rparr>]"
  have pcs: "pc (?ps ! j) = pc (ps ! j)" "table_local q (?ps ! j) = table_local q (ps ! j)" for j
    using assms(2) by (simp_all add: nth_list_update pend_irrelevant)
  have "map pending_put ?ps = map pending_put ps" "map pending_took ?ps = map pending_took ps"
    by (rule map_update_same[OF assms(2)], simp add: pend_irrelevant)+
  moreover have "sum_procs table_adj ?ps = sum_procs table_adj ps"
    by (simp add: sum_procs_update[OF assms(2)] pend_irrelevant)
  ultimately show ?thesis
    using assms(1) unfolding table_inv_def pcs length_list_update by simp
qed

lemma table_inv_inside:
  assumes tab: "table_inv m ps l q" and ti: "token_inv b v ps n" and i: "i < length ps"
    and pend: "pend (ps ! i) = []" and ex: "exec_stmt b r (ps ! i) m = Ok (p', m', out)"
    and at: "at_table (ps ! i)"
    and put: "pc (ps ! i) = Cook_Put \<Longrightarrow> length q < SLOTS \<and> 0 \<le> cooked (ps ! i) \<and> cooked (ps ! i) < 10"
    and take: "pc (ps ! i) = Deliv_Take \<Longrightarrow> q \<noteq> []" and len: "length q \<le> SLOTS"
  shows "table_inv m' (ps[i := p']) (l @ map (Pair i) out) (items_after (ps ! i) q)"
proof -
  have els: "elsewhere (ps ! j)" if "j < length ps" "j \<noteq> i" for j
    using alone_at_table[OF ti i pend at] that by blast
  note solo_ps = table_inv_solo[OF i els]
  have "solo m l q (ps ! i)"
    using tab solo_ps by simp
  then have new: "solo m' (l @ map (Pair i) out) (items_after (ps ! i) q) p'"
    using solo_step at ex put take len by blast
  have "table_local (items_after (ps ! i) q) (ps ! j)" if "j < length ps" "j \<noteq> i" for j
    using els[OF that] elsewhere_quiet[of "ps ! j"] tab that unfolding table_inv_def by blast
  then show ?thesis
    using new i els by (subst table_inv_solo[of i]) auto
qed

lemma table_inv_outside:
  assumes tab: "table_inv m ps l q" and i: "i < length ps"
    and ex: "exec_stmt b r (ps ! i) m = Ok (p', m', out)" and at: "\<not> at_table (ps ! i)"
  shows "table_inv m' (ps[i := p']) (l @ map (Pair i) out) (items_after (ps ! i) q)"
proof -
  note o1 = exec_outside[OF at ex, of i q] and o2 = exec_outside_mem[OF at ex, of q]
  have maps: "map pending_put (ps[i := p']) = map pending_put ps"
    "map pending_took (ps[i := p']) = map pending_took ps"
    by (rule map_update_same[OF i], use o1 in simp)+
  have sum: "sum_procs table_adj (ps[i := p']) = sum_procs table_adj ps"
    using o1 by (simp add: sum_procs_update[OF i])
  have logs: "put_log (l @ map (Pair i) out) = put_log l" "took_log (l @ map (Pair i) out) = took_log l"
    "items_after (ps ! i) q = q"
    using o1 by (simp_all add: log_append)
  have keeps: "\<exists>k < length (ps[i := p']). pc (ps[i := p'] ! k) \<in> L"
    if "\<exists>k < length ps. pc (ps ! k) \<in> L" "L \<subseteq> {Cook_Wrap, Deliv_Check, Deliv_Wrap}" for L
  proof -
    from that obtain k where "k < length ps" "pc (ps ! k) \<in> L" by blast
    moreover from this have "k \<noteq> i" using o1 that(2) by auto
    ultimately show ?thesis by (intro exI[of _ k]) simp
  qed
  have "table_local q (ps[i := p'] ! j)" if "j < length ps" for j
  proof (cases "j = i")
    case True
    have "table_local q (ps ! i)" using tab i by (simp add: table_inv_def)
    then show ?thesis using at_table_go[OF at ex, of q] True i by simp
  next
    case False
    then show ?thesis using tab that by (simp add: table_inv_def)
  qed
  then show ?thesis
    using tab keeps[of "{Cook_Wrap}"] keeps[of "{Deliv_Check, Deliv_Wrap}"] o2
    unfolding table_inv_def maps sum logs by simp
qed

end
