(* ===== verification/Pizza_Props.thy ===== *)
theory Pizza_Props
  imports Pizza_Run
begin

text \<open>
  What holds in every reachable state of the pizzeria, for any number of cooks and
  deliverers, any schedule, any values of \<open>rand()\<close> and both builds; and that every System V
  run is a POSIX run.
\<close>

section \<open>The invariant of the whole pizzeria\<close>

definition event_ok :: "event \<Rightarrow> bool" where
  "event_ok e = (case e of
     Preparing t \<Rightarrow> 0 \<le> t \<and> t < 10
   | Cooking t k \<Rightarrow> 0 \<le> t \<and> t < 10 \<and> 0 \<le> k \<and> k \<le> int SLOTS
   | Cooked t k j \<Rightarrow> 0 \<le> t \<and> t < 10 \<and> 0 \<le> k \<and> k \<le> int SLOTS \<and> 0 \<le> j \<and> j \<le> int SLOTS
   | Took t j \<Rightarrow> 0 \<le> t \<and> t < 10 \<and> 0 \<le> j \<and> j \<le> int SLOTS
   | Delivered t \<Rightarrow> 0 \<le> t \<and> t < 10)"

definition pizza_inv :: "build \<Rightarrow> pizzeria \<Rightarrow> bool" where
  "pizza_inv b st \<longleftrightarrow> oven_inv (mem st) (procs st) \<and>
     (\<exists>q. token_inv b (sems st) (procs st) (length q) \<and>
        table_inv (mem st) (procs st) (report_log st) q) \<and>
     (\<forall>e \<in> set (report_log st). event_ok (snd e))"

lemma sum_held:
  "token_inv b v ps n \<Longrightarrow> int (v s) + sum_procs (\<lambda>p. held p s) ps = sem_units n s"
  by (simp add: token_inv_def)

lemma items_le_SLOTS:
  assumes "token_inv b v ps n" shows "n \<le> SLOTS"
proof -
  have "0 \<le> sum_procs (\<lambda>p. held p TABLE_CAP) ps"
    by (rule sum_procs_nonneg) (use assms held_nonneg in \<open>auto simp: token_inv_def\<close>)
  then show ?thesis using sum_held[OF assms, of TABLE_CAP] by (simp add: sem_units_def)
qed

text \<open>The two counters never leave the range of their arrays, also between the statements.\<close>

lemma counters_bounded:
  assumes oi: "oven_inv m ps" and ti: "token_inv b v ps (length q)" and tab: "table_inv m ps l q"
  shows "0 \<le> inoven m \<and> inoven m \<le> int SLOTS \<and> 0 \<le> ontable m \<and> ontable m \<le> int SLOTS"
proof -
  let ?in = "\<lambda>p. of_bool (owns_slot (pc p)) + oven_adj p"
  have on: "on_track b p" if "p \<in> set ps" for p
    using ti that by (simp add: token_inv_def)
  have local: "0 \<le> ?in p \<and> ?in p \<le> held p OVEN_CAP \<and> table_adj p \<le> held p TABLE_AVAIL \<and>
      - table_adj p \<le> held p TABLE_CAP" if "p \<in> set ps" for p
  proof -
    have pend: "entry b (pc p) = [] \<Longrightarrow> pend p = []" by (rule pend_inside[OF on[OF that]])
    note nn = held_nonneg[OF on[OF that]]
    show ?thesis
    proof (cases "entry b (pc p) = []")
      case True
      then show ?thesis
        using nn[of OVEN_CAP] nn[of TABLE_AVAIL] nn[of TABLE_CAP]
        by (cases "pc p") (simp_all add: held_eq_tokens[OF pend[OF True]] owns_slot_def
            oven_adj_def table_adj_def entry_def)
    next
      case False
      then have "oven_adj p = 0" "table_adj p = 0"
        by (cases "pc p"; simp add: entry_def oven_adj_def table_adj_def)+
      then show ?thesis
        using nn[of TABLE_AVAIL] nn[of TABLE_CAP] own_le_cap[OF on[OF that]] by simp
    qed
  qed
  have "inoven m = sum_procs ?in ps"
    using oi by (simp add: oven_inv_def sum_procs_def sum_list_addf)
  moreover have "0 \<le> sum_procs ?in ps" "sum_procs ?in ps \<le> sum_procs (\<lambda>p. held p OVEN_CAP) ps"
    using local by (auto intro!: sum_procs_nonneg sum_procs_le)
  moreover have "sum_procs table_adj ps \<le> sum_procs (\<lambda>p. held p TABLE_AVAIL) ps"
    "sum_procs (\<lambda>p. - table_adj p) ps \<le> sum_procs (\<lambda>p. held p TABLE_CAP) ps"
    using local by (auto intro!: sum_procs_le)
  moreover have "sum_procs (\<lambda>p. - table_adj p) ps = - sum_procs table_adj ps"
    by (simp add: sum_procs_def uminus_sum_list_map comp_def)
  moreover have "int (length q) = ontable m + sum_procs table_adj ps"
    using tab by (simp add: table_inv_def)
  ultimately show ?thesis
    using sum_held[OF ti, of OVEN_CAP] sum_held[OF ti, of TABLE_AVAIL] sum_held[OF ti, of TABLE_CAP]
    by (simp add: sem_units_def)
qed

lemma exec_event_ok:
  assumes "exec_stmt b r p m = Ok (p', m', out)" "oven_local m p" "table_local q p"
    and "0 \<le> inoven m \<and> inoven m \<le> int SLOTS \<and> 0 \<le> ontable m \<and> ontable m \<le> int SLOTS"
  shows "\<forall>e \<in> set out. event_ok e"
  using assms
  by (cases "pc p")
    (auto simp: exec_defs event_ok_def oven_local_def table_local_def split: if_split_asm)

section \<open>The invariant is inductive\<close>

text \<open>A process at \<open>Cook_Put\<close> finds room on the table, one at \<open>Deliv_Take\<close> a pizza.\<close>

lemma put_has_room:
  assumes "token_inv b v ps n" "i < length ps" "pend (ps ! i) = []" "pc (ps ! i) = Cook_Put"
  shows "n < SLOTS"
  using token_inv_held_le[OF assms(1,2), of TABLE_CAP] assms(3,4)
  by (simp add: held_eq_tokens sem_units_def)

lemma take_has_pizza:
  assumes "token_inv b v ps n" "i < length ps" "pend (ps ! i) = []" "pc (ps ! i) = Deliv_Take"
  shows "0 < n"
  using token_inv_held_le[OF assms(1,2), of TABLE_AVAIL] assms(3,4)
  by (simp add: held_eq_tokens sem_units_def)

lemma items_after_length:
  assumes "pc p = Deliv_Clear \<Longrightarrow> q \<noteq> []"
  shows "int (length (items_after p q)) = int (length q) + (if pc p = Cook_Put then 1
    else if pc p = Deliv_Clear then -1 else 0)"
  using assms by (cases q) (auto simp: items_after_def)

lemma pizza_inv_sem:
  assumes "pizza_inv b st" "i < length (procs st)" "pend (procs st ! i) = ops # rest"
    and "semop ops (sems st) = Some v"
  shows "pizza_inv b (st\<lparr>sems := v, procs := (procs st)[i := (procs st ! i)\<lparr>pend := rest\<rparr>]\<rparr>)"
  using assms token_inv_sem oven_inv_sem table_inv_sem unfolding pizza_inv_def by fastforce

lemma pizza_inv_stmt:
  assumes inv: "pizza_inv b st" and i: "i < length (procs st)" and pend: "pend (procs st ! i) = []"
    and ex: "exec_stmt b r (procs st ! i) (mem st) = Ok (p', m', out)"
  shows "pizza_inv b (st\<lparr>mem := m', procs := (procs st)[i := p'],
    report_log := report_log st @ map (Pair i) out\<rparr>)"
proof -
  let ?p = "procs st ! i"
  from inv obtain q where oi: "oven_inv (mem st) (procs st)"
    and ti: "token_inv b (sems st) (procs st) (length q)"
    and tab: "table_inv (mem st) (procs st) (report_log st) q"
    and evs: "\<forall>e \<in> set (report_log st). event_ok (snd e)"
    by (auto simp: pizza_inv_def)
  have ol: "oven_local (mem st) ?p" and tl: "table_local q ?p"
    using oi tab i by (simp_all add: oven_inv_def table_inv_def)
  have put: "length q < SLOTS \<and> 0 \<le> cooked ?p \<and> cooked ?p < 10" if "pc ?p = Cook_Put"
    using put_has_room[OF ti i pend that] ol that by (simp add: oven_local_def)
  have take: "q \<noteq> []" if "pc ?p = Deliv_Take"
    using take_has_pizza[OF ti i pend that] by simp
  have "token_inv b (sems st) ((procs st)[i := p']) (length (items_after ?p q))"
    by (rule token_inv_stmt[OF ti i pend ex])
      (use tl in \<open>simp add: items_after_length table_local_def\<close>)
  moreover have "table_inv m' ((procs st)[i := p']) (report_log st @ map (Pair i) out)
      (items_after ?p q)"
    using table_inv_inside[OF tab ti i pend ex _ put take items_le_SLOTS[OF ti]]
      table_inv_outside[OF tab i ex] by blast
  moreover have "oven_inv m' ((procs st)[i := p'])"
    by (rule oven_inv_stmt[OF oi ti i pend ex])
  moreover have "\<forall>e \<in> set out. event_ok e"
    by (rule exec_event_ok[OF ex ol tl counters_bounded[OF oi ti tab]])
  ultimately show ?thesis
    using evs by (auto simp: pizza_inv_def)
qed

text \<open>No statement fails: no assertion, no access outside an array.\<close>

lemma exec_stmt_Ok:
  assumes inv: "pizza_inv b st" and i: "i < length (procs st)" and pend: "pend (procs st ! i) = []"
  shows "\<exists>p' m' out. exec_stmt b r (procs st ! i) (mem st) = Ok (p', m', out)"
proof -
  let ?p = "procs st ! i" and ?m = "mem st"
  from inv obtain q where oi: "oven_inv ?m (procs st)"
    and ti: "token_inv b (sems st) (procs st) (length q)"
    and tab: "table_inv ?m (procs st) (report_log st) q"
    by (auto simp: pizza_inv_def)
  have alive: "pc ?p \<noteq> Dead"
    using token_inv_on_track[OF ti i] by (simp add: on_track_def)
  have ol: "oven_local ?m ?p" "length (ovenslots ?m) = SLOTS" and tl: "table_local q ?p"
    using oi tab i by (simp_all add: oven_inv_def table_inv_def)
  have ring: "length (tableslots ?m) = SLOTS" "tablehead ?m \<le> SLOTS" "tabletail ?m \<le> SLOTS"
    using tab by (simp_all add: table_inv_def ring_def)
  have idx: "tablehead ?m < SLOTS \<or> pc ?p = Cook_Wrap" "tabletail ?m < SLOTS \<or> pc ?p \<in> {Deliv_Check, Deliv_Wrap}"
    if "at_table ?p"
  proof -
    have "solo ?m (report_log st) q ?p"
      using tab table_inv_solo[OF i] alone_at_table[OF ti i pend that] by blast
    then show "tablehead ?m < SLOTS \<or> pc ?p = Cook_Wrap"
      "tabletail ?m < SLOTS \<or> pc ?p \<in> {Deliv_Check, Deliv_Wrap}"
      using ring by (auto simp: solo_def)
  qed
  show ?thesis
    using alive ol tl ring idx oven_has_free_slot[OF oi ti i _ pend]
    by (cases "pc ?p")
      (auto simp: exec_stmt_def cook_stmt_def deliv_stmt_def load_def store_def oven_local_def
        table_local_def owns_slot_def)
qed

lemma pizza_inv_step:
  assumes inv: "pizza_inv b st" and step: "pizza_step b st st'"
  shows "pizza_inv b st'"
  using step
proof (cases rule: pizza_stepE)
  case (sem_step i ops rest v)
  then show ?thesis using pizza_inv_sem[OF inv] by simp
next
  case (stmt_step i r p m out)
  then show ?thesis using pizza_inv_stmt[OF inv] by simp
next
  case (crash_step i r e)
  then show ?thesis using exec_stmt_Ok[OF inv, of i r] by auto
qed

section \<open>Opening the pizzeria\<close>

lemma open_procs:
  "procs (open_pizzeria b n m) = replicate n (new_proc Cook_Prepare) @ replicate m (new_proc Deliv_Start)"
  by (induction n; induction m) (simp_all add: open_pizzeria_def child_argvs_def pizza_main_def progname_def)

lemma new_proc_simps [simp]:
  "pc (new_proc l) = l" "pend (new_proc l) = []" "ptype (new_proc l) = 0"
  by (simp_all add: new_proc_def)

lemma sum_procs_open:
  "f (new_proc Cook_Prepare) = 0 \<Longrightarrow> f (new_proc Deliv_Start) = 0 \<Longrightarrow>
   sum_procs f (procs (open_pizzeria b n m)) = 0"
  by (simp add: open_procs sum_procs_def sum_list_replicate)

lemma open_pizza_inv: "pizza_inv b (open_pizzeria b n m)"
proof -
  let ?st = "open_pizzeria b n m"
  have mem: "mem ?st = setup_shm" "sems ?st = setup_sems" "report_log ?st = []"
    by (simp_all add: open_pizzeria_def)
  have pcs: "p = new_proc Cook_Prepare \<or> p = new_proc Deliv_Start" if "p \<in> set (procs ?st)" for p
    using that by (auto simp: open_procs)
  have nth: "procs ?st ! i = new_proc Cook_Prepare \<or> procs ?st ! i = new_proc Deliv_Start"
    if "i < length (procs ?st)" for i
    using that pcs nth_mem by blast
  have "token_inv b (sems ?st) (procs ?st) 0"
    unfolding token_inv_def
  proof (intro conjI ballI allI)
    fix p assume "p \<in> set (procs ?st)"
    then show "on_track b p"
      using pcs[of p] by (auto simp: on_track_def entry_def protocol_defs; cases b; simp)
    fix s
  next
    fix s
    have "sum_procs (\<lambda>p. held p s) (procs ?st) = 0"
      by (rule sum_procs_open) (simp_all add: held_def)
    then show "int (sems ?st s) + sum_procs (\<lambda>p. held p s) (procs ?st) = sem_units 0 s"
      by (cases s) (simp_all add: mem setup_sems_def sem_init_values_def sem_units_def)
  qed
  moreover have "oven_inv (mem ?st) (procs ?st)"
  proof -
    have "sum_procs (\<lambda>p. of_bool (owns_slot (pc p))) (procs ?st) = 0"
      "sum_procs oven_adj (procs ?st) = 0"
      by (rule sum_procs_open; simp add: owns_slot_def oven_adj_def)+
    moreover have "oven_count (replicate k (-1)) = 0" for k
      by (induction k) (simp_all add: oven_count_def)
    moreover have "oven_local (mem ?st) (procs ?st ! i) \<and> \<not> owns_slot (pc (procs ?st ! i))"
      if "i < length (procs ?st)" for i
      using nth[OF that] by (auto simp: oven_local_def owns_slot_def)
    ultimately show ?thesis
      by (simp add: oven_inv_def mem setup_shm_def)
  qed
  moreover have "table_inv (mem ?st) (procs ?st) (report_log ?st) []"
  proof -
    have "sum_procs table_adj (procs ?st) = 0"
      by (rule sum_procs_open) (simp_all add: table_adj_def)
    moreover have nil: "concat (map pending_put (procs ?st)) = []" "concat (map pending_took (procs ?st)) = []"
      by (auto simp: concat_eq_Nil_conv pending_put_def pending_took_def dest!: pcs)
    moreover have "table_local [] (procs ?st ! i)" if "i < length (procs ?st)" for i
      using nth[OF that] by (auto simp: table_local_def)
    ultimately show ?thesis
      using SLOTS_pos unfolding table_inv_def mem nil
      by (simp add: setup_shm_def ring_def log_single del: SLOTS_pos)
  qed
  ultimately show ?thesis
    unfolding pizza_inv_def using mem by (auto intro!: exI[of _ "[]"])
qed

text \<open>The pizzeria as a transition system, with its invariant.\<close>

interpretation posix: transition_system
  "\<lambda>st. \<exists>n m. st = open_pizzeria POSIX n m" "pizza_step POSIX" "pizza_inv POSIX"
  by unfold_locales (auto intro: open_pizza_inv pizza_inv_step)

interpretation sysv: transition_system
  "\<lambda>st. \<exists>n m. st = open_pizzeria SYSV n m" "pizza_step SYSV" "pizza_inv SYSV"
  by unfold_locales (auto intro: open_pizza_inv pizza_inv_step)

lemma reachable_inv:
  "(pizza_step b)\<^sup>*\<^sup>* (open_pizzeria b n m) st \<Longrightarrow> pizza_inv b st"
  by (cases b) (auto intro: posix.inv_reachable sysv.inv_reachable)

section \<open>Running a schedule\<close>

text \<open>
  An execution under a given schedule: which process moves next, and the value of \<open>rand()\<close>
  for it. A process that has to wait loses its turn.
\<close>

definition run_one :: "build \<Rightarrow> pizzeria \<Rightarrow> nat \<times> nat \<Rightarrow> pizzeria" where
  "run_one b st c = (case c of (i, r) \<Rightarrow>
     if length (procs st) \<le> i then st
     else (case pend (procs st ! i) of
       ops # rest \<Rightarrow> (case semop ops (sems st) of
           None \<Rightarrow> st
         | Some v \<Rightarrow> st\<lparr>sems := v, procs := (procs st)[i := (procs st ! i)\<lparr>pend := rest\<rparr>]\<rparr>)
     | [] \<Rightarrow> (if pc (procs st ! i) = Dead then st
         else (case exec_stmt b r (procs st ! i) (mem st) of
           Inl e \<Rightarrow> st\<lparr>procs := (procs st)[i := (procs st ! i)\<lparr>pc := Dead\<rparr>]\<rparr>
         | Inr (p, m, out) \<Rightarrow> st\<lparr>mem := m, procs := (procs st)[i := p],
             report_log := report_log st @ map (Pair i) out\<rparr>))))"

definition run_schedule :: "build \<Rightarrow> (nat \<times> nat) list \<Rightarrow> pizzeria \<Rightarrow> pizzeria" where
  "run_schedule b sched st = foldl (run_one b) st sched"

lemma run_one_step: "run_one b st c = st \<or> pizza_step b st (run_one b st c)"
proof (cases c)
  case (Pair i r)
  show ?thesis
  proof (cases "i < length (procs st)")
    case True
    then show ?thesis
      using sem_step[OF True] stmt_step[OF True, of b r] crash_step[OF True, of b r]
      by (auto simp: Pair run_one_def split: list.split option.split sum.split)
  qed (simp add: Pair run_one_def)
qed

lemma run_schedule_steps: "(pizza_step b)\<^sup>*\<^sup>* st (run_schedule b sched st)"
  unfolding run_schedule_def
proof (induction sched arbitrary: st)
  case (Cons c sched)
  then show ?case
    using run_one_step[of b st c] by (auto intro: converse_rtranclp_into_rtranclp)
qed simp

text \<open>One cook bakes pizza 3 and puts it on the table, where the deliverer takes it.\<close>

definition demo_day :: "build \<Rightarrow> pizzeria" where
  "demo_day b = run_schedule b (replicate 26 (0, 3) @ replicate 9 (1, 0)) (open_pizzeria b 1 1)"

lemma demo_day_reachable: "(pizza_step b)\<^sup>*\<^sup>* (open_pizzeria b 1 1) (demo_day b)"
  unfolding demo_day_def by (rule run_schedule_steps)

lemma demo_day_log:
  "report_log (demo_day POSIX) = [(0, Preparing 3), (0, Cooking 3 1), (0, Cooked 3 0 1), (1, Took 3 0)]"
  by code_simp

section \<open>Properties of every reachable state\<close>

definition in_oven_section :: "proc \<Rightarrow> bool" where
  "in_oven_section p \<longleftrightarrow> pend p = [] \<and> pc p \<in> {Cook_Init, Cook_Scan, Cook_Check, Cook_Store,
     Cook_Inc, Cook_Report_In, Cook_Take, Cook_Clear, Cook_Dec}"

definition in_table_section :: "proc \<Rightarrow> bool" where
  "in_table_section p \<longleftrightarrow> pend p = [] \<and> pc p \<in> {Cook_Put, Cook_Wrap, Cook_Count,
     Cook_Report_Out, Deliv_Take, Deliv_Clear, Deliv_Check, Deliv_Wrap, Deliv_Count, Deliv_Report}"

lemma section_tokens:
  "in_oven_section p \<longleftrightarrow> pend p = [] \<and> OVEN_LK \<in> set (tokens (pc p))"
  "in_table_section p \<longleftrightarrow> pend p = [] \<and> TABLE_LK \<in> set (tokens (pc p))"
  by (cases "pc p"; simp add: in_oven_section_def in_table_section_def)+

text \<open>
  C6: in every reachable state no process has aborted, and the next statement of every
  process succeeds: the free oven slot that a cook looks for exists, the place a cook
  fills and a deliverer empties lie in their arrays, and the pizza taken is a pizza.
\<close>

theorem pizza_no_crash:
  assumes "(pizza_step b)\<^sup>*\<^sup>* (open_pizzeria b n m) st" and "i < length (procs st)"
  shows "pc (procs st ! i) \<noteq> Dead \<and> (pend (procs st ! i) = [] \<longrightarrow>
    (\<forall>r. \<exists>res. exec_stmt b r (procs st ! i) (mem st) = Ok res))"
  using reachable_inv[OF assms(1)] assms(2) token_inv_on_track exec_stmt_Ok
  unfolding pizza_inv_def on_track_def by meson

theorem pizza_no_crash_witness:
  "pc (procs (demo_day POSIX) ! 0) \<noteq> Dead \<and>
   (\<exists>res. exec_stmt POSIX 7 (procs (demo_day POSIX) ! 0) (mem (demo_day POSIX)) = Ok res)"
proof -
  have "0 < length (procs (demo_day POSIX))" "pend (procs (demo_day POSIX) ! 0) = []"
    by code_simp+
  then show ?thesis using pizza_no_crash[OF demo_day_reachable[of POSIX], of 0] by blast
qed

text \<open>
  C28: mutual exclusion. At most one process is at a statement of the oven's critical
  sections, and at most one at a statement of the table's.
\<close>

theorem pizza_mutex:
  assumes "(pizza_step b)\<^sup>*\<^sup>* (open_pizzeria b n m) st"
    and "i < length (procs st)" "j < length (procs st)" "i \<noteq> j"
  shows "\<not> (in_oven_section (procs st ! i) \<and> in_oven_section (procs st ! j)) \<and>
    \<not> (in_table_section (procs st ! i) \<and> in_table_section (procs st ! j))"
  using reachable_inv[OF assms(1)] lock_excl assms(2-4)
  unfolding pizza_inv_def section_tokens by blast

theorem pizza_mutex_witness:
  "\<not> (in_oven_section (procs (demo_day SYSV) ! 0) \<and> in_oven_section (procs (demo_day SYSV) ! 1)) \<and>
   \<not> (in_table_section (procs (demo_day SYSV) ! 0) \<and> in_table_section (procs (demo_day SYSV) ! 1))"
proof -
  have "length (procs (demo_day SYSV)) = 2" by code_simp
  then show ?thesis using pizza_mutex[OF demo_day_reachable[of SYSV], of 0 1] by simp
qed

text \<open>What the reports say when one process, or none, is between the statements of the table.\<close>

lemma fifo_inside:
  assumes ti: "token_inv b v ps (length q)" and tab: "table_inv m ps l q"
    and i: "i < length ps" and at: "\<not> elsewhere (ps ! i)"
  shows "\<exists>rest. put_log l = took_log l @ rest \<and> length rest \<le> SLOTS"
proof -
  have pend: "pend (ps ! i) = []"
    using at by (intro pend_inside[OF token_inv_on_track[OF ti i]]) (auto simp: elsewhere_def entry_def)
  have att: "at_table (ps ! i)" using at by (auto simp: elsewhere_def)
  have "solo m l q (ps ! i)"
    using tab table_inv_solo[OF i] alone_at_table[OF ti i pend att] by blast
  then have eq: "put_log l @ pending_put (ps ! i) = took_log l @ pending_took (ps ! i) @ q"
    by (simp add: solo_def)
  have avail: "held (ps ! i) TABLE_AVAIL \<le> int (length q)"
    and cap: "held (ps ! i) TABLE_CAP \<le> int SLOTS - int (length q)"
    using token_inv_held_le[OF ti i, of TABLE_AVAIL] token_inv_held_le[OF ti i, of TABLE_CAP]
    by (simp_all add: sem_units_def)
  show ?thesis
  proof (cases "pending_put (ps ! i)")
    case Nil
    then show ?thesis
      using eq cap items_le_SLOTS[OF ti]
      by (cases "pc (ps ! i)") (auto simp: pending_put_def pending_took_def held_eq_tokens[OF pend])
  next
    case (Cons c cs)
    then have "pending_took (ps ! i) = []" "cs = []" "q \<noteq> []"
      using avail by (auto simp: pending_put_def pending_took_def held_eq_tokens[OF pend]
          split: if_split_asm)
    moreover from this have "q = butlast q @ [last q]" by simp
    ultimately have "put_log l = took_log l @ butlast q"
      using eq Cons by (metis append.assoc append.left_neutral butlast_snoc)
    then show ?thesis using items_le_SLOTS[OF ti] by auto
  qed
qed

lemma fifo_outside:
  assumes ti: "token_inv b v ps (length q)" and tab: "table_inv m ps l q"
    and out: "\<And>i. i < length ps \<Longrightarrow> elsewhere (ps ! i)"
  shows "\<exists>rest. put_log l = took_log l @ rest \<and> length rest \<le> SLOTS"
proof -
  have nil: "concat (map pending_put ps) = []" "concat (map pending_took ps) = []"
    using out elsewhere_quiet by (fastforce simp: concat_eq_Nil_conv in_set_conv_nth)+
  have "put_log l = took_log l @ q"
    using tab unfolding table_inv_def nil by simp
  then show ?thesis using items_le_SLOTS[OF ti] by blast
qed

text \<open>
  C9: the table is a queue. The pizzas reported as taken are, in order, the first of those
  reported as put on the table: none is lost, taken twice or overtaken, and at most
  \<open>SLOTS\<close> are between the two reports.
\<close>

theorem pizza_fifo:
  assumes "(pizza_step b)\<^sup>*\<^sup>* (open_pizzeria b n m) st"
  shows "\<exists>rest. put_log (report_log st) = took_log (report_log st) @ rest \<and> length rest \<le> SLOTS"
proof -
  from reachable_inv[OF assms] obtain q where "token_inv b (sems st) (procs st) (length q)"
    "table_inv (mem st) (procs st) (report_log st) q"
    by (auto simp: pizza_inv_def)
  from fifo_inside[OF this] fifo_outside[OF this] show ?thesis by blast
qed

theorem pizza_fifo_witness:
  "took_log (report_log (demo_day POSIX)) = [3] \<and>
   (\<exists>rest. put_log (report_log (demo_day POSIX)) = took_log (report_log (demo_day POSIX)) @ rest \<and>
      length rest \<le> SLOTS)"
  using pizza_fifo[OF demo_day_reachable[of POSIX]]
  by (simp add: demo_day_log took_log_def took_of_def)

text \<open>
  Every report names a pizza type below 10 and counts between 0 and \<open>SLOTS\<close>, although
  \<open>cook_main\<close> reads the oven's counter in its last report without holding the oven's lock;
  and the two counters themselves never leave that range.
\<close>

theorem pizza_reports_bounded:
  assumes "(pizza_step b)\<^sup>*\<^sup>* (open_pizzeria b n m) st"
  shows "(\<forall>(i, e) \<in> set (report_log st). event_ok e) \<and>
    inoven (mem st) \<in> {0..int SLOTS} \<and> ontable (mem st) \<in> {0..int SLOTS}"
proof -
  from reachable_inv[OF assms] obtain q where oi: "oven_inv (mem st) (procs st)"
    and ti: "token_inv b (sems st) (procs st) (length q)"
    and tab: "table_inv (mem st) (procs st) (report_log st) q"
    and evs: "\<forall>e \<in> set (report_log st). event_ok (snd e)"
    by (auto simp: pizza_inv_def)
  show ?thesis using evs counters_bounded[OF oi ti tab] by auto
qed

theorem pizza_reports_bounded_witness:
  "event_ok (Took 3 0) \<and> event_ok (Cooked 3 0 1) \<and> inoven (mem (demo_day POSIX)) \<in> {0..int SLOTS} \<and>
   ontable (mem (demo_day POSIX)) \<in> {0..int SLOTS}"
  using pizza_reports_bounded[OF demo_day_reachable[of POSIX]] by (simp add: demo_day_log)

section \<open>The pizzeria never comes to a standstill\<close>

lemma sum_procs_zero: "(\<And>p. p \<in> set ps \<Longrightarrow> f p = 0) \<Longrightarrow> sum_procs f ps = 0"
  unfolding sum_procs_def by (induction ps) auto

text \<open>Processes keep their roles, and none is added or removed.\<close>

lemma exec_role:
  "exec_stmt b r p m = Ok (p', m', out) \<Longrightarrow> is_deliv (pc p') = is_deliv (pc p)"
  by (cases "pc p") (auto simp: exec_defs split: if_split_asm)

lemma roles_step:
  assumes "pizza_inv b st" "pizza_step b st st'"
  shows "map (is_deliv \<circ> pc) (procs st') = map (is_deliv \<circ> pc) (procs st)"
  using assms(2)
proof (cases rule: pizza_stepE)
  case (sem_step i ops rest v)
  then show ?thesis by (simp add: map_update_same)
next
  case (stmt_step i r p m out)
  then show ?thesis using exec_role[OF stmt_step(5)] by (simp add: map_update_same)
next
  case (crash_step i r e)
  then show ?thesis using exec_stmt_Ok[OF assms(1), of i r] by auto
qed

lemma roles_reachable:
  assumes "(pizza_step b)\<^sup>*\<^sup>* (open_pizzeria b n m) st"
  shows "map (is_deliv \<circ> pc) (procs st) = replicate n False @ replicate m True"
  using assms
proof (induction rule: rtranclp_induct)
  case base
  then show ?case by (simp add: open_procs)
next
  case (step y z)
  then show ?case using roles_step reachable_inv by metis
qed

text \<open>A process that cannot move waits for a semaphore and holds no lock.\<close>

lemma waiting:
  assumes "on_track b p" "pend p = ops # rest" "semop ops v = None"
  shows "pc p \<in> {Cook_Init, Cook_Take, Cook_Put, Deliv_Take} \<and>
    held p OVEN_LK = 0 \<and> held p TABLE_LK = 0"
  using assms unfolding on_track_def held_def
  by (cases "pc p"; cases b) (auto simp: entry_def protocol_defs split: if_split_asm)

text \<open>With both locks free it waits for room or for a pizza, and holds nothing at all.\<close>

lemma waiting_unlocked:
  assumes "on_track b p" "pend p = ops # rest" "semop ops v = None"
    and "v OVEN_LK = 1" "v TABLE_LK = 1"
  shows "(\<forall>s. held p s = 0) \<and> (pc p = Cook_Init \<and> v OVEN_CAP = 0 \<or>
    pc p = Cook_Put \<and> v TABLE_CAP = 0 \<or> pc p = Deliv_Take \<and> v TABLE_AVAIL = 0)"
proof -
  have "pc p \<in> {Cook_Init, Cook_Take, Cook_Put, Deliv_Take}"
    using waiting[OF assms(1-3)] by simp
  moreover have "held p s = 0" if "pc p \<in> {Cook_Init, Cook_Take, Cook_Put, Deliv_Take}" for s
    using assms that unfolding on_track_def held_def
    by (cases b; cases s; elim insertE emptyE)
      (auto simp: entry_def protocol_defs split: if_split_asm)
  ultimately show ?thesis
    using assms unfolding on_track_def
    by (cases b; elim insertE emptyE) (auto simp: entry_def protocol_defs split: if_split_asm)
qed

text \<open>If nothing can move, every process waits, and nobody holds anything.\<close>

lemma stuck_waiting:
  assumes inv: "pizza_inv b st" and stuck: "\<nexists>st'. pizza_step b st st'" and i: "i < length (procs st)"
  shows "\<exists>ops rest. pend (procs st ! i) = ops # rest \<and> semop ops (sems st) = None"
proof (cases "pend (procs st ! i)")
  case Nil
  then obtain p' m' out where ex: "exec_stmt b 0 (procs st ! i) (mem st) = Ok (p', m', out)"
    using exec_stmt_Ok[OF inv i] by blast
  have "pc (procs st ! i) \<noteq> Dead"
    using inv i token_inv_on_track by (auto simp: pizza_inv_def on_track_def)
  from stmt_step[OF i Nil this ex] show ?thesis using stuck by blast
next
  case (Cons ops rest)
  then show ?thesis using stuck sem_step[OF i Cons] by (cases "semop ops (sems st)") auto
qed

lemma stuck_blocked:
  assumes inv: "pizza_inv b st" and stuck: "\<nexists>st'. pizza_step b st st'"
    and ti: "token_inv b (sems st) (procs st) n"
  shows "int (sems st s) = sem_units n s \<and> (\<forall>p \<in> set (procs st).
    pc p = Cook_Init \<and> sems st OVEN_CAP = 0 \<or> pc p = Cook_Put \<and> sems st TABLE_CAP = 0 \<or>
    pc p = Deliv_Take \<and> sems st TABLE_AVAIL = 0)"
proof -
  let ?ps = "procs st" and ?v = "sems st"
  have all: "\<exists>ops rest. on_track b p \<and> pend p = ops # rest \<and> semop ops ?v = None" if "p \<in> set ?ps" for p
    using that stuck_waiting[OF inv stuck] ti by (metis in_set_conv_nth token_inv_on_track)
  have "sum_procs (\<lambda>p. held p OVEN_LK) ?ps = 0" "sum_procs (\<lambda>p. held p TABLE_LK) ?ps = 0"
    by (rule sum_procs_zero, use all waiting in blast)+
  then have free: "?v OVEN_LK = 1" "?v TABLE_LK = 1"
    using sum_held[OF ti, of OVEN_LK] sum_held[OF ti, of TABLE_LK] by (simp_all add: sem_units_def)
  have "sum_procs (\<lambda>p. held p s) ?ps = 0"
    by (rule sum_procs_zero) (use all waiting_unlocked free in blast)
  then show ?thesis
    using sum_held[OF ti, of s] all waiting_unlocked free by (metis add.right_neutral)
qed

text \<open>
  C10: absence of deadlock. With at least one cook and one deliverer some process can make a
  step in every reachable state, in both builds.
\<close>

theorem pizza_no_deadlock:
  assumes "(pizza_step b)\<^sup>*\<^sup>* (open_pizzeria b n m) st" and "0 < n" "0 < m"
  shows "\<exists>st'. pizza_step b st st'"
proof (rule ccontr)
  assume stuck: "\<nexists>st'. pizza_step b st st'"
  let ?ps = "procs st" and ?v = "sems st"
  note inv = reachable_inv[OF assms(1)]
  from inv obtain q :: "int list" where ti: "token_inv b ?v ?ps (length q)"
    by (auto simp: pizza_inv_def)
  note units = stuck_blocked[OF inv stuck ti, THEN conjunct1]
  note blocked = stuck_blocked[OF inv stuck ti, THEN conjunct2, THEN bspec]
  note roles = roles_reachable[OF assms(1)]
  have "length ?ps = n + m" using arg_cong[OF roles, of length] by simp
  moreover have "is_deliv (pc (?ps ! n))" "\<not> is_deliv (pc (?ps ! 0))"
    using arg_cong[OF roles, of "\<lambda>xs. xs ! n"] arg_cong[OF roles, of "\<lambda>xs. xs ! 0"] assms(2,3) calculation
    by (simp_all add: nth_append del: is_deliv.simps)
  ultimately have d: "?ps ! n \<in> set ?ps" "is_deliv (pc (?ps ! n))"
    and c: "?ps ! 0 \<in> set ?ps" "\<not> is_deliv (pc (?ps ! 0))"
    using assms(2,3) by (auto simp del: is_deliv.simps)
  have "?v TABLE_AVAIL = 0" using blocked[OF d(1)] d(2) by auto
  then have "q = []" using units[of TABLE_AVAIL] by (simp add: sem_units_def)
  then have "?v OVEN_CAP \<noteq> 0" "?v TABLE_CAP \<noteq> 0"
    using units[of OVEN_CAP] units[of TABLE_CAP] by (auto simp: sem_units_def)
  then show False using blocked[OF c(1)] c(2) by auto
qed

theorem pizza_no_deadlock_witness: "\<exists>st'. pizza_step SYSV (demo_day SYSV) st'"
  by (rule pizza_no_deadlock[OF demo_day_reachable]) simp_all

end
