(* ===== verification/Pizza_Main.thy ===== *)
theory Pizza_Main
  imports Pizza_Props
begin

text \<open>
  The two builds of the pizzeria compared, and its command line.
\<close>

section \<open>Every System V run is a POSIX run\<close>

text \<open>The POSIX process that still has to perform the same operations, one at a time.\<close>

definition one_by_one :: "proc \<Rightarrow> proc" where
  "one_by_one p = p\<lparr>pend := map (\<lambda>x. [x]) (concat (pend p))\<rparr>"

definition posix_view :: "pizzeria \<Rightarrow> pizzeria" where
  "posix_view st = st\<lparr>procs := map one_by_one (procs st)\<rparr>"

lemma posix_view_simps [simp]:
  "mem (posix_view st) = mem st" "sems (posix_view st) = sems st"
  "report_log (posix_view st) = report_log st" "procs (posix_view st) = map one_by_one (procs st)"
  by (simp_all add: posix_view_def)

text \<open>An array of operations that \<open>semop\<close> performs at once can be performed one by one.\<close>

lemma posix_semop:
  assumes "semop ops (sems st) = Some v" "i < length (procs st)"
    and "pend (procs st ! i) = map (\<lambda>x. [x]) ops @ rest"
  shows "(pizza_step POSIX)\<^sup>*\<^sup>* st
    (st\<lparr>sems := v, procs := (procs st)[i := (procs st ! i)\<lparr>pend := rest\<rparr>]\<rparr>)"
  using assms
proof (induction ops arbitrary: st)
  case Nil
  then have "(procs st)[i := (procs st ! i)\<lparr>pend := rest\<rparr>] = procs st"
    by (simp add: list_update_same_conv)
  then show ?case using Nil by (cases st) simp
next
  case (Cons x ops)
  obtain s n where x: "x = (s, n)" by (cases x)
  let ?w = "(sems st)(s := nat (int (sems st s) + n))"
  have ok: "\<not> int (sems st s) + n < 0" and w: "semop ops ?w = Some v"
    using Cons.prems(1) by (auto simp: x split: if_split_asm)
  let ?st = "st\<lparr>sems := ?w, procs := (procs st)[i := (procs st ! i)\<lparr>pend := map (\<lambda>x. [x]) ops @ rest\<rparr>]\<rparr>"
  have "pizza_step POSIX st ?st"
    by (rule sem_step[of i st "[x]"]) (use Cons.prems ok in \<open>simp_all add: x\<close>)
  moreover have "(pizza_step POSIX)\<^sup>*\<^sup>* ?st
      (?st\<lparr>sems := v, procs := (procs ?st)[i := (procs ?st ! i)\<lparr>pend := rest\<rparr>]\<rparr>)"
    by (rule Cons.IH) (use Cons.prems w in \<open>simp_all add: fun_upd_def\<close>)
  ultimately show ?case
    using Cons.prems(2) by (simp add: converse_rtranclp_into_rtranclp)
qed

text \<open>A statement does the same in both builds, but for the way it waits afterwards.\<close>

lemma exec_one_by_one:
  "exec_stmt SYSV r p m = Ok (p', m', out) \<Longrightarrow>
   exec_stmt POSIX r (one_by_one p) m = Ok (one_by_one p', m', out)"
  unfolding exec_stmt_def cook_stmt_def deliv_stmt_def
  by (cases p; cases "pc p")
    (simp_all add: rbind_eq_Inr one_by_one_def protocol_defs split: if_split_asm, fastforce+)

lemma sysv_step_posix:
  assumes "pizza_inv SYSV st" "pizza_step SYSV st st'"
  shows "(pizza_step POSIX)\<^sup>*\<^sup>* (posix_view st) (posix_view st')"
  using assms(2)
proof (cases rule: pizza_stepE)
  case (sem_step i ops rest v)
  let ?rest = "map (\<lambda>x. [x]) (concat rest)"
  have "posix_view st' = posix_view st\<lparr>sems := v, procs := (procs (posix_view st))
      [i := (procs (posix_view st) ! i)\<lparr>pend := ?rest\<rparr>]\<rparr>"
    using sem_step by (simp add: posix_view_def map_update one_by_one_def)
  moreover have "(pizza_step POSIX)\<^sup>*\<^sup>* (posix_view st) \<dots>"
    by (rule posix_semop[where ops = ops]) (use sem_step in \<open>simp_all add: one_by_one_def\<close>)
  ultimately show ?thesis by simp
next
  case (stmt_step i r p m out)
  have "posix_view st' = posix_view st\<lparr>mem := m, procs := (procs (posix_view st))[i := one_by_one p],
      report_log := report_log (posix_view st) @ map (Pair i) out\<rparr>"
    using stmt_step by (simp add: posix_view_def map_update)
  moreover have "pizza_step POSIX (posix_view st) \<dots>"
    by (rule pizza_step.stmt_step[where r = r])
      (use stmt_step exec_one_by_one[OF stmt_step(5)] in \<open>simp_all add: one_by_one_def\<close>)
  ultimately show ?thesis by auto
next
  case (crash_step i r e)
  then show ?thesis using exec_stmt_Ok[OF assms(1), of i r] by auto
qed

lemma posix_view_open: "posix_view (open_pizzeria SYSV n m) = open_pizzeria POSIX n m"
proof -
  have "procs (posix_view (open_pizzeria SYSV n m)) = procs (open_pizzeria POSIX n m)"
    by (simp add: open_procs one_by_one_def new_proc_def)
  then show ?thesis by (simp add: open_pizzeria_def posix_view_def)
qed

text \<open>
  C31: refinement between the builds. Every state the System V build reaches, reports
  included, is one the POSIX build reaches from the same opening, with the operations still
  to perform waiting one by one.
\<close>

theorem sysv_refines_posix:
  assumes "(pizza_step SYSV)\<^sup>*\<^sup>* (open_pizzeria SYSV n m) st"
  shows "(pizza_step POSIX)\<^sup>*\<^sup>* (open_pizzeria POSIX n m) (posix_view st)"
  using assms
proof (induction rule: rtranclp_induct)
  case base
  then show ?case by (simp add: posix_view_open)
next
  case (step y z)
  then show ?case using sysv_step_posix reachable_inv by (meson rtranclp_trans)
qed

theorem sysv_refines_posix_witness:
  "(pizza_step POSIX)\<^sup>*\<^sup>* (open_pizzeria POSIX 1 1) (posix_view (demo_day SYSV))"
  by (rule sysv_refines_posix[OF demo_day_reachable])

section \<open>The command line\<close>

text \<open>
  The word \<open>deliv\<close>, for which the source tests, is the one that does not start a
  deliverer: it shows the usage. Any other single word except \<open>cook\<close> starts one, which is
  why the parent's \<open>dlv\<close> works.
\<close>

theorem pizza_main_deliv:
  "pizza_main [prog, ''deliv''] = Usage \<and>
   (\<forall>w. w \<noteq> ''cook'' \<and> w \<noteq> ''deliv'' \<longrightarrow> pizza_main [prog, w] = Run_Deliv)"
  by (simp add: pizza_main_def)

theorem pizza_main_deliv_witness:
  "pizza_main [''./posix'', ''dlv''] = Run_Deliv \<and> pizza_main [''./posix'', ''deliv''] = Usage"
  using pizza_main_deliv[of "''./posix''"] by simp

text \<open>
  The two numbers of the command line are read back exactly: for printed positive
  numbers up to \<open>LONG_MAX\<close> the program opens a pizzeria with that many cooks and deliverers.
\<close>

theorem pizza_main_counts:
  assumes "0 < n" "0 < m" "int n \<le> LONG_MAX" "int m \<le> LONG_MAX"
  shows "pizza_main [prog, show_nat n, show_nat m] = Run_Parent n m"
proof -
  have "show_nat k \<noteq> []" for k by (metis show_nat_head list.distinct(1))
  then have "parse_int (show_nat n) = Some (int n)" "parse_int (show_nat m) = Some (int m)"
    using assms strtol_show_nat by (simp_all add: parse_int_def)
  then show ?thesis using assms(1,2) by (simp add: pizza_main_def)
qed

theorem pizza_main_counts_witness:
  "pizza_main [''./sysv'', show_nat 3, show_nat 12] = Run_Parent 3 12"
  by (rule pizza_main_counts) (simp_all add: LONG_MAX_def)

end
