(* ===== verification/Pizza_Spawn.thy ===== *)
theory Pizza_Spawn
  imports Pizza_Main
begin

text \<open>
  How the pizzeria of \<open>lab7/main.c\<close> is opened: \<open>setup_shm\<close> and \<open>load_shm\<close> as sequences of system
  calls on the semaphores and the memory that the kernel keeps between runs, the two loops in
  which the parent forks a process for every cook and deliverer, and the loop that waits
  for them. \<open>pizza_parent_opens\<close> shows that this leads to \<open>open_pizzeria\<close>, from which the other
  theorems start. Any call may fail; a failed \<open>fork\<close> or \<open>execv\<close> is not noticed by the code.
\<close>

section \<open>Semaphores and memory outside the processes\<close>

text \<open>
  What exists under the program's names and keys, perhaps from an earlier run. The contents of
  the memory are set after the calls (\<open>setup_shm\<close>).
\<close>

record ipc =
  posix_mem :: bool
  posix_sems :: "semaphore \<rightharpoonup> nat"
  sysv_mem :: bool
  sysv_sems :: "sem_values option"

datatype ipc_call =
    Shm_Open_Create | Shm_Open | Ftruncate | Mmap
  | Sem_Unlink semaphore | Sem_Open_Create semaphore nat | Sem_Open semaphore
  | Getcwd | Ftok | Shmget_Create | Shmget | Shmat | Semget_Create | Semget | Setall "nat list"

text \<open>
  What a call does when it has no reason to fail but the state (\<open>None\<close>). A semaphore that
  exists keeps its value in \<open>sem_open\<close>, whatever the value given, and \<open>sem_unlink\<close> of one that
  does not exist fails with \<open>ENOENT\<close>, which the code accepts. A new System V set starts with zeroes.
\<close>

fun ipc_do :: "ipc_call \<Rightarrow> ipc \<Rightarrow> ipc option" where
  "ipc_do Shm_Open_Create w = Some (w\<lparr>posix_mem := True\<rparr>)"
| "ipc_do Shm_Open w = (if posix_mem w then Some w else None)"
| "ipc_do Ftruncate w = Some w"
| "ipc_do Mmap w = Some w"
| "ipc_do (Sem_Unlink s) w = Some (w\<lparr>posix_sems := (posix_sems w)(s := None)\<rparr>)"
| "ipc_do (Sem_Open_Create s v) w = Some (case posix_sems w s of
     None \<Rightarrow> w\<lparr>posix_sems := (posix_sems w)(s \<mapsto> v)\<rparr> | Some _ \<Rightarrow> w)"
| "ipc_do (Sem_Open s) w = (if posix_sems w s = None then None else Some w)"
| "ipc_do Getcwd w = Some w"
| "ipc_do Ftok w = Some w"
| "ipc_do Shmget_Create w = Some (w\<lparr>sysv_mem := True\<rparr>)"
| "ipc_do Shmget w = (if sysv_mem w then Some w else None)"
| "ipc_do Shmat w = Some w"
| "ipc_do Semget_Create w = Some (case sysv_sems w of
     None \<Rightarrow> w\<lparr>sysv_sems := Some (\<lambda>_. 0)\<rparr> | Some _ \<Rightarrow> w)"
| "ipc_do Semget w = (if sysv_sems w = None then None else Some w)"
| "ipc_do (Setall vs) w = (if sysv_sems w = None then None
     else Some (w\<lparr>sysv_sems := Some (\<lambda>s. vs ! sem_num s)\<rparr>))"

text \<open>The calls of the two functions in the order of the code; \<open>sem_opens\<close> are the semaphores in theirs.\<close>

definition sem_opens :: "semaphore list" where
  "sem_opens = [OVEN_LK, OVEN_CAP, TABLE_LK, TABLE_CAP, TABLE_AVAIL]"

definition setup_calls :: "build \<Rightarrow> ipc_call list" where
  "setup_calls b = (case b of
     POSIX \<Rightarrow> [Shm_Open_Create, Ftruncate, Mmap] @ map Sem_Unlink sem_opens @
       map (\<lambda>s. Sem_Open_Create s (setup_sems s)) sem_opens
   | SYSV \<Rightarrow> [Getcwd, Ftok, Shmget_Create, Shmat, Semget_Create, Setall sem_init_values])"

definition load_calls :: "build \<Rightarrow> ipc_call list" where
  "load_calls b = (case b of
     POSIX \<Rightarrow> [Shm_Open, Mmap] @ map Sem_Open sem_opens
   | SYSV \<Rightarrow> [Getcwd, Ftok, Shmget, Shmat, Semget])"

text \<open>\<open>can\<close> says which calls succeed as far as the kernel's resources go; the first failure is \<open>exit(1)\<close>.\<close>

fun ipc_run :: "(ipc_call \<Rightarrow> bool) \<Rightarrow> ipc_call list \<Rightarrow> ipc \<Rightarrow> ipc result" where
  "ipc_run can [] w = Ok w"
| "ipc_run can (c # cs) w = (if \<not> can c then Err (Exit_Status 1)
     else (case ipc_do c w of None \<Rightarrow> Err (Exit_Status 1) | Some w \<Rightarrow> ipc_run can cs w))"

definition sem_value :: "build \<Rightarrow> ipc \<Rightarrow> semaphore \<Rightarrow> nat option" where
  "sem_value b w s = (case b of POSIX \<Rightarrow> posix_sems w s | SYSV \<Rightarrow> map_option (\<lambda>v. v s) (sysv_sems w))"

section \<open>The fork loops and the wait loop\<close>

text \<open>
  What becomes of the processes: one that runs the program again with new arguments, or one
  that comes to the wait loop with a number of children.
\<close>

datatype spawned = Runs "string list" | Waits nat

text \<open>
  The rounds of both loops, \<open>i\<close> of them done, \<open>argvs\<close> to do, in the process that was forked in the rounds
  \<open>path\<close>. \<open>forks\<close> and \<open>execs\<close> say where the calls succeed. A child whose \<open>execv\<close> fails goes
  on in the loop.
\<close>

fun spawn_loop :: "(nat list \<Rightarrow> nat \<Rightarrow> bool) \<Rightarrow> (nat list \<Rightarrow> nat \<Rightarrow> bool) \<Rightarrow> nat list \<Rightarrow> nat \<Rightarrow> nat \<Rightarrow>
    string list list \<Rightarrow> spawned list" where
  "spawn_loop forks execs path i kids [] = [Waits kids]"
| "spawn_loop forks execs path i kids (argv # argvs) =
     (if \<not> forks path i then spawn_loop forks execs path (i + 1) kids argvs
      else (if execs path i then [Runs argv] else spawn_loop forks execs (path @ [i]) (i + 1) 0 argvs) @
        spawn_loop forks execs path (i + 1) (kids + 1) argvs)"

text \<open>\<open>wait\<close> returns for every child, when it has ended, and fails when none is left.\<close>

fun wait_loop :: "nat \<Rightarrow> nat \<Rightarrow> bool \<Rightarrow> int" where
  "wait_loop 0 kids errored = (if errored then 1 else 0)"
| "wait_loop (Suc rounds) kids errored =
     (if kids = 0 then wait_loop rounds 0 True else wait_loop rounds (kids - 1) errored)"

text \<open>
  \<open>main\<close>: a process that has opened the pizzeria and forked, or one that has found it open and
  works in it.
\<close>

datatype started = Opened ipc "spawned list" | Works "proc list"

definition pizza_start :: "build \<Rightarrow> (ipc_call \<Rightarrow> bool) \<Rightarrow> (nat list \<Rightarrow> nat \<Rightarrow> bool) \<Rightarrow>
    (nat list \<Rightarrow> nat \<Rightarrow> bool) \<Rightarrow> ipc \<Rightarrow> string list \<Rightarrow> started result" where
  "pizza_start b can forks execs w argv = (case pizza_main argv of
     Run_Parent n m \<Rightarrow> rbind (ipc_run can (setup_calls b) w) (\<lambda>w.
       Ok (Opened w (spawn_loop forks execs [] 0 0 (child_argvs b n m))))
   | Usage \<Rightarrow> Err (Exit_Status 2)
   | role \<Rightarrow> rbind (ipc_run can (load_calls b) w) (\<lambda>_. Ok (Works (start_role role))))"

section \<open>What they do\<close>

lemma setup_values:
  assumes "ipc_run can (setup_calls b) w = Ok w'"
  shows "sem_value b w' s = Some (setup_sems s)" "ipc_run (\<lambda>_. True) (load_calls b) w' = Ok w'"
  using assms
  by (cases b; cases s; auto simp: setup_calls_def load_calls_def sem_opens_def sem_value_def setup_sems_def
      split: if_split_asm option.split_asm option.split)+

lemma setup_succeeds: "\<exists>w'. ipc_run (\<lambda>_. True) (setup_calls b) w = Ok w'"
  by (cases b) (simp_all add: setup_calls_def sem_opens_def split: option.split)

lemma spawn_all:
  "spawn_loop (\<lambda>_ _. True) (\<lambda>_ _. True) path i kids argvs = map Runs argvs @ [Waits (kids + length argvs)]"
  by (induction argvs arbitrary: i kids) simp_all

lemma wait_loop_status: "wait_loop rounds kids errored = (if errored \<or> kids < rounds then 1 else 0)"
  by (induction rounds arbitrary: kids errored) auto

lemma children_work:
  assumes "ipc_run can (load_calls b) w = Ok w"
  shows "map (pizza_start b can forks execs w) (child_argvs b n m) =
    map (\<lambda>p. Ok (Works [p])) (procs (open_pizzeria b n m))"
  using assms by (simp add: child_argvs_def open_procs pizza_start_def pizza_main_def)

section \<open>Properties\<close>

text \<open>
  C11: Whatever semaphores an earlier run has left, and with what values, the program, called with two printed
  positive numbers, sets the five semaphores to their initial values and starts that many cooks and
  deliverers, each of which finds the semaphores and the memory: together they are the opened
  pizzeria. The parent waits for exactly its children.
\<close>

theorem pizza_parent_opens:
  assumes "0 < n" "0 < m" "int n \<le> LONG_MAX" "int m \<le> LONG_MAX"
  shows "\<exists>w'. pizza_start b (\<lambda>_. True) (\<lambda>_ _. True) (\<lambda>_ _. True) w [prog, show_nat n, show_nat m] =
      Ok (Opened w' (map Runs (child_argvs b n m) @ [Waits (n + m)])) \<and>
    (\<forall>s. sem_value b w' s = Some (sems (open_pizzeria b n m) s)) \<and>
    map (pizza_start b (\<lambda>_. True) forks execs w') (child_argvs b n m) =
      map (\<lambda>p. Ok (Works [p])) (procs (open_pizzeria b n m)) \<and>
    wait_loop (n + m) (n + m) False = 0"
proof -
  obtain w' where w': "ipc_run (\<lambda>_. True) (setup_calls b) w = Ok w'" using setup_succeeds by blast
  then show ?thesis
    using pizza_main_counts [OF assms, of prog] setup_values [OF w'] children_work
    by (intro exI [of _ w'])
      (simp add: pizza_start_def [of _ _ _ _ w] spawn_all child_argvs_def wait_loop_status open_pizzeria_def)
qed

theorem pizza_parent_opens_witness:
  "\<exists>w'. pizza_start POSIX (\<lambda>_. True) (\<lambda>_ _. True) (\<lambda>_ _. True)
      \<lparr>posix_mem = True, posix_sems = [OVEN_LK \<mapsto> 0, TABLE_AVAIL \<mapsto> 7], sysv_mem = False, sysv_sems = None\<rparr>
      [''./posix'', show_nat 1, show_nat 1] =
      Ok (Opened w' [Runs [''./posix'', ''cook''], Runs [''./posix'', ''dlv''], Waits 2]) \<and>
    sem_value POSIX w' OVEN_LK = Some 1 \<and> sem_value POSIX w' TABLE_AVAIL = Some 0"
proof -
  let ?w = "\<lparr>posix_mem = True, posix_sems = [OVEN_LK \<mapsto> 0, TABLE_AVAIL \<mapsto> 7], sysv_mem = False, sysv_sems = None\<rparr>"
  have one: "0 < (1 :: nat)" "int 1 \<le> LONG_MAX" by (simp_all add: LONG_MAX_def)
  obtain w' where w': "pizza_start POSIX (\<lambda>_. True) (\<lambda>_ _. True) (\<lambda>_ _. True) ?w [''./posix'', show_nat 1, show_nat 1] =
      Ok (Opened w' (map Runs (child_argvs POSIX 1 1) @ [Waits (1 + 1)]))"
    and v: "\<forall>s. sem_value POSIX w' s = Some (sems (open_pizzeria POSIX 1 1) s)"
    using pizza_parent_opens [OF one(1,1,2,2), where b = POSIX and w = ?w and prog = "''./posix''"] by metis
  from v have "sem_value POSIX w' OVEN_LK = Some 1" "sem_value POSIX w' TABLE_AVAIL = Some 0"
    by (simp_all add: open_pizzeria_def setup_sems_def sem_init_values_def)
  then show ?thesis using w' by (simp add: child_argvs_def progname_def numeral_2_eq_2)
qed

text \<open>
  C40: When \<open>execv\<close> fails, the child does not end: it goes on in the loops, forks in its turn,
  and waits with the others. If it always fails, \<open>N\<close> cooks and \<open>M\<close> deliverers become
  \<open>2 ^ (N + M)\<close> processes, none of which cooks or delivers, and only the first one returns 0.
\<close>

theorem pizza_exec_fails:
  "length (spawn_loop (\<lambda>_ _. True) (\<lambda>_ _. False) [] 0 0 (child_argvs b n m)) = 2 ^ (n + m) \<and>
   list_all (\<lambda>p. \<exists>k \<le> n + m. p = Waits k)
     (spawn_loop (\<lambda>_ _. True) (\<lambda>_ _. False) [] 0 0 (child_argvs b n m)) \<and>
   length (filter (\<lambda>p. \<exists>k. p = Waits k \<and> wait_loop (n + m) k False = 0)
     (spawn_loop (\<lambda>_ _. True) (\<lambda>_ _. False) [] 0 0 (child_argvs b n m))) = 1"
proof -
  have len: "length (spawn_loop (\<lambda>_ _. True) (\<lambda>_ _. False) path i kids argvs) = 2 ^ length argvs"
    for path i kids argvs by (induction argvs arbitrary: path i kids) simp_all
  have kids: "\<forall>p \<in> set (spawn_loop (\<lambda>_ _. True) (\<lambda>_ _. False) path i kids argvs). \<exists>k \<le> kids + length argvs. p = Waits k"
    for path i kids argvs
    by (induction argvs arbitrary: path i kids) (auto, (fastforce dest: le_SucI)+)
  have few: "filter (\<lambda>p. \<exists>k. p = Waits k \<and> t \<le> k) (spawn_loop (\<lambda>_ _. True) (\<lambda>_ _. False) path i kids argvs) = []"
    if "kids + length argvs < t" for t path i kids argvs
    using kids [where kids = kids and argvs = argvs] that by (fastforce simp: filter_empty_conv)
  have one: "length (filter (\<lambda>p. \<exists>k. p = Waits k \<and> t \<le> k)
      (spawn_loop (\<lambda>_ _. True) (\<lambda>_ _. False) path i kids argvs)) = 1"
    if "kids + length argvs = t" for t path i kids argvs
    using that
  proof (induction argvs arbitrary: path i kids)
    case (Cons argv argvs)
    then have "filter (\<lambda>p. \<exists>k. p = Waits k \<and> t \<le> k) (spawn_loop (\<lambda>_ _. True) (\<lambda>_ _. False) (path @ [i]) (i + 1) 0 argvs) = []"
      by (intro few) simp
    then show ?case using Cons by simp
  qed simp
  have "length (child_argvs b n m) = n + m" by (simp add: child_argvs_def)
  moreover have "(wait_loop (n + m) k False = 0) = (n + m \<le> k)" for k by (simp add: wait_loop_status)
  ultimately show ?thesis
    using len kids [where kids = 0 and argvs = "child_argvs b n m"]
      one [where kids = 0 and argvs = "child_argvs b n m" and t = "n + m"] by (simp add: list_all_iff)
qed

end
