(* ===== verification/Pnm_Time.thy ===== *)
theory Pnm_Time
  imports Decimal
begin

text \<open>
  The times that \<open>lab8/main.c\<close> prints: \<open>sprint_dur\<close>, the line of a thread and the table of the
  main thread. A time is what \<open>clock_gettime\<close> returns, seconds and nanoseconds below \<open>10^9\<close>.
\<close>

type_synonym timespec = "int \<times> int"

definition show_long :: "int \<Rightarrow> string" where
  "show_long v = (if v < 0 then CHR ''-'' # show_nat (nat (- v)) else show_nat (nat v))"

definition pad_left :: "nat \<Rightarrow> char \<Rightarrow> string \<Rightarrow> string" where
  "pad_left n c s = replicate (n - length s) c @ s"

definition sprint_dur :: "timespec \<Rightarrow> timespec \<Rightarrow> string" where
  "sprint_dur from to =
     (let secs = fst to - fst from; nanos = snd to - snd from;
          (secs, nanos) = (if nanos < 0 then (secs - 1, nanos + 1000000000) else (secs, nanos))
      in if secs = 0 \<and> nanos < 10000 then show_long nanos @ '' nanos''
         else if secs = 0 \<and> nanos < 10000000
         then show_long (nanos div 1000) @ ''.'' @ show_long (nanos div 100 mod 10) @ '' micros''
         else let millis = 1000 * secs + nanos div 1000000
              in show_long millis @ ''.'' @ pad_left 2 (CHR ''0'') (show_long (nanos div 10000 mod 100)) @ '' millis'')"

text \<open>The line of a thread, for a buffer of 80 bytes.\<close>

definition thread_report :: "nat \<Rightarrow> timespec \<Rightarrow> timespec \<Rightarrow> timespec \<Rightarrow> timespec \<Rightarrow> string result" where
  "thread_report tid tstart tend tstart_cpu tend_cpu =
     (let buf = ''Thread '' @ show_nat tid @ '' took '' @ sprint_dur tstart tend @ '' wall time, '' @
            sprint_dur tstart_cpu tend_cpu @ '' CPU time'' @ [NL]
      in if 80 < length buf + 1 then Err Undef_Behaviour else Ok buf)"

text \<open>The table of \<open>main\<close>; each of the four clocks is read for wall and for CPU time.\<close>

definition report_line :: "string \<Rightarrow> timespec \<times> timespec \<Rightarrow> timespec \<times> timespec \<Rightarrow> string \<Rightarrow> string" where
  "report_line title from to tail =
     title @ pad_left 13 SPC (sprint_dur (fst from) (fst to)) @ '' wall time, '' @
     pad_left 13 SPC (sprint_dur (snd from) (snd to)) @ tail @ [NL]"

definition time_table :: "timespec \<times> timespec \<Rightarrow> timespec \<times> timespec \<Rightarrow> timespec \<times> timespec \<Rightarrow>
    timespec \<times> timespec \<Rightarrow> string" where
  "time_table start read invert write =
     report_line ''Main thread took '' start write '' CPU time total'' @
     report_line ''- Read input file:     '' start read '' CPU time'' @
     report_line ''- Spawn, invert, join: '' read invert '' CPU time'' @
     report_line ''- Write output file:   '' invert write '' CPU time''"

section \<open>What is printed\<close>

definition clock_ok :: "timespec \<Rightarrow> bool" where
  "clock_ok t \<longleftrightarrow> 0 \<le> snd t \<and> snd t < 1000000000"

definition total_nanos :: "timespec \<Rightarrow> int" where
  "total_nanos t = fst t * 1000000000 + snd t"

text \<open>\<open>sprint_dur\<close> in terms of the nanoseconds between the times.\<close>

definition dur_text :: "int \<Rightarrow> string" where
  "dur_text t =
     (if t < 10000 then show_nat (nat t) @ '' nanos''
      else if t < 10000000 then show_nat (nat (t div 1000)) @ ''.'' @ show_nat (nat (t div 100 mod 10)) @ '' micros''
      else show_nat (nat (t div 1000000)) @ ''.'' @ pad_left 2 (CHR ''0'') (show_nat (nat (t div 10000 mod 100))) @ '' millis'')"

lemma sprint_dur_total:
  assumes "clock_ok from" "clock_ok to" "total_nanos from \<le> total_nanos to"
  shows "sprint_dur from to = dur_text (total_nanos to - total_nanos from)"
proof -
  define s n where "s = (if snd to < snd from then fst to - fst from - 1 else fst to - fst from)"
    and "n = (if snd to < snd from then snd to - snd from + 1000000000 else snd to - snd from)"
  have sn: "total_nanos to - total_nanos from = s * 1000000000 + n" "0 \<le> n" "n < 1000000000"
    using assms by (auto simp: s_def n_def total_nanos_def clock_ok_def)
  then have s: "0 \<le> s" using assms(3) by linarith
  have split: "sprint_dur from to =
      (if s = 0 \<and> n < 10000 then show_long n @ '' nanos''
       else if s = 0 \<and> n < 10000000 then show_long (n div 1000) @ ''.'' @ show_long (n div 100 mod 10) @ '' micros''
       else show_long (1000 * s + n div 1000000) @ ''.'' @ pad_left 2 (CHR ''0'') (show_long (n div 10000 mod 100)) @ '' millis'')"
    by (cases "snd to < snd from") (simp_all add: sprint_dur_def s_def n_def Let_def)
  have millis: "(s * 1000000000 + n) div 1000000 = 1000 * s + n div 1000000"
    "(s * 1000000000 + n) div 10000 mod 100 = n div 10000 mod 100"
  proof -
    have "s * 1000000000 + n = n + (1000 * s) * 1000000" "s * 1000000000 + n = n + (100000 * s) * 10000" by simp_all
    then have "(s * 1000000000 + n) div 1000000 = 1000 * s + n div 1000000"
      "(s * 1000000000 + n) div 10000 = n div 10000 + (1000 * s) * 100"
      by (simp_all only: div_mult_self1)
    then show "(s * 1000000000 + n) div 1000000 = 1000 * s + n div 1000000"
      "(s * 1000000000 + n) div 10000 mod 100 = n div 10000 mod 100"
      by (simp_all only: mod_mult_self1)
  qed
  have pos: "0 \<le> v \<Longrightarrow> show_long v = show_nat (nat v)" for v by (simp add: show_long_def)
  have long: "show_long n = show_nat (nat n)" "show_long (n div 1000) = show_nat (nat (n div 1000))"
    "show_long (n div 100 mod 10) = show_nat (nat (n div 100 mod 10))"
    "show_long (n div 10000 mod 100) = show_nat (nat (n div 10000 mod 100))"
    "show_long (1000 * s + n div 1000000) = show_nat (nat (1000 * s + n div 1000000))"
    using sn(2) s by (simp_all add: pos pos_imp_zdiv_nonneg_iff)
  show ?thesis
  proof (cases "s = 0")
    case True
    then show ?thesis using sn(1) unfolding split dur_text_def long by simp
  next
    case False
    then have "\<not> s * 1000000000 + n < 10000" "\<not> s * 1000000000 + n < 10000000" using s sn(2) by simp_all
    then show ?thesis
      using False unfolding split dur_text_def sn(1) millis long by simp
  qed
qed

text \<open>
  Borrowing a second from the nanoseconds is right: the duration printed is that of the
  exact time between the clock readings, cut off (not rounded) after the tenth of a
  microsecond or the hundredth of a millisecond.
\<close>

theorem sprint_dur_exact:
  assumes "clock_ok from" "clock_ok to" "total_nanos from \<le> total_nanos to"
  shows "sprint_dur from to = dur_text (total_nanos to - total_nanos from)"
  using sprint_dur_total [OF assms] .

theorem sprint_dur_exact_witness:
  "sprint_dur (1, 999999000) (2, 1500) = dur_text 2500"
  using sprint_dur_exact [of "(1, 999999000)" "(2, 1500)"] by (simp add: clock_ok_def total_nanos_def)

lemma dur_text_length:
  assumes "0 \<le> t" "t < 10 ^ 13"
  shows "length (dur_text t) \<le> 17"
proof -
  consider "t < 10000" | "\<not> t < 10000" "t < 10000000" | "\<not> t < 10000000" by linarith
  then show ?thesis
  proof cases
    case 1
    then have "length (show_nat (nat t)) \<le> 4" using assms by (intro show_nat_length) auto
    then show ?thesis using 1 by (simp add: dur_text_def)
  next
    case 2
    then have "length (show_nat (nat (t div 1000))) \<le> 4" "length (show_nat (nat (t div 100 mod 10))) \<le> 1"
      using assms by (intro show_nat_length; auto)+
    then show ?thesis using 2 by (simp add: dur_text_def)
  next
    case 3
    then have "length (show_nat (nat (t div 1000000))) \<le> 7" "length (show_nat (nat (t div 10000 mod 100))) \<le> 2"
      using assms by (intro show_nat_length; auto)+
    then show ?thesis using 3 by (simp add: dur_text_def pad_left_def)
  qed
qed

text \<open>
  The line of a thread fits in its buffer of 80 bytes: with thread numbers of ten digits and
  times below \<open>10^13\<close> nanoseconds (two hours and three quarters) it may use all of them.
\<close>

theorem thread_report_fits:
  assumes "tid < 10 ^ 10" "clock_ok a" "clock_ok b" "clock_ok c" "clock_ok d"
    and "total_nanos a \<le> total_nanos b" "total_nanos b < total_nanos a + 10 ^ 13"
    and "total_nanos c \<le> total_nanos d" "total_nanos d < total_nanos c + 10 ^ 13"
  shows "thread_report tid a b c d =
    Ok (''Thread '' @ show_nat tid @ '' took '' @ dur_text (total_nanos b - total_nanos a) @ '' wall time, '' @
      dur_text (total_nanos d - total_nanos c) @ '' CPU time'' @ [NL])"
proof -
  have "length (dur_text (total_nanos b - total_nanos a)) \<le> 17" "length (dur_text (total_nanos d - total_nanos c)) \<le> 17"
    using assms by (auto intro!: dur_text_length)
  moreover have "length (show_nat tid) \<le> 10" using assms(1) by (intro show_nat_length) simp_all
  moreover have "sprint_dur a b = dur_text (total_nanos b - total_nanos a)"
    "sprint_dur c d = dur_text (total_nanos d - total_nanos c)"
    using assms by (simp_all add: sprint_dur_total)
  ultimately show ?thesis by (simp add: thread_report_def Let_def)
qed

theorem thread_report_fits_witness:
  "thread_report 7 (0, 1) (0, 2) (0, 0) (1, 0) = Ok (''Thread '' @ show_nat 7 @ '' took '' @ dur_text 1 @ '' wall time, '' @
      dur_text 1000000000 @ '' CPU time'' @ [NL])"
  using thread_report_fits [of 7 "(0, 1)" "(0, 2)" "(0, 0)" "(1, 0)"] by (simp add: clock_ok_def total_nanos_def)

end
