(* ===== verification/Full_Io.thy ===== *)
theory Full_Io
  imports Prelude
begin

text \<open>
  The loops around system calls of \<open>lab5/zad3\<close>: \<open>writeall\<close> and \<open>readall\<close>, which go on after
  partial transfers and signals, \<open>lock\<close>, and \<open>nap\<close>, which sleeps on for what is left. What the
  kernel answers is a list of answers; a loop that has used them all is still in its call, which
  is \<open>Nonterm\<close>.
\<close>

text \<open>A call transfers some bytes, is interrupted (\<open>EINTR\<close>), or fails.\<close>

datatype 'a answer = Done 'a | Intr | Fails

section \<open>The loops\<close>

text \<open>A write of \<open>n\<close> bytes, at most what is left; the last call has nothing to write and returns 0.\<close>

fun writeall :: "nat answer list \<Rightarrow> string \<Rightarrow> string \<Rightarrow> string result" where
  "writeall as [] out = Ok out"
| "writeall [] (c # buf) out = Err Nonterm"
| "writeall (Fails # as) (c # buf) out = Err (Exit_Status 1)"
| "writeall (Intr # as) (c # buf) out = writeall as (c # buf) out"
| "writeall (Done n # as) (c # buf) out =
     (if n = 0 then Err Assert_Fail
      else writeall as (drop n (c # buf)) (out @ take n (c # buf)))"

text \<open>A read into a buffer with room for so many bytes; nothing is read at the end of the file.\<close>

fun readall :: "string answer list \<Rightarrow> nat \<Rightarrow> string \<Rightarrow> string result" where
  "readall as 0 got = Ok got"
| "readall [] (Suc room) got = Err Nonterm"
| "readall (Fails # as) (Suc room) got = Err (Exit_Status 1)"
| "readall (Intr # as) (Suc room) got = readall as (Suc room) got"
| "readall (Done s # as) (Suc room) got =
     (if s = [] then Err Assert_Fail
      else if Suc room < length s then Err Undef_Behaviour
      else readall as (Suc room - length s) (got @ s))"

fun lock :: "unit answer list \<Rightarrow> unit result" where
  "lock [] = Err Nonterm"
| "lock (Done () # as) = Ok ()"
| "lock (Intr # as) = lock as"
| "lock (Fails # as) = Err (Exit_Status 1)"

text \<open>
  \<open>nap\<close>: how long it sleeps, \<open>r\<close> being the random number, and the loop over \<open>nanosleep\<close>, whose
  answers are the times slept before a signal came. The result is the time slept in all.
\<close>

definition nap_dur :: "int \<Rightarrow> int \<Rightarrow> int \<Rightarrow> int" where
  "nap_dur mn mx r = (if mx = mn then mn else mn + r mod (mx - mn))"

fun nap_loop :: "nat list \<Rightarrow> nat \<Rightarrow> nat \<Rightarrow> nat" where
  "nap_loop [] left slept = slept + left"
| "nap_loop (t # ts) left slept = (if left \<le> t then slept + left else nap_loop ts (left - t) (slept + t))"

section \<open>What they do\<close>

text \<open>How many calls transfer something.\<close>

definition transfers :: "'a answer list \<Rightarrow> nat" where
  "transfers as = length (filter (\<lambda>a. \<exists>x. a = Done x) as)"

lemma transfers_simps [simp]:
  "transfers [] = 0" "transfers (Done x # as) = Suc (transfers as)" "transfers (Intr # as) = transfers as"
  by (simp_all add: transfers_def)

text \<open>
  Whatever the kernel takes at a time and however often it is interrupted, \<open>writeall\<close>
  writes exactly the buffer, in order; it returns as soon as there have been as many
  transfers as bytes.
\<close>

theorem writeall_complete:
  assumes "Fails \<notin> set as" "Done 0 \<notin> set as" "length buf \<le> transfers as"
  shows "writeall as buf out = Ok (out @ buf)"
  using assms
proof (induction as buf out rule: writeall.induct)
  case (5 n as c buf out)
  then have "n \<noteq> 0" by auto
  moreover from this have "length (drop n (c # buf)) \<le> transfers as" using 5 by (cases n) auto
  ultimately show ?case using 5 by simp
qed simp_all

text \<open>A failing call ends the process; a call that takes nothing is an assertion that fails.\<close>

lemma writeall_outcome:
  "writeall as buf out = Ok w \<Longrightarrow> w = out @ buf"
  by (induction as buf out rule: writeall.induct) (auto split: if_split_asm)

theorem writeall_complete_witness:
  "writeall [Done 2, Intr, Done 1, Done 5, Done 7] ''abcd'' [] = Ok ''abcd''"
  using writeall_complete [of "[Done 2, Intr, Done 1, Done 5, Done 7]" "''abcd''" "[]"] by simp

text \<open>
  \<open>readall\<close> fills its buffer from pieces of any size, and fails its assertion when the file
  ends before.
\<close>

theorem readall_complete:
  assumes "[] \<notin> set ss" "length (concat ss) \<le> room"
  shows "readall (map Done ss @ Done [] # as) room got =
    (if length (concat ss) = room then Ok (got @ concat ss) else Err Assert_Fail)"
  using assms
proof (induction ss arbitrary: room got)
  case Nil
  then show ?case by (cases room) simp_all
next
  case (Cons s ss)
  then obtain n where n: "room = Suc n" by (cases room; cases s) auto
  have "s \<noteq> []" "length s \<le> room" "length (concat ss) \<le> room - length s" using Cons.prems by auto
  moreover from this have "length (concat ss) = room - length s \<longleftrightarrow> length s + length (concat ss) = room" by auto
  ultimately show ?case using Cons.IH [of "room - length s" "got @ s"] Cons.prems(1) by (simp add: n)
qed

theorem readall_complete_witness:
  "readall (map Done [''ab'', ''c''] @ Done [] # []) 4 [] = Err Assert_Fail"
  by (subst readall_complete) simp_all

lemma nap_sleeps: "nap_loop ts left slept = slept + left"
  by (induction ts left slept rule: nap_loop.induct) auto

lemma nap_dur_range: "0 \<le> r \<Longrightarrow> mn < mx \<Longrightarrow> mn \<le> nap_dur mn mx r \<and> nap_dur mn mx r < mx"
proof -
  assume "0 \<le> r" "mn < mx"
  then have "0 \<le> r mod (mx - mn)" "r mod (mx - mn) < mx - mn" by simp_all
  then show ?thesis using \<open>mn < mx\<close> unfolding nap_dur_def by (simp only: if_False less_imp_neq [symmetric]) linarith
qed

end
