(* ===== verification/Pizza_Time.thy ===== *)
theory Pizza_Time
  imports Pnm_Time Full_Io
begin

text \<open>
  Time in \<open>lab7/main.c\<close>: the stamp in front of every report, which is the time of day in UTC to a
  tenth of a second, and \<open>nap\<close>, which sleeps for a time between two bounds whatever signals
  interrupt it (\<open>nap_dur\<close> and \<open>nap_loop\<close> of \<open>Full_Io\<close>, whose code is the same).
\<close>

definition SEC :: int where "SEC = 1000000000"

text \<open>\<open>"[%2ld:%02ld:%02ld.%ld] [PID %d] "\<close>, from what \<open>gettimeofday\<close> returns.\<close>

definition pizza_stamp :: "int \<times> int \<Rightarrow> nat \<Rightarrow> string" where
  "pizza_stamp tv pid =
     (let sec = fst tv; min = sec div 60; hr = min div 60;
          sec = sec mod 60; min = min mod 60; hr = hr mod 24
      in ''['' @ pad_left 2 SPC (show_long hr) @ '':'' @ pad_left 2 (CHR ''0'') (show_long min) @ '':'' @
         pad_left 2 (CHR ''0'') (show_long sec) @ ''.'' @ show_long (snd tv div 100000) @ ''] [PID '' @
         show_nat pid @ ''] '')"

text \<open>The \<open>timespec\<close> that \<open>nap\<close> starts to sleep for; \<open>r\<close> is what \<open>rand\<close> returns.\<close>

definition pizza_nap :: "int \<Rightarrow> int \<Rightarrow> int \<Rightarrow> timespec" where
  "pizza_nap mn mx r = (let dur = nap_dur mn mx r in (dur div SEC, dur mod SEC))"

lemma show_long_two: "0 \<le> v \<Longrightarrow> v < 100 \<Longrightarrow> length (pad_left 2 c (show_long v)) = 2"
proof -
  assume v: "0 \<le> v" "v < 100"
  then have "length (show_nat (nat v)) \<le> 2" by (intro show_nat_length; simp)
  then show ?thesis using v(1) by (simp add: pad_left_def show_long_def)
qed

text \<open>
  The clock of a stamp has always the same width, its fields are in range, and they say how much of
  the day has gone by.
\<close>

theorem pizza_stamp_clock:
  assumes "0 \<le> fst tv" "0 \<le> snd tv" "snd tv < 1000000"
  shows "\<exists>h m s t. 0 \<le> h \<and> h < 24 \<and> 0 \<le> m \<and> m < 60 \<and> 0 \<le> s \<and> s < 60 \<and> 0 \<le> t \<and> t < 10 \<and>
    3600 * h + 60 * m + s = fst tv mod 86400 \<and> t = snd tv div 100000 \<and>
    pizza_stamp tv pid = ''['' @ pad_left 2 SPC (show_long h) @ '':'' @ pad_left 2 (CHR ''0'') (show_long m) @ '':'' @
      pad_left 2 (CHR ''0'') (show_long s) @ ''.'' @ show_long t @ ''] [PID '' @ show_nat pid @ ''] '' \<and>
    length (pizza_stamp tv pid) = 20 + length (show_nat pid)"
proof -
  define h m s t where hms: "h = fst tv div 60 div 60 mod 24" "m = fst tv div 60 mod 60" "s = fst tv mod 60"
    "t = snd tv div 100000"
  have range: "0 \<le> h" "h < 24" "0 \<le> m" "m < 60" "0 \<le> s" "s < 60" "0 \<le> t" "t < 10"
    using assms by (auto simp: hms)
  obtain d where "fst tv = (3600 * h + 60 * m + s) + 86400 * d"
    using mult_div_mod_eq [of 60 "fst tv"] mult_div_mod_eq [of 60 "fst tv div 60"]
      mult_div_mod_eq [of 24 "fst tv div 60 div 60"] hms
    by (intro that [of "fst tv div 60 div 60 div 24"]) linarith
  then have "fst tv mod 86400 = (3600 * h + 60 * m + s) mod 86400" by (simp only: mod_mult_self2)
  moreover have "(3600 * h + 60 * m + s) mod 86400 = 3600 * h + 60 * m + s"
    using range by (intro mod_pos_pos_trivial; linarith)
  ultimately have day: "3600 * h + 60 * m + s = fst tv mod 86400" by (rule trans [THEN sym])
  have stamp: "pizza_stamp tv pid = ''['' @ pad_left 2 SPC (show_long h) @ '':'' @ pad_left 2 (CHR ''0'') (show_long m) @ '':'' @
      pad_left 2 (CHR ''0'') (show_long s) @ ''.'' @ show_long t @ ''] [PID '' @ show_nat pid @ ''] ''"
    by (simp add: pizza_stamp_def Let_def hms)
  have "length (show_nat (nat t)) \<le> 1" using range(7,8) by (intro show_nat_length; simp)
  moreover have "show_nat (nat t) \<noteq> []" by (metis show_nat_head list.distinct(1))
  ultimately have "length (show_nat (nat t)) = 1" by (cases "show_nat (nat t)") auto
  then have "length (show_long t) = 1" using range(7) by (simp add: show_long_def)
  then have "length (pizza_stamp tv pid) = 20 + length (show_nat pid)"
    unfolding stamp using range by (simp add: show_long_two)
  then show ?thesis using range day stamp hms(4) by blast
qed

theorem pizza_stamp_clock_witness:
  "pizza_stamp (90061, 250000) 7 = ''[ 1:01:01.2] [PID 7] '' \<and>
   length (pizza_stamp (90061, 250000) 7) = 20 + length (show_nat 7)"
proof
  show "pizza_stamp (90061, 250000) 7 = ''[ 1:01:01.2] [PID 7] ''" by code_simp
  show "length (pizza_stamp (90061, 250000) 7) = 20 + length (show_nat 7)"
    using pizza_stamp_clock [of "(90061, 250000)" 7] by auto
qed

text \<open>A nap is a time that \<open>nanosleep\<close> takes, and lasts at least the lower bound and less than the upper one.\<close>

theorem pizza_nap_range:
  assumes "0 \<le> r" "0 \<le> mn" "mn < mx"
  shows "clock_ok (pizza_nap mn mx r) \<and> mn \<le> total_nanos (pizza_nap mn mx r) \<and>
    total_nanos (pizza_nap mn mx r) < mx \<and>
    nap_loop ts (nat (total_nanos (pizza_nap mn mx r))) 0 = nat (total_nanos (pizza_nap mn mx r))"
  using nap_dur_range [OF assms(1,3)]
  by (simp add: pizza_nap_def Let_def clock_ok_def total_nanos_def SEC_def nap_sleeps)

theorem pizza_nap_range_witness:
  "total_nanos (pizza_nap (4 * SEC) (5 * SEC) 123456789012) < 5 * SEC"
proof -
  have "0 \<le> (123456789012 :: int)" "0 \<le> 4 * SEC" "4 * SEC < 5 * SEC" by (simp_all add: SEC_def)
  then show ?thesis using pizza_nap_range by blast
qed

end
