(* ===== verification/Santa.thy ===== *)
theory Santa
  imports Prelude
begin

text \<open>
  Santa, the elves and the reindeer of \<open>lab9/main.c\<close>: threads that share a context guarded
  by a mutex, one condition variable on which Santa sleeps and three semaphores.

  A thread is its program counter (and Santa's two locals). A statement that touches the
  context is a step of its own. A statement that has to wait, for the mutex or for a
  semaphore, has no step (\<open>None\<close>); a wait on the condition variable ends when the variable
  is signalled, or spuriously, as POSIX allows.
\<close>

section \<open>The shared context\<close>

definition MAXELF :: nat where "MAXELF = 10"
definition MAXELFWAIT :: nat where "MAXELFWAIT = 3"
definition MAXREIN :: nat where "MAXREIN = 9"
definition MAXREINWAIT :: nat where "MAXREINWAIT = 9"

lemmas max_defs = MAXELF_def MAXELFWAIT_def MAXREIN_def MAXREINWAIT_def

datatype thread = Santa_T | Elf_T nat | Deer_T nat

text \<open>\<open>ctx_lock\<close> is the owner of the mutex.\<close>

record ctx_t =
  ctx_lock :: "thread option"
  reindeer_sem :: nat
  elf_sem :: nat
  elfslots_sem :: nat
  reindeer :: int
  elves :: int
  elfids :: "int list"

definition init_ctx :: ctx_t where
  "init_ctx = \<lparr>ctx_lock = None, reindeer_sem = 0, elf_sem = 0, elfslots_sem = MAXELFWAIT,
     reindeer = 0, elves = 0, elfids = replicate MAXELFWAIT 0\<rparr>"

definition mutex_lock :: "thread \<Rightarrow> ctx_t \<Rightarrow> ctx_t option" where
  "mutex_lock t c = (if ctx_lock c = None then Some (c\<lparr>ctx_lock := Some t\<rparr>) else None)"

definition mutex_unlock :: "ctx_t \<Rightarrow> ctx_t" where
  "mutex_unlock c = c\<lparr>ctx_lock := None\<rparr>"

datatype santa_event =
    Going_To_Sleep | Waking_Up | Delivering | Solving "int list" | Exiting
  | Elf_Problem int | Elf_Wakes_Santa | Elf_Solved
  | On_Vacation | Deer_Back int | Deer_Wakes_Santa

section \<open>Santa\<close>

datatype santa_label =
    S_Start | S_Loop | S_Check | S_Sleep | S_Cond | S_Wait | S_Woken | S_Awake | S_Branch
  | S_Deliver | S_Post_R | S_Zero_R | S_Count
  | S_Solve | S_Post_E | S_Zero_E
  | S_Exit | S_Unlock | S_Done | S_Fail

record santa_t =
  spc :: santa_label
  deliveries :: nat
  sj :: nat

text \<open>
  The statements of \<open>santa_thread\<close>. \<open>S_Cond\<close> is the call of \<open>pthread_cond_wait\<close>, which
  releases the mutex; \<open>S_Wait\<close> is the sleep in it, and \<open>S_Woken\<close> its end, where the mutex
  is taken again.
\<close>

fun santa_at :: "santa_label \<Rightarrow> santa_t \<Rightarrow> ctx_t \<Rightarrow> (santa_t \<times> ctx_t \<times> santa_event list) option" where
  "santa_at S_Start s c =
     map_option (\<lambda>c. (s\<lparr>spc := S_Loop, deliveries := 0\<rparr>, c, [])) (mutex_lock Santa_T c)"
| "santa_at S_Loop s c = Some (s\<lparr>spc := if deliveries s < 3 then S_Check else S_Exit\<rparr>, c, [])"
| "santa_at S_Check s c =
     Some (s\<lparr>spc := if reindeer c < int MAXREINWAIT \<and> elves c < int MAXELFWAIT then S_Sleep
       else S_Branch\<rparr>, c, [])"
| "santa_at S_Sleep s c = Some (s\<lparr>spc := S_Cond\<rparr>, c, [Going_To_Sleep])"
| "santa_at S_Cond s c = Some (s\<lparr>spc := S_Wait\<rparr>, mutex_unlock c, [])"
| "santa_at S_Wait s c = None"
| "santa_at S_Woken s c = map_option (\<lambda>c. (s\<lparr>spc := S_Awake\<rparr>, c, [])) (mutex_lock Santa_T c)"
| "santa_at S_Awake s c = Some (s\<lparr>spc := S_Check\<rparr>, c, [Waking_Up])"
| "santa_at S_Branch s c =
     Some (s\<lparr>spc := if int MAXREINWAIT \<le> reindeer c then S_Deliver
       else if int MAXELFWAIT \<le> elves c then S_Solve else S_Fail\<rparr>, c, [])"
| "santa_at S_Deliver s c = Some (s\<lparr>spc := S_Post_R, sj := 0\<rparr>, c, [Delivering])"
| "santa_at S_Post_R s c =
     (if sj s < MAXREINWAIT
      then Some (s\<lparr>sj := sj s + 1\<rparr>, c\<lparr>reindeer_sem := reindeer_sem c + 1\<rparr>, [])
      else Some (s\<lparr>spc := S_Zero_R\<rparr>, c, []))"
| "santa_at S_Zero_R s c = Some (s\<lparr>spc := S_Count\<rparr>, c\<lparr>reindeer := 0\<rparr>, [])"
| "santa_at S_Count s c = Some (s\<lparr>spc := S_Loop, deliveries := deliveries s + 1\<rparr>, c, [])"
| "santa_at S_Solve s c =
     Some (s\<lparr>spc := S_Post_E, sj := 0\<rparr>, c, [Solving (take MAXELFWAIT (elfids c))])"
| "santa_at S_Post_E s c =
     (if sj s < MAXELFWAIT
      then Some (s\<lparr>sj := sj s + 1\<rparr>, c\<lparr>elf_sem := elf_sem c + 1\<rparr>, [])
      else Some (s\<lparr>spc := S_Zero_E\<rparr>, c, []))"
| "santa_at S_Zero_E s c = Some (s\<lparr>spc := S_Loop\<rparr>, c\<lparr>elves := 0\<rparr>, [])"
| "santa_at S_Exit s c = Some (s\<lparr>spc := S_Unlock\<rparr>, c, [Exiting])"
| "santa_at S_Unlock s c = Some (s\<lparr>spc := S_Done\<rparr>, mutex_unlock c, [])"
| "santa_at S_Done s c = None"
| "santa_at S_Fail s c = None"

definition santa_stmt :: "santa_t \<Rightarrow> ctx_t \<Rightarrow> (santa_t \<times> ctx_t \<times> santa_event list) option" where
  "santa_stmt s c = santa_at (spc s) s c"

text \<open>\<open>pthread_cond_signal\<close>: Santa is the only thread that ever waits on the variable.\<close>

definition cond_signal :: "bool \<Rightarrow> santa_t \<Rightarrow> santa_t" where
  "cond_signal sig s = (if sig \<and> spc s = S_Wait then s\<lparr>spc := S_Woken\<rparr> else s)"

section \<open>The elves and the reindeer\<close>

datatype elf_label =
    E_Nap | E_Slot | E_Lock | E_Store | E_Inc | E_Report | E_Check | E_Signal | E_Unlock
  | E_Wait | E_Solved | E_Free | E_Dead

text \<open>
  A statement of \<open>elf_thread\<close> of the elf with thread id \<open>t\<close>; the Boolean says whether it
  signals the condition variable. A write of \<open>elfids\<close> outside the array ends in \<open>E_Dead\<close>.
\<close>

fun elf_stmt :: "int \<Rightarrow> nat \<Rightarrow> elf_label \<Rightarrow> ctx_t \<Rightarrow> (elf_label \<times> ctx_t \<times> santa_event list \<times> bool) option" where
  "elf_stmt t i E_Nap c = Some (E_Slot, c, [], False)"
| "elf_stmt t i E_Slot c =
     (if 0 < elfslots_sem c
      then Some (E_Lock, c\<lparr>elfslots_sem := elfslots_sem c - 1\<rparr>, [], False) else None)"
| "elf_stmt t i E_Lock c = map_option (\<lambda>c. (E_Store, c, [], False)) (mutex_lock (Elf_T i) c)"
| "elf_stmt t i E_Store c =
     (if 0 \<le> elves c \<and> nat (elves c) < length (elfids c)
      then Some (E_Inc, c\<lparr>elfids := (elfids c)[nat (elves c) := t]\<rparr>, [], False)
      else Some (E_Dead, c, [], False))"
| "elf_stmt t i E_Inc c = Some (E_Report, c\<lparr>elves := elves c + 1\<rparr>, [], False)"
| "elf_stmt t i E_Report c = Some (E_Check, c, [Elf_Problem (elves c)], False)"
| "elf_stmt t i E_Check c =
     Some (if int MAXELFWAIT \<le> elves c then E_Signal else E_Unlock, c, [], False)"
| "elf_stmt t i E_Signal c = Some (E_Unlock, c, [Elf_Wakes_Santa], True)"
| "elf_stmt t i E_Unlock c = Some (E_Wait, mutex_unlock c, [], False)"
| "elf_stmt t i E_Wait c =
     (if 0 < elf_sem c then Some (E_Solved, c\<lparr>elf_sem := elf_sem c - 1\<rparr>, [], False) else None)"
| "elf_stmt t i E_Solved c = Some (E_Free, c, [Elf_Solved], False)"
| "elf_stmt t i E_Free c = Some (E_Nap, c\<lparr>elfslots_sem := elfslots_sem c + 1\<rparr>, [], False)"
| "elf_stmt t i E_Dead c = None"

datatype deer_label =
    R_Home | R_Nap | R_Inc | R_Report | R_Check | R_Signal | R_Unlock | R_Wait

text \<open>A statement of \<open>reindeer_thread\<close>; \<open>R_Nap\<close> is the nap and the lock after it.\<close>

fun reindeer_stmt :: "nat \<Rightarrow> deer_label \<Rightarrow> ctx_t \<Rightarrow> (deer_label \<times> ctx_t \<times> santa_event list \<times> bool) option" where
  "reindeer_stmt i R_Home c = Some (R_Nap, c, [On_Vacation], False)"
| "reindeer_stmt i R_Nap c = map_option (\<lambda>c. (R_Inc, c, [], False)) (mutex_lock (Deer_T i) c)"
| "reindeer_stmt i R_Inc c = Some (R_Report, c\<lparr>reindeer := reindeer c + 1\<rparr>, [], False)"
| "reindeer_stmt i R_Report c = Some (R_Check, c, [Deer_Back (reindeer c)], False)"
| "reindeer_stmt i R_Check c =
     Some (if int MAXREINWAIT \<le> reindeer c then R_Signal else R_Unlock, c, [], False)"
| "reindeer_stmt i R_Signal c = Some (R_Unlock, c, [Deer_Wakes_Santa], True)"
| "reindeer_stmt i R_Unlock c = Some (R_Wait, mutex_unlock c, [], False)"
| "reindeer_stmt i R_Wait c =
     (if 0 < reindeer_sem c
      then Some (R_Home, c\<lparr>reindeer_sem := reindeer_sem c - 1\<rparr>, [], False) else None)"

section \<open>The workshop\<close>

record workshop =
  shop :: ctx_t
  santa :: santa_t
  elf_pcs :: "elf_label list"
  deer_pcs :: "deer_label list"
  shop_log :: "santa_event list"

text \<open>\<open>tid\<close> gives the thread id, the value of \<open>gettid()\<close>, of each elf.\<close>

inductive santa_step :: "(nat \<Rightarrow> int) \<Rightarrow> workshop \<Rightarrow> workshop \<Rightarrow> bool" for tid where
  santa_moves:
    "santa_stmt (santa w) (shop w) = Some (s, c, out) \<Longrightarrow>
     santa_step tid w (w\<lparr>shop := c, santa := s, shop_log := shop_log w @ out\<rparr>)"
| wakes_up:
    "spc (santa w) = S_Wait \<Longrightarrow>
     santa_step tid w (w\<lparr>santa := cond_signal True (santa w)\<rparr>)"
| elf_moves:
    "i < length (elf_pcs w) \<Longrightarrow>
     elf_stmt (tid i) i (elf_pcs w ! i) (shop w) = Some (l, c, out, sig) \<Longrightarrow>
     santa_step tid w (w\<lparr>shop := c, santa := cond_signal sig (santa w),
       elf_pcs := (elf_pcs w)[i := l], shop_log := shop_log w @ out\<rparr>)"
| deer_moves:
    "i < length (deer_pcs w) \<Longrightarrow>
     reindeer_stmt i (deer_pcs w ! i) (shop w) = Some (l, c, out, sig) \<Longrightarrow>
     santa_step tid w (w\<lparr>shop := c, santa := cond_signal sig (santa w),
       deer_pcs := (deer_pcs w)[i := l], shop_log := shop_log w @ out\<rparr>)"

inductive_cases santa_stepE [consumes 1, case_names santa_moves wakes_up elf_moves deer_moves]:
  "santa_step tid w w'"

text \<open>
  The workshop after the loops of \<open>main\<close> that create the threads. A thread that does not
  run yet is one that has not made its first step.
\<close>

definition open_workshop :: workshop where
  "open_workshop = \<lparr>shop = init_ctx, santa = \<lparr>spc = S_Start, deliveries = 0, sj = 0\<rparr>,
     elf_pcs = replicate MAXELF E_Nap, deer_pcs = replicate MAXREIN R_Home, shop_log = []\<rparr>"

end
