(* ===== verification/Santa_Inv.thy ===== *)
theory Santa_Inv
  imports Santa
begin

text \<open>
  The invariant of the workshop: who holds the mutex, how the two counters, the three
  semaphores and Santa's posts add up to the number of threads that wait, what Santa knows
  at each of his statements, and that he is not left asleep. One lemma per kind of step.
\<close>

section \<open>The invariant\<close>

text \<open>The statements between lock and unlock.\<close>

fun santa_in :: "santa_label \<Rightarrow> bool" where
  "santa_in S_Start = False"
| "santa_in S_Wait = False"
| "santa_in S_Woken = False"
| "santa_in S_Done = False"
| "santa_in _ = True"

fun elf_in :: "elf_label \<Rightarrow> bool" where
  "elf_in E_Store = True"
| "elf_in E_Inc = True"
| "elf_in E_Report = True"
| "elf_in E_Check = True"
| "elf_in E_Signal = True"
| "elf_in E_Unlock = True"
| "elf_in _ = False"

fun deer_in :: "deer_label \<Rightarrow> bool" where
  "deer_in R_Inc = True"
| "deer_in R_Report = True"
| "deer_in R_Check = True"
| "deer_in R_Signal = True"
| "deer_in R_Unlock = True"
| "deer_in _ = False"

text \<open>An elf that took a slot; an elf, or a reindeer, that is counted and not yet released.\<close>

fun in_slot :: "elf_label \<Rightarrow> bool" where
  "in_slot E_Nap = False"
| "in_slot E_Slot = False"
| "in_slot E_Dead = False"
| "in_slot _ = True"

fun elf_counted :: "elf_label \<Rightarrow> bool" where
  "elf_counted E_Report = True"
| "elf_counted E_Check = True"
| "elf_counted E_Signal = True"
| "elf_counted E_Unlock = True"
| "elf_counted E_Wait = True"
| "elf_counted _ = False"

fun deer_counted :: "deer_label \<Rightarrow> bool" where
  "deer_counted R_Report = True"
| "deer_counted R_Check = True"
| "deer_counted R_Signal = True"
| "deer_counted R_Unlock = True"
| "deer_counted R_Wait = True"
| "deer_counted _ = False"

definition how_many :: "('a \<Rightarrow> bool) \<Rightarrow> 'a list \<Rightarrow> nat" where
  "how_many P xs = length (filter P xs)"

text \<open>Posts that Santa has made for threads whose counter he has not reset yet.\<close>

definition posted_deer :: "santa_t \<Rightarrow> nat" where
  "posted_deer s = (case spc s of S_Post_R \<Rightarrow> sj s | S_Zero_R \<Rightarrow> MAXREINWAIT | _ \<Rightarrow> 0)"

definition posted_elf :: "santa_t \<Rightarrow> nat" where
  "posted_elf s = (case spc s of S_Post_E \<Rightarrow> sj s | S_Zero_E \<Rightarrow> MAXELFWAIT | _ \<Rightarrow> 0)"

text \<open>The threads that are between lock and unlock.\<close>

fun inside :: "workshop \<Rightarrow> thread \<Rightarrow> bool" where
  "inside w Santa_T = santa_in (spc (santa w))"
| "inside w (Elf_T i) = (i < MAXELF \<and> elf_in (elf_pcs w ! i))"
| "inside w (Deer_T i) = (i < MAXREIN \<and> deer_in (deer_pcs w ! i))"

definition lock_inv :: "workshop \<Rightarrow> bool" where
  "lock_inv w \<longleftrightarrow> length (elf_pcs w) = MAXELF \<and> length (deer_pcs w) = MAXREIN \<and>
     (\<forall>t. ctx_lock (shop w) = Some t \<longleftrightarrow> inside w t)"

definition count_inv :: "workshop \<Rightarrow> bool" where
  "count_inv w \<longleftrightarrow>
     elfslots_sem (shop w) + how_many in_slot (elf_pcs w) = MAXELFWAIT \<and>
     elves (shop w) + int (elf_sem (shop w)) =
       int (how_many elf_counted (elf_pcs w) + posted_elf (santa w)) \<and>
     reindeer (shop w) + int (reindeer_sem (shop w)) =
       int (how_many deer_counted (deer_pcs w) + posted_deer (santa w)) \<and>
     length (elfids (shop w)) = MAXELFWAIT \<and>
     0 \<le> elves (shop w) \<and> elves (shop w) \<le> int MAXELFWAIT \<and>
     0 \<le> reindeer (shop w) \<and> reindeer (shop w) \<le> int MAXREINWAIT"

definition santa_knows :: "santa_t \<Rightarrow> ctx_t \<Rightarrow> bool" where
  "santa_knows s c \<longleftrightarrow> (case spc s of
     S_Start \<Rightarrow> deliveries s = 0
   | S_Loop \<Rightarrow> deliveries s \<le> 3
   | S_Branch \<Rightarrow> deliveries s < 3 \<and> (reindeer c = int MAXREINWAIT \<or> elves c = int MAXELFWAIT)
   | S_Deliver \<Rightarrow> deliveries s < 3 \<and> reindeer c = int MAXREINWAIT
   | S_Post_R \<Rightarrow> deliveries s < 3 \<and> reindeer c = int MAXREINWAIT \<and> sj s \<le> MAXREINWAIT
   | S_Zero_R \<Rightarrow> deliveries s < 3 \<and> reindeer c = int MAXREINWAIT
   | S_Solve \<Rightarrow> deliveries s < 3 \<and> elves c = int MAXELFWAIT
   | S_Post_E \<Rightarrow> deliveries s < 3 \<and> elves c = int MAXELFWAIT \<and> sj s \<le> MAXELFWAIT
   | S_Zero_E \<Rightarrow> deliveries s < 3 \<and> elves c = int MAXELFWAIT
   | S_Exit \<Rightarrow> deliveries s = 3
   | S_Unlock \<Rightarrow> deliveries s = 3
   | S_Done \<Rightarrow> deliveries s = 3
   | S_Sleep \<Rightarrow> deliveries s < 3 \<and> reindeer c < int MAXREINWAIT \<and> elves c < int MAXELFWAIT
   | S_Cond \<Rightarrow> deliveries s < 3 \<and> reindeer c < int MAXREINWAIT \<and> elves c < int MAXELFWAIT
   | S_Fail \<Rightarrow> False
   | _ \<Rightarrow> deliveries s < 3)"

text \<open>
  Santa does not sleep on a full house: while he waits, a counter that is full was filled by
  the thread that holds the mutex and has not signalled yet.
\<close>

fun waking :: "workshop \<Rightarrow> thread \<Rightarrow> bool" where
  "waking w (Elf_T i) \<longleftrightarrow> elf_pcs w ! i \<in> {E_Report, E_Check, E_Signal}"
| "waking w (Deer_T i) \<longleftrightarrow> deer_pcs w ! i \<in> {R_Report, R_Check, R_Signal}"
| "waking w Santa_T \<longleftrightarrow> False"

definition wake_inv :: "workshop \<Rightarrow> bool" where
  "wake_inv w \<longleftrightarrow> (spc (santa w) = S_Wait \<longrightarrow>
     (elves (shop w) = int MAXELFWAIT \<longrightarrow>
        (\<exists>i. ctx_lock (shop w) = Some (Elf_T i) \<and> waking w (Elf_T i))) \<and>
     (reindeer (shop w) = int MAXREINWAIT \<longrightarrow>
        (\<exists>i. ctx_lock (shop w) = Some (Deer_T i) \<and> waking w (Deer_T i))))"

definition elf_fine :: "int \<Rightarrow> elf_label \<Rightarrow> bool" where
  "elf_fine k l \<longleftrightarrow> l \<noteq> E_Dead \<and> (l \<in> {E_Report, E_Check, E_Signal} \<longrightarrow> 1 \<le> k)"

definition deer_fine :: "int \<Rightarrow> deer_label \<Rightarrow> bool" where
  "deer_fine k l \<longleftrightarrow> (l \<in> {R_Report, R_Check, R_Signal} \<longrightarrow> 1 \<le> k)"

definition thread_inv :: "workshop \<Rightarrow> bool" where
  "thread_inv w \<longleftrightarrow> (\<forall>i < MAXELF. elf_fine (elves (shop w)) (elf_pcs w ! i)) \<and>
     (\<forall>i < MAXREIN. deer_fine (reindeer (shop w)) (deer_pcs w ! i))"

fun event_fine :: "santa_event \<Rightarrow> bool" where
  "event_fine (Elf_Problem k) \<longleftrightarrow> 1 \<le> k \<and> k \<le> int MAXELFWAIT"
| "event_fine (Deer_Back k) \<longleftrightarrow> 1 \<le> k \<and> k \<le> int MAXREINWAIT"
| "event_fine _ \<longleftrightarrow> True"

definition delivering :: "santa_label \<Rightarrow> bool" where
  "delivering l \<longleftrightarrow> l \<in> {S_Post_R, S_Zero_R, S_Count}"

definition log_inv :: "workshop \<Rightarrow> bool" where
  "log_inv w \<longleftrightarrow> (\<forall>e \<in> set (shop_log w). event_fine e) \<and>
     how_many (\<lambda>e. e = Delivering) (shop_log w) =
       deliveries (santa w) + of_bool (delivering (spc (santa w)))"

definition santa_inv :: "workshop \<Rightarrow> bool" where
  "santa_inv w \<longleftrightarrow> lock_inv w \<and> count_inv w \<and> santa_knows (santa w) (shop w) \<and> wake_inv w \<and>
     thread_inv w \<and> log_inv w"

section \<open>Counting threads\<close>

lemma how_many_update:
  "i < length xs \<Longrightarrow>
    how_many P (xs[i := x]) + of_bool (P (xs ! i)) = how_many P xs + of_bool (P x)"
  unfolding how_many_def by (rule length_filter_upd)

lemma how_many_append: "how_many P (xs @ ys) = how_many P xs + how_many P ys"
  by (simp add: how_many_def)

lemma how_many_le: "how_many P xs \<le> length xs"
  by (simp add: how_many_def)

lemma how_many_mono: "(\<And>x. x \<in> set xs \<Longrightarrow> P x \<Longrightarrow> Q x) \<Longrightarrow> how_many P xs \<le> how_many Q xs"
  unfolding how_many_def by (induction xs) auto

lemma how_many_all: "how_many P xs = length xs \<longleftrightarrow> (\<forall>x \<in> set xs. P x)"
  unfolding how_many_def using length_filter_less[of _ xs P] filter_id_conv[of P xs]
  by (metis less_irrefl)

lemma how_many_update_simps:
  assumes "i < length xs"
  shows "P (xs ! i) = P x \<Longrightarrow> how_many P (xs[i := x]) = how_many P xs"
    and "\<not> P (xs ! i) \<Longrightarrow> P x \<Longrightarrow> how_many P (xs[i := x]) = Suc (how_many P xs)"
    and "P (xs ! i) \<Longrightarrow> \<not> P x \<Longrightarrow> Suc (how_many P (xs[i := x])) = how_many P xs"
  using how_many_update[OF assms, of P x] by (auto simp: of_bool_def split: if_split_asm)

text \<open>Whoever is inside owns the mutex, and nobody else is inside.\<close>

lemma inside_owner: "santa_inv w \<Longrightarrow> inside w t \<Longrightarrow> ctx_lock (shop w) = Some t"
  by (simp add: santa_inv_def lock_inv_def)

lemma inside_unique: "santa_inv w \<Longrightarrow> inside w t \<Longrightarrow> inside w t' \<Longrightarrow> t = t'"
  by (metis inside_owner option.inject)

lemma elf_inside:
  assumes "santa_inv w" "i < MAXELF" "elf_in (elf_pcs w ! i)"
  shows "ctx_lock (shop w) = Some (Elf_T i)" "\<not> santa_in (spc (santa w))"
  using inside_owner[of w "Elf_T i"] inside_unique[of w "Elf_T i" Santa_T] assms by auto

lemma deer_inside:
  assumes "santa_inv w" "i < MAXREIN" "deer_in (deer_pcs w ! i)"
  shows "ctx_lock (shop w) = Some (Deer_T i)" "\<not> santa_in (spc (santa w))"
  using inside_owner[of w "Deer_T i"] inside_unique[of w "Deer_T i" Santa_T] assms by auto

text \<open>One thread goes in or out, and the mutex with it.\<close>

lemma lock_pass:
  assumes "\<forall>t. ow = Some t \<longleftrightarrow> P t"
    and "ow' = (if P u \<and> \<not> b then None else if \<not> P u \<and> b then Some u else ow)"
    and "\<not> P u \<and> b \<longrightarrow> ow = None"
  shows "ow' = Some t \<longleftrightarrow> (P(u := b)) t"
  using assms(1)[rule_format, of t] assms(1)[rule_format, of u] assms(2,3) by auto

text \<open>
  An elf about to be counted has a slot and is not counted: there is room in \<open>elfids\<close>.
  A reindeer about to be counted is not counted.
\<close>

lemma room_for_elf:
  assumes inv: "santa_inv w" and i: "i < MAXELF" and at: "elf_pcs w ! i \<in> {E_Store, E_Inc}"
  shows "elves (shop w) < int MAXELFWAIT"
proof -
  have len: "length (elf_pcs w) = MAXELF" using inv by (simp add: santa_inv_def lock_inv_def)
  have "\<not> santa_in (spc (santa w))"
    using elf_inside(2)[OF inv i] at by auto
  then have "posted_elf (santa w) = 0"
    by (cases "spc (santa w)") (simp_all add: posted_elf_def)
  moreover have "how_many elf_counted (elf_pcs w) < how_many in_slot (elf_pcs w)"
  proof -
    have "how_many elf_counted (elf_pcs w) \<le> how_many in_slot ((elf_pcs w)[i := E_Nap])"
    proof -
      have "in_slot l" if "elf_counted l" for l using that by (cases l) simp_all
      then show ?thesis
        using how_many_update_simps(1)[of i "elf_pcs w" elf_counted E_Nap] i len at
          how_many_mono[of "(elf_pcs w)[i := E_Nap]" elf_counted in_slot] by auto
    qed
    then show ?thesis
      using how_many_update_simps(3)[of i "elf_pcs w" in_slot E_Nap] i len at by fastforce
  qed
  ultimately show ?thesis using inv by (simp add: santa_inv_def count_inv_def)
qed

lemma room_for_deer:
  assumes inv: "santa_inv w" and i: "i < MAXREIN" and at: "deer_pcs w ! i = R_Inc"
  shows "reindeer (shop w) < int MAXREINWAIT"
proof -
  have len: "length (deer_pcs w) = MAXREIN" using inv by (simp add: santa_inv_def lock_inv_def)
  have "\<not> santa_in (spc (santa w))"
    using deer_inside(2)[OF inv i] at by auto
  then have "posted_deer (santa w) = 0"
    by (cases "spc (santa w)") (simp_all add: posted_deer_def)
  moreover have "how_many deer_counted (deer_pcs w) \<noteq> length (deer_pcs w)"
    using how_many_all[of deer_counted "deer_pcs w"] i len at nth_mem[of i "deer_pcs w"] by force
  then have "how_many deer_counted (deer_pcs w) < MAXREIN"
    using how_many_le[of deer_counted "deer_pcs w"] len by linarith
  ultimately show ?thesis using inv by (simp add: santa_inv_def count_inv_def max_defs)
qed

section \<open>Every step keeps it\<close>

lemmas santa_moves_defs = santa_stmt_def mutex_lock_def mutex_unlock_def

text \<open>How a statement changes the owner of the mutex.\<close>

lemma santa_owner:
  assumes "santa_stmt s c = Some (s', c', out)"
  shows "ctx_lock c' = (if santa_in (spc s) \<and> \<not> santa_in (spc s') then None
      else if \<not> santa_in (spc s) \<and> santa_in (spc s') then Some Santa_T else ctx_lock c) \<and>
    (\<not> santa_in (spc s) \<and> santa_in (spc s') \<longrightarrow> ctx_lock c = None)"
  using assms by (cases "spc s") (auto simp: santa_moves_defs split: if_split_asm)

lemma elf_owner:
  assumes "elf_stmt t i l c = Some (l', c', out, sig)"
  shows "ctx_lock c' = (if elf_in l \<and> \<not> elf_in l' \<and> l' \<noteq> E_Dead then None
      else if \<not> elf_in l \<and> elf_in l' then Some (Elf_T i) else ctx_lock c) \<and>
    (\<not> elf_in l \<and> elf_in l' \<longrightarrow> ctx_lock c = None)"
  using assms by (cases l) (auto simp: santa_moves_defs split: if_split_asm)

lemma deer_owner:
  assumes "reindeer_stmt i l c = Some (l', c', out, sig)"
  shows "ctx_lock c' = (if deer_in l \<and> \<not> deer_in l' then None
      else if \<not> deer_in l \<and> deer_in l' then Some (Deer_T i) else ctx_lock c) \<and>
    (\<not> deer_in l \<and> deer_in l' \<longrightarrow> ctx_lock c = None)"
  using assms by (cases l) (auto simp: santa_moves_defs split: if_split_asm)

lemma santa_inv_santa:
  assumes inv: "santa_inv w" and st: "santa_stmt (santa w) (shop w) = Some (s, c, out)"
  shows "santa_inv (w\<lparr>shop := c, santa := s, shop_log := shop_log w @ out\<rparr>)" (is "santa_inv ?w'")
proof -
  have li: "lock_inv w" and ci: "count_inv w" and kn: "santa_knows (santa w) (shop w)"
    and ti: "thread_inv w" and lg: "log_inv w"
    using inv by (simp_all add: santa_inv_def)
  have "lock_inv ?w'"
  proof -
    have "inside ?w' = (inside w)(Santa_T := santa_in (spc s))"
      by (rule ext, rename_tac t, case_tac t) simp_all
    moreover have "ctx_lock c = Some t \<longleftrightarrow> ((inside w)(Santa_T := santa_in (spc s))) t" for t
      by (rule lock_pass[of "ctx_lock (shop w)"])
        (use li santa_owner[OF st] in \<open>simp_all add: lock_inv_def\<close>)
    ultimately show ?thesis using li by (simp add: lock_inv_def)
  qed
  moreover have "count_inv ?w'"
    using ci kn st by (cases "spc (santa w)")
      (auto simp: count_inv_def santa_knows_def posted_elf_def posted_deer_def santa_moves_defs
        split: if_split_asm)
  moreover have "santa_knows s c"
    using ci kn st by (cases "spc (santa w)")
      (auto simp: count_inv_def santa_knows_def santa_moves_defs split: if_split_asm)
  moreover have "wake_inv ?w'"
    using kn st by (cases "spc (santa w)")
      (auto simp: wake_inv_def santa_knows_def santa_moves_defs split: if_split_asm)
  moreover have "thread_inv ?w'"
  proof -
    have "elves c = elves (shop w) \<or> spc (santa w) = S_Zero_E"
      "reindeer c = reindeer (shop w) \<or> spc (santa w) = S_Zero_R"
      using st by (cases "spc (santa w)"; auto simp: santa_moves_defs split: if_split_asm)+
    moreover have "elf_pcs w ! i \<notin> {E_Report, E_Check, E_Signal}"
      if "i < MAXELF" "santa_in (spc (santa w))" for i
      using elf_inside(2)[OF inv that(1)] that(2) by fastforce
    moreover have "deer_pcs w ! i \<notin> {R_Report, R_Check, R_Signal}"
      if "i < MAXREIN" "santa_in (spc (santa w))" for i
      using deer_inside(2)[OF inv that(1)] that(2) by fastforce
    ultimately show ?thesis
      using ti unfolding thread_inv_def elf_fine_def deer_fine_def by (auto 4 3)
  qed
  moreover have "log_inv ?w'"
    using lg kn st by (cases "spc (santa w)")
      (auto simp: log_inv_def santa_knows_def delivering_def how_many_def santa_moves_defs
        split: if_split_asm)
  ultimately show ?thesis by (simp add: santa_inv_def)
qed

lemma cond_signal_simps [simp]:
  "deliveries (cond_signal b s) = deliveries s"
  "sj (cond_signal b s) = sj s"
  "santa_in (spc (cond_signal b s)) = santa_in (spc s)"
  "posted_elf (cond_signal b s) = posted_elf s"
  "posted_deer (cond_signal b s) = posted_deer s"
  "delivering (spc (cond_signal b s)) = delivering (spc s)"
  "spc (cond_signal b s) = S_Wait \<longleftrightarrow> spc s = S_Wait \<and> \<not> b"
  "cond_signal False s = s"
  by (auto simp: cond_signal_def posted_elf_def posted_deer_def delivering_def)

lemma inside_signal: "inside (w\<lparr>santa := cond_signal b (santa w)\<rparr>) = inside w"
  by (rule ext, rename_tac t, case_tac t) simp_all

text \<open>What Santa knows does not change when others move while he does not hold the mutex.\<close>

lemma knows_signal:
  assumes "santa_knows s c" and "\<not> santa_in (spc s) \<or> elves c' = elves c \<and> reindeer c' = reindeer c"
  shows "santa_knows (cond_signal b s) c'"
  using assms by (cases "spc s") (auto simp: santa_knows_def cond_signal_def)

lemma santa_inv_wakes:
  assumes "santa_inv w"
  shows "santa_inv (w\<lparr>santa := cond_signal True (santa w)\<rparr>)"
proof -
  have "santa_knows (cond_signal True (santa w)) (shop w)"
    using assms by (intro knows_signal[of _ "shop w"]) (simp_all add: santa_inv_def)
  then show ?thesis
    using assms inside_signal unfolding santa_inv_def
    by (simp add: lock_inv_def count_inv_def wake_inv_def thread_inv_def log_inv_def)
qed

lemma elf_keeps_counts:
  assumes inv: "santa_inv w" and i: "i < MAXELF"
    and st: "elf_stmt t i (elf_pcs w ! i) (shop w) = Some (l, c, out, sig)"
  shows "count_inv (w\<lparr>shop := c, santa := cond_signal sig (santa w),
    elf_pcs := (elf_pcs w)[i := l], shop_log := shop_log w @ out\<rparr>) \<and> l \<noteq> E_Dead"
proof -
  have ci: "count_inv w" and len: "i < length (elf_pcs w)" and alive: "elf_pcs w ! i \<noteq> E_Dead"
    using inv i by (simp_all add: santa_inv_def lock_inv_def thread_inv_def elf_fine_def)
  note upd = how_many_update[OF len, of in_slot l] how_many_update[OF len, of elf_counted l]
  show ?thesis
    using ci st upd room_for_elf[OF inv i] alive
    by (cases "elf_pcs w ! i")
      (auto simp: count_inv_def mutex_lock_def mutex_unlock_def split: if_split_asm)
qed

lemma deer_keeps_counts:
  assumes inv: "santa_inv w" and i: "i < MAXREIN"
    and st: "reindeer_stmt i (deer_pcs w ! i) (shop w) = Some (l, c, out, sig)"
  shows "count_inv (w\<lparr>shop := c, santa := cond_signal sig (santa w),
    deer_pcs := (deer_pcs w)[i := l], shop_log := shop_log w @ out\<rparr>)"
proof -
  have ci: "count_inv w" and len: "i < length (deer_pcs w)"
    using inv i by (simp_all add: santa_inv_def lock_inv_def)
  note upd = how_many_update[OF len, of deer_counted l]
  show ?thesis
    using ci st upd room_for_deer[OF inv i]
    by (cases "deer_pcs w ! i")
      (auto simp: count_inv_def mutex_lock_def mutex_unlock_def split: if_split_asm)
qed

text \<open>The counters change only at the statements that increment them.\<close>

lemma elf_counters:
  assumes "elf_stmt t i l c = Some (l', c', out, sig)"
  shows "reindeer c' = reindeer c \<and> elves c' = elves c + of_bool (l = E_Inc)"
  using assms by (cases l) (auto simp: mutex_lock_def mutex_unlock_def split: if_split_asm)

lemma deer_counters:
  assumes "reindeer_stmt i l c = Some (l', c', out, sig)"
  shows "elves c' = elves c \<and> reindeer c' = reindeer c + of_bool (l = R_Inc)"
  using assms by (cases l) (auto simp: mutex_lock_def mutex_unlock_def split: if_split_asm)

lemma fine_Inc [simp]: "elf_fine k E_Inc" "deer_fine k R_Inc"
  by (simp_all add: elf_fine_def deer_fine_def)

lemma elf_fine_mono: "elf_fine k l \<Longrightarrow> k \<le> k' \<Longrightarrow> elf_fine k' l"
  by (auto simp: elf_fine_def)

lemma deer_fine_mono: "deer_fine k l \<Longrightarrow> k \<le> k' \<Longrightarrow> deer_fine k' l"
  by (auto simp: deer_fine_def)

lemma elf_stays_fine:
  assumes "elf_stmt t i l c = Some (l', c', out, sig)" "elf_fine (elves c) l" "0 \<le> elves c" "l' \<noteq> E_Dead"
  shows "elf_fine (elves c') l'"
  using assms by (cases l) (auto simp: elf_fine_def split: if_split_asm)

lemma deer_stays_fine:
  assumes "reindeer_stmt i l c = Some (l', c', out, sig)" "deer_fine (reindeer c) l" "0 \<le> reindeer c"
  shows "deer_fine (reindeer c') l'"
  using assms by (cases l) (auto simp: deer_fine_def split: if_split_asm)

lemma santa_inv_elf:
  assumes inv: "santa_inv w" and i: "i < MAXELF"
    and st: "elf_stmt t i (elf_pcs w ! i) (shop w) = Some (l, c, out, sig)"
  shows "santa_inv (w\<lparr>shop := c, santa := cond_signal sig (santa w),
    elf_pcs := (elf_pcs w)[i := l], shop_log := shop_log w @ out\<rparr>)" (is "santa_inv ?w'")
proof -
  have li: "lock_inv w" and ci: "count_inv w" and kn: "santa_knows (santa w) (shop w)"
    and wi: "wake_inv w" and ti: "thread_inv w" and lg: "log_inv w"
    using inv by (simp_all add: santa_inv_def)
  have len: "length (elf_pcs w) = MAXELF" using li by (simp add: lock_inv_def)
  note keeps = elf_keeps_counts[OF inv i st]
  have "lock_inv ?w'"
  proof -
    have "inside ?w' = (inside w)(Elf_T i := elf_in l)"
      using i len by (intro ext, rename_tac t, case_tac t) (auto simp: nth_list_update)
    moreover have "ctx_lock c = Some t \<longleftrightarrow> ((inside w)(Elf_T i := elf_in l)) t" for t
      by (rule lock_pass[of "ctx_lock (shop w)"])
        (use li elf_owner[OF st] keeps i in \<open>simp_all add: lock_inv_def\<close>)
    ultimately show ?thesis using li by (simp add: lock_inv_def)
  qed
  moreover have "santa_knows (santa ?w') (shop ?w')"
    using knows_signal[OF kn, of c sig] elf_counters[OF st] elf_inside(2)[OF inv i]
    by (cases "elf_pcs w ! i = E_Inc") auto
  moreover have "wake_inv ?w'"
  proof (cases "elf_in (elf_pcs w ! i)")
    case True
    then show ?thesis
      using wi ci st elf_inside(1)[OF inv i] len i
      by (cases "elf_pcs w ! i")
        (auto simp: wake_inv_def count_inv_def mutex_unlock_def split: if_split_asm)
  next
    case False
    have "waking ?w' t = waking w t" if "ctx_lock (shop w) = Some t" for t
    proof -
      have "inside w t" using li that unfolding lock_inv_def by blast
      then have "t \<noteq> Elf_T i" using False by auto
      then show ?thesis by (cases t) simp_all
    qed
    moreover have "ctx_lock (shop w) = None \<or> ctx_lock c = ctx_lock (shop w)"
      using False elf_owner[OF st] by auto
    moreover have "elves c = elves (shop w)" "reindeer c = reindeer (shop w)"
      using False elf_counters[OF st] by auto
    ultimately show ?thesis
      using wi by (auto simp: wake_inv_def simp del: waking.simps)
  qed
  moreover have "thread_inv ?w'"
  proof -
    have "elf_fine (elves c) l"
      using elf_stays_fine[OF st] ti ci keeps i by (simp add: thread_inv_def count_inv_def)
    then show ?thesis
      using ti len i elf_counters[OF st] by (auto simp: thread_inv_def nth_list_update intro: elf_fine_mono)
  qed
  moreover have "log_inv ?w'"
  proof -
    have "elf_fine (elves (shop w)) (elf_pcs w ! i)" using ti i by (simp add: thread_inv_def)
    then show ?thesis
      using lg ci st by (cases "elf_pcs w ! i")
        (auto simp: log_inv_def count_inv_def elf_fine_def how_many_def split: if_split_asm)
  qed
  ultimately show ?thesis using keeps by (simp add: santa_inv_def)
qed

lemma santa_inv_deer:
  assumes inv: "santa_inv w" and i: "i < MAXREIN"
    and st: "reindeer_stmt i (deer_pcs w ! i) (shop w) = Some (l, c, out, sig)"
  shows "santa_inv (w\<lparr>shop := c, santa := cond_signal sig (santa w),
    deer_pcs := (deer_pcs w)[i := l], shop_log := shop_log w @ out\<rparr>)" (is "santa_inv ?w'")
proof -
  have li: "lock_inv w" and ci: "count_inv w" and kn: "santa_knows (santa w) (shop w)"
    and wi: "wake_inv w" and ti: "thread_inv w" and lg: "log_inv w"
    using inv by (simp_all add: santa_inv_def)
  have len: "length (deer_pcs w) = MAXREIN" using li by (simp add: lock_inv_def)
  note keeps = deer_keeps_counts[OF inv i st]
  have "lock_inv ?w'"
  proof -
    have "inside ?w' = (inside w)(Deer_T i := deer_in l)"
      using i len by (intro ext, rename_tac t, case_tac t) (auto simp: nth_list_update)
    moreover have "ctx_lock c = Some t \<longleftrightarrow> ((inside w)(Deer_T i := deer_in l)) t" for t
      by (rule lock_pass[of "ctx_lock (shop w)"])
        (use li deer_owner[OF st] i in \<open>simp_all add: lock_inv_def\<close>)
    ultimately show ?thesis using li by (simp add: lock_inv_def)
  qed
  moreover have "santa_knows (santa ?w') (shop ?w')"
    using knows_signal[OF kn, of c sig] deer_counters[OF st] deer_inside(2)[OF inv i]
    by (cases "deer_pcs w ! i = R_Inc") auto
  moreover have "wake_inv ?w'"
  proof (cases "deer_in (deer_pcs w ! i)")
    case True
    then show ?thesis
      using wi ci st deer_inside(1)[OF inv i] len i
      by (cases "deer_pcs w ! i")
        (auto simp: wake_inv_def count_inv_def mutex_unlock_def split: if_split_asm)
  next
    case False
    have "waking ?w' t = waking w t" if "ctx_lock (shop w) = Some t" for t
    proof -
      have "inside w t" using li that unfolding lock_inv_def by blast
      then have "t \<noteq> Deer_T i" using False by auto
      then show ?thesis by (cases t) simp_all
    qed
    moreover have "ctx_lock (shop w) = None \<or> ctx_lock c = ctx_lock (shop w)"
      using False deer_owner[OF st] by auto
    moreover have "elves c = elves (shop w)" "reindeer c = reindeer (shop w)"
      using False deer_counters[OF st] by auto
    ultimately show ?thesis
      using wi by (auto simp: wake_inv_def simp del: waking.simps)
  qed
  moreover have "thread_inv ?w'"
  proof -
    have "deer_fine (reindeer c) l"
      using deer_stays_fine[OF st] ti ci i by (simp add: thread_inv_def count_inv_def)
    then show ?thesis
      using ti len i deer_counters[OF st] by (auto simp: thread_inv_def nth_list_update intro: deer_fine_mono)
  qed
  moreover have "log_inv ?w'"
  proof -
    have "deer_fine (reindeer (shop w)) (deer_pcs w ! i)" using ti i by (simp add: thread_inv_def)
    then show ?thesis
      using lg ci st by (cases "deer_pcs w ! i")
        (auto simp: log_inv_def count_inv_def deer_fine_def how_many_def split: if_split_asm)
  qed
  ultimately show ?thesis using keeps by (simp add: santa_inv_def)
qed

lemma santa_inv_step:
  assumes inv: "santa_inv w" and step: "santa_step tid w w'"
  shows "santa_inv w'"
proof -
  have len: "length (elf_pcs w) = MAXELF" "length (deer_pcs w) = MAXREIN"
    using inv by (simp_all add: santa_inv_def lock_inv_def)
  from step show ?thesis
  proof (cases rule: santa_stepE)
    case (santa_moves s c out)
    then show ?thesis using santa_inv_santa[OF inv] by simp
  next
    case wakes_up
    then show ?thesis using santa_inv_wakes[OF inv] by simp
  next
    case (elf_moves i l c out sig)
    then show ?thesis using santa_inv_elf[OF inv, of i] len by simp
  next
    case (deer_moves i l c out sig)
    then show ?thesis using santa_inv_deer[OF inv, of i] len by simp
  qed
qed

end
