(* ===== verification/Santa_Props.thy ===== *)
theory Santa_Props
  imports Santa_Inv
begin

text \<open>
  What holds in every reachable state of the workshop, for every schedule and every spurious
  wake-up: no access outside \<open>elfids\<close>, Santa serves threads that wait, he can always finish,
  and he finishes after three deliveries. And one thing that does not hold: the elves he
  names need not be the elves that wait.
\<close>

section \<open>The workshop as a transition system\<close>

lemma how_many_replicate: "how_many P (replicate n x) = (if P x then n else 0)"
  by (simp add: how_many_def)

lemma open_workshop_inv: "santa_inv open_workshop"
proof -
  have "inside open_workshop t = False" for t
    by (cases t) (simp_all add: open_workshop_def)
  then have "lock_inv open_workshop"
    by (simp add: lock_inv_def) (simp add: open_workshop_def init_ctx_def)
  moreover have "count_inv open_workshop"
    by (simp add: count_inv_def open_workshop_def init_ctx_def how_many_replicate posted_elf_def
        posted_deer_def)
  ultimately show ?thesis
    by (simp add: santa_inv_def open_workshop_def santa_knows_def wake_inv_def thread_inv_def
        log_inv_def elf_fine_def deer_fine_def delivering_def how_many_def)
qed

text \<open>
  How far the workshop is from Santa's end, in steps that can always be made: deliveries
  still to make, reindeer still to come, and for each thread the statements before it
  unlocks or, for a reindeer, before it is counted.
\<close>

fun santa_rank :: "santa_t \<Rightarrow> nat" where
  "santa_rank s = (case spc s of
     S_Start \<Rightarrow> 105 | S_Loop \<Rightarrow> 104 | S_Check \<Rightarrow> 103 | S_Sleep \<Rightarrow> 2 | S_Cond \<Rightarrow> 1 | S_Wait \<Rightarrow> 0
   | S_Woken \<Rightarrow> 105 | S_Awake \<Rightarrow> 104 | S_Branch \<Rightarrow> 102
   | S_Deliver \<Rightarrow> 101 | S_Post_R \<Rightarrow> 100 - sj s | S_Zero_R \<Rightarrow> 60 | S_Count \<Rightarrow> 105
   | S_Solve \<Rightarrow> 101 | S_Post_E \<Rightarrow> 100 - sj s | S_Zero_E \<Rightarrow> 60
   | S_Exit \<Rightarrow> 3 | S_Unlock \<Rightarrow> 2 | S_Done \<Rightarrow> 0 | S_Fail \<Rightarrow> 0)"

fun elf_rank :: "elf_label \<Rightarrow> nat" where
  "elf_rank E_Store = 131"
| "elf_rank E_Inc = 130"
| "elf_rank E_Report = 109"
| "elf_rank E_Check = 108"
| "elf_rank E_Signal = 107"
| "elf_rank E_Unlock = 1"
| "elf_rank _ = 0"

fun deer_rank :: "deer_label \<Rightarrow> nat" where
  "deer_rank R_Report = 117"
| "deer_rank R_Check = 116"
| "deer_rank R_Signal = 115"
| "deer_rank R_Unlock = 9"
| "deer_rank R_Wait = 8"
| "deer_rank R_Home = 7"
| "deer_rank R_Nap = 6"
| "deer_rank R_Inc = 5"

definition to_deliver :: "santa_t \<Rightarrow> nat" where
  "to_deliver s = 3 - (deliveries s + of_bool (spc s = S_Count))"

definition workshop_rank :: "workshop \<Rightarrow> nat" where
  "workshop_rank w = 1200 * to_deliver (santa w) + 120 * nat (9 - reindeer (shop w)) +
     20 * nat (elves (shop w)) + santa_rank (santa w) +
     sum_list (map elf_rank (elf_pcs w)) + sum_list (map deer_rank (deer_pcs w))"

text \<open>Every statement of Santa lowers the rank.\<close>

lemma santa_lowers:
  assumes inv: "santa_inv w" and st: "santa_stmt (santa w) (shop w) = Some (s, c, out)"
  shows "workshop_rank (w\<lparr>shop := c, santa := s, shop_log := shop_log w @ out\<rparr>) < workshop_rank w"
proof -
  have "santa_knows (santa w) (shop w)" "0 \<le> elves (shop w)" "0 \<le> reindeer (shop w)"
    using inv by (simp_all add: santa_inv_def count_inv_def)
  then show ?thesis
    using st by (cases "spc (santa w)")
      (auto simp: workshop_rank_def to_deliver_def santa_knows_def santa_moves_defs max_defs
        split: if_split_asm)
qed

lemma signal_rank:
  "santa_rank (cond_signal sig s) \<le> santa_rank s + (if sig then 105 else 0)"
  "to_deliver (cond_signal sig s) = to_deliver s"
  by (auto simp: cond_signal_def to_deliver_def)

text \<open>So does every statement of an elf that holds the mutex, and every one of a reindeer.\<close>

lemma elf_lowers:
  assumes inv: "santa_inv w" and i: "i < MAXELF" and at: "elf_in (elf_pcs w ! i)"
    and st: "elf_stmt t i (elf_pcs w ! i) (shop w) = Some (l, c, out, sig)"
  shows "workshop_rank (w\<lparr>shop := c, santa := cond_signal sig (santa w),
    elf_pcs := (elf_pcs w)[i := l], shop_log := shop_log w @ out\<rparr>) < workshop_rank w"
proof -
  have len: "i < length (elf_pcs w)" and nn: "0 \<le> elves (shop w)" and alive: "l \<noteq> E_Dead"
    using inv i elf_keeps_counts[OF inv i st] by (simp_all add: santa_inv_def lock_inv_def count_inv_def)
  have "elf_rank l + 20 * nat (elves c) + (if sig then 105 else 0) <
      elf_rank (elf_pcs w ! i) + 20 * nat (elves (shop w)) \<and> reindeer c = reindeer (shop w)"
    using at st nn alive by (cases "elf_pcs w ! i")
      (auto simp: mutex_lock_def mutex_unlock_def nat_add_distrib split: if_split_asm)
  then show ?thesis
    using sum_list_map_update[OF len, of elf_rank l] signal_rank[of sig "santa w"]
    unfolding workshop_rank_def by simp
qed

lemma deer_lowers:
  assumes inv: "santa_inv w" and i: "i < MAXREIN"
    and st: "reindeer_stmt i (deer_pcs w ! i) (shop w) = Some (l, c, out, sig)"
  shows "workshop_rank (w\<lparr>shop := c, santa := cond_signal sig (santa w),
    deer_pcs := (deer_pcs w)[i := l], shop_log := shop_log w @ out\<rparr>) < workshop_rank w"
proof -
  have len: "i < length (deer_pcs w)" and nn: "0 \<le> reindeer (shop w)"
    using inv i by (simp_all add: santa_inv_def lock_inv_def count_inv_def)
  have "deer_rank l + 120 * nat (9 - reindeer c) + (if sig then 105 else 0) <
      deer_rank (deer_pcs w ! i) + 120 * nat (9 - reindeer (shop w)) \<and> elves c = elves (shop w)"
    using st nn room_for_deer[OF inv i] by (cases "deer_pcs w ! i")
      (auto simp: mutex_lock_def mutex_unlock_def max_defs split: if_split_asm)
  then show ?thesis
    using sum_list_map_update[OF len, of deer_rank l] signal_rank[of sig "santa w"]
    unfolding workshop_rank_def by simp
qed

text \<open>The owner of the mutex can move, and so can Santa when it is free and he is awake.\<close>

lemma santa_inside_moves: "santa_in (spc s) \<Longrightarrow> spc s \<noteq> S_Fail \<Longrightarrow> santa_stmt s c \<noteq> None"
  by (cases "spc s") (simp_all add: santa_stmt_def)

lemma elf_inside_moves: "elf_in l \<Longrightarrow> elf_stmt t i l c \<noteq> None"
  by (cases l) (simp_all del: not_None_eq)

lemma deer_inside_moves: "deer_in l \<Longrightarrow> reindeer_stmt i l c \<noteq> None"
  by (cases l) simp_all

lemma santa_moves_free:
  "ctx_lock c = None \<Longrightarrow> spc s \<in> {S_Start, S_Woken} \<Longrightarrow> santa_stmt s c \<noteq> None"
  by (auto simp: santa_moves_defs)

text \<open>
  While Santa sleeps and nobody holds the mutex, some reindeer can move: one that is not
  waiting, or, if all nine wait, one for which there is a post.
\<close>

lemma deer_moves_while_asleep:
  assumes inv: "santa_inv w" and free: "ctx_lock (shop w) = None" and asleep: "spc (santa w) = S_Wait"
  shows "\<exists>i < MAXREIN. reindeer_stmt i (deer_pcs w ! i) (shop w) \<noteq> None"
proof (cases "\<forall>l \<in> set (deer_pcs w). l = R_Wait")
  case True
  have len: "length (deer_pcs w) = MAXREIN" using inv by (simp add: santa_inv_def lock_inv_def)
  have "\<forall>l \<in> set (deer_pcs w). deer_counted l" using True by auto
  then have "how_many deer_counted (deer_pcs w) = MAXREIN" using how_many_all len by metis
  moreover have "reindeer (shop w) < int MAXREINWAIT"
    using inv free asleep by (auto simp: santa_inv_def wake_inv_def count_inv_def order.strict_iff_order)
  ultimately have "0 < reindeer_sem (shop w)"
    using inv by (simp add: santa_inv_def count_inv_def max_defs)
  moreover have "deer_pcs w ! 0 = R_Wait" using True len by (simp add: max_defs)
  ultimately show ?thesis by (intro exI[of _ 0]) (simp add: max_defs)
next
  case False
  then obtain i where i: "i < MAXREIN" "deer_pcs w ! i \<noteq> R_Wait"
    using inv by (auto simp: santa_inv_def lock_inv_def in_set_conv_nth)
  moreover have "\<not> deer_in (deer_pcs w ! i)"
    using deer_inside(1)[OF inv i(1)] free by auto
  ultimately have "reindeer_stmt i (deer_pcs w ! i) (shop w) \<noteq> None"
    using free by (cases "deer_pcs w ! i") (auto simp: mutex_lock_def)
  then show ?thesis using i(1) by blast
qed

lemma workshop_closer:
  assumes inv: "santa_inv w" and "spc (santa w) \<noteq> S_Done"
  shows "\<exists>w'. santa_step tid w w' \<and> workshop_rank w' < workshop_rank w"
proof -
  have len: "length (elf_pcs w) = MAXELF" "length (deer_pcs w) = MAXREIN"
    and own: "\<And>t. ctx_lock (shop w) = Some t \<Longrightarrow> inside w t"
    using inv unfolding santa_inv_def lock_inv_def by blast+
  have nofail: "spc (santa w) \<noteq> S_Fail" using inv by (auto simp: santa_inv_def santa_knows_def)
  have santa: ?thesis if moves: "santa_stmt (santa w) (shop w) \<noteq> None"
    using that santa_lowers[OF inv] santa_moves by (metis prod_cases3 not_None_eq)
  have elf: ?thesis if "i < MAXELF" "elf_in (elf_pcs w ! i)" for i
    using that elf_inside_moves elf_lowers[OF inv] elf_moves len by (metis prod_cases4 not_None_eq)
  have deer: ?thesis if "i < MAXREIN" "reindeer_stmt i (deer_pcs w ! i) (shop w) \<noteq> None" for i
    using that deer_lowers[OF inv] deer_moves len by (metis prod_cases4 not_None_eq)
  show ?thesis
  proof (cases "ctx_lock (shop w)")
    case (Some t)
    then show ?thesis
      using own[OF Some] santa[OF santa_inside_moves] nofail elf deer[OF _ deer_inside_moves]
      by (cases t) auto
  next
    case None
    then have "\<not> santa_in (spc (santa w))" using inside_owner[OF inv, of Santa_T] by auto
    then consider "spc (santa w) \<in> {S_Start, S_Woken}" | "spc (santa w) = S_Wait"
      using assms(2) by (cases "spc (santa w)") auto
    then show ?thesis
      using santa[OF santa_moves_free[OF None]] deer deer_moves_while_asleep[OF inv None] by cases blast+
  qed
qed

interpretation workshop: ranked_system "\<lambda>w. w = open_workshop" "santa_step tid" santa_inv
  "\<lambda>w. spc (santa w) = S_Done" workshop_rank for tid
  by unfold_locales (auto intro: open_workshop_inv santa_inv_step workshop_closer)

section \<open>Running a schedule\<close>

definition move_thread :: "(nat \<Rightarrow> int) \<Rightarrow> workshop \<Rightarrow> thread \<Rightarrow> workshop" where
  "move_thread tid w t = (case t of
     Santa_T \<Rightarrow> (case santa_stmt (santa w) (shop w) of
         None \<Rightarrow> w
       | Some (s, c, out) \<Rightarrow> w\<lparr>shop := c, santa := s, shop_log := shop_log w @ out\<rparr>)
   | Elf_T i \<Rightarrow> if length (elf_pcs w) \<le> i then w
       else (case elf_stmt (tid i) i (elf_pcs w ! i) (shop w) of
         None \<Rightarrow> w
       | Some (l, c, out, sig) \<Rightarrow> w\<lparr>shop := c, santa := cond_signal sig (santa w),
           elf_pcs := (elf_pcs w)[i := l], shop_log := shop_log w @ out\<rparr>)
   | Deer_T i \<Rightarrow> if length (deer_pcs w) \<le> i then w
       else (case reindeer_stmt i (deer_pcs w ! i) (shop w) of
         None \<Rightarrow> w
       | Some (l, c, out, sig) \<Rightarrow> w\<lparr>shop := c, santa := cond_signal sig (santa w),
           deer_pcs := (deer_pcs w)[i := l], shop_log := shop_log w @ out\<rparr>))"

definition run_threads :: "(nat \<Rightarrow> int) \<Rightarrow> thread list \<Rightarrow> workshop \<Rightarrow> workshop" where
  "run_threads tid ts w = foldl (move_thread tid) w ts"

lemma move_thread_step: "move_thread tid w t = w \<or> santa_step tid w (move_thread tid w t)"
  unfolding move_thread_def
  by (cases t) (auto split: option.split prod.split intro: santa_moves elf_moves deer_moves)

lemma run_threads_steps: "(santa_step tid)\<^sup>*\<^sup>* w (run_threads tid ts w)"
  unfolding run_threads_def
proof (induction ts arbitrary: w)
  case (Cons t ts)
  then show ?case
    using move_thread_step[of tid w t] by (auto intro: converse_rtranclp_into_rtranclp)
qed simp

text \<open>All reindeer come home and Santa wakes up and delivers; three elves ask for help.\<close>

definition reindeer_home :: workshop where
  "reindeer_home = run_threads int
     (concat (map (\<lambda>i. replicate 7 (Deer_T i)) [0..<9]) @ [Deer_T 8] @ replicate 4 Santa_T)
     open_workshop"

definition elves_ask :: "(nat \<Rightarrow> int) \<Rightarrow> workshop" where
  "elves_ask tid = run_threads tid
     (replicate 8 (Elf_T 0) @ replicate 8 (Elf_T 1) @ replicate 9 (Elf_T 2) @ replicate 4 Santa_T)
     open_workshop"

lemma demo_runs:
  "(santa_step int)\<^sup>*\<^sup>* open_workshop reindeer_home"
  "(santa_step tid)\<^sup>*\<^sup>* open_workshop (elves_ask tid)"
  unfolding reindeer_home_def elves_ask_def by (rule run_threads_steps)+

lemma reachable_santa_inv: "(santa_step tid)\<^sup>*\<^sup>* open_workshop w \<Longrightarrow> santa_inv w"
  by (rule workshop.inv_reachable) simp_all

section \<open>Properties of every reachable state\<close>

text \<open>
  C8: no thread fails. No elf writes outside \<open>elfids\<close>, Santa does not reach the assertion in
  his last branch, at most one thread is between lock and unlock of the mutex, and the
  counters the threads report lie between 1 and 3 (elves) and between 1 and 9 (reindeer).
\<close>

theorem santa_no_crash:
  assumes "(santa_step tid)\<^sup>*\<^sup>* open_workshop w"
  shows "E_Dead \<notin> set (elf_pcs w) \<and> spc (santa w) \<noteq> S_Fail \<and>
    (\<forall>t t'. inside w t \<and> inside w t' \<longrightarrow> t = t') \<and> (\<forall>e \<in> set (shop_log w). event_fine e)"
proof -
  note inv = reachable_santa_inv[OF assms]
  have "spc (santa w) \<noteq> S_Fail" using inv by (auto simp: santa_inv_def santa_knows_def)
  moreover have "E_Dead \<notin> set (elf_pcs w)"
    using inv by (auto simp: santa_inv_def lock_inv_def thread_inv_def elf_fine_def in_set_conv_nth)
  ultimately show ?thesis
    using inv inside_unique[OF inv] by (auto simp: santa_inv_def log_inv_def)
qed

theorem santa_no_crash_witness:
  "E_Dead \<notin> set (elf_pcs (elves_ask int)) \<and> Elf_Problem 3 \<in> set (shop_log (elves_ask int)) \<and>
   event_fine (Elf_Problem 3)"
proof -
  have "Elf_Problem 3 \<in> set (shop_log (elves_ask int))" by code_simp
  then show ?thesis using santa_no_crash[OF demo_runs(2)[of int]] by blast
qed

text \<open>
  C29: Santa serves threads that wait. When he delivers presents, all nine reindeer are home,
  waiting on their semaphore, and no post of an earlier delivery is left; when he solves
  problems, exactly three elves wait on theirs, and no earlier post is left.
\<close>

theorem santa_serves_waiting:
  assumes "(santa_step tid)\<^sup>*\<^sup>* open_workshop w"
  shows "(spc (santa w) = S_Deliver \<longrightarrow> deer_pcs w = replicate MAXREIN R_Wait \<and> reindeer_sem (shop w) = 0) \<and>
    (spc (santa w) = S_Solve \<longrightarrow> how_many (\<lambda>l. l = E_Wait) (elf_pcs w) = 3 \<and> elf_sem (shop w) = 0)"
proof -
  note inv = reachable_santa_inv[OF assms]
  have len: "length (deer_pcs w) = MAXREIN" "length (elf_pcs w) = MAXELF"
    using inv by (simp_all add: santa_inv_def lock_inv_def)
  have deer: "deer_counted l \<longleftrightarrow> l = R_Wait" if "santa_in (spc (santa w))" "l \<in> set (deer_pcs w)" for l
    using that deer_inside(2)[OF inv] len by (cases l) (force simp: in_set_conv_nth)+
  have elf: "elf_counted l \<longleftrightarrow> l = E_Wait" if "santa_in (spc (santa w))" "l \<in> set (elf_pcs w)" for l
    using that elf_inside(2)[OF inv] len by (cases l) (force simp: in_set_conv_nth)+
  have "how_many elf_counted (elf_pcs w) = how_many (\<lambda>l. l = E_Wait) (elf_pcs w)"
    if "santa_in (spc (santa w))"
    using elf[OF that] unfolding how_many_def by (metis (mono_tags, lifting) filter_cong)
  moreover have "how_many elf_counted (elf_pcs w) \<le> 3"
  proof -
    have "in_slot l" if "elf_counted l" for l using that by (cases l) simp_all
    then have "how_many elf_counted (elf_pcs w) \<le> how_many in_slot (elf_pcs w)"
      by (intro how_many_mono)
    then show ?thesis using inv by (simp add: santa_inv_def count_inv_def max_defs)
  qed
  moreover have "how_many deer_counted (deer_pcs w) \<le> 9"
    using how_many_le[of deer_counted "deer_pcs w"] len by (simp add: max_defs)
  moreover have "deer_pcs w = replicate MAXREIN R_Wait"
    if "santa_in (spc (santa w))" "how_many deer_counted (deer_pcs w) = 9"
  proof -
    have "\<forall>l \<in> set (deer_pcs w). l = R_Wait"
      using that deer how_many_all[of deer_counted "deer_pcs w"] len by (auto simp: max_defs)
    then show ?thesis using len(1) replicate_eqI by metis
  qed
  ultimately show ?thesis
    using inv by (auto simp: santa_inv_def count_inv_def santa_knows_def posted_elf_def
        posted_deer_def max_defs)
qed

theorem santa_serves_waiting_witness:
  "spc (santa reindeer_home) = S_Deliver \<and> deer_pcs reindeer_home = replicate 9 R_Wait"
proof -
  have "spc (santa reindeer_home) = S_Deliver" by code_simp
  then show ?thesis using santa_serves_waiting[OF demo_runs(1)] by (simp add: max_defs)
qed

text \<open>
  C7: Santa can always finish. From every reachable state, whatever has happened so far,
  there is a continuation in which his thread ends, and then it has delivered three times.
\<close>

theorem santa_can_finish:
  assumes "(santa_step tid)\<^sup>*\<^sup>* open_workshop w"
  shows "\<exists>w'. (santa_step tid)\<^sup>*\<^sup>* w w' \<and> spc (santa w') = S_Done \<and>
    how_many (\<lambda>e. e = Delivering) (shop_log w') = 3"
proof -
  obtain w' where w': "(santa_step tid)\<^sup>*\<^sup>* w w'" "spc (santa w') = S_Done"
    using workshop.goal_reachable[OF _ assms] by blast
  then have "santa_inv w'" using assms reachable_santa_inv rtranclp_trans by metis
  then show ?thesis
    using w' by (auto simp: santa_inv_def log_inv_def santa_knows_def delivering_def)
qed

theorem santa_can_finish_witness:
  "\<exists>w'. (santa_step int)\<^sup>*\<^sup>* reindeer_home w' \<and> spc (santa w') = S_Done"
  using santa_can_finish[OF demo_runs(1)] by blast

text \<open>
  Santa delivers three times. No reachable state has more than three deliveries in its
  log, and when his thread has ended there are exactly three.
\<close>

theorem santa_three_deliveries:
  assumes "(santa_step tid)\<^sup>*\<^sup>* open_workshop w"
  shows "how_many (\<lambda>e. e = Delivering) (shop_log w) \<le> 3 \<and>
    (spc (santa w) = S_Done \<longrightarrow> how_many (\<lambda>e. e = Delivering) (shop_log w) = 3)"
  using reachable_santa_inv[OF assms]
  by (cases "spc (santa w)")
    (auto simp: santa_inv_def log_inv_def santa_knows_def delivering_def)

text \<open>A whole year: three deliveries one after the other.\<close>

definition santa_year :: workshop where
  "santa_year = run_threads int
     (concat (replicate 3 (concat (map (\<lambda>i. replicate 7 (Deer_T i)) [0..<9]) @ [Deer_T 8] @
       replicate 22 Santa_T)))
     open_workshop"

theorem santa_three_deliveries_witness:
  "spc (santa santa_year) = S_Done \<and> how_many (\<lambda>e. e = Delivering) (shop_log santa_year) = 3"
proof -
  have "(santa_step int)\<^sup>*\<^sup>* open_workshop santa_year"
    unfolding santa_year_def by (rule run_threads_steps)
  moreover have "spc (santa santa_year) = S_Done" by code_simp
  ultimately show ?thesis using santa_three_deliveries by blast
qed

definition elf_comes_back :: "(nat \<Rightarrow> int) \<Rightarrow> workshop" where
  "elf_comes_back tid = run_threads tid
     (replicate 10 Santa_T @ replicate 35 (Elf_T 0) @ replicate 5 Santa_T) (elves_ask tid)"

text \<open>
  Santa counts posts, not elves. Elf 0, once helped, can come back, be counted again and
  take the post meant for elf 1, and once more the post meant for elf 2; Santa then solves
  the problems of elf 0, elf 0 and elf 0 while elves 1 and 2 still wait.
\<close>

theorem santa_same_elf_thrice:
  "(santa_step tid)\<^sup>*\<^sup>* open_workshop (elf_comes_back tid) \<and>
    Solving [tid 0, tid 0, tid 0] \<in> set (shop_log (elf_comes_back tid)) \<and>
    elf_pcs (elf_comes_back tid) ! 1 = E_Wait \<and> elf_pcs (elf_comes_back tid) ! 2 = E_Wait"
proof (intro conjI)
  show "(santa_step tid)\<^sup>*\<^sup>* open_workshop (elf_comes_back tid)"
    unfolding elf_comes_back_def using demo_runs(2) run_threads_steps by (rule rtranclp_trans)
  show "Solving [tid 0, tid 0, tid 0] \<in> set (shop_log (elf_comes_back tid))"
    by code_simp simp
  show "elf_pcs (elf_comes_back tid) ! 1 = E_Wait" by code_simp
  show "elf_pcs (elf_comes_back tid) ! 2 = E_Wait" by code_simp
qed

end
