(* ===== verification/Pnm_Invert.thy ===== *)
theory Pnm_Invert
  imports Decimal "HOL-Library.Signed_Division"
begin

text \<open>
  The worker threads of \<open>lab8/main.c\<close>. Each thread reads the image and writes samples of the
  output image; a thread is modelled by the list of its writes, in order, and a run of all
  threads by an interleaving of the lists. Samples are bytes, or pairs of bytes if
  \<open>maxval > 255\<close>. The input image is not written by the threads, so a thread's writes do
  not depend on the interleaving.
\<close>

section \<open>Bytes and the writes of a thread\<close>

definition uchar :: "char \<Rightarrow> int" where
  "uchar c = of_char c"

text \<open>The conversion of an \<open>int\<close> that is stored in a \<open>char\<close>.\<close>

definition to_char :: "int \<Rightarrow> char" where
  "to_char v = char_of v"

definition load_at :: "'a list \<Rightarrow> int \<Rightarrow> 'a result" where
  "load_at xs i = (if 0 \<le> i then load xs (nat i) else Err Undef_Behaviour)"

definition c_long :: "int \<Rightarrow> int result" where
  "c_long v = (if LONG_MIN \<le> v \<and> v \<le> LONG_MAX then Ok v else Err Undef_Behaviour)"

definition c_int :: "int \<Rightarrow> int result" where
  "c_int v = (if - (2 ^ 31) \<le> v \<and> v < 2 ^ 31 then Ok v else Err Undef_Behaviour)"

type_synonym writes = "(nat \<times> char) list"

text \<open>A loop whose body writes.\<close>

definition emit_all :: "('a \<Rightarrow> writes result) \<Rightarrow> 'a list \<Rightarrow> writes result" where
  "emit_all g xs = rfold (\<lambda>ws x. rbind (g x) (\<lambda>w. Ok (ws @ w))) [] xs"

section \<open>The threads\<close>

datatype partype = NUMBERS | BLOCK

fun parse_partype :: "string \<Rightarrow> partype option" where
  "parse_partype str = (if str = ''num'' then Some NUMBERS
     else if str = ''blk'' then Some BLOCK else None)"

text \<open>\<open>t_base\<close> is the offset of the pointers \<open>in\<close> and \<open>out\<close> in their blocks.\<close>

datatype t_part = Val int int | Blk int int

record thread_ctx =
  t_base :: int
  t_len :: int
  t_maxval :: int
  t_un :: t_part

definition val_sample :: "string \<Rightarrow> int \<Rightarrow> int \<Rightarrow> int \<Rightarrow> nat \<Rightarrow> writes result" where
  "val_sample img maxval mn mx i =
     rbind (load img i) (\<lambda>b.
       let val = uchar b
       in Ok (if mn \<le> val \<and> val < mx then [(i, to_char (maxval - val))] else []))"

definition val_sample2 :: "string \<Rightarrow> int \<Rightarrow> int \<Rightarrow> int \<Rightarrow> nat \<Rightarrow> writes result" where
  "val_sample2 img maxval mn mx i =
     rbind (load img i) (\<lambda>a. rbind (load img (i + 1)) (\<lambda>b.
       let val = push_bit 8 (uchar a) OR uchar b
       in Ok (if mn \<le> val \<and> val < mx
          then let v = maxval - val in [(i, to_char (drop_bit 8 v)), (i + 1, to_char (v AND 255))]
          else [])))"

definition val_thread :: "string \<Rightarrow> thread_ctx \<Rightarrow> writes result" where
  "val_thread img ctx = (case t_un ctx of
     Val mn mx \<Rightarrow>
       (if t_maxval ctx \<le> 255
        then emit_all (val_sample img (t_maxval ctx) mn mx) [0..<nat (t_len ctx)]
        else emit_all (val_sample2 img (t_maxval ctx) mn mx)
               (map (\<lambda>k. 2 * k) [0..<nat (t_len ctx) div 2]))
   | Blk _ _ \<Rightarrow> Err Undef_Behaviour)"

text \<open>
  \<open>blk_thread\<close> reads its samples through \<open>const char *\<close>, so the bytes are signed; and it
  takes \<open>rowlen\<close> and \<open>stride\<close> as numbers of bytes, whatever the size of a pixel.
\<close>

definition blk_sample :: "string \<Rightarrow> int \<Rightarrow> int \<Rightarrow> writes result" where
  "blk_sample img maxval i =
     rbind (load_at img i) (\<lambda>b. Ok [(nat i, to_char (maxval - schar b))])"

definition blk_sample2 :: "string \<Rightarrow> int \<Rightarrow> int \<Rightarrow> writes result" where
  "blk_sample2 img maxval i =
     rbind (load_at img i) (\<lambda>a. rbind (load_at img (i + 1)) (\<lambda>b.
       let v = maxval - (push_bit 8 (schar a) OR schar b)
       in Ok [(nat i, to_char (drop_bit 8 v)), (nat (i + 1), to_char (v AND 255))]))"

definition blk_row :: "string \<Rightarrow> thread_ctx \<Rightarrow> int \<Rightarrow> int \<Rightarrow> writes result" where
  "blk_row img ctx base rowlen =
     (if t_maxval ctx \<le> 255
      then emit_all (\<lambda>k. blk_sample img (t_maxval ctx) (t_base ctx + base + int k)) [0..<nat rowlen]
      else emit_all (\<lambda>k. blk_sample2 img (t_maxval ctx) (t_base ctx + base + 2 * int k))
             [0..<(nat rowlen + 1) div 2])"

text \<open>
  The loop over \<open>base\<close>. A stride of zero never leaves it; with a negative one \<open>base\<close> runs
  below the block or overflows.
\<close>

function blk_rows :: "string \<Rightarrow> thread_ctx \<Rightarrow> int \<Rightarrow> int \<Rightarrow> int \<Rightarrow> writes \<Rightarrow> writes result" where
  "blk_rows img ctx rowlen stride base ws =
     (if \<not> base + rowlen \<le> t_len ctx then Ok ws
      else rbind (blk_row img ctx base rowlen) (\<lambda>w.
        if stride = 0 then Err Nonterm
        else if stride < 0 then Err Undef_Behaviour
        else blk_rows img ctx rowlen stride (base + stride) (ws @ w)))"
  by pat_completeness auto
termination
  by (relation "measure (\<lambda>(img, ctx, rowlen, stride, base, ws). nat (t_len ctx - rowlen - base + 1))") auto

declare blk_rows.simps [simp del]

definition blk_thread :: "string \<Rightarrow> thread_ctx \<Rightarrow> writes result" where
  "blk_thread img ctx = (case t_un ctx of
     Blk rowlen stride \<Rightarrow> blk_rows img ctx rowlen stride 0 []
   | Val _ _ \<Rightarrow> Err Undef_Behaviour)"

section \<open>The contexts that \<open>main\<close> makes\<close>

text \<open>\<open>n * i / threads\<close>, an \<open>int\<close> times a \<open>long\<close>, stored in an \<open>int\<close>.\<close>

definition share :: "int \<Rightarrow> int \<Rightarrow> int \<Rightarrow> int result" where
  "share n i threads =
     rbind (c_long (n * i)) (\<lambda>p. c_int (p sdiv threads))"

definition num_ctx :: "string \<Rightarrow> int \<Rightarrow> int \<Rightarrow> nat \<Rightarrow> thread_ctx result" where
  "num_ctx img maxval threads i =
     rbind (c_int (maxval + 1)) (\<lambda>n.
     rbind (share n (int i) threads) (\<lambda>mn.
     rbind (share n (int i + 1) threads) (\<lambda>mx.
       Ok \<lparr>t_base = 0, t_len = int (length img), t_maxval = maxval, t_un = Val mn mx\<rparr>)))"

definition blk_ctx :: "string \<Rightarrow> int \<Rightarrow> int \<Rightarrow> int \<Rightarrow> nat \<Rightarrow> thread_ctx result" where
  "blk_ctx img width maxval threads i =
     rbind (share width (int i) threads) (\<lambda>offs.
     rbind (share width (int i + 1) threads) (\<lambda>next_offs.
       Ok \<lparr>t_base = offs, t_len = int (length img) - offs, t_maxval = maxval,
         t_un = Blk (next_offs - offs) width\<rparr>))"

definition worker :: "partype \<Rightarrow> string \<Rightarrow> int \<Rightarrow> int \<Rightarrow> int \<Rightarrow> nat \<Rightarrow> writes result" where
  "worker meth img width maxval threads i = (case meth of
     NUMBERS \<Rightarrow> rbind (num_ctx img maxval threads i) (val_thread img)
   | BLOCK \<Rightarrow> rbind (blk_ctx img width maxval threads i) (blk_thread img))"

definition spawn_workers :: "partype \<Rightarrow> string \<Rightarrow> int \<Rightarrow> int \<Rightarrow> int \<Rightarrow> writes list result" where
  "spawn_workers meth img width maxval threads =
     rfold (\<lambda>wss i. rbind (worker meth img width maxval threads i) (\<lambda>ws. Ok (wss @ [ws])))
       [] [0..<nat threads]"

section \<open>Running the threads\<close>

definition run_writes :: "writes \<Rightarrow> string \<Rightarrow> string" where
  "run_writes ws out = foldl (\<lambda>out (i, v). out[i := v]) out ws"

end
