(* ===== verification/Pnm_Threads.thy ===== *)
theory Pnm_Threads
  imports Pnm_Invert
begin

text \<open>
  What the threads of \<open>lab8\<close> compute together: for every interleaving the negative of the
  image, where the thread functions are right; and where they are not.
\<close>

section \<open>Interleaved writes\<close>

lemma emit_all_Ok:
  assumes "\<And>x. x \<in> set xs \<Longrightarrow> g x = Ok (e x)"
  shows "emit_all g xs = Ok (concat (map e xs))"
proof -
  have "rfold (\<lambda>ws x. rbind (g x) (\<lambda>w. Ok (ws @ w))) ws xs = Ok (ws @ concat (map e xs))" for ws
    using assms by (induction xs arbitrary: ws) auto
  then show ?thesis by (simp add: emit_all_def)
qed

lemma length_run_writes [simp]: "length (run_writes ws out) = length out"
  unfolding run_writes_def by (induction ws arbitrary: out) auto

text \<open>If every write is the right one and every byte is written, the order does not matter.\<close>

definition right_writes :: "string \<Rightarrow> writes \<Rightarrow> bool" where
  "right_writes t ws \<longleftrightarrow> (\<forall>(i, v) \<in> set ws. i < length t \<and> v = t ! i)"

lemma run_right_writes:
  assumes "right_writes t ws" "length out = length t"
  shows "run_writes ws out ! k = (if k \<in> fst ` set ws then t ! k else out ! k)"
  using assms unfolding run_writes_def
proof (induction ws arbitrary: out)
  case (Cons w ws)
  obtain i v where w: "w = (i, v)" by (cases w)
  have iv: "i < length out" "v = t ! i" using Cons.prems w by (auto simp: right_writes_def)
  have "foldl (\<lambda>out (i, v). out[i := v]) (out[i := v]) ws ! k =
      (if k \<in> fst ` set ws then t ! k else out[i := v] ! k)"
    by (rule Cons.IH) (use Cons.prems in \<open>auto simp: right_writes_def\<close>)
  then show ?case using w iv by (auto simp: nth_list_update)
qed simp

definition writes_all :: "string \<Rightarrow> writes list \<Rightarrow> bool" where
  "writes_all t wss \<longleftrightarrow> (\<forall>ws \<in> set wss. right_writes t ws) \<and>
     (\<forall>i < length t. \<exists>ws \<in> set wss. i \<in> fst ` set ws)"

lemma run_writes_all:
  assumes "writes_all t wss" "interleaving wss ws" "length out = length t"
  shows "run_writes ws out = t"
proof (rule nth_equalityI)
  fix i assume "i < length (run_writes ws out)"
  then have "i \<in> fst ` set ws"
    using assms(1,3) unfolding writes_all_def interleaving_set[OF assms(2)]
    by (auto simp: image_Union)
  moreover have "right_writes t ws"
    using assms(1) interleaving_set[OF assms(2)] by (auto simp: writes_all_def right_writes_def)
  ultimately show "run_writes ws out ! i = t ! i"
    using run_right_writes assms(3) by simp
qed (simp add: assms(3))

text \<open>No byte is written by two threads.\<close>

definition race_free :: "writes list \<Rightarrow> bool" where
  "race_free wss \<longleftrightarrow> (\<forall>i < length wss. \<forall>j < i. fst ` set (wss ! i) \<inter> fst ` set (wss ! j) = {})"

lemma spawn_workers_Ok:
  assumes "\<And>i. i < nat threads \<Longrightarrow> worker meth img width maxval threads i = Ok (ws i)"
  shows "spawn_workers meth img width maxval threads = Ok (map ws [0..<nat threads])"
proof -
  have "rfold (\<lambda>wss i. rbind (worker meth img width maxval threads i) (\<lambda>w. Ok (wss @ [w]))) wss xs =
      Ok (wss @ map ws xs)" if "\<And>i. i \<in> set xs \<Longrightarrow> i < nat threads" for wss xs
    using that assms by (induction xs arbitrary: wss) auto
  from this[of "[0..<nat threads]" "[]"] show ?thesis by (simp add: spawn_workers_def)
qed

section \<open>Bytes\<close>

lemma uchar_range: "0 \<le> uchar c" "uchar c < 256"
proof -
  have "uchar c = int (of_char c :: nat)" by (simp add: uchar_def of_char_def)
  moreover have "(of_char c :: nat) < 256" by simp
  ultimately show "0 \<le> uchar c" "uchar c < 256" by auto
qed

lemma to_char_eq: "to_char v = to_char w \<longleftrightarrow> v mod 256 = w mod 256"
  by (simp add: to_char_def)

lemma uchar_to_char: "uchar (to_char v) = v mod 256"
  by (simp add: uchar_def to_char_def)

lemma to_char_uchar: "to_char (uchar c) = c"
  by (simp add: uchar_def to_char_def)

text \<open>Signed or unsigned: the byte that is stored is the same.\<close>

lemma to_char_schar: "to_char (m - schar c) = to_char (m - uchar c)"
proof -
  have "schar c = uchar c \<or> schar c = uchar c - 256"
    by (auto simp: schar_def uchar_def Let_def)
  then show ?thesis by (auto simp: to_char_eq mod_eq_dvd_iff)
qed

lemma join_bytes:
  fixes a b :: int assumes "0 \<le> b" "b < 256"
  shows "push_bit 8 a OR b = a * 256 + b"
proof -
  have "push_bit 8 a AND b = push_bit 8 a AND take_bit 8 b"
    using assms by (simp add: take_bit_int_eq_self)
  also have "\<dots> = 0" by (rule bit_eqI) (auto simp: bit_simps)
  finally show ?thesis
    using disjunctive_add_eq_or[of "push_bit 8 a" b] by (simp add: push_bit_eq_mult)
qed

lemma split_bytes: "drop_bit 8 (v :: int) = v div 256" "v AND 255 = v mod 256"
proof -
  show "drop_bit 8 v = v div 256" by (simp add: drop_bit_eq_div)
  have "v AND 255 = take_bit 8 v" by (simp add: take_bit_eq_mask mask_eq_exp_minus_1)
  then show "v AND 255 = v mod 256" by (simp add: take_bit_eq_mod)
qed

section \<open>Shares\<close>

lemma share_Ok:
  assumes "0 \<le> n" "n < 2 ^ 31" "0 \<le> i" "i \<le> t" "0 < t" "t < 2 ^ 31"
  shows "share n i t = Ok (n * i div t)"
proof -
  have "n * i \<le> 2 ^ 31 * 2 ^ 31"
    using assms by (intro mult_mono) auto
  moreover have "n * i div t \<le> n"
  proof -
    have "n * i \<le> n * t" using assms by (intro mult_left_mono) auto
    then have "n * i div t \<le> n * t div t" using assms by (intro zdiv_mono1) auto
    then show ?thesis using assms by simp
  qed
  moreover have "0 \<le> n * i" "0 \<le> n * i div t"
    using assms by (auto simp: pos_imp_zdiv_nonneg_iff)
  moreover have "(n * i) sdiv t = n * i div t"
    using assms \<open>0 \<le> n * i\<close> by (auto simp: signed_divide_int_def sgn_if)
  ultimately show ?thesis
    using assms(2) by (simp add: share_def c_long_def c_int_def LONG_MAX_def LONG_MIN_def)
qed

text \<open>The shares of \<open>t\<close> threads partition the numbers below \<open>n\<close>.\<close>

lemma share_mono:
  fixes n :: int assumes "0 \<le> n" "i \<le> j" "0 < t"
  shows "n * i div t \<le> n * j div t"
  using assms by (intro zdiv_mono1 mult_left_mono) auto

lemma share_exists:
  fixes n v :: int assumes "0 \<le> v" "v < n" "0 < t"
  shows "\<exists>i < nat t. n * int i div t \<le> v \<and> v < n * (int i + 1) div t"
proof -
  let ?P = "\<lambda>i. v < n * (int i + 1) div t"
  define i where "i = (LEAST i. ?P i)"
  have top: "?P (nat t - 1)" using assms by (simp add: of_nat_diff)
  then have "?P i" unfolding i_def by (rule LeastI)
  moreover have "i \<le> nat t - 1" unfolding i_def using top by (rule Least_le)
  then have "i < nat t" using assms by simp
  moreover have "n * int i div t \<le> v"
  proof (cases i)
    case (Suc k)
    then have "\<not> ?P k" using not_less_Least[of k ?P] i_def by simp
    then show ?thesis using Suc by (simp add: add.commute)
  qed (use assms in simp)
  ultimately show ?thesis by blast
qed

section \<open>The negative of an image\<close>

text \<open>The specification: every sample \<open>v\<close> becomes \<open>maxval - v\<close>, in one byte or in two.\<close>

fun negative2 :: "int \<Rightarrow> string \<Rightarrow> string" where
  "negative2 maxval (a # b # s) =
     (let v = maxval - (256 * uchar a + uchar b)
      in to_char (v div 256) # to_char (v mod 256) # negative2 maxval s)"
| "negative2 maxval s = s"

definition negative :: "int \<Rightarrow> string \<Rightarrow> string" where
  "negative maxval img = (if maxval \<le> 255 then map (\<lambda>b. to_char (maxval - uchar b)) img
     else negative2 maxval img)"

definition sample_size :: "int \<Rightarrow> nat" where
  "sample_size maxval = (if maxval \<le> 255 then 1 else 2)"

definition sample :: "int \<Rightarrow> string \<Rightarrow> nat \<Rightarrow> int" where
  "sample maxval img k = (if maxval \<le> 255 then uchar (img ! k)
     else 256 * uchar (img ! (2 * k)) + uchar (img ! (2 * k + 1)))"

definition put_sample :: "int \<Rightarrow> nat \<Rightarrow> int \<Rightarrow> writes" where
  "put_sample maxval k v = (if maxval \<le> 255 then [(k, to_char v)]
     else [(2 * k, to_char (v div 256)), (2 * k + 1, to_char (v mod 256))])"

text \<open>An image that fits its \<open>maxval\<close>: whole samples, none above \<open>maxval\<close>.\<close>

definition fits :: "int \<Rightarrow> string \<Rightarrow> bool" where
  "fits maxval img \<longleftrightarrow> 0 \<le> maxval \<and> maxval < 65536 \<and> sample_size maxval dvd length img \<and>
     (\<forall>k < length img div sample_size maxval. sample maxval img k \<le> maxval)"

lemma negative2_nth:
  "2 * k + 1 < length s \<Longrightarrow>
    (let v = maxval - (256 * uchar (s ! (2 * k)) + uchar (s ! (2 * k + 1)))
     in negative2 maxval s ! (2 * k) = to_char (v div 256) \<and>
        negative2 maxval s ! (2 * k + 1) = to_char (v mod 256))"
proof (induction maxval s arbitrary: k rule: negative2.induct)
  case (1 maxval a b s)
  then show ?case by (cases k) (auto simp: Let_def)
qed auto

lemma length_negative2 [simp]: "length (negative2 maxval img) = length img"
  by (induction maxval img rule: negative2.induct) (auto simp: Let_def)

lemma length_negative [simp]: "length (negative maxval img) = length img"
  by (simp add: negative_def)

lemma sample_range: "0 \<le> sample maxval img k"
  using uchar_range by (simp add: sample_def)

lemma put_sample_bytes: "fst ` set (put_sample maxval k v) = {i. i div sample_size maxval = k}"
  by (auto simp: put_sample_def sample_size_def)

lemma put_sample_right:
  assumes "k < length img div sample_size maxval" "sample_size maxval dvd length img"
  shows "right_writes (negative maxval img) (put_sample maxval k (maxval - sample maxval img k))"
proof (cases "maxval \<le> 255")
  case True
  then show ?thesis
    using assms by (simp add: right_writes_def put_sample_def sample_def negative_def sample_size_def)
next
  case False
  then have "2 * k + 1 < length img"
    using assms by (auto simp: sample_size_def)
  then show ?thesis
    using False negative2_nth[of k img maxval]
    by (simp add: right_writes_def put_sample_def sample_def negative_def Let_def)
qed

lemma uchar_inj: "uchar a = uchar b \<longleftrightarrow> a = b"
  by (metis to_char_uchar)

lemma fits_255: "fits 255 img"
proof -
  have "uchar c \<le> 255" for c using uchar_range(2)[of c] by simp
  then show ?thesis by (simp add: fits_def sample_def sample_size_def)
qed

text \<open>An image is determined by its samples, and so is its negative.\<close>

lemma samples_eq:
  assumes "sample_size maxval dvd length xs" "length ys = length xs"
    and same: "\<And>k. k < length xs div sample_size maxval \<Longrightarrow> sample maxval xs k = sample maxval ys k"
  shows "xs = ys"
proof (rule nth_equalityI)
  fix i assume i: "i < length xs"
  show "xs ! i = ys ! i"
  proof (cases "maxval \<le> 255")
    case True
    then show ?thesis using same[of i] i by (simp add: sample_size_def sample_def uchar_inj)
  next
    case False
    have "i div 2 < length xs div 2" using assms(1) False i by (auto simp: sample_size_def)
    then have "256 * uchar (xs ! (2 * (i div 2))) + uchar (xs ! (2 * (i div 2) + 1)) =
        256 * uchar (ys ! (2 * (i div 2))) + uchar (ys ! (2 * (i div 2) + 1))"
      using same[of "i div 2"] False by (simp add: sample_size_def sample_def)
    then have "uchar (xs ! (2 * (i div 2))) = uchar (ys ! (2 * (i div 2)))"
      "uchar (xs ! (2 * (i div 2) + 1)) = uchar (ys ! (2 * (i div 2) + 1))"
      using uchar_range by smt+
    moreover have "i = 2 * (i div 2) \<or> i = 2 * (i div 2) + 1" by presburger
    ultimately show ?thesis by (metis uchar_inj)
  qed
qed (simp add: assms(2))

lemma sample_negative:
  assumes "fits maxval img" "k < length img div sample_size maxval"
  shows "sample maxval (negative maxval img) k = maxval - sample maxval img k"
proof -
  have le: "sample maxval img k \<le> maxval" "maxval < 65536" using assms by (simp_all add: fits_def)
  have nn: "0 \<le> sample maxval img k" by (rule sample_range)
  show ?thesis
  proof (cases "maxval \<le> 255")
    case True
    then show ?thesis
      using assms(2) le nn by (simp add: sample_def negative_def sample_size_def uchar_to_char)
  next
    case False
    let ?v = "maxval - sample maxval img k"
    have "2 * k + 1 < length img" using assms(2) False by (simp add: sample_size_def)
    then have "negative maxval img ! (2 * k) = to_char (?v div 256)"
      "negative maxval img ! (2 * k + 1) = to_char (?v mod 256)"
      using negative2_nth[of k img maxval] False by (simp_all add: sample_def negative_def Let_def)
    moreover have "?v div 256 mod 256 = ?v div 256" using le nn by (simp add: div_less_iff_less_mult)
    ultimately show ?thesis
      using False by (simp add: sample_def[of _ "negative maxval img"] uchar_to_char)
  qed
qed

section \<open>By value\<close>

definition value_writes :: "int \<Rightarrow> string \<Rightarrow> int \<Rightarrow> int \<Rightarrow> writes" where
  "value_writes maxval img mn mx =
     concat (map (\<lambda>k. if mn \<le> sample maxval img k \<and> sample maxval img k < mx
       then put_sample maxval k (maxval - sample maxval img k) else [])
       [0..<length img div sample_size maxval])"

lemma val_thread_writes:
  assumes "t_un ctx = Val mn mx" "t_maxval ctx = maxval" "t_len ctx = int (length img)"
  shows "val_thread img ctx = Ok (value_writes maxval img mn mx)"
proof (cases "maxval \<le> 255")
  case True
  have "emit_all (val_sample img maxval mn mx) [0..<length img] = Ok (concat (map (\<lambda>k.
      if mn \<le> sample maxval img k \<and> sample maxval img k < mx
      then put_sample maxval k (maxval - sample maxval img k) else []) [0..<length img]))"
    using True by (intro emit_all_Ok) (simp add: val_sample_def load_def sample_def put_sample_def Let_def)
  then show ?thesis
    using True assms by (simp add: val_thread_def value_writes_def sample_size_def)
next
  case False
  define h where "h k = (if mn \<le> sample maxval img k \<and> sample maxval img k < mx
      then put_sample maxval k (maxval - sample maxval img k) else [])" for k
  have "val_sample2 img maxval mn mx (2 * k) = Ok (h k)" if "k < length img div 2" for k
    using False that uchar_range join_bytes
    by (auto simp: h_def val_sample2_def load_def sample_def put_sample_def Let_def split_bytes algebra_simps)
  then have "emit_all (val_sample2 img maxval mn mx) (map (\<lambda>k. 2 * k) [0..<length img div 2]) =
      Ok (concat (map (\<lambda>i. h (i div 2)) (map (\<lambda>k. 2 * k) [0..<length img div 2])))"
    by (intro emit_all_Ok) auto
  then show ?thesis
    using False assms by (simp add: val_thread_def value_writes_def sample_size_def comp_def h_def[symmetric])
qed

lemma value_writes_bytes:
  "i \<in> fst ` set (value_writes maxval img mn mx) \<longleftrightarrow>
    i div sample_size maxval < length img div sample_size maxval \<and>
    mn \<le> sample maxval img (i div sample_size maxval) \<and>
    sample maxval img (i div sample_size maxval) < mx"
  (is "_ \<longleftrightarrow> ?R")
proof -
  have "fst ` set (value_writes maxval img mn mx) = (\<Union>k < length img div sample_size maxval.
      if mn \<le> sample maxval img k \<and> sample maxval img k < mx
      then {i. i div sample_size maxval = k} else {})"
  proof -
    have cat: "fst ` set (concat (map f xs)) = (\<Union>k \<in> set xs. fst ` set (f k))" for f :: "nat \<Rightarrow> writes" and xs
      by auto
    have iff: "fst ` set (if c then ws else []) = (if c then fst ` set ws else {})" for c and ws :: writes
      by simp
    show ?thesis
      unfolding value_writes_def cat iff put_sample_bytes by (simp add: atLeast0LessThan)
  qed
  then show ?thesis by auto
qed

lemma num_worker:
  assumes "fits maxval img" "0 < threads" "threads < 2 ^ 31" "i < nat threads"
  shows "worker NUMBERS img width maxval threads i = Ok (value_writes maxval img
    ((maxval + 1) * int i div threads) ((maxval + 1) * (int i + 1) div threads))"
proof -
  have "num_ctx img maxval threads i = Ok \<lparr>t_base = 0, t_len = int (length img), t_maxval = maxval,
      t_un = Val ((maxval + 1) * int i div threads) ((maxval + 1) * (int i + 1) div threads)\<rparr>"
    using assms share_Ok[of "maxval + 1" "int i" threads] share_Ok[of "maxval + 1" "int i + 1" threads]
    by (simp add: num_ctx_def c_int_def fits_def)
  then show ?thesis
    by (simp add: worker_def val_thread_writes)
qed

lemma value_writes_right:
  assumes "fits maxval img"
  shows "right_writes (negative maxval img) (value_writes maxval img mn mx)"
proof -
  have "right_writes (negative maxval img) (put_sample maxval k (maxval - sample maxval img k))"
    if "k < length img div sample_size maxval" for k
    using put_sample_right[OF that] assms by (simp add: fits_def)
  then show ?thesis
    by (fastforce simp: value_writes_def right_writes_def split: if_splits)
qed

text \<open>Every byte is in one thread's share.\<close>

lemma shares_write_all:
  assumes right: "\<And>i. i < nat threads \<Longrightarrow> right_writes t (ws i)"
    and bytes: "\<And>i b. i < nat threads \<Longrightarrow> b \<in> fst ` set (ws i) \<longleftrightarrow>
      b < length t \<and> n * int i div threads \<le> f b \<and> f b < n * (int i + 1) div threads"
    and range: "\<And>b. b < length t \<Longrightarrow> 0 \<le> f b \<and> f b < n" and n: "0 \<le> n" and threads: "0 < threads"
  shows "writes_all t (map ws [0..<nat threads]) \<and> race_free (map ws [0..<nat threads])"
proof
  have "\<exists>i < nat threads. b \<in> fst ` set (ws i)" if "b < length t" for b
    using share_exists[of "f b" n threads] range[OF that] threads that bytes by blast
  then show "writes_all t (map ws [0..<nat threads])"
    using right by (fastforce simp: writes_all_def)
  have "fst ` set (ws i) \<inter> fst ` set (ws j) = {}" if "i < nat threads" "j < i" for i j
  proof -
    have "n * (int j + 1) div threads \<le> n * int i div threads"
      using that n threads by (intro share_mono) auto
    then have "\<not> (b \<in> fst ` set (ws i) \<and> b \<in> fst ` set (ws j))" for b
      using bytes[of i b] bytes[of j b] that by linarith
    then show ?thesis by blast
  qed
  then show "race_free (map ws [0..<nat threads])" by (simp add: race_free_def)
qed

lemma num_spawn:
  assumes "fits maxval img" "0 < threads" "threads < 2 ^ 31"
  shows "\<exists>wss. spawn_workers NUMBERS img width maxval threads = Ok wss \<and>
    writes_all (negative maxval img) wss \<and> race_free wss"
proof -
  let ?ws = "\<lambda>i. value_writes maxval img ((maxval + 1) * int i div threads)
    ((maxval + 1) * (int i + 1) div threads)"
  let ?f = "\<lambda>b. sample maxval img (b div sample_size maxval)"
  have size: "b div sample_size maxval < length img div sample_size maxval \<longleftrightarrow> b < length img" for b
    using assms(1) by (auto simp: fits_def sample_size_def)
  have "writes_all (negative maxval img) (map ?ws [0..<nat threads]) \<and>
      race_free (map ?ws [0..<nat threads])"
  proof (rule shares_write_all[where n = "maxval + 1" and f = ?f])
    fix b assume "b < length (negative maxval img)"
    then have "b div sample_size maxval < length img div sample_size maxval" using size by simp
    then show "0 \<le> ?f b \<and> ?f b < maxval + 1"
      using assms(1) sample_range[of maxval img "b div sample_size maxval"]
      by (simp add: fits_def)
  qed (use assms value_writes_right value_writes_bytes size in \<open>auto simp: fits_def\<close>)
  then show ?thesis
    using spawn_workers_Ok[of threads NUMBERS img width maxval ?ws] num_worker[OF assms] by blast
qed

section \<open>By block\<close>

lemma blk_row_writes:
  assumes "t_maxval ctx = maxval" "maxval \<le> 255" "0 \<le> t_base ctx + base" "0 \<le> rowlen"
    and "t_base ctx + base + rowlen \<le> int (length img)"
  shows "\<exists>ws. blk_row img ctx base rowlen = Ok ws \<and> right_writes (negative maxval img) ws \<and>
    fst ` set ws = {i. t_base ctx + base \<le> int i \<and> int i < t_base ctx + base + rowlen}"
proof -
  let ?o = "nat (t_base ctx + base)"
  let ?e = "\<lambda>k. [(?o + k, to_char (maxval - uchar (img ! (?o + k))))]"
  have "blk_sample img maxval (t_base ctx + base + int k) = Ok (?e k)" if "k < nat rowlen" for k
    using that assms by (simp add: blk_sample_def load_at_def load_def to_char_schar nat_add_distrib)
  then have "emit_all (\<lambda>k. blk_sample img maxval (t_base ctx + base + int k)) [0..<nat rowlen] =
      Ok (concat (map ?e [0..<nat rowlen]))"
    by (intro emit_all_Ok) simp
  then have "blk_row img ctx base rowlen = Ok (concat (map ?e [0..<nat rowlen]))"
    using assms(1,2) by (simp add: blk_row_def)
  moreover have "right_writes (negative maxval img) (concat (map ?e [0..<nat rowlen]))"
    using assms by (auto simp: right_writes_def negative_def)
  moreover have "fst ` set (concat (map ?e [0..<nat rowlen])) =
      {i. t_base ctx + base \<le> int i \<and> int i < t_base ctx + base + rowlen}" (is "?A = ?B")
  proof
    show "?A \<subseteq> ?B" using assms by auto
    show "?B \<subseteq> ?A"
    proof
      fix i assume "i \<in> ?B"
      then have "i = ?o + (i - ?o)" "i - ?o < nat rowlen" using assms by auto
      then show "i \<in> ?A" by (auto simp: image_iff intro!: bexI[of _ "i - ?o"])
    qed
  qed
  ultimately show ?thesis by blast
qed

lemma column_div_mod:
  fixes w :: int assumes "0 < w" "0 \<le> offs" "offs + l \<le> w"
  shows "offs + w * r \<le> i \<and> i < offs + w * r + l \<longleftrightarrow> i div w = r \<and> offs \<le> i mod w \<and> i mod w < offs + l"
proof
  assume a: "offs + w * r \<le> i \<and> i < offs + w * r + l"
  then have "i = w * r + (i - w * r)" "0 \<le> i - w * r" "i - w * r < w" using assms by auto
  then have "i div w = r" "i mod w = i - w * r"
    using int_div_pos_eq[of i w r "i - w * r"] int_mod_pos_eq[of i w r "i - w * r"] by auto
  then show "i div w = r \<and> offs \<le> i mod w \<and> i mod w < offs + l" using a by auto
next
  assume "i div w = r \<and> offs \<le> i mod w \<and> i mod w < offs + l"
  then show "offs + w * r \<le> i \<and> i < offs + w * r + l"
    using mult_div_mod_eq[of w i] by auto
qed

lemma blk_rows_writes:
  assumes ctx: "t_maxval ctx = maxval" "t_base ctx = offs" "t_len ctx = int (length img) - offs"
    and "maxval \<le> 255" "0 \<le> offs" "0 \<le> l" "offs + l \<le> w" "0 < w" "int (length img) = w * h" "0 \<le> r"
  shows "\<exists>ws'. blk_rows img ctx l w (w * r) ws = Ok (ws @ ws') \<and> right_writes (negative maxval img) ws' \<and>
    fst ` set ws' = {i. i < length img \<and> r \<le> int i div w \<and> offs \<le> int i mod w \<and> int i mod w < offs + l}"
  using \<open>0 \<le> r\<close>
proof (induction "nat (t_len ctx - l - w * r + 1)" arbitrary: r ws rule: less_induct)
  case less
  have len: "0 \<le> w * r" using \<open>0 < w\<close> \<open>0 \<le> r\<close> by simp
  note step = blk_rows.simps[of img ctx l w "w * r" ws]
  show ?case
  proof (cases "w * r + l \<le> t_len ctx")
    case False
    have "h \<le> r"
    proof (rule ccontr)
      assume "\<not> h \<le> r"
      then have "w * (r + 1) \<le> w * h" using \<open>0 < w\<close> by (intro mult_left_mono) auto
      then show False using False ctx(3) assms(7,9) by (simp add: algebra_simps)
    qed
    have "\<not> r \<le> int i div w" if "i < length img" for i
    proof
      assume "r \<le> int i div w"
      then have "w * h \<le> w * (int i div w)" using \<open>h \<le> r\<close> \<open>0 < w\<close> by (intro mult_left_mono) auto
      then show False
        using that assms(9) mult_div_mod_eq[of w "int i"] pos_mod_sign[OF \<open>0 < w\<close>, of "int i"] by linarith
    qed
    then have "{i. i < length img \<and> r \<le> int i div w \<and> offs \<le> int i mod w \<and> int i mod w < offs + l} = {}"
      by blast
    then show ?thesis using False step by (simp add: right_writes_def)
  next
    case True
    obtain row where row: "blk_row img ctx (w * r) l = Ok row" "right_writes (negative maxval img) row"
      "fst ` set row = {i. offs + w * r \<le> int i \<and> int i < offs + w * r + l}"
      using blk_row_writes[of ctx maxval "w * r" l img] ctx assms(4-6) True len by auto
    have next_row: "w * r + w = w * (r + 1)" by (simp add: algebra_simps)
    have "nat (t_len ctx - l - w * (r + 1) + 1) < nat (t_len ctx - l - w * r + 1)"
      using True \<open>0 < w\<close> by (simp add: algebra_simps)
    from less(1)[OF this, of "ws @ row"] less(2) obtain ws' where
      ws': "blk_rows img ctx l w (w * (r + 1)) (ws @ row) = Ok (ws @ row @ ws')"
        "right_writes (negative maxval img) ws'"
        "fst ` set ws' = {i. i < length img \<and> r + 1 \<le> int i div w \<and> offs \<le> int i mod w \<and> int i mod w < offs + l}"
      by auto
    have "blk_rows img ctx l w (w * r) ws = Ok (ws @ row @ ws')"
      using step True row(1) ws'(1) \<open>0 < w\<close> next_row by simp
    moreover have "right_writes (negative maxval img) (row @ ws')"
      using row(2) ws'(2) by (auto simp: right_writes_def)
    moreover have "fst ` set (row @ ws') =
        {i. i < length img \<and> r \<le> int i div w \<and> offs \<le> int i mod w \<and> int i mod w < offs + l}"
    proof -
      have "fst ` set row = {i. i < length img \<and> int i div w = r \<and> offs \<le> int i mod w \<and> int i mod w < offs + l}"
        unfolding row(3) column_div_mod[OF \<open>0 < w\<close> \<open>0 \<le> offs\<close> \<open>offs + l \<le> w\<close>, symmetric]
        using True ctx(3) by auto
      then show ?thesis using ws'(3) by (auto simp: image_Un)
    qed
    ultimately show ?thesis by blast
  qed
qed

lemma blk_worker:
  assumes "fits maxval img" "maxval \<le> 255" "0 < width" "width < 2 ^ 31" "width dvd int (length img)"
    and "0 < threads" "threads < 2 ^ 31" "i < nat threads"
  shows "\<exists>ws. worker BLOCK img width maxval threads i = Ok ws \<and> right_writes (negative maxval img) ws \<and>
    (\<forall>b. b \<in> fst ` set ws \<longleftrightarrow> b < length img \<and> width * int i div threads \<le> int b mod width \<and>
       int b mod width < width * (int i + 1) div threads)"
proof -
  let ?lo = "width * int i div threads" and ?hi = "width * (int i + 1) div threads"
  let ?ctx = "\<lparr>t_base = ?lo, t_len = int (length img) - ?lo, t_maxval = maxval, t_un = Blk (?hi - ?lo) width\<rparr>"
  have i: "int i + 1 \<le> threads" using assms(8) by simp
  have "blk_ctx img width maxval threads i = Ok ?ctx"
    using assms share_Ok[of width "int i" threads] share_Ok[of width "int i + 1" threads]
    by (simp add: blk_ctx_def)
  then have w: "worker BLOCK img width maxval threads i =
      blk_rows img ?ctx (?hi - ?lo) width (width * 0) []"
    by (simp add: worker_def blk_thread_def)
  obtain h where h: "int (length img) = width * h" using assms(5) by (auto simp: dvd_def)
  have "width * (int i + 1) div threads \<le> width * threads div threads"
    using i assms by (intro share_mono) auto
  then have "?hi \<le> width" using assms(6) by simp
  moreover have "0 \<le> ?lo" using assms by (simp add: pos_imp_zdiv_nonneg_iff)
  moreover have "?lo \<le> ?hi" using assms by (intro share_mono) auto
  ultimately obtain ws where "worker BLOCK img width maxval threads i = Ok ws"
    "right_writes (negative maxval img) ws"
    "fst ` set ws = {b. b < length img \<and> 0 \<le> int b div width \<and> ?lo \<le> int b mod width \<and>
      int b mod width < ?lo + (?hi - ?lo)}"
    using blk_rows_writes[of ?ctx maxval ?lo img "?hi - ?lo" width h 0 "[]"] assms(2,3) h
    by (auto simp: w)
  then show ?thesis using assms(3) by (auto simp: pos_imp_zdiv_nonneg_iff)
qed

lemma blk_spawn:
  assumes "fits maxval img" "maxval \<le> 255" "0 < width" "width < 2 ^ 31" "width dvd int (length img)"
    and "0 < threads" "threads < 2 ^ 31"
  shows "\<exists>wss. spawn_workers BLOCK img width maxval threads = Ok wss \<and>
    writes_all (negative maxval img) wss \<and> race_free wss"
proof -
  obtain ws where ws: "\<And>i. i < nat threads \<Longrightarrow> worker BLOCK img width maxval threads i = Ok (ws i) \<and>
      right_writes (negative maxval img) (ws i) \<and>
      (\<forall>b. b \<in> fst ` set (ws i) \<longleftrightarrow> b < length img \<and> width * int i div threads \<le> int b mod width \<and>
         int b mod width < width * (int i + 1) div threads)"
    using blk_worker[OF assms] by metis
  have "writes_all (negative maxval img) (map ws [0..<nat threads]) \<and> race_free (map ws [0..<nat threads])"
    by (rule shares_write_all[where n = width and f = "\<lambda>b. int b mod width"]) (use ws assms in auto)
  then show ?thesis using spawn_workers_Ok[of threads BLOCK img width maxval ws] ws by blast
qed

section \<open>Properties\<close>

lemma workers_negate:
  assumes "fits maxval img" "0 < threads" "threads < 2 ^ 31"
    and "meth = NUMBERS \<or> maxval \<le> 255 \<and> 0 < width \<and> width < 2 ^ 31 \<and> width dvd int (length img)"
  shows "\<exists>wss. spawn_workers meth img width maxval threads = Ok wss \<and> race_free wss \<and>
    (\<forall>ws out. interleaving wss ws \<and> length out = length img \<longrightarrow> run_writes ws out = negative maxval img)"
proof -
  have "\<exists>wss. spawn_workers meth img width maxval threads = Ok wss \<and>
      writes_all (negative maxval img) wss \<and> race_free wss"
    using assms num_spawn blk_spawn by (cases meth) auto
  then show ?thesis using run_writes_all length_negative by metis
qed

text \<open>
  C12: the threads together compute the negative: for any number of threads
  and any interleaving of their writes every sample \<open>v\<close> becomes \<open>maxval - v\<close>, and no byte
  is written by two threads. By value this holds for all images, by block only for those with
  one byte per sample (\<open>maxval\<close> up to 255) and whole lines.
\<close>

theorem pnm_threads_negate:
  assumes "fits maxval img" "0 < threads" "threads < 2 ^ 31"
    and "meth = NUMBERS \<or> maxval \<le> 255 \<and> 0 < width \<and> width < 2 ^ 31 \<and> width dvd int (length img)"
  shows "\<exists>wss. spawn_workers meth img width maxval threads = Ok wss \<and> race_free wss \<and>
    (\<forall>ws out. interleaving wss ws \<and> length out = length img \<longrightarrow> run_writes ws out = negative maxval img)"
  by (rule workers_negate[OF assms])

theorem pnm_threads_negate_witness:
  "\<exists>wss. spawn_workers BLOCK [CHR 0x00, CHR 0x07, CHR 0xFF, CHR 0x80] 2 255 3 = Ok wss \<and> race_free wss \<and>
    run_writes (concat wss) ''abcd'' = [CHR 0xFF, CHR 0xF8, CHR 0x00, CHR 0x7F]"
proof -
  let ?img = "[CHR 0x00, CHR 0x07, CHR 0xFF, CHR 0x80]"
  obtain wss where wss: "spawn_workers BLOCK ?img 2 255 3 = Ok wss" "race_free wss"
    "\<And>ws out. interleaving wss ws \<Longrightarrow> length out = length ?img \<Longrightarrow> run_writes ws out = negative 255 ?img"
    using pnm_threads_negate[OF fits_255, of 3 BLOCK 2 ?img] by auto
  have "run_writes (concat wss) ''abcd'' = negative 255 ?img"
    by (rule wss(3)[OF interleaving_concat]) simp
  moreover have "negative 255 ?img = [CHR 0xFF, CHR 0xF8, CHR 0x00, CHR 0x7F]" by code_simp
  ultimately show ?thesis using wss by auto
qed

text \<open>
  The negative of the negative is the image, so running the program on its own output
  gives the samples back; and the negative fits the same \<open>maxval\<close>.
\<close>

theorem pnm_negative_involutive:
  assumes "fits maxval img"
  shows "negative maxval (negative maxval img) = img \<and> fits maxval (negative maxval img)"
proof
  show fits: "fits maxval (negative maxval img)"
    using assms sample_negative[OF assms] sample_range[of maxval img] by (simp add: fits_def)
  show "negative maxval (negative maxval img) = img"
  proof (rule samples_eq[symmetric, where maxval = maxval])
    fix k assume k: "k < length img div sample_size maxval"
    then show "sample maxval img k = sample maxval (negative maxval (negative maxval img)) k"
      using sample_negative[OF assms k] sample_negative[OF fits, of k] by simp
  qed (use assms in \<open>simp_all add: fits_def\<close>)
qed

theorem pnm_negative_involutive_witness:
  "negative 255 (negative 255 [CHR 0x00, CHR 0x41]) = [CHR 0x00, CHR 0x41]"
  using pnm_negative_involutive[OF fits_255] by blast

text \<open>
  By block, images with two bytes per sample go wrong. The bytes are read as signed, so a
  low byte above 127 spoils the high byte of the result; and the blocks are cut in bytes, so
  with an odd width the last sample of a block lies half outside the image.
\<close>

theorem pnm_block_two_bytes:
  "spawn_workers BLOCK [CHR 0x00, CHR 0x80, CHR 0x00, CHR 0x00] 2 65535 1 =
     Ok [[(0, CHR 0x00), (1, CHR 0x7F), (2, CHR 0xFF), (3, CHR 0xFF)]] \<and>
   negative 65535 [CHR 0x00, CHR 0x80, CHR 0x00, CHR 0x00] = [CHR 0xFF, CHR 0x7F, CHR 0xFF, CHR 0xFF] \<and>
   spawn_workers BLOCK [CHR 0x00, CHR 0x00] 1 65535 1 = Err Undef_Behaviour"
proof (intro conjI)
  show "spawn_workers BLOCK [CHR 0x00, CHR 0x80, CHR 0x00, CHR 0x00] 2 65535 1 =
     Ok [[(0, CHR 0x00), (1, CHR 0x7F), (2, CHR 0xFF), (3, CHR 0xFF)]]" by code_simp
  show "negative 65535 [CHR 0x00, CHR 0x80, CHR 0x00, CHR 0x00] = [CHR 0xFF, CHR 0x7F, CHR 0xFF, CHR 0xFF]"
    by code_simp
  show "spawn_workers BLOCK [CHR 0x00, CHR 0x00] 1 65535 1 = Err Undef_Behaviour" by code_simp
qed

end
