(* ===== verification/Pnm_Read.thy ===== *)
theory Pnm_Read
  imports Pnm_Invert
begin

text \<open>
  The reader of \<open>lab8/main.c\<close>: a state machine over the bytes of a PNM file, fed by reads of
  at most 4096 bytes into a buffer. What the buffer holds from \<open>p\<close> to \<open>end\<close> is a string; the
  NUL byte behind it is what \<open>*p\<close> reads when \<open>p\<close> has reached \<open>end\<close>.
\<close>

section \<open>State\<close>

text \<open>
  The locals of \<open>main\<close>. \<open>p_image\<close> is the part of the image that has been written, so its
  length is \<open>imagewritten\<close>; \<open>p_null\<close> says that \<open>malloc\<close> returned \<open>NULL\<close> for the image.
\<close>

record pnm =
  p_state :: nat
  p_width :: int
  p_height :: int
  p_maxval :: int
  p_binary :: bool
  p_bit :: bool
  p_hasmaxval :: bool
  p_channels :: int
  p_comment :: bool
  p_null :: bool
  p_image :: string

definition pnm_init :: pnm where
  "pnm_init = \<lparr>p_state = 0, p_width = 1, p_height = 1, p_maxval = 1, p_binary = True, p_bit = False,
     p_hasmaxval = True, p_channels = 1, p_comment = False, p_null = True, p_image = []\<rparr>"

text \<open>What one round of the loop over the buffer comes to, with the bytes from \<open>p\<close> on.\<close>

datatype scan_result =
    More_Data pnm string
  | Bad_Format
  | Token pnm string
  | Read_Finish pnm

section \<open>Header\<close>

text \<open>\<open>parse_int(p, &val, &rest, false)\<close>.\<close>

definition parse_int_at :: "string \<Rightarrow> (int \<times> string) option" where
  "parse_int_at s = (if s = [] \<or> hd s = NUL then None
     else (case strtol10 s of (v, rest, range_err) \<Rightarrow> if range_err then None else Some (v, rest)))"

text \<open>The conversion of a \<open>long\<close> to \<open>int\<close>.\<close>

definition long_to_int :: "int \<Rightarrow> int" where
  "long_to_int v = sint (word_of_int v :: 32 word)"

text \<open>\<open>width * height * channels * (maxval <= 255 ? 1 : 2)\<close>, in \<open>int\<close>.\<close>

definition image_bytes :: "pnm \<Rightarrow> int result" where
  "image_bytes st =
     rbind (c_int (p_width st * p_height st)) (\<lambda>a.
     rbind (c_int (a * p_channels st)) (\<lambda>b.
       c_int (b * (if p_maxval st \<le> 255 then 1 else 2))))"

definition magic :: "pnm \<Rightarrow> char \<Rightarrow> pnm option" where
  "magic st c =
     (if c = CHR ''1'' then Some (st\<lparr>p_binary := False, p_hasmaxval := False\<rparr>)
      else if c = CHR ''2'' then Some (st\<lparr>p_binary := False\<rparr>)
      else if c = CHR ''3'' then Some (st\<lparr>p_binary := False, p_channels := 3\<rparr>)
      else if c = CHR ''4'' then Some (st\<lparr>p_bit := True, p_hasmaxval := False\<rparr>)
      else if c = CHR ''5'' then Some (st\<lparr>p_binary := True\<rparr>)
      else if c = CHR ''6'' then Some (st\<lparr>p_binary := True, p_channels := 3\<rparr>)
      else None)"

definition scan_magic :: "pnm \<Rightarrow> string \<Rightarrow> scan_result" where
  "scan_magic st s =
     (if length s < 3 then More_Data st s
      else if s ! 0 \<noteq> CHR ''P'' then Bad_Format
      else (case magic st (s ! 1) of
          None \<Rightarrow> Bad_Format
        | Some st \<Rightarrow>
            if s ! 2 \<noteq> CHR ''#'' \<and> \<not> is_c_space (s ! 2) then Bad_Format
            else Token (st\<lparr>p_comment := p_comment st \<or> s ! 2 = CHR ''#'', p_state := 1\<rparr>) (drop 3 s)))"

text \<open>The assignment to \<open>width\<close>, \<open>height\<close> or \<open>maxval\<close>, the next state, the allocation.\<close>

definition take_number :: "pnm \<Rightarrow> int \<Rightarrow> pnm" where
  "take_number st v =
     (let st = (if p_state st = 1 then st\<lparr>p_width := long_to_int v\<rparr>
                else if p_state st = 2 then st\<lparr>p_height := long_to_int v\<rparr>
                else st\<lparr>p_maxval := long_to_int v\<rparr>);
          n = p_state st + 1
      in st\<lparr>p_state := if n = 3 \<and> \<not> p_hasmaxval st then n + 1 else n\<rparr>)"

definition alloc_image :: "allocator \<Rightarrow> pnm \<Rightarrow> pnm result" where
  "alloc_image al st =
     (if p_state st = 4
      then rbind (image_bytes st) (\<lambda>n. Ok (st\<lparr>p_null := \<not> al (nat (n mod 2 ^ 64))\<rparr>))
      else Ok st)"

definition scan_number :: "allocator \<Rightarrow> pnm \<Rightarrow> string \<Rightarrow> scan_result result" where
  "scan_number al st s = (case parse_int_at s of
     None \<Rightarrow> Ok Bad_Format
   | Some (v, rest) \<Rightarrow>
       if rest = [] then Ok (More_Data st s)
       else if v \<le> 0 then Ok Bad_Format
       else if hd rest \<noteq> CHR ''#'' \<and> \<not> is_c_space (hd rest) then Ok Bad_Format
       else rbind (alloc_image al (take_number (st\<lparr>p_comment := p_comment st \<or> hd rest = CHR ''#''\<rparr>) v))
         (\<lambda>st. Ok (Token st (tl rest))))"

section \<open>Image data\<close>

text \<open>\<open>while (isspace(*p)) { p++; CHK(2); }\<close>: \<open>Inl\<close> when it goes for more data.\<close>

fun skip_text_space :: "string \<Rightarrow> string + string" where
  "skip_text_space [] = Inr []"
| "skip_text_space (c # s) =
     (if is_c_space c then if length s < 2 then Inl s else skip_text_space s else Inr (c # s))"

datatype sample_result = Sample_More string | Sample_Bad | Sample int string

definition read_sample :: "pnm \<Rightarrow> string \<Rightarrow> sample_result" where
  "read_sample st s =
     (if p_bit st then
        (if s = [] then Sample_More s
         else let c = to_char (drop_bit 1 (schar (hd s)))
              in Sample (schar (hd s) AND 1)
                   (if int (length (p_image st)) AND 7 = 7 then tl s else c # tl s))
      else if p_binary st then
        (if length s < (if p_maxval st > 255 then 2 else 1) then Sample_More s
         else if p_maxval st > 255
           then Sample (push_bit 8 (uchar (s ! 0)) OR uchar (s ! 1)) (drop 2 s)
           else Sample (uchar (s ! 0)) (drop 1 s))
      else (case skip_text_space s of
          Inl r \<Rightarrow> Sample_More r
        | Inr r \<Rightarrow> (case parse_int_at r of
              None \<Rightarrow> Sample_Bad
            | Some (v, rest) \<Rightarrow>
                if rest = [] then Sample_More r
                else if v < 0 \<or> length rest = length r then Sample_Bad
                else Sample v rest)))"

text \<open>Storing a sample. The block has \<open>lim\<close> bytes and \<open>imagewritten < lim\<close>.\<close>

definition store_sample :: "pnm \<Rightarrow> int \<Rightarrow> pnm result" where
  "store_sample st v =
     (if p_null st then Err Undef_Behaviour
      else Ok (st\<lparr>p_image := p_image st @
        (if p_maxval st > 255 then [to_char (drop_bit 8 v), to_char (v AND 255)] else [to_char v])\<rparr>))"

function read_image :: "int \<Rightarrow> pnm \<Rightarrow> string \<Rightarrow> scan_result result" where
  "read_image lim st s =
     (if \<not> int (length (p_image st)) < lim then Ok (Read_Finish st)
      else (case read_sample st s of
          Sample_More s \<Rightarrow> Ok (More_Data st s)
        | Sample_Bad \<Rightarrow> Ok Bad_Format
        | Sample v s \<Rightarrow>
            if p_maxval st < v then Ok Bad_Format
            else (case store_sample st v of Inl e \<Rightarrow> Err e | Inr st \<Rightarrow> read_image lim st s)))"
  by pat_completeness auto
termination
  by (relation "measure (\<lambda>(lim, st, s). nat (lim - int (length (p_image st))))")
    (auto simp: store_sample_def split: if_split_asm)

declare read_image.simps [simp del]

section \<open>The loop over the buffer\<close>

text \<open>White space between header tokens, and the start of a comment behind it.\<close>

definition skip_header_space :: "pnm \<Rightarrow> string \<Rightarrow> (pnm \<times> string) option" where
  "skip_header_space st s =
     (if 0 < p_state st \<and> p_state st < 4
      then (case dropWhile is_c_space s of
          [] \<Rightarrow> None
        | c # r \<Rightarrow> Some (st\<lparr>p_comment := p_comment st \<or> c = CHR ''#''\<rparr>, c # r))
      else Some (st, s))"

text \<open>The rest of a comment; \<open>More_Data\<close> if the buffer ends inside it.\<close>

definition skip_comment :: "pnm \<Rightarrow> string \<Rightarrow> scan_result" where
  "skip_comment st s =
     (if \<not> p_comment st then Token st s
      else (case dropWhile (\<lambda>c. c \<noteq> NL) s of
          [] \<Rightarrow> More_Data st []
        | _ # r \<Rightarrow>
            if p_state st = 4
            then (if r = [] \<or> \<not> is_c_space (hd r) then Bad_Format else Token (st\<lparr>p_comment := False\<rparr>) (tl r))
            else Token (st\<lparr>p_comment := False\<rparr>) r))"

definition scan_token :: "allocator \<Rightarrow> pnm \<Rightarrow> string \<Rightarrow> scan_result result" where
  "scan_token al st s = (case skip_header_space st s of
     None \<Rightarrow> Ok (More_Data st [])
   | Some (st, s) \<Rightarrow> (case skip_comment st s of
       Token st s \<Rightarrow>
         if p_state st = 0 then Ok (scan_magic st s)
         else if p_state st < 4 then scan_number al st s
         else rbind (image_bytes st) (\<lambda>lim. read_image lim st s)
     | r \<Rightarrow> Ok r))"

text \<open>Every round that goes on moves to a later state.\<close>

lemma take_number_state: "0 < p_state st \<Longrightarrow> p_state st < 4 \<Longrightarrow>
  p_state st < p_state (take_number st v) \<and> p_state (take_number st v) \<le> 4"
  by (auto simp: take_number_def Let_def)

lemma alloc_image_state: "alloc_image al st = Ok st' \<Longrightarrow> p_state st' = p_state st"
  by (auto simp: alloc_image_def rbind_eq_Inr split: if_split_asm)

lemma scan_number_later:
  assumes "scan_number al st s = Ok (Token st' s')" "0 < p_state st" "p_state st < 4"
  shows "p_state st < p_state st' \<and> p_state st' \<le> 4"
proof -
  obtain b v where "alloc_image al (take_number (st\<lparr>p_comment := b\<rparr>) v) = Ok st'"
    using assms(1) by (auto simp: scan_number_def rbind_eq_Inr split: option.splits if_split_asm)
  then show ?thesis
    using alloc_image_state take_number_state[of "st\<lparr>p_comment := b\<rparr>" v] assms(2,3) by simp
qed

lemma read_image_no_token: "read_image lim st s \<noteq> Ok (Token st' s')"
proof (induction lim st s rule: read_image.induct)
  case (1 lim st s)
  then show ?case
    by (subst read_image.simps) (auto split: sample_result.splits sum.splits)
qed

lemma scan_token_later:
  assumes "scan_token al st s = Ok (Token st' s')"
  shows "p_state st < p_state st' \<and> p_state st' \<le> 4"
proof -
  obtain st1 s1 where h: "skip_header_space st s = Some (st1, s1)" "p_state st1 = p_state st"
    using assms by (cases "skip_header_space st s")
      (auto simp: scan_token_def skip_header_space_def split: list.splits if_split_asm)
  then obtain st2 s2 where c: "skip_comment st1 s1 = Token st2 s2" "p_state st2 = p_state st"
    using assms by (cases "skip_comment st1 s1")
      (auto simp: scan_token_def skip_comment_def split: list.splits if_split_asm)
  consider "p_state st = 0" | "0 < p_state st \<and> p_state st < 4" | "4 \<le> p_state st" by linarith
  then show ?thesis
  proof cases
    case 1
    then show ?thesis
      using assms h c by (auto simp: scan_token_def scan_magic_def split: if_split_asm option.splits)
  next
    case 2
    then have "scan_number al st2 s2 = Ok (Token st' s')" using assms h c by (simp add: scan_token_def)
    then show ?thesis using 2 c(2) scan_number_later by metis
  next
    case 3
    then show ?thesis using assms h c read_image_no_token by (auto simp: scan_token_def rbind_eq_Inr)
  qed
qed

function scan_buffer :: "allocator \<Rightarrow> pnm \<Rightarrow> string \<Rightarrow> scan_result result" where
  "scan_buffer al st s = (case scan_token al st s of
     Ok (Token st' s') \<Rightarrow> scan_buffer al st' s'
   | r \<Rightarrow> r)"
  by pat_completeness auto
termination
  by (relation "measure (\<lambda>(al, st, s). 4 - p_state st)") (auto dest!: scan_token_later)

declare scan_buffer.simps [simp del]

section \<open>The loop over the reads\<close>

text \<open>
  \<open>sched n\<close> is the number of bytes a \<open>read\<close> delivers when \<open>n\<close> bytes of the file are left,
  as far as they fit in the buffer. A full buffer makes \<open>read\<close> return 0 like the end of the file.
\<close>

definition BUFSZ :: nat where "BUFSZ = 4096"

definition read_size :: "(nat \<Rightarrow> nat) \<Rightarrow> string \<Rightarrow> string \<Rightarrow> nat" where
  "read_size sched buf inp = min (min (BUFSZ - length buf) (length inp)) (max 1 (sched (length inp)))"

function read_pnm :: "allocator \<Rightarrow> (nat \<Rightarrow> nat) \<Rightarrow> pnm \<Rightarrow> string \<Rightarrow> string \<Rightarrow> pnm result" where
  "read_pnm al sched st buf inp =
     (let n = read_size sched buf inp
      in if n = 0 then Err (Exit_Status 1)
         else (case scan_buffer al st (buf @ take n inp) of
             Inl e \<Rightarrow> Err e
           | Inr (More_Data st buf) \<Rightarrow> read_pnm al sched st buf (drop n inp)
           | Inr (Read_Finish st) \<Rightarrow> Ok st
           | Inr _ \<Rightarrow> Err (Exit_Status 1)))"
  by pat_completeness auto
termination
  by (relation "measure (\<lambda>(al, sched, st, buf, inp). length inp)") (auto simp: read_size_def)

declare read_pnm.simps [simp del]

end
