(* ===== verification/Pnm_Read_Props.thy ===== *)
theory Pnm_Read_Props
  imports Pnm_Read Pnm_Threads
begin

text \<open>
  The reader of \<open>lab8\<close> reads every well-formed binary file without comments, wherever the
  reads cut it; and some files it should read it does not.
\<close>

section \<open>Decimal tokens\<close>

lemma digits_value_append:
  "\<forall>c \<in> set xs. digit_value c \<noteq> None \<Longrightarrow>
    digits_value acc (xs @ ys) = digits_value (digits_value acc xs) ys"
  by (induction xs arbitrary: acc) auto

lemma digit_value_nonneg: "digit_value c = Some d \<Longrightarrow> 0 \<le> d"
  by (auto simp: digit_value_def split: if_splits)

lemma digits_value_ge: "0 \<le> acc \<Longrightarrow> acc \<le> digits_value acc ys"
proof (induction ys arbitrary: acc)
  case (Cons c ys)
  then show ?case
    using Cons.IH[of "acc * 10 + the (digit_value c)"] digit_value_nonneg
    by (cases "digit_value c") fastforce+
qed simp

lemma digit_not_space: "digit_value c \<noteq> None \<Longrightarrow> \<not> is_c_space c \<and> c \<noteq> NUL \<and> c \<noteq> CHR ''#'' \<and>
    c \<noteq> CHR ''-'' \<and> c \<noteq> CHR ''+''"
  by (auto simp: digit_value_def is_c_space_def split: if_splits)

lemma space_not_digit: "is_c_space c \<Longrightarrow> digit_value c = None"
  using digit_not_space by blast

lemma parse_digits:
  assumes "ds \<noteq> []" "\<forall>c \<in> set ds. digit_value c \<noteq> None" "rest = [] \<or> digit_value (hd rest) = None"
    and "digits_value 0 ds \<le> LONG_MAX"
  shows "parse_int_at (ds @ rest) = Some (digits_value 0 ds, rest)"
proof -
  obtain c cs where ds: "ds = c # cs" using assms(1) by (cases ds) auto
  then have c: "\<not> is_c_space c" "c \<noteq> NUL" "c \<noteq> CHR ''-''" "c \<noteq> CHR ''+''" "digit_value c \<noteq> None"
    using assms(2) digit_not_space[of c] by auto
  have val: "digits_value 0 (ds @ rest) = digits_value 0 ds"
    using assms(3) unfolding digits_value_append[OF assms(2)]
    by (cases rest) (auto split: option.splits)
  have "dropWhile (\<lambda>c. digit_value c \<noteq> None) (ds @ rest) = dropWhile (\<lambda>c. digit_value c \<noteq> None) rest"
    using assms(2) by (simp add: dropWhile_append2)
  then have rest: "dropWhile (\<lambda>c. digit_value c \<noteq> None) (ds @ rest) = rest"
    using assms(3) by (cases rest) auto
  have sp: "dropWhile is_c_space (ds @ rest) = ds @ rest" using ds c by simp
  have "\<not> digits_value 0 ds < LONG_MIN"
    using digits_value_ge[of 0 ds] by (simp add: LONG_MIN_def)
  then have "strtol10 (ds @ rest) = (digits_value 0 ds, rest, False)"
    unfolding strtol10_def Let_def sp
    using c ds val rest assms(4) by (simp del: digits_value.simps)
  then show ?thesis using ds c by (simp add: parse_int_at_def)
qed

lemma length_show_nat: "n < 10 ^ k \<Longrightarrow> 0 < k \<Longrightarrow> length (show_nat n) \<le> k"
proof (induction k arbitrary: n)
  case (Suc k)
  show ?case
  proof (cases "n < 10")
    case True
    then show ?thesis by (subst show_nat.simps) simp
  next
    case False
    then have "k \<noteq> 0" using Suc.prems by (cases k) auto
    then have "length (show_nat (n div 10)) \<le> k"
      using Suc.IH[of "n div 10"] Suc.prems by (simp add: div_less_iff_less_mult mult.commute)
    then show ?thesis using False by (subst show_nat.simps) simp
  qed
qed simp

section \<open>Header tokens\<close>

text \<open>White space, a number, the white-space byte behind it; and a header of such tokens.\<close>

type_synonym htoken = "string \<times> nat \<times> char"

fun token_ok :: "htoken \<Rightarrow> bool" where
  "token_ok (sp, n, c) \<longleftrightarrow> list_all is_c_space sp \<and> is_c_space c \<and> 0 < n \<and> n < 2 ^ 31"

fun header :: "htoken list \<Rightarrow> string \<Rightarrow> string" where
  "header [] d = d"
| "header ((sp, n, c) # ts) d = sp @ show_nat n @ c # header ts d"

lemma show_nat_nonempty: "show_nat n \<noteq> []"
  by (subst show_nat.simps) simp

text \<open>A header number, when the buffer holds all of it and when it does not.\<close>

lemma scan_number_whole:
  assumes st: "0 < p_state st" "p_state st < 4" "\<not> p_comment st" and tok: "token_ok (sp, n, c)"
  shows "scan_token al st (sp @ show_nat n @ c # r) =
    rbind (alloc_image al (take_number st (int n))) (\<lambda>st. Ok (Token st r))"
proof -
  obtain d ds where d: "show_nat n = d # ds" "digit_value d \<noteq> None"
    by (rule show_nat_head)
  have sp: "list_all is_c_space sp" and c: "is_c_space c" and n: "0 < n" "n < 2 ^ 31" using tok by auto
  have "c \<noteq> CHR ''#''" using c by (auto simp: is_c_space_def)
  have "dropWhile is_c_space (sp @ show_nat n @ c # r) = show_nat n @ c # r"
    using sp d digit_not_space[of d] by (auto simp: dropWhile_append2 list_all_iff)
  then have sk: "skip_header_space st (sp @ show_nat n @ c # r) = Some (st, show_nat n @ c # r)"
    using st d digit_not_space[of d] by (simp add: skip_header_space_def)
  have "digits_value 0 (show_nat n) \<le> LONG_MAX"
    using n by (simp add: digits_show_nat LONG_MAX_def)
  then have parse: "parse_int_at (show_nat n @ c # r) = Some (int n, c # r)"
    using parse_digits[of "show_nat n" "c # r"] show_nat_nonempty show_nat_digits space_not_digit[OF c]
    by (simp add: digits_show_nat)
  have st_same: "st\<lparr>p_comment := p_comment st \<or> hd (c # r) = CHR ''#''\<rparr> = st"
    using st(3) \<open>c \<noteq> CHR ''#''\<close> by simp
  have "scan_number al st (show_nat n @ c # r) =
      rbind (alloc_image al (take_number st (int n))) (\<lambda>st. Ok (Token st r))"
    unfolding scan_number_def parse option.case prod.case st_same using n c by simp
  then show ?thesis using st sk by (simp add: scan_token_def skip_comment_def)
qed

lemma scan_number_part:
  assumes st: "0 < p_state st" "p_state st < 4" "\<not> p_comment st" and tok: "token_ok (sp, n, c)"
    and split: "b @ t = sp @ show_nat n @ c # r" and short: "length b \<le> length sp + length (show_nat n)"
  shows "\<exists>b' sp'. scan_token al st b = Ok (More_Data st b') \<and>
    b' @ t = sp' @ show_nat n @ c # r \<and> list_all is_c_space sp' \<and> length b' \<le> length (show_nat n)"
proof (cases "length b \<le> length sp")
  case True
  define sp' where "sp' = drop (length b) sp"
  have b: "b = take (length b) sp" "t = sp' @ show_nat n @ c # r"
    using split True unfolding sp'_def by (auto simp: append_eq_append_conv_if)
  have sp: "list_all is_c_space sp" using tok by simp
  then have "list_all is_c_space b" "list_all is_c_space sp'"
    using b(1) unfolding sp'_def list_all_iff by (metis in_set_takeD, metis in_set_dropD)
  then have nil: "dropWhile is_c_space b = []" by (simp add: list_all_iff)
  have "skip_header_space st b = None" unfolding skip_header_space_def nil using st by simp
  then have "scan_token al st b = Ok (More_Data st [])" by (simp add: scan_token_def)
  then show ?thesis using b \<open>list_all is_c_space sp'\<close> by fastforce
next
  case False
  obtain ds where b: "b = sp @ ds" "ds @ t = show_nat n @ c # r"
    using split False unfolding append_eq_append_conv2[of b t sp] by auto
  then have b: "b = sp @ ds" "ds @ t = show_nat n @ c # r" "ds \<noteq> []" using False by auto
  have dsl: "length ds \<le> length (show_nat n)" using short b(1) by simp
  then obtain es where es: "show_nat n = ds @ es"
    using b(2) by (metis append_eq_append_conv_if append_take_drop_id)
  have dig: "\<forall>c \<in> set ds. digit_value c \<noteq> None" using show_nat_digits[of n] es by auto
  have "digits_value 0 ds \<le> digits_value (digits_value 0 ds) es"
    by (intro digits_value_ge) simp
  also have "\<dots> = int n" using digits_value_append[OF dig, of 0 es] es digits_show_nat[of n] by simp
  finally have "digits_value 0 ds \<le> LONG_MAX" using tok by (simp add: LONG_MAX_def)
  then have parse: "parse_int_at ds = Some (digits_value 0 ds, [])"
    using parse_digits[of ds "[]"] b(3) dig by simp
  obtain d es' where d: "ds = d # es'" using b(3) by (cases ds) auto
  then have nd: "\<not> is_c_space d" "d \<noteq> CHR ''#''" using dig digit_not_space[of d] by auto
  have "dropWhile is_c_space b = ds"
    using tok b(1) d nd by (auto simp: dropWhile_append2 list_all_iff)
  then have "skip_header_space st b = Some (st, ds)"
    using st d nd by (simp add: skip_header_space_def)
  then have "scan_token al st b = Ok (More_Data st ds)"
    using st parse by (simp add: scan_token_def skip_comment_def scan_number_def)
  then show ?thesis using b(2) dsl by (intro exI[of _ ds] exI[of _ "[]"]) simp
qed

section \<open>Image data\<close>

text \<open>
  A reader that has taken the header and part of the data of a binary image: what it has
  stored and what is still to come make up \<open>data\<close>.
\<close>

definition in_data :: "int \<Rightarrow> string \<Rightarrow> pnm \<Rightarrow> string \<Rightarrow> bool" where
  "in_data lim data st s \<longleftrightarrow> p_state st = 4 \<and> \<not> p_comment st \<and> p_binary st \<and> \<not> p_bit st \<and> \<not> p_null st \<and>
     image_bytes st = Ok lim \<and> lim = int (length data) \<and> fits (p_maxval st) data \<and>
     sample_size (p_maxval st) dvd length (p_image st) \<and> length (p_image st) \<le> length data \<and>
     (\<exists>extra. p_image st @ s = data @ extra)"

lemma read_sample_binary:
  assumes "p_binary st" "\<not> p_bit st"
  shows "read_sample st s = (if length s < sample_size (p_maxval st) then Sample_More s
    else Sample (sample (p_maxval st) s 0) (drop (sample_size (p_maxval st)) s))"
  using assms uchar_range join_bytes[of "uchar (s ! 1)" "uchar (s ! 0)"]
  by (simp add: read_sample_def sample_size_def sample_def)

lemma store_sample_binary:
  assumes "\<not> p_null st" "sample_size (p_maxval st) \<le> length s"
  shows "store_sample st (sample (p_maxval st) s 0) =
    Ok (st\<lparr>p_image := p_image st @ take (sample_size (p_maxval st)) s\<rparr>)"
proof (cases "p_maxval st \<le> 255")
  case True
  then obtain a r where "s = a # r" using assms(2) by (cases s) (auto simp: sample_size_def)
  then show ?thesis
    using True assms by (simp add: store_sample_def sample_def sample_size_def to_char_uchar)
next
  case False
  then obtain a b r where s: "s = a # b # r"
    using assms(2) by (cases s; cases "tl s") (auto simp: sample_size_def)
  have "to_char ((256 * uchar a + uchar b) div 256) = a" "to_char ((256 * uchar a + uchar b) mod 256) = b"
    using uchar_range[of a] uchar_range[of b] by (simp_all add: to_char_uchar)
  then show ?thesis
    using False assms s by (simp add: store_sample_def sample_def sample_size_def split_bytes)
qed

text \<open>One sample goes from the input to the image.\<close>

lemma in_data_sample:
  assumes inv: "in_data lim data st (b @ t)" and todo: "int (length (p_image st)) < lim"
    and size: "sample_size (p_maxval st) \<le> length b"
  shows "sample (p_maxval st) b 0 \<le> p_maxval st"
    and "in_data lim data (st\<lparr>p_image := p_image st @ take (sample_size (p_maxval st)) b\<rparr>)
      (drop (sample_size (p_maxval st)) b @ t)"
proof -
  let ?z = "sample_size (p_maxval st)"
  obtain extra where ex: "p_image st @ b @ t = data @ extra" using inv by (auto simp: in_data_def)
  obtain k where k: "length (p_image st) = ?z * k" using inv by (auto simp: in_data_def dvd_def)
  have fits: "fits (p_maxval st) data" and lim: "lim = int (length data)" using inv by (auto simp: in_data_def)
  then obtain n where n: "length data = ?z * n" by (auto simp: fits_def dvd_def)
  have z: "0 < ?z" by (simp add: sample_size_def)
  then have kn: "k < n" using todo lim k n by simp
  have "?z * Suc k \<le> ?z * n" using kn by (intro mult_le_mono2) simp
  then have at: "b ! j = data ! (?z * k + j)" if "j < ?z" for j
    using arg_cong[OF ex, of "\<lambda>xs. xs ! (?z * k + j)"] that k n size by (simp add: nth_append)
  have "sample (p_maxval st) b 0 = sample (p_maxval st) data k"
    using at[of 0] at[of 1] z by (auto simp: sample_def sample_size_def split: if_splits)
  moreover have "k < length data div ?z" using n kn z by simp
  ultimately show "sample (p_maxval st) b 0 \<le> p_maxval st" using fits by (simp add: fits_def)
  have "image_bytes (st\<lparr>p_image := i\<rparr>) = image_bytes st" for i by (simp add: image_bytes_def)
  moreover have "length (take ?z b) = ?z" using size by simp
  moreover have "(p_image st @ take ?z b) @ drop ?z b @ t = data @ extra"
    using ex append_take_drop_id[of ?z b] by (metis append.assoc)
  moreover have "length (p_image st @ take ?z b) \<le> length data"
    using \<open>?z * Suc k \<le> ?z * n\<close> k n size by simp
  ultimately show "in_data lim data (st\<lparr>p_image := p_image st @ take ?z b\<rparr>) (drop ?z b @ t)"
    using inv unfolding in_data_def by (auto simp: dvd_add)
qed

text \<open>The loop takes whole samples until the image is complete or the buffer has none left.\<close>

lemma read_image_binary:
  assumes "in_data lim data st (b @ t)"
  shows "(\<exists>st'. read_image lim st b = Ok (Read_Finish st') \<and> p_image st' = data \<and>
      st' = st\<lparr>p_image := data\<rparr>) \<or>
    (\<exists>st' b'. read_image lim st b = Ok (More_Data st' b') \<and> in_data lim data st' (b' @ t) \<and>
      length b' < 2 \<and> t \<noteq> [] \<and> st' = st\<lparr>p_image := p_image st'\<rparr>)"
  using assms
proof (induction "nat (lim - int (length (p_image st)))" arbitrary: st b rule: less_induct)
  case less
  let ?z = "sample_size (p_maxval st)"
  obtain extra where ex: "p_image st @ b @ t = data @ extra" using less.prems by (auto simp: in_data_def)
  have bin: "p_binary st" "\<not> p_bit st" "\<not> p_null st" and lim: "lim = int (length data)"
    using less.prems by (auto simp: in_data_def)
  show ?case
  proof (cases "int (length (p_image st)) < lim")
    case False
    then have "length (p_image st) = length data" using less.prems by (auto simp: in_data_def)
    then have "p_image st = data" using ex by simp
    moreover have "st = st\<lparr>p_image := p_image st\<rparr>" by simp
    ultimately show ?thesis using False by (subst (1) read_image.simps) auto
  next
    case todo: True
    show ?thesis
    proof (cases "length b < ?z")
      case True
      have "t \<noteq> []"
      proof
        assume "t = []"
        then have "length data \<le> length (p_image st) + length b"
          using arg_cong[OF ex, of length] by simp
        moreover obtain k n where "length (p_image st) = ?z * k" "length data = ?z * n"
          using less.prems by (auto simp: in_data_def fits_def dvd_def)
        moreover have "?z * k + ?z \<le> ?z * n"
        proof -
          have "?z * k < ?z * n" using calculation(2,3) todo lim by (simp flip: of_nat_mult)
          then have "?z * Suc k \<le> ?z * n" by (intro mult_le_mono2) simp
          then show ?thesis by simp
        qed
        ultimately show False using True by simp
      qed
      moreover have "read_image lim st b = Ok (More_Data st b)"
        using True todo bin by (subst read_image.simps) (simp add: read_sample_binary)
      ultimately show ?thesis using less.prems True by (auto simp: sample_size_def split: if_splits)
    next
      case False
      let ?st = "st\<lparr>p_image := p_image st @ take ?z b\<rparr>"
      note smp = in_data_sample[OF less.prems todo, of]
      have go: "read_image lim st b = read_image lim ?st (drop ?z b)"
        using False todo bin smp(1) store_sample_binary[of st b]
        by (subst read_image.simps) (simp add: read_sample_binary)
      have "nat (lim - int (length (p_image ?st))) < nat (lim - int (length (p_image st)))"
        using False todo by (auto simp: sample_size_def)
      from less.hyps[OF this smp(2)] False show ?thesis unfolding go by (auto 4 3)
    qed
  qed
qed

section \<open>The whole file\<close>

abbreviation numbers :: "htoken list \<Rightarrow> int list" where
  "numbers ts \<equiv> map (\<lambda>(sp, n, c). int n) ts"

text \<open>
  \<open>fin\<close> is the reader with the whole header taken; it must announce as many bytes as \<open>data\<close>
  has. \<open>reads_to\<close> says that a reader with the bytes \<open>s\<close> to come will get there.
\<close>

definition header_done :: "allocator \<Rightarrow> string \<Rightarrow> pnm \<Rightarrow> bool" where
  "header_done al data fin \<longleftrightarrow> p_state fin = 4 \<and> \<not> p_comment fin \<and> p_binary fin \<and> \<not> p_bit fin \<and>
     p_hasmaxval fin \<and> p_image fin = [] \<and> image_bytes fin = Ok (int (length data)) \<and>
     fits (p_maxval fin) data \<and> al (length data)"

definition reads_to :: "string \<Rightarrow> pnm \<Rightarrow> pnm \<Rightarrow> string \<Rightarrow> bool" where
  "reads_to data fin st s \<longleftrightarrow>
     (\<exists>d c ts extra st1. st = pnm_init \<and> s = CHR ''P'' # d # c # header ts (data @ extra) \<and>
        magic pnm_init d = Some st1 \<and> is_c_space c \<and> length ts = 3 \<and> list_all token_ok ts \<and>
        foldl take_number (st1\<lparr>p_state := 1\<rparr>) (numbers ts) = fin) \<or>
     (\<exists>ts extra. s = header ts (data @ extra) \<and> ts \<noteq> [] \<and> 0 < p_state st \<and> p_state st + length ts = 4 \<and>
        list_all token_ok ts \<and> foldl take_number st (numbers ts) = fin) \<or>
     (in_data (int (length data)) data st s \<and> st = fin\<lparr>p_null := False, p_image := p_image st\<rparr>)"

lemma take_number_keeps [simp]:
  "p_hasmaxval (take_number st v) = p_hasmaxval st" "p_comment (take_number st v) = p_comment st"
  "p_image (take_number st v) = p_image st"
  by (simp_all add: take_number_def Let_def)

lemma take_numbers_keep:
  "p_hasmaxval (foldl take_number st vs) = p_hasmaxval st \<and>
   p_comment (foldl take_number st vs) = p_comment st \<and> p_image (foldl take_number st vs) = p_image st"
  by (induction vs arbitrary: st) auto

lemma take_number_next: "p_hasmaxval st \<Longrightarrow> p_state (take_number st v) = p_state st + 1"
  by (simp add: take_number_def Let_def)

lemma alloc_image_done:
  assumes "header_done al data fin" shows "alloc_image al fin = Ok (fin\<lparr>p_null := False\<rparr>)"
proof -
  have n: "image_bytes fin = Ok (int (length data))" using assms by (simp add: header_done_def)
  then have "int (length data) < 2 ^ 31"
    by (auto simp: image_bytes_def rbind_eq_Inr c_int_def split: if_split_asm)
  then have "nat (int (length data) mod 2 ^ 64) = length data" by simp
  then show ?thesis using assms n by (simp add: alloc_image_def header_done_def)
qed

text \<open>The three ways a round of the loop over the buffer can end on such a file.\<close>

definition round_ok :: "string \<Rightarrow> pnm \<Rightarrow> string \<Rightarrow> pnm \<Rightarrow> scan_result result \<Rightarrow> bool" where
  "round_ok data fin t st r \<longleftrightarrow>
     r = Ok (Read_Finish (fin\<lparr>p_null := False, p_image := data\<rparr>)) \<or>
     (\<exists>st' b'. r = Ok (More_Data st' b') \<and> reads_to data fin st' (b' @ t) \<and> length b' < BUFSZ \<and> t \<noteq> []) \<or>
     (\<exists>st' b'. r = Ok (Token st' b') \<and> reads_to data fin st' (b' @ t) \<and> p_state st < p_state st' \<and> p_state st' \<le> 4)"

lemma round_header:
  assumes fin: "header_done al data fin" and st: "0 < p_state st" "p_state st + length ts = 4" "ts \<noteq> []"
    and ok: "list_all token_ok ts" and fold: "foldl take_number st (numbers ts) = fin"
    and split: "b @ t = header ts (data @ extra)"
  shows "round_ok data fin t st (scan_token al st b)"
proof -
  obtain sp n c ts' where ts: "ts = (sp, n, c) # ts'" using st(3) by (cases ts) auto
  then have tok: "token_ok (sp, n, c)" and ok': "list_all token_ok ts'" using ok by auto
  have keep: "p_hasmaxval st" "\<not> p_comment st"
    using fin take_numbers_keep[of st "numbers ts"] fold by (auto simp: header_done_def)
  have s: "b @ t = sp @ show_nat n @ c # header ts' (data @ extra)" using split ts by simp
  have less4: "p_state st < 4" using st by (cases ts) auto
  show ?thesis
  proof (cases "length b \<le> length sp + length (show_nat n)")
    case True
    from scan_number_part[OF st(1) less4 keep(2) tok s True] obtain b' sp' where
      b': "scan_token al st b = Ok (More_Data st b')" "b' @ t = sp' @ show_nat n @ c # header ts' (data @ extra)"
        "list_all is_c_space sp'" "length b' \<le> length (show_nat n)" by blast
    have "t \<noteq> []" using arg_cong[OF b'(2), of length] b'(4) by auto
    moreover have "length b' < BUFSZ"
      using b'(4) length_show_nat[of n 10] tok by (simp add: BUFSZ_def)
    moreover have "reads_to data fin st (b' @ t)"
      unfolding reads_to_def
      by (intro disjI2 disjI1 exI[of _ "(sp', n, c) # ts'"] exI[of _ extra])
        (use b' ts tok ok' st fold in auto)
    ultimately show ?thesis using b'(1) by (auto simp: round_ok_def)
  next
    case False
    let ?k = "length (sp @ show_nat n)"
    have "take ?k b = sp @ show_nat n" "drop ?k b @ t = c # header ts' (data @ extra)"
      using arg_cong[OF s, of "take ?k"] arg_cong[OF s, of "drop ?k"] False by auto
    moreover have "drop ?k b \<noteq> []" using False by simp
    ultimately obtain r where "b = (sp @ show_nat n) @ c # r" "header ts' (data @ extra) = r @ t"
      by (metis Cons_eq_append_conv append_take_drop_id)
    then have r: "b = sp @ show_nat n @ c # r" "header ts' (data @ extra) = r @ t" by simp_all
    let ?st = "take_number st (int n)"
    have next_state: "p_state ?st = p_state st + 1" using keep(1) by (rule take_number_next)
    have tok_step: "scan_token al st b = rbind (alloc_image al ?st) (\<lambda>st. Ok (Token st r))"
      unfolding r(1) by (rule scan_number_whole[OF st(1) less4 keep(2) tok])
    show ?thesis
    proof (cases "ts' = []")
      case True
      then have "?st = fin" using fold ts by simp
      moreover have "in_data (int (length data)) data (fin\<lparr>p_null := False\<rparr>) (r @ t)"
        using fin r(2) True
        by (auto simp: in_data_def header_done_def image_bytes_def intro!: exI[of _ extra])
      ultimately show ?thesis
        using alloc_image_done[OF fin] fin next_state
        by (auto simp: round_ok_def tok_step reads_to_def header_done_def)
    next
      case False
      then have "p_state ?st \<noteq> 4" using st(2) next_state ts by (cases ts') auto
      then have "alloc_image al ?st = Ok ?st" by (simp add: alloc_image_def)
      moreover have "reads_to data fin ?st (r @ t)"
        unfolding reads_to_def
        by (intro disjI2 disjI1 exI[of _ ts'] exI[of _ extra])
          (use r False ts ok' st next_state fold in auto)
      ultimately show ?thesis using next_state less4 by (auto simp: round_ok_def tok_step)
    qed
  qed
qed

lemma round_magic:
  assumes split: "b @ t = CHR ''P'' # d # c # header ts (data @ extra)"
    and d: "magic pnm_init d = Some st1" and c: "is_c_space c" and ts: "length ts = 3" "list_all token_ok ts"
    and fold: "foldl take_number (st1\<lparr>p_state := 1\<rparr>) (numbers ts) = fin"
  shows "round_ok data fin t pnm_init (scan_token al pnm_init b)"
proof -
  have sk: "scan_token al pnm_init b = Ok (scan_magic pnm_init b)"
    by (simp add: scan_token_def skip_header_space_def skip_comment_def pnm_init_def)
  have hash: "c \<noteq> CHR ''#''" using c by (auto simp: is_c_space_def)
  show ?thesis
  proof (cases "length b < 3")
    case True
    have "t \<noteq> []" using arg_cong[OF split, of length] True by auto
    moreover have "reads_to data fin pnm_init (b @ t)"
      unfolding reads_to_def split using d c ts fold by blast
    ultimately show ?thesis using True sk by (simp add: round_ok_def scan_magic_def BUFSZ_def)
  next
    case False
    then obtain r where r: "b = CHR ''P'' # d # c # r" "r @ t = header ts (data @ extra)"
      using split by (cases b; cases "tl b"; cases "tl (tl b)") auto
    have "p_comment st1 = False" using d by (auto simp: magic_def pnm_init_def split: if_split_asm)
    then have "scan_magic pnm_init b = Token (st1\<lparr>p_state := 1\<rparr>) r"
      using r(1) d c hash by (simp add: scan_magic_def)
    moreover have "reads_to data fin (st1\<lparr>p_state := 1\<rparr>) (r @ t)"
      unfolding reads_to_def
      by (intro disjI2 disjI1 exI[of _ ts] exI[of _ extra]) (use r ts fold in auto)
    ultimately show ?thesis using sk by (auto simp: round_ok_def pnm_init_def)
  qed
qed

lemma round_data:
  assumes inv: "in_data (int (length data)) data st (b @ t)" and st: "st = fin\<lparr>p_null := False, p_image := p_image st\<rparr>"
  shows "round_ok data fin t st (scan_token al st b)"
proof -
  have tok: "scan_token al st b = read_image (int (length data)) st b"
    using inv by (simp add: scan_token_def skip_header_space_def skip_comment_def in_data_def)
  consider "read_image (int (length data)) st b = Ok (Read_Finish (st\<lparr>p_image := data\<rparr>))"
    | st' b' where "read_image (int (length data)) st b = Ok (More_Data st' b')"
      "in_data (int (length data)) data st' (b' @ t)" "length b' < 2" "t \<noteq> []" "st' = st\<lparr>p_image := p_image st'\<rparr>"
    using read_image_binary[OF inv] by auto
  then show ?thesis
  proof cases
    case 1
    have "st\<lparr>p_image := data\<rparr> = fin\<lparr>p_null := False, p_image := data\<rparr>" by (subst st) simp
    then show ?thesis using 1 tok by (simp add: round_ok_def)
  next
    case 2
    have "st' = fin\<lparr>p_null := False, p_image := p_image st'\<rparr>"
      by (subst 2(5), subst st) simp
    then show ?thesis using 2 tok by (auto simp: round_ok_def reads_to_def BUFSZ_def)
  qed
qed

lemma round_always_ok:
  assumes fin: "header_done al data fin" and "reads_to data fin st (b @ t)"
  shows "round_ok data fin t st (scan_token al st b)"
  using assms(2) unfolding reads_to_def
proof (elim disjE exE conjE)
  fix d c ts extra st1
  assume "st = pnm_init" and a: "b @ t = CHR ''P'' # d # c # header ts (data @ extra)"
    "magic pnm_init d = Some st1" "is_c_space c" "length ts = 3" "list_all token_ok ts"
    "foldl take_number (st1\<lparr>p_state := 1\<rparr>) (numbers ts) = fin"
  then show ?thesis using round_magic[OF a] by simp
next
  fix ts extra
  assume a: "b @ t = header ts (data @ extra)" and ts: "ts \<noteq> []" "0 < p_state st" "p_state st + length ts = 4"
    "list_all token_ok ts" "foldl take_number st (numbers ts) = fin"
  show ?thesis by (rule round_header[OF fin ts(2,3,1,4,5) a])
qed (rule round_data)

lemma scan_buffer_ok:
  assumes "header_done al data fin" "reads_to data fin st (b @ t)"
  shows "scan_buffer al st b = Ok (Read_Finish (fin\<lparr>p_null := False, p_image := data\<rparr>)) \<or>
    (\<exists>st' b'. scan_buffer al st b = Ok (More_Data st' b') \<and> reads_to data fin st' (b' @ t) \<and>
      length b' < BUFSZ \<and> t \<noteq> [])"
  using assms(2)
proof (induction "4 - p_state st" arbitrary: st b rule: less_induct)
  case less
  from round_always_ok[OF assms(1) less.prems] show ?case
    unfolding round_ok_def
  proof (elim disjE exE conjE)
    fix st' b' assume tok: "scan_token al st b = Ok (Token st' b')" "reads_to data fin st' (b' @ t)"
      "p_state st < p_state st'" "p_state st' \<le> 4"
    then have "4 - p_state st' < 4 - p_state st" by simp
    moreover have "scan_buffer al st b = scan_buffer al st' b'"
      using tok(1) by (subst scan_buffer.simps) simp
    ultimately show ?thesis using less.hyps tok(2) by simp
  qed (subst scan_buffer.simps; simp)+
qed

lemma read_pnm_ok:
  assumes "header_done al data fin" "reads_to data fin st (buf @ inp)" "length buf < BUFSZ" "inp \<noteq> []"
  shows "read_pnm al sched st buf inp = Ok (fin\<lparr>p_null := False, p_image := data\<rparr>)"
  using assms(2-4)
proof (induction "length inp" arbitrary: st buf inp rule: less_induct)
  case less
  define n where "n = read_size sched buf inp"
  have n: "0 < n" "n \<le> length inp" using less.prems(2,3) by (auto simp: n_def read_size_def)
  have "reads_to data fin st ((buf @ take n inp) @ drop n inp)" using less.prems(1) by simp
  from scan_buffer_ok[OF assms(1) this] show ?case
  proof (elim disjE exE conjE)
    assume "scan_buffer al st (buf @ take n inp) = Ok (Read_Finish (fin\<lparr>p_null := False, p_image := data\<rparr>))"
    then show ?thesis
      using n(1) by (subst read_pnm.simps) (simp add: n_def[symmetric] Let_def)
  next
    fix st' b' assume more: "scan_buffer al st (buf @ take n inp) = Ok (More_Data st' b')"
      "reads_to data fin st' (b' @ drop n inp)" "length b' < BUFSZ" "drop n inp \<noteq> []"
    then have "read_pnm al sched st' b' (drop n inp) = Ok (fin\<lparr>p_null := False, p_image := data\<rparr>)"
      using n by (intro less.hyps) auto
    then show ?thesis
      using n(1) more(1) by (subst read_pnm.simps) (simp add: n_def[symmetric] Let_def)
  qed
qed

section \<open>Properties of the reader\<close>

lemma long_to_int_small: "n < 2 ^ 31 \<Longrightarrow> long_to_int (int n) = int n"
  by (simp add: long_to_int_def signed_of_nat signed_take_bit_int_eq_self)

lemma header_done_binary:
  assumes "(d, ch) \<in> {(CHR ''5'', 1), (CHR ''6'', 3)}" "w < 2 ^ 31" "h < 2 ^ 31" "m < 2 ^ 31" "0 < w" "0 < h"
    and size: "length data = w * h * ch * sample_size (int m)" "length data < 2 ^ 31"
    and "fits (int m) data" "al (length data)"
  shows "\<exists>st1. magic pnm_init d = Some st1 \<and>
    header_done al data (foldl take_number (st1\<lparr>p_state := 1\<rparr>) [int w, int h, int m]) \<and>
    foldl take_number (st1\<lparr>p_state := 1\<rparr>) [int w, int h, int m] = pnm_init\<lparr>p_state := 4, p_width := int w,
      p_height := int h, p_maxval := int m, p_channels := int ch\<rparr>"
proof -
  let ?fin = "pnm_init\<lparr>p_state := 4, p_width := int w, p_height := int h, p_maxval := int m, p_channels := int ch\<rparr>"
  obtain st1 where st1: "magic pnm_init d = Some st1" "st1 = pnm_init\<lparr>p_channels := int ch\<rparr>"
    using assms(1) by (auto simp: magic_def pnm_init_def)
  have fold: "foldl take_number (st1\<lparr>p_state := 1\<rparr>) [int w, int h, int m] = ?fin"
    using assms(2-4) st1(2) by (simp add: take_number_def Let_def long_to_int_small pnm_init_def)
  have ch: "1 \<le> ch" using assms(1) by auto
  have z: "1 \<le> sample_size (int m)" by (simp add: sample_size_def)
  have "w * h * 1 \<le> w * h * ch" "w * h * ch * 1 \<le> length data"
    using ch z unfolding size(1) by (intro mult_le_mono2; simp)+
  then have le: "w * h < 2 ^ 31" "w * h * ch < 2 ^ 31" using size(2) by linarith+
  have "image_bytes ?fin = Ok (int (length data))"
    using le size by (cases "m \<le> 255")
      (simp_all add: image_bytes_def c_int_def sample_size_def pnm_init_def ac_simps flip: of_nat_mult)
  then have "header_done al data ?fin"
    using assms(9,10) by (simp add: header_done_def pnm_init_def)
  then show ?thesis using st1(1) fold by auto
qed

lemma pnm_reads_file:
  assumes "(d, ch) \<in> {(CHR ''5'', 1), (CHR ''6'', 3)}" "is_c_space c"
    and "list_all token_ok [(sp1, w, c1), (sp2, h, c2), (sp3, m, c3)]"
    and "length data = w * h * ch * sample_size (int m)" "length data < 2 ^ 31"
    and "fits (int m) data" "al (length data)"
  shows "read_pnm al sched pnm_init []
      (CHR ''P'' # d # c # header [(sp1, w, c1), (sp2, h, c2), (sp3, m, c3)] (data @ extra)) =
    Ok (pnm_init\<lparr>p_state := 4, p_width := int w, p_height := int h, p_maxval := int m,
      p_channels := int ch, p_null := False, p_image := data\<rparr>)"
proof -
  let ?ts = "[(sp1, w, c1), (sp2, h, c2), (sp3, m, c3)]"
  let ?fin = "pnm_init\<lparr>p_state := 4, p_width := int w, p_height := int h, p_maxval := int m, p_channels := int ch\<rparr>"
  have "w < 2 ^ 31" "h < 2 ^ 31" "m < 2 ^ 31" "0 < w" "0 < h" using assms(3) by simp_all
  from header_done_binary[of d ch w h m data al, OF assms(1) this assms(4-7)] obtain st1
    where st1: "magic pnm_init d = Some st1" "header_done al data ?fin"
      "foldl take_number (st1\<lparr>p_state := 1\<rparr>) (numbers ?ts) = ?fin"
    by (elim exE conjE) (simp only: list.map prod.case)
  have "reads_to data ?fin pnm_init ([] @ CHR ''P'' # d # c # header ?ts (data @ extra))"
    unfolding reads_to_def
    by (intro disjI1 exI[of _ d] exI[of _ c] exI[of _ ?ts] exI[of _ extra] exI[of _ st1])
      (use st1 assms(2,3) in simp)
  from read_pnm_ok[OF st1(2) this] show ?thesis by (simp add: BUFSZ_def)
qed

text \<open>
  A well-formed binary file (P5 or P6, without comments, with any white space between
  the numbers of its header) is read correctly, whatever the sizes of the single reads: the
  width, the height and the largest value are those of the header, and the image is the data
  behind it. Bytes behind the image are ignored.
\<close>

theorem pnm_reads_binary:
  assumes "(d, ch) \<in> {(CHR ''5'', 1), (CHR ''6'', 3)}" "is_c_space c"
    and "list_all token_ok [(sp1, w, c1), (sp2, h, c2), (sp3, m, c3)]"
    and "length data = w * h * ch * sample_size (int m)" "length data < 2 ^ 31"
    and "fits (int m) data" "al (length data)"
  shows "read_pnm al sched pnm_init []
      (CHR ''P'' # d # c # header [(sp1, w, c1), (sp2, h, c2), (sp3, m, c3)] (data @ extra)) =
    Ok (pnm_init\<lparr>p_state := 4, p_width := int w, p_height := int h, p_maxval := int m,
      p_channels := int ch, p_null := False, p_image := data\<rparr>)"
  using assms by (intro pnm_reads_file)

theorem pnm_reads_binary_witness:
  "read_pnm plenty (\<lambda>n. 1) pnm_init [] (''P5 2 1 255 '' @ [CHR 0x07, CHR 0xFF]) =
    Ok (pnm_init\<lparr>p_state := 4, p_width := 2, p_height := 1, p_maxval := 255,
      p_channels := 1, p_null := False, p_image := [CHR 0x07, CHR 0xFF]\<rparr>)"
proof -
  have shown: "show_nat 2 = ''2''" "show_nat (Suc 0) = ''1''" "show_nat 255 = ''255''" by code_simp+
  show ?thesis
    using pnm_reads_binary[of "CHR ''5''" 1 SPC "[]" 2 SPC "[]" 1 SPC "[]" 255 SPC
        "[CHR 0x07, CHR 0xFF]" plenty "\<lambda>n. 1" "[]"] fits_255[of "[CHR 0x07, CHR 0xFF]"]
    by (simp add: shown is_c_space_def sample_size_def)
qed

text \<open>
  Files the reader does not read. Two comment lines one after the other; a text file
  whose first read ends right behind the header, although the next one brings the samples;
  and a text file without a newline at its end. A comment whose newline is the first byte of
  a read swallows the line behind it, here the width and the height.
\<close>

theorem pnm_rejects_valid:
  "read_pnm plenty (\<lambda>n. n) pnm_init [] (''P2'' @ [NL] @ ''#a'' @ [NL] @ ''#b'' @ [NL] @ ''1 1 9 5'' @ [NL]) =
     Err (Exit_Status 1) \<and>
   map_sum id p_image (read_pnm plenty (\<lambda>n. n) pnm_init [] (''P2 1 1 9 5'' @ [NL])) = Ok [CHR 0x05] \<and>
   read_pnm plenty (\<lambda>n. if n = 11 then 9 else n) pnm_init [] (''P2 1 1 9 5'' @ [NL]) = Err (Exit_Status 1) \<and>
   read_pnm plenty (\<lambda>n. n) pnm_init [] ''P2 1 1 9 5'' = Err (Exit_Status 1) \<and>
   map_sum id p_image (read_pnm plenty (\<lambda>n. n) pnm_init []
     (''P5'' @ [NL] @ ''#a'' @ [NL] @ ''2 1'' @ [NL] @ ''255'' @ [NL] @ ''XY'')) = Ok ''XY'' \<and>
   read_pnm plenty (\<lambda>n. if n = 16 then 5 else n) pnm_init []
     (''P5'' @ [NL] @ ''#a'' @ [NL] @ ''2 1'' @ [NL] @ ''255'' @ [NL] @ ''XY'') = Err (Exit_Status 1)"
proof (intro conjI)
  show "read_pnm plenty (\<lambda>n. n) pnm_init [] (''P2'' @ [NL] @ ''#a'' @ [NL] @ ''#b'' @ [NL] @ ''1 1 9 5'' @ [NL]) =
     Err (Exit_Status 1)" by code_simp
  show "map_sum id p_image (read_pnm plenty (\<lambda>n. n) pnm_init [] (''P2 1 1 9 5'' @ [NL])) = Ok [CHR 0x05]"
    by code_simp
  show "read_pnm plenty (\<lambda>n. if n = 11 then 9 else n) pnm_init [] (''P2 1 1 9 5'' @ [NL]) = Err (Exit_Status 1)"
    by code_simp
  show "read_pnm plenty (\<lambda>n. n) pnm_init [] ''P2 1 1 9 5'' = Err (Exit_Status 1)" by code_simp
  show "map_sum id p_image (read_pnm plenty (\<lambda>n. n) pnm_init []
     (''P5'' @ [NL] @ ''#a'' @ [NL] @ ''2 1'' @ [NL] @ ''255'' @ [NL] @ ''XY'')) = Ok ''XY''" by code_simp
  show "read_pnm plenty (\<lambda>n. if n = 16 then 5 else n) pnm_init []
     (''P5'' @ [NL] @ ''#a'' @ [NL] @ ''2 1'' @ [NL] @ ''255'' @ [NL] @ ''XY'') = Err (Exit_Status 1)" by code_simp
qed

end
