(* ===== verification/Pnm_Main.thy ===== *)
theory Pnm_Main
  imports Pnm_Read_Props
begin

text \<open>
  \<open>main\<close> of \<open>lab8\<close>: the arguments, the reader, the threads, and the output file with its
  header and its samples, as bytes or as text.
\<close>

section \<open>Output\<close>

definition show_int :: "int \<Rightarrow> string" where
  "show_int v = (if v < 0 then CHR ''-'' # show_nat (nat (- v)) else show_nat (nat v))"

text \<open>
  The header: \<open>sprintf\<close> into \<open>char header[32]\<close>. The format digit is \<open>1\<close> to \<open>3\<close> for text and
  three more for bytes; a bitmap (P4) becomes a greymap (P5), with the \<open>maxval\<close> of 1 it had
  from the start.
\<close>

definition pnm_header :: "pnm \<Rightarrow> string result" where
  "pnm_header st =
     (let binary = (p_binary st \<or> p_bit st);
          hasmaxval = (p_hasmaxval st \<or> p_bit st);
          d = (if binary then 3 else 0) + (if \<not> hasmaxval then 1 else if p_channels st = 1 then 2 else 3) :: nat;
          s = CHR ''P'' # char_of (48 + d) # NL # show_int (p_width st) @ SPC # show_int (p_height st) @
            (if hasmaxval then SPC # show_int (p_maxval st) else []) @ [NL]
      in if length s < 32 then Ok s else Err Undef_Behaviour)"

text \<open>
  The text output: \<open>buffered\<close> is the content of \<open>buffer[4096]\<close>, \<open>written\<close> what \<open>writeall\<close>
  has been given so far.
\<close>

function text_loop :: "int \<Rightarrow> string \<Rightarrow> nat \<Rightarrow> string \<Rightarrow> nat \<Rightarrow> string \<Rightarrow> string result" where
  "text_loop maxval out i buffered column written =
     (if \<not> i < length out then Ok (written @ buffered)
      else rbind (load out i) (\<lambda>a.
        rbind (if maxval \<le> 255 then Ok (uchar a, i + 1)
               else rbind (load out (i + 1)) (\<lambda>b. Ok (push_bit 8 (uchar a) OR uchar b, i + 2))) (\<lambda>(val, j).
          let nl = (column > 160 \<or> j = length out);
              tok = show_int val @ [if nl then NL else SPC];
              buf = buffered @ tok;
              col = (if nl then 0 else column + length tok)
          in if 4096 \<le> length buf then Err Undef_Behaviour
             else if i < j then
               if length buf > 4000 then text_loop maxval out j [] col (written @ buf)
               else text_loop maxval out j buf col written
             else Err Nonterm)))"
  by pat_completeness auto
termination
  by (relation "measure (\<lambda>(maxval, out, i, _). length out - i)") auto

declare text_loop.simps [simp del]

definition pnm_output :: "pnm \<Rightarrow> string \<Rightarrow> string result" where
  "pnm_output st out =
     rbind (pnm_header st) (\<lambda>hd.
       if p_binary st \<or> p_bit st then Ok (hd @ out)
       else rbind (text_loop (p_maxval st) out 0 [] 0 []) (\<lambda>body. Ok (hd @ body)))"

section \<open>The main function\<close>

definition parse_threads :: "string \<Rightarrow> int option" where
  "parse_threads str = (case parse_int_at str of
     Some (v, []) \<Rightarrow> Some v
   | _ \<Rightarrow> None)"

text \<open>
  \<open>infile\<close> is the content of the input file, \<open>None\<close> if it cannot be opened, and \<open>can_write\<close>
  whether the output file can. \<open>sched\<close> cuts the reads, \<open>pick\<close> is the order in which the
  threads' writes happen, \<open>garbage\<close> the content of the block that \<open>malloc\<close> gives for the output
  image. The result is the content of the output file.
\<close>

record environment =
  infile :: "string option"
  can_write :: bool
  alloc :: allocator
  sched :: "nat \<Rightarrow> nat"
  pick :: "writes list \<Rightarrow> writes"
  garbage :: "nat \<Rightarrow> string"

definition pnm_main :: "environment \<Rightarrow> string list \<Rightarrow> string result" where
  "pnm_main env argv =
     (if length argv \<noteq> 5 then Err (Exit_Status 2)
      else (case (parse_threads (argv ! 1), parse_partype (argv ! 2)) of
          (Some threads, Some meth) \<Rightarrow>
            if threads < 1 then Err (Exit_Status 2)
            else (case infile env of
                None \<Rightarrow> Err (Exit_Status 1)
              | Some inp \<Rightarrow>
                  if \<not> can_write env then Err (Exit_Status 1)
                  else rbind (read_pnm (alloc env) (sched env) pnm_init [] inp) (\<lambda>st.
                    rbind (spawn_workers meth (p_image st) (p_width st) (p_maxval st) threads) (\<lambda>wss.
                      pnm_output st (run_writes (pick env wss) (garbage env (length (p_image st)))))))
        | _ \<Rightarrow> Err (Exit_Status 2)))"

text \<open>An environment whose files and blocks are there, with any order of reads and writes.\<close>

definition fair_environment :: "environment \<Rightarrow> bool" where
  "fair_environment env \<longleftrightarrow> can_write env \<and> (\<forall>wss. interleaving wss (pick env wss)) \<and>
     (\<forall>n. length (garbage env n) = n)"

section \<open>The program turns an image into its negative\<close>

lemma parse_threads_show:
  assumes "0 < n" "n < 2 ^ 31" shows "parse_threads (show_nat n) = Some (int n)"
proof -
  have "digits_value 0 (show_nat n) \<le> LONG_MAX"
    using assms by (simp add: digits_show_nat LONG_MAX_def)
  then show ?thesis
    using parse_digits[of "show_nat n" "[]"] show_nat_nonempty[of n] show_nat_digits[of n]
    by (simp add: parse_threads_def digits_show_nat)
qed

lemma header_out:
  assumes "(d, ch) \<in> {(CHR ''5'', 1), (CHR ''6'', 3)}" and "w < 2 ^ 31" "h < 2 ^ 31" "m < 65536"
  shows "pnm_header (pnm_init\<lparr>p_state := 4, p_width := int w, p_height := int h, p_maxval := int m,
      p_channels := int ch, p_null := False, p_image := data\<rparr>) =
    Ok (CHR ''P'' # d # NL # show_nat w @ SPC # show_nat h @ SPC # show_nat m @ [NL])"
proof -
  have "length (show_nat w) \<le> 10" "length (show_nat h) \<le> 10" "length (show_nat m) \<le> 5"
    using assms(2-4) by (auto intro!: length_show_nat)
  moreover have "char_of (53 :: nat) = CHR ''5''" "char_of (54 :: nat) = CHR ''6''" by code_simp+
  ultimately show ?thesis
    using assms(1) by (auto simp: pnm_header_def Let_def pnm_init_def show_int_def)
qed

text \<open>
  C5: the whole program on a binary image. Given a well-formed P5 or P6 file without comments in its
  header, any number of threads, and the method by value, or by block if there is one byte per sample
  (\<open>pnm_block_two_bytes\<close> shows why), the output file is a
  file of the same format with the same size and the same largest value, and every sample
  \<open>v\<close> of the image is \<open>maxval - v\<close> in it; whatever the sizes of the reads, the order in
  which the threads write and the content of fresh memory.
\<close>

theorem pnm_main_negative:
  assumes "fair_environment env" "alloc env (length data)"
    and "infile env = Some (CHR ''P'' # d # c # header [(sp1, w, c1), (sp2, h, c2), (sp3, m, c3)] (data @ extra))"
    and "(d, ch) \<in> {(CHR ''5'', 1), (CHR ''6'', 3)}" "is_c_space c"
    and "list_all token_ok [(sp1, w, c1), (sp2, h, c2), (sp3, m, c3)]"
    and "length data = w * h * ch * sample_size (int m)" "length data < 2 ^ 31" "fits (int m) data"
    and "0 < t" "t < 2 ^ 31" "meth = ''num'' \<or> meth = ''blk'' \<and> m \<le> 255"
  shows "pnm_main env [prog, show_nat t, meth, inname, outname] =
    Ok (CHR ''P'' # d # NL # show_nat w @ SPC # show_nat h @ SPC # show_nat m @ [NL] @ negative (int m) data)"
proof -
  let ?st = "pnm_init\<lparr>p_state := 4, p_width := int w, p_height := int h, p_maxval := int m,
      p_channels := int ch, p_null := False, p_image := data\<rparr>"
  have read: "read_pnm (alloc env) (sched env) pnm_init [] (the (infile env)) = Ok ?st"
    using pnm_reads_file[OF assms(4-9), of "alloc env" "sched env" extra] assms(2,3) by simp
  obtain k where k: "parse_partype meth = Some k" "k = NUMBERS \<or> m \<le> 255"
    using assms(12) by auto
  have "int w dvd int (length data)" using assms(7) by simp
  then obtain wss where wss: "spawn_workers k data (int w) (int m) (int t) = Ok wss"
    "\<And>ws out. interleaving wss ws \<Longrightarrow> length out = length data \<Longrightarrow> run_writes ws out = negative (int m) data"
    using workers_negate[OF assms(9), of "int t" k "int w"] assms(6,10,11) k(2) by auto
  have out: "run_writes (pick env wss) (garbage env (length data)) = negative (int m) data"
    using wss(2) assms(1) by (simp add: fair_environment_def)
  have "m < 65536" using assms(9) by (simp add: fits_def)
  with assms(6) have hd: "pnm_header ?st = Ok (CHR ''P'' # d # NL # show_nat w @ SPC # show_nat h @ SPC # show_nat m @ [NL])"
    using header_out[OF assms(4)] by simp
  have "pnm_output ?st (negative (int m) data) =
      Ok (CHR ''P'' # d # NL # show_nat w @ SPC # show_nat h @ SPC # show_nat m @ [NL] @ negative (int m) data)"
    unfolding pnm_output_def hd by (simp add: pnm_init_def)
  then show ?thesis
    using read assms(1,3) parse_threads_show[OF assms(10,11)] assms(10) k(1) wss(1) out
    by (simp add: pnm_main_def fair_environment_def del: parse_partype.simps)
qed

theorem pnm_main_negative_witness:
  "pnm_main \<lparr>infile = Some (''P5 2 1 255 '' @ [CHR 0x07, CHR 0xFF]), can_write = True, alloc = plenty,
     sched = (\<lambda>n. 3), pick = concat, garbage = (\<lambda>n. replicate n CHR ''x'')\<rparr> [''pnm'', ''3'', ''blk'', ''in'', ''out''] =
   Ok (''P5'' @ NL # ''2 1 255'' @ NL # [CHR 0xF8, CHR 0x00])"
proof -
  let ?env = "\<lparr>infile = Some (''P5 2 1 255 '' @ [CHR 0x07, CHR 0xFF]), can_write = True, alloc = plenty,
     sched = (\<lambda>n. 3), pick = concat, garbage = (\<lambda>n. replicate n CHR ''x'')\<rparr>"
  have shown: "show_nat 2 = ''2''" "show_nat (Suc 0) = ''1''" "show_nat 255 = ''255''" "show_nat 3 = ''3''"
    by code_simp+
  have "fair_environment ?env" by (simp add: fair_environment_def interleaving_concat)
  moreover have "negative 255 [CHR 0x07, CHR 0xFF] = [CHR 0xF8, CHR 0x00]" by code_simp
  ultimately show ?thesis
    using pnm_main_negative[of ?env "[CHR 0x07, CHR 0xFF]" "CHR ''5''" SPC "[]" 2 SPC "[]" 1 SPC "[]" 255 SPC
        "[]" 1 3 "''blk''" "''pnm''" "''in''" "''out''"] fits_255[of "[CHR 0x07, CHR 0xFF]"]
    by (simp add: shown is_c_space_def sample_size_def)
qed

text \<open>
  A black-and-white bitmap in the binary format (P4) goes wrong. The bits of a byte are
  taken from the wrong end, and as 1 is black in a bitmap but white in the greymap that is
  written, black stays black: eight pixels of which the first is black become eight pixels of
  which the last is black.
\<close>

theorem pnm_bitmap_not_negated:
  "pnm_main \<lparr>infile = Some (''P4'' @ NL # ''8 1'' @ NL # [CHR 0x80]), can_write = True, alloc = plenty,
     sched = (\<lambda>n. n), pick = concat, garbage = (\<lambda>n. replicate n CHR ''x'')\<rparr> [''pnm'', ''1'', ''num'', ''in'', ''out''] =
   Ok (''P5'' @ NL # ''8 1 1'' @ NL # [CHR 0x01, CHR 0x01, CHR 0x01, CHR 0x01, CHR 0x01, CHR 0x01, CHR 0x01, CHR 0x00])"
  by code_simp

end
