(* ===== verification/Pnm_Text.thy ===== *)
theory Pnm_Text
  imports Pnm_Main
begin

text \<open>
  The text formats of \<open>lab8\<close>: a file that the program writes as text is read back by the
  program, wherever the reads cut it, if only the first \<open>read\<close> goes beyond the header
  (\<open>pnm_rejects_valid\<close> shows what happens when it ends with the header).
\<close>

section \<open>What is written\<close>

text \<open>The text of the samples from the \<open>k\<close>-th on, with a white-space byte behind each.\<close>

definition sample_text :: "int \<Rightarrow> string \<Rightarrow> (nat \<Rightarrow> char) \<Rightarrow> nat \<Rightarrow> string" where
  "sample_text maxval img sep k = concat (map (\<lambda>j. show_nat (nat (sample maxval img j)) @ [sep j])
     [k..<length img div sample_size maxval])"

lemma sample_text_step:
  "k < length img div sample_size maxval \<Longrightarrow> sample_text maxval img sep k =
    show_nat (nat (sample maxval img k)) @ sep k # sample_text maxval img sep (Suc k)"
  by (simp add: sample_text_def upt_conv_Cons)

lemma sample_text_end: "sample_text maxval img sep (length img div sample_size maxval) = []"
  by (simp add: sample_text_def)

lemma text_loop_sample:
  assumes fits: "fits maxval img" and k: "k < length img div sample_size maxval"
  shows "\<exists>c col. is_c_space c \<and> text_loop maxval img (sample_size maxval * k) buffered column written =
    (let buf = buffered @ show_nat (nat (sample maxval img k)) @ [c]
     in if 4096 \<le> length buf then Err Undef_Behaviour
        else if length buf > 4000 then text_loop maxval img (sample_size maxval * Suc k) [] col (written @ buf)
        else text_loop maxval img (sample_size maxval * Suc k) buf col written)"
proof -
  define nl where "nl \<longleftrightarrow> 160 < column \<or> sample_size maxval * Suc k = length img"
  let ?c = "if nl then NL else SPC"
  have "sample_size maxval * Suc k \<le> length img"
    using assms by (auto simp: fits_def dvd_def sample_size_def split: if_splits)
  then have "sample_size maxval * k < length img" "maxval > 255 \<Longrightarrow> Suc (2 * k) < length img"
    by (auto simp: sample_size_def split: if_splits)
  moreover have "show_int (sample maxval img k) = show_nat (nat (sample maxval img k))"
    using sample_range[of maxval img k] by (simp add: show_int_def)
  moreover have "is_c_space ?c" by (simp add: is_c_space_def)
  ultimately show ?thesis
    using uchar_range join_bytes
    by (intro exI[of _ ?c] exI[of _ "if nl then 0 else column + length (show_nat (nat (sample maxval img k)) @ [?c])"])
      (subst text_loop.simps, cases "maxval \<le> 255",
        auto simp: load_def nl_def Let_def sample_def sample_size_def algebra_simps)
qed

lemma text_loop_all:
  assumes fits: "fits maxval img" and "k \<le> length img div sample_size maxval" "length buffered \<le> 4000"
  shows "\<exists>sep. (\<forall>j. is_c_space (sep j)) \<and>
    text_loop maxval img (sample_size maxval * k) buffered column written =
      Ok (written @ buffered @ sample_text maxval img sep k)"
  using assms(2,3)
proof (induction "length img div sample_size maxval - k" arbitrary: k buffered column written)
  case 0
  then have k: "k = length img div sample_size maxval" by simp
  then have "\<not> sample_size maxval * k < length img" using fits by (simp add: fits_def)
  then show ?case
    using sample_text_end[of maxval img] k by (subst text_loop.simps) (auto intro!: exI[of _ "\<lambda>_. SPC"] simp: is_c_space_def)
next
  case (Suc d)
  then have k: "k < length img div sample_size maxval" and d: "d = length img div sample_size maxval - Suc k"
    by simp_all
  let ?v = "show_nat (nat (sample maxval img k))"
  from text_loop_sample[OF fits k, of buffered column written] obtain c col where c: "is_c_space c"
    and step: "text_loop maxval img (sample_size maxval * k) buffered column written =
      (let buf = buffered @ ?v @ [c]
       in if 4096 \<le> length buf then Err Undef_Behaviour
          else if length buf > 4000 then text_loop maxval img (sample_size maxval * Suc k) [] col (written @ buf)
          else text_loop maxval img (sample_size maxval * Suc k) buf col written)" by blast
  have "sample maxval img k \<le> maxval" "maxval < 65536" using fits k by (simp_all add: fits_def)
  then have "length ?v \<le> 5" by (intro length_show_nat) auto
  then have small: "\<not> 4096 \<le> length (buffered @ ?v @ [c])" using Suc.prems(2) by simp
  have glue: "written @ buffered @ sample_text maxval img (sep(k := c)) k =
      written @ (buffered @ ?v @ [c]) @ sample_text maxval img sep (Suc k)" for sep
  proof -
    have "sample_text maxval img (sep(k := c)) (Suc k) = sample_text maxval img sep (Suc k)"
      by (auto simp: sample_text_def intro!: arg_cong[of _ _ concat])
    then show ?thesis using sample_text_step[OF k, of "sep(k := c)"] by simp
  qed
  show ?case
  proof (cases "length (buffered @ ?v @ [c]) > 4000")
    case True
    from Suc.hyps(1)[OF d, of "[]" col "written @ buffered @ ?v @ [c]"] k obtain sep where
      "\<forall>j. is_c_space (sep j)" "text_loop maxval img (sample_size maxval * Suc k) [] col
        (written @ buffered @ ?v @ [c]) = Ok ((written @ buffered @ ?v @ [c]) @ sample_text maxval img sep (Suc k))"
      by auto
    then show ?thesis
      using step small True c glue by (intro exI[of _ "sep(k := c)"]) (simp add: Let_def)
  next
    case False
    from Suc.hyps(1)[OF d, of "buffered @ ?v @ [c]" col written] k False obtain sep where
      "\<forall>j. is_c_space (sep j)" "text_loop maxval img (sample_size maxval * Suc k) (buffered @ ?v @ [c]) col
        written = Ok (written @ (buffered @ ?v @ [c]) @ sample_text maxval img sep (Suc k))"
      by auto
    then show ?thesis
      using step small False c glue by (intro exI[of _ "sep(k := c)"]) (simp add: Let_def)
  qed
qed

section \<open>One sample\<close>

text \<open>The reader takes such a text sample by sample.\<close>

lemma read_sample_text:
  assumes "\<not> p_binary st" "\<not> p_bit st" "pre = [] \<or> pre = [c]" "is_c_space c" "is_c_space c'" "0 \<le> v" "v < 65536"
  shows "read_sample st (pre @ show_nat (nat v) @ c' # s) = Sample v (c' # s)"
proof -
  obtain e es where e: "show_nat (nat v) = e # es" "digit_value e \<noteq> None" by (rule show_nat_head)
  then have "\<not> is_c_space e" using digit_not_space[of e] by simp
  then have skip: "skip_text_space (pre @ show_nat (nat v) @ c' # s) = Inr (show_nat (nat v) @ c' # s)"
    using assms(3,4) e by auto
  have "digits_value 0 (show_nat (nat v)) \<le> LONG_MAX"
    using assms(6,7) by (simp add: digits_show_nat LONG_MAX_def)
  then have "parse_int_at (show_nat (nat v) @ c' # s) = Some (v, c' # s)"
    using parse_digits[of "show_nat (nat v)" "c' # s"] show_nat_nonempty show_nat_digits
      space_not_digit[OF assms(5)] assms(6) by (simp add: digits_show_nat)
  then show ?thesis
    using assms(1,2,6) skip show_nat_nonempty by (simp add: read_sample_def)
qed

text \<open>A part of the text: the buffer has the sample with the byte behind it, or the reader waits for more.\<close>

lemma digits_part:
  assumes "b \<noteq> []" "b @ t = show_nat v @ u" "length b \<le> length (show_nat v)" "v < 65536"
  shows "parse_int_at b = Some (digits_value 0 b, []) \<and> \<not> is_c_space (hd b)"
proof -
  have b: "show_nat v = b @ drop (length b) (show_nat v)"
    using assms(2,3) by (metis append_eq_append_conv_if append_take_drop_id)
  then have ds: "\<forall>c \<in> set b. digit_value c \<noteq> None" using show_nat_digits[of v] by (metis Un_iff set_append)
  have "digits_value 0 (show_nat v) = digits_value (digits_value 0 b) (drop (length b) (show_nat v))"
    using digits_value_append[OF ds] b by metis
  then have "digits_value 0 b \<le> int v"
    using digits_value_ge[of "digits_value 0 b" "drop (length b) (show_nat v)"] digits_value_ge[of 0 b]
    by (simp add: digits_show_nat)
  then have "digits_value 0 b \<le> LONG_MAX" using assms(4) by (simp add: LONG_MAX_def)
  then show ?thesis
    using parse_digits[OF assms(1) ds, of "[]"] assms(1) ds digit_not_space[of "hd b"] by (cases b) simp_all
qed

lemma read_sample_part:
  assumes st: "\<not> p_binary st" "\<not> p_bit st" and split: "b @ t = pre @ show_nat v @ c' # s" and "b \<noteq> []"
    and pre: "pre = [] \<or> pre = [c]" "is_c_space c" and c': "is_c_space c'" and v: "v < 65536"
  obtains (whole) b2 where "b2 @ t = s" "read_sample st b = Sample (int v) (c' # b2)"
  | (part) b' where "read_sample st b = Sample_More b'" "b' @ t = show_nat v @ c' # s" "length b' \<le> 5" "t \<noteq> []"
proof (cases "length b \<le> length pre + length (show_nat v)")
  case True
  obtain b' where b': "b = pre @ b'" "b' @ t = show_nat v @ c' # s"
    using split pre(1) \<open>b \<noteq> []\<close> by (cases b) auto
  have len: "length b' \<le> length (show_nat v)" using True b'(1) by simp
  have "length (show_nat v) \<le> 5" using v by (intro length_show_nat) auto
  moreover have "read_sample st b = Sample_More b'"
  proof (cases "b' = []")
    case True
    then show ?thesis using b'(1) pre \<open>b \<noteq> []\<close> st by (auto simp: read_sample_def)
  next
    case False
    from digits_part[OF False b'(2) len v] have d: "parse_int_at b' = Some (digits_value 0 b', [])"
      "\<not> is_c_space (hd b')" by simp_all
    then have "skip_text_space b' = Inr b'" using False by (cases b') simp_all
    then show ?thesis using b'(1) pre st d by (auto simp: read_sample_def)
  qed
  moreover have "t \<noteq> []" using arg_cong[OF split, of length] True by auto
  ultimately show thesis using part b'(2) len by auto
next
  case False
  let ?w = "pre @ show_nat v"
  have "b @ t = ?w @ c' # s" using split by simp
  then obtain us where us: "b = ?w @ us \<and> us @ t = c' # s \<or> ?w = b @ us"
    unfolding append_eq_append_conv2 by metis
  moreover have "?w \<noteq> b @ us" using False by (metis le_add1 length_append)
  ultimately obtain b2 where b: "b = pre @ show_nat v @ c' # b2" "b2 @ t = s"
    using False by (cases us) auto
  have "read_sample st (pre @ show_nat (nat (int v)) @ c' # b2) = Sample (int v) (c' # b2)"
    by (rule read_sample_text[OF st pre c']) (use v in simp_all)
  then show thesis using whole b by simp
qed

section \<open>The image\<close>

text \<open>What is still to be read, \<open>s\<close>, is the text of the samples behind those that have been stored.\<close>

definition in_text :: "string \<Rightarrow> (nat \<Rightarrow> char) \<Rightarrow> pnm \<Rightarrow> string \<Rightarrow> bool" where
  "in_text img sep st s \<longleftrightarrow> fits (p_maxval st) img \<and> \<not> p_binary st \<and> \<not> p_bit st \<and> \<not> p_null st \<and>
     (\<exists>k pre c. k \<le> length img div sample_size (p_maxval st) \<and> (pre = [] \<or> pre = [c]) \<and> is_c_space c \<and>
       s = pre @ sample_text (p_maxval st) img sep k \<and> p_image st = take (sample_size (p_maxval st) * k) img)"

lemma store_next_sample:
  assumes "fits (p_maxval st) img" "\<not> p_null st" "k < length img div sample_size (p_maxval st)"
    and "p_image st = take (sample_size (p_maxval st) * k) img"
  shows "store_sample st (sample (p_maxval st) img k) =
    Ok (st\<lparr>p_image := take (sample_size (p_maxval st) * Suc k) img\<rparr>)"
    and "length (p_image st) < length img"
proof -
  let ?m = "p_maxval st" let ?z = "sample_size ?m"
  have n: "?z * (length img div ?z) = length img" using assms(1) by (simp add: fits_def)
  have "?z * Suc k \<le> ?z * (length img div ?z)" using assms(3) by (intro mult_le_mono2) simp
  then have le: "?z * k + ?z \<le> length img" using n by simp
  have z: "0 < ?z" by (simp add: sample_size_def)
  have "sample ?m (drop (?z * k) img) 0 = sample ?m img k"
    using le z by (auto simp: sample_def sample_size_def split: if_splits)
  moreover have "take (?z * k) img @ take ?z (drop (?z * k) img) = take (?z * Suc k) img"
    by (simp add: take_add[symmetric] add.commute)
  ultimately show "store_sample st (sample ?m img k) = Ok (st\<lparr>p_image := take (?z * Suc k) img\<rparr>)"
    using store_sample_binary[of st "drop (?z * k) img"] assms(2,4) le by simp
  show "length (p_image st) < length img" unfolding assms(4) using le z by simp
qed

lemma read_image_part:
  assumes "fits (p_maxval st) img" "\<not> p_binary st" "\<not> p_bit st" "\<not> p_null st" and sep: "\<forall>j. is_c_space (sep j)"
    and "k \<le> length img div sample_size (p_maxval st)" "pre = [] \<or> pre = [c]" "is_c_space c"
    and "p_image st = take (sample_size (p_maxval st) * k) img"
    and "b @ t = pre @ sample_text (p_maxval st) img sep k" "b \<noteq> []"
  shows "read_image (int (length img)) st b = Ok (Read_Finish (st\<lparr>p_image := img\<rparr>)) \<or>
    (\<exists>im b'. read_image (int (length img)) st b = Ok (More_Data (st\<lparr>p_image := im\<rparr>) b') \<and>
      in_text img sep (st\<lparr>p_image := im\<rparr>) (b' @ t) \<and> length b' \<le> 5 \<and> t \<noteq> [])"
  using assms(1-4,6-11)
proof (induction "length img div sample_size (p_maxval st) - k" arbitrary: k st pre c b)
  case 0
  then have "k = length img div sample_size (p_maxval st)" by simp
  then have "sample_size (p_maxval st) * k = length img" using "0.prems"(1) by (simp add: fits_def)
  then have "p_image st = img" using "0.prems"(8) by simp
  moreover from this have "st = st\<lparr>p_image := img\<rparr>" by simp
  ultimately show ?case by (subst read_image.simps) simp
next
  case (Suc d)
  let ?m = "p_maxval st" let ?v = "nat (sample ?m img k)" let ?lim = "int (length img)"
  let ?st = "st\<lparr>p_image := take (sample_size ?m * Suc k) img\<rparr>"
  have k: "k < length img div sample_size ?m" using Suc.hyps(2) by simp
  have v: "int ?v = sample ?m img k" "int ?v \<le> ?m" "?v < 65536"
    using Suc.prems(1) k sample_range[of ?m img k] by (fastforce simp: fits_def)+
  note store = store_next_sample[OF Suc.prems(1,4) k Suc.prems(8)]
  have split: "b @ t = pre @ show_nat ?v @ sep k # sample_text ?m img sep (Suc k)"
    using Suc.prems(9) sample_text_step[OF k] by simp
  have here: "read_image ?lim st b = (case read_sample st b of
      Sample_More s \<Rightarrow> Ok (More_Data st s) | Sample_Bad \<Rightarrow> Ok Bad_Format
    | Sample v s \<Rightarrow> if p_maxval st < v then Ok Bad_Format
        else (case store_sample st v of Inl e \<Rightarrow> Err e | Inr st \<Rightarrow> read_image ?lim st s))"
    using store(2) by (subst read_image.simps) simp
  show ?case
  proof (rule read_sample_part[OF Suc.prems(2,3) split Suc.prems(10,6,7) _ v(3)])
    show "is_c_space (sep k)" using sep by simp
  next
    fix b2 assume b2: "b2 @ t = sample_text ?m img sep (Suc k)" "read_sample st b = Sample (int ?v) (sep k # b2)"
    then have "read_image ?lim st b = read_image ?lim ?st (sep k # b2)" using here v(1,2) store(1) by simp
    moreover have "d = length img div sample_size (p_maxval ?st) - Suc k" using Suc.hyps(2) by simp
    ultimately show ?thesis
      using Suc.hyps(1)[of ?st "Suc k" "[sep k]" "sep k" "sep k # b2"] Suc.prems(1-4) b2(1) k sep by simp
  next
    fix b' assume b': "read_sample st b = Sample_More b'" "length b' \<le> 5" "t \<noteq> []"
      "b' @ t = show_nat ?v @ sep k # sample_text ?m img sep (Suc k)"
    have "in_text img sep st (b' @ t)"
      unfolding in_text_def using Suc.prems(1-4,8) b'(4) sample_text_step[OF k] sep k
      by (auto intro!: exI[of _ k] exI[of _ "[]"] exI[of _ "sep k"])
    then show ?thesis using here b'(1-3) by (auto intro!: exI[of _ "p_image st"])
  qed
qed

section \<open>The reads\<close>

lemma scan_buffer_image:
  assumes "p_state st = 4" "\<not> p_comment st" "image_bytes st = Ok lim"
  shows "scan_buffer al st b = read_image lim st b"
proof -
  have "scan_token al st b = read_image lim st b"
    using assms by (simp add: scan_token_def skip_header_space_def skip_comment_def)
  then show ?thesis
    using read_image_no_token[of lim st b] by (subst scan_buffer.simps) (auto split: sum.split scan_result.split)
qed

text \<open>The read that has brought the bytes \<open>b\<close>, and the loop after it.\<close>

definition read_on :: "allocator \<Rightarrow> (nat \<Rightarrow> nat) \<Rightarrow> pnm \<Rightarrow> string \<Rightarrow> string \<Rightarrow> pnm result" where
  "read_on al chunk st b inp = (case scan_buffer al st b of
     Inl e \<Rightarrow> Err e
   | Inr (More_Data st buf) \<Rightarrow> read_pnm al chunk st buf inp
   | Inr (Read_Finish st) \<Rightarrow> Ok st
   | Inr _ \<Rightarrow> Err (Exit_Status 1))"

lemma read_pnm_on: "0 < read_size chunk buf inp \<Longrightarrow> read_pnm al chunk st buf inp =
    read_on al chunk st (buf @ take (read_size chunk buf inp) inp) (drop (read_size chunk buf inp) inp)"
  by (subst read_pnm.simps) (simp add: Let_def read_on_def)

lemma read_on_text:
  assumes "in_text img sep st (b @ inp)" "\<forall>j. is_c_space (sep j)" "b \<noteq> []"
    and "p_state st = 4" "\<not> p_comment st" "image_bytes st = Ok (int (length img))"
  shows "read_on al chunk st b inp = Ok (st\<lparr>p_image := img\<rparr>)"
  using assms(1,3-6)
proof (induction "length inp" arbitrary: st b inp rule: less_induct)
  case less
  from less.prems(1) obtain k pre c where t: "fits (p_maxval st) img" "\<not> p_binary st" "\<not> p_bit st" "\<not> p_null st"
    "k \<le> length img div sample_size (p_maxval st)" "pre = [] \<or> pre = [c]" "is_c_space c"
    "p_image st = take (sample_size (p_maxval st) * k) img" "b @ inp = pre @ sample_text (p_maxval st) img sep k"
    unfolding in_text_def by metis
  from read_image_part[OF t(1-4) assms(2) t(5-9) less.prems(2)] show ?case
  proof (elim disjE exE conjE)
    assume "read_image (int (length img)) st b = Ok (Read_Finish (st\<lparr>p_image := img\<rparr>))"
    then show ?thesis using scan_buffer_image[OF less.prems(3-5)] by (simp add: read_on_def)
  next
    fix im b' assume more: "read_image (int (length img)) st b = Ok (More_Data (st\<lparr>p_image := im\<rparr>) b')"
      "in_text img sep (st\<lparr>p_image := im\<rparr>) (b' @ inp)" "length b' \<le> 5" "inp \<noteq> []"
    let ?st = "st\<lparr>p_image := im\<rparr>" let ?n = "read_size chunk b' inp"
    have n: "0 < ?n" "?n \<le> length inp" using more(3,4) by (auto simp: read_size_def BUFSZ_def)
    have "image_bytes ?st = Ok (int (length img))" using less.prems(5) by (simp add: image_bytes_def)
    then have "read_on al chunk ?st (b' @ take ?n inp) (drop ?n inp) = Ok (?st\<lparr>p_image := img\<rparr>)"
      using more(2,4) n less.prems(3,4) by (intro less.hyps) auto
    then show ?thesis
      using scan_buffer_image[OF less.prems(3-5)] more(1) read_pnm_on[OF n(1), of al ?st] by (simp add: read_on_def)
  qed
qed

section \<open>The header\<close>

text \<open>The state that belongs to an image in one of the text formats.\<close>

definition text_state :: "bool \<Rightarrow> nat \<Rightarrow> nat \<Rightarrow> nat \<Rightarrow> nat \<Rightarrow> pnm" where
  "text_state hasmax ch w h m = pnm_init\<lparr>p_state := 4, p_width := int w, p_height := int h, p_maxval := int m,
     p_binary := False, p_hasmaxval := hasmax, p_channels := int ch, p_null := False\<rparr>"

definition text_format :: "bool \<Rightarrow> nat \<Rightarrow> nat \<Rightarrow> bool" where
  "text_format hasmax ch m \<longleftrightarrow> (if hasmax then ch = 1 \<or> ch = 3 else ch = 1 \<and> m = 1)"

definition text_header :: "bool \<Rightarrow> nat \<Rightarrow> nat \<Rightarrow> nat \<Rightarrow> nat \<Rightarrow> string" where
  "text_header hasmax ch w h m = CHR ''P'' # (if \<not> hasmax then CHR ''1'' else if ch = 1 then CHR ''2'' else CHR ''3'') #
     NL # show_nat w @ SPC # show_nat h @ (if hasmax then SPC # show_nat m else []) @ [NL]"

lemma pnm_header_text:
  assumes "text_format hasmax ch m" "w < 2 ^ 31" "h < 2 ^ 31" "m < 65536"
  shows "pnm_header (text_state hasmax ch w h m\<lparr>p_image := im\<rparr>) = Ok (text_header hasmax ch w h m)"
    and "length (text_header hasmax ch w h m) < 32"
proof -
  have len: "length (show_nat w) \<le> 10" "length (show_nat h) \<le> 10" "length (show_nat m) \<le> 5"
    using assms(2-4) by (auto intro!: length_show_nat)
  have "char_of (49 :: nat) = CHR ''1''" "char_of (50 :: nat) = CHR ''2''" "char_of (51 :: nat) = CHR ''3''"
    by code_simp+
  with len show "pnm_header (text_state hasmax ch w h m\<lparr>p_image := im\<rparr>) = Ok (text_header hasmax ch w h m)"
    using assms(1) by (auto simp: pnm_header_def Let_def text_state_def pnm_init_def show_int_def text_header_def
        text_format_def split: if_split_asm)
  show "length (text_header hasmax ch w h m) < 32" using len by (simp add: text_header_def)
qed

lemma image_bytes_text:
  assumes "length img = w * h * ch * sample_size (int m)" "length img < 2 ^ 31" "1 \<le> ch"
  shows "image_bytes (text_state hasmax ch w h m) = Ok (int (length img))"
proof -
  have "1 \<le> sample_size (int m)" by (simp add: sample_size_def)
  then have "w * h * 1 \<le> w * h * ch" "w * h * ch * 1 \<le> length img"
    using assms(3) unfolding assms(1) by (intro mult_le_mono2; simp)+
  then have "w * h < 2 ^ 31" "w * h * ch < 2 ^ 31" using assms(2) by linarith+
  then show ?thesis
    using assms(1,2) by (cases "m \<le> 255")
      (simp_all add: image_bytes_def c_int_def sample_size_def text_state_def pnm_init_def ac_simps flip: of_nat_mult)
qed

lemma scan_number_next:
  assumes "0 < p_state st" "p_state st < 4" "\<not> p_comment st" "is_c_space c" "0 < n" "n < 2 ^ 31"
  shows "scan_buffer al st (show_nat n @ c # r) =
    rbind (alloc_image al (take_number st (int n))) (\<lambda>st. scan_buffer al st r)"
proof -
  have "scan_token al st ([] @ show_nat n @ c # r) =
      rbind (alloc_image al (take_number st (int n))) (\<lambda>st. Ok (Token st r))"
    using assms by (intro scan_number_whole) simp_all
  then show ?thesis by (subst scan_buffer.simps) (auto simp: rbind_def split: sum.split)
qed

lemma scan_magic_text:
  assumes "d = (if \<not> hasmax then CHR ''1'' else if ch = 1 then CHR ''2'' else CHR ''3'')" "text_format hasmax ch m"
  shows "scan_buffer al pnm_init (CHR ''P'' # d # NL # r) = scan_buffer al
    (pnm_init\<lparr>p_state := 1, p_binary := False, p_hasmaxval := hasmax, p_channels := int ch\<rparr>) r"
proof -
  let ?st = "pnm_init\<lparr>p_state := 1, p_binary := False, p_hasmaxval := hasmax, p_channels := int ch\<rparr>"
  have "scan_token al pnm_init (CHR ''P'' # d # NL # r) = Ok (scan_magic pnm_init (CHR ''P'' # d # NL # r))"
    by (simp add: scan_token_def skip_header_space_def skip_comment_def pnm_init_def)
  also have "scan_magic pnm_init (CHR ''P'' # d # NL # r) = Token ?st r"
    using assms by (auto simp: scan_magic_def magic_def pnm_init_def text_format_def is_c_space_def)
  finally show ?thesis by (subst scan_buffer.simps) simp
qed

lemma alloc_text:
  assumes "image_bytes (text_state hasmax ch w h m) = Ok (int n)" "n < 2 ^ 31" "al n"
  shows "alloc_image al (text_state hasmax ch w h m\<lparr>p_null := True\<rparr>) = Ok (text_state hasmax ch w h m)"
proof -
  have "image_bytes (text_state hasmax ch w h m\<lparr>p_null := True\<rparr>) = Ok (int n)"
    using assms(1) by (simp add: image_bytes_def)
  moreover have "nat (int n mod 2 ^ 64) = n" using assms(2) by simp
  ultimately show ?thesis using assms(3) by (simp add: alloc_image_def text_state_def)
qed

lemma scan_text_header:
  assumes "text_format hasmax ch m" "0 < w" "w < 2 ^ 31" "0 < h" "h < 2 ^ 31" "0 < m" "m < 65536"
    and "length img = w * h * ch * sample_size (int m)" "length img < 2 ^ 31" "al (length img)"
  shows "scan_buffer al pnm_init (text_header hasmax ch w h m @ u) = scan_buffer al (text_state hasmax ch w h m) u"
proof -
  let ?d = "if \<not> hasmax then CHR ''1'' else if ch = 1 then CHR ''2'' else CHR ''3''"
  let ?st1 = "pnm_init\<lparr>p_state := 1, p_binary := False, p_hasmaxval := hasmax, p_channels := int ch\<rparr>"
  let ?st2 = "?st1\<lparr>p_width := int w, p_state := 2\<rparr>"
  let ?fin = "text_state hasmax ch w h m\<lparr>p_null := True\<rparr>"
  have space: "is_c_space NL" "is_c_space SPC" by (simp_all add: is_c_space_def)
  have "1 \<le> ch" using assms(1) by (auto simp: text_format_def split: if_split_asm)
  then have al: "alloc_image al ?fin = Ok (text_state hasmax ch w h m)"
    by (intro alloc_text[OF image_bytes_text[OF assms(8,9)]]) (use assms in simp_all)
  have one: "scan_buffer al pnm_init (CHR ''P'' # ?d # NL # r) = scan_buffer al ?st1 r" for r
    by (rule scan_magic_text[OF refl assms(1)])
  have "take_number ?st1 (int w) = ?st2" "alloc_image al ?st2 = Ok ?st2"
    using assms(3) by (simp_all add: take_number_def Let_def long_to_int_small alloc_image_def pnm_init_def)
  then have two: "scan_buffer al ?st1 (show_nat w @ SPC # r) = scan_buffer al ?st2 r" for r
    using scan_number_next[of ?st1 SPC w al r] assms(2,3) space by (simp add: pnm_init_def)
  show ?thesis
  proof (cases hasmax)
    case True
    let ?st3 = "?st2\<lparr>p_height := int h, p_state := 3\<rparr>"
    have "take_number ?st2 (int h) = ?st3" "alloc_image al ?st3 = Ok ?st3" "take_number ?st3 (int m) = ?fin"
      using assms(5,7) True
      by (simp_all add: take_number_def Let_def long_to_int_small alloc_image_def pnm_init_def text_state_def)
    then have "scan_buffer al ?st2 (show_nat h @ SPC # r) = scan_buffer al ?st3 r"
      "scan_buffer al ?st3 (show_nat m @ NL # u) = scan_buffer al (text_state hasmax ch w h m) u" for r
      using scan_number_next[of ?st2 SPC h al r] scan_number_next[of ?st3 NL m al u] assms(4-7) space al
      by (simp_all add: pnm_init_def)
    then show ?thesis using one two True by (simp add: text_header_def)
  next
    case False
    then have "take_number ?st2 (int h) = ?fin"
      using assms(1,5) by (simp add: take_number_def Let_def long_to_int_small pnm_init_def text_state_def text_format_def)
    then have "scan_buffer al ?st2 (show_nat h @ NL # u) = scan_buffer al (text_state hasmax ch w h m) u"
      using scan_number_next[of ?st2 NL h al u] assms(4,5) space al by (simp add: pnm_init_def)
    then show ?thesis using one two False by (simp add: text_header_def)
  qed
qed

section \<open>Properties\<close>

text \<open>
  C30: The program reads back what it writes: the file it writes for an image in one of the text formats
  (P1 with the largest value 1, P2 and P3), header and samples, is written without leaving the
  buffers, and its reader makes of it the same size, largest value and image, whatever the sizes of the
  reads, if only the first one goes beyond the header (which has fewer than 32 bytes).
\<close>

theorem pnm_text_roundtrip:
  assumes "text_format hasmax ch m" "0 < w" "w < 2 ^ 31" "0 < h" "h < 2 ^ 31" "0 < m" "fits (int m) img"
    and "length img = w * h * ch * sample_size (int m)" "length img < 2 ^ 31" "al (length img)"
  shows "\<exists>hd body. pnm_header (text_state hasmax ch w h m\<lparr>p_image := old\<rparr>) = Ok hd \<and> length hd < 32 \<and>
    pnm_output (text_state hasmax ch w h m\<lparr>p_image := old\<rparr>) img = Ok (hd @ body) \<and>
    (\<forall>chunk. length hd < chunk (length (hd @ body)) \<longrightarrow>
      read_pnm al chunk pnm_init [] (hd @ body) = Ok (text_state hasmax ch w h m\<lparr>p_image := img\<rparr>))"
proof -
  let ?st = "text_state hasmax ch w h m" and ?hd = "text_header hasmax ch w h m"
  have m: "m < 65536" using assms(7) by (simp add: fits_def)
  have ch: "1 \<le> ch" using assms(1) by (auto simp: text_format_def split: if_split_asm)
  note hd = pnm_header_text[OF assms(1,3,5) m]
  obtain sep where sep: "\<forall>j. is_c_space (sep j)"
    "text_loop (int m) img 0 [] 0 [] = Ok (sample_text (int m) img sep 0)"
    using text_loop_all[OF assms(7), of 0 "[]" 0 "[]"] by auto
  let ?body = "sample_text (int m) img sep 0"
  have out: "pnm_output (?st\<lparr>p_image := old\<rparr>) img = Ok (?hd @ ?body)"
    unfolding pnm_output_def hd(1) using sep(2) by (simp add: text_state_def pnm_init_def)
  have "0 < length img div sample_size (int m)" using assms(2,4,8) ch by (auto simp: sample_size_def)
  then have body: "?body \<noteq> []" using sample_text_step[of 0 img "int m" sep] by simp
  have "read_pnm al chunk pnm_init [] (?hd @ ?body) = Ok (?st\<lparr>p_image := img\<rparr>)"
    if first: "length ?hd < chunk (length (?hd @ ?body))" for chunk
  proof -
    let ?n = "read_size chunk [] (?hd @ ?body)"
    have n: "length ?hd < ?n" using first hd(2) body by (simp add: read_size_def BUFSZ_def)
    then have split: "take ?n (?hd @ ?body) = ?hd @ take (?n - length ?hd) ?body"
      "drop ?n (?hd @ ?body) = drop (?n - length ?hd) ?body" by simp_all
    have "in_text img sep ?st ?body"
      unfolding in_text_def using assms(7) sep(1)
      by (auto simp: text_state_def pnm_init_def intro!: exI[of _ 0] exI[of _ "[]"] exI[of _ "sep 0"])
    then have "in_text img sep ?st (take (?n - length ?hd) ?body @ drop (?n - length ?hd) ?body)" by simp
    then have "read_on al chunk ?st (take (?n - length ?hd) ?body) (drop (?n - length ?hd) ?body) = Ok (?st\<lparr>p_image := img\<rparr>)"
      using n body image_bytes_text[OF assms(8,9) ch]
      by (intro read_on_text[OF _ sep(1)]) (simp_all add: text_state_def pnm_init_def)
    then show ?thesis
      using read_pnm_on[of chunk "[]" "?hd @ ?body" al pnm_init] n split
        scan_text_header[of hasmax ch m w h img al, OF assms(1-6) m assms(8-10)] by (simp add: read_on_def)
  qed
  then show ?thesis using hd out by blast
qed

theorem pnm_text_roundtrip_witness:
  "\<exists>f. pnm_output (text_state True 1 2 1 255) [CHR 0x07, CHR 0xFF] = Ok f \<and>
    f = ''P2'' @ [NL] @ ''2 1 255'' @ [NL] @ ''7 255'' @ [NL] \<and>
    read_pnm plenty (\<lambda>n. if n < 17 then 1 else 12) pnm_init [] f =
      Ok (text_state True 1 2 1 255\<lparr>p_image := [CHR 0x07, CHR 0xFF]\<rparr>)"
proof -
  let ?img = "[CHR 0x07, CHR 0xFF]" and ?st = "text_state True 1 2 1 255"
  let ?file = "''P2'' @ [NL] @ ''2 1 255'' @ [NL] @ ''7 255'' @ [NL]"
  have written: "pnm_output (?st\<lparr>p_image := []\<rparr>) ?img = Ok ?file"
    "pnm_header (?st\<lparr>p_image := []\<rparr>) = Ok (''P2'' @ [NL] @ ''2 1 255'' @ [NL])" by code_simp+
  have out: "pnm_output ?st ?img = Ok ?file" by code_simp
  have size: "0 < (2::nat)" "(2::nat) < 2 ^ 31" "0 < (1::nat)" "(1::nat) < 2 ^ 31" "0 < (255::nat)" "length ?img < 2 ^ 31"
    "length ?img = 2 * 1 * 1 * sample_size (int 255)" "text_format True 1 255" "plenty (length ?img)"
    by (simp_all add: sample_size_def text_format_def)
  obtain body where "Ok ?file = Ok ((''P2'' @ [NL] @ ''2 1 255'' @ [NL]) @ body)"
    and read: "\<And>chunk. length (''P2'' @ [NL] @ ''2 1 255'' @ [NL]) < chunk (length ?file) \<Longrightarrow>
      read_pnm plenty chunk pnm_init [] ?file = Ok (?st\<lparr>p_image := ?img\<rparr>)"
    using pnm_text_roundtrip[of True 1 255 2 1 ?img plenty "[]", OF size(8,1,2,3,4,5) _ size(7,6,9)]
      fits_255[of ?img] unfolding written by auto
  show ?thesis using out read[of "\<lambda>n. if n < 17 then 1 else 12"] by simp
qed

end
