(* ===== verification/Pnm_Join.thy ===== *)
theory Pnm_Join
  imports Pnm_Main
begin

text \<open>
  How \<open>main\<close> of \<open>lab8\<close> runs the threads: it makes a context and a thread for each share, joins
  them in order, frees each context when its thread has ended and the input image when
  all have. The threads run from their creation on, at the same time as \<open>main\<close>; a thread is the list of
  writes it still has to do (\<open>spawn_workers\<close>) and its return, of its own step, until which it may
  still read the image and its context. An \<open>exit\<close> ends all threads.
\<close>

section \<open>Main and the threads\<close>

datatype join_pc = Creating nat | Joining nat | Writing | Ended error

text \<open>\<open>j_left\<close>, \<open>j_ret\<close> and \<open>j_ctx\<close> belong to the threads created so far; \<open>j_ctx\<close> and \<open>j_image\<close> tell which blocks are allocated, \<open>j_ret\<close> which threads have returned.\<close>

record join_run =
  j_pc :: join_pc
  j_left :: "writes list"
  j_ret :: "bool list"
  j_ctx :: "bool list"
  j_image :: bool
  j_out :: string

definition join_start :: "string \<Rightarrow> join_run" where
  "join_start out = \<lparr>j_pc = Creating 0, j_left = [], j_ret = [], j_ctx = [], j_image = True, j_out = out\<rparr>"

text \<open>
  A statement of \<open>main\<close>: \<open>mem i\<close> and \<open>can i\<close> say whether \<open>malloc\<close> and \<open>pthread_create\<close> succeed for
  thread \<open>i\<close>. The result of \<open>malloc\<close> is not checked.
\<close>

definition join_main :: "(nat \<Rightarrow> bool) \<Rightarrow> (nat \<Rightarrow> bool) \<Rightarrow> writes list \<Rightarrow> join_run \<Rightarrow> join_run option" where
  "join_main mem can wss s = (case j_pc s of
     Creating i \<Rightarrow>
       if length wss \<le> i then Some (s\<lparr>j_pc := Joining 0\<rparr>)
       else if \<not> mem i then Some (s\<lparr>j_pc := Ended Undef_Behaviour\<rparr>)
       else if \<not> can i then Some (s\<lparr>j_pc := Ended (Exit_Status 1)\<rparr>)
       else Some (s\<lparr>j_pc := Creating (i + 1), j_left := j_left s @ [wss ! i],
         j_ret := j_ret s @ [False], j_ctx := j_ctx s @ [True]\<rparr>)
   | Joining i \<Rightarrow>
       if length wss \<le> i then Some (s\<lparr>j_pc := Writing, j_image := False\<rparr>)
       else if j_ret s ! i then Some (s\<lparr>j_pc := Joining (i + 1), j_ctx := (j_ctx s)[i := False]\<rparr>)
       else None
   | _ \<Rightarrow> None)"

inductive join_step :: "(nat \<Rightarrow> bool) \<Rightarrow> (nat \<Rightarrow> bool) \<Rightarrow> writes list \<Rightarrow> join_run \<Rightarrow> join_run \<Rightarrow> bool"
  for mem can wss where
  main_moves: "join_main mem can wss s = Some t \<Longrightarrow> join_step mem can wss s t"
| thread_moves: "i < length (j_left s) \<Longrightarrow> j_left s ! i = w # ws \<Longrightarrow> (\<forall>x. j_pc s \<noteq> Ended x) \<Longrightarrow>
    join_step mem can wss s (s\<lparr>j_left := (j_left s)[i := ws], j_out := run_writes [w] (j_out s)\<rparr>)"
| thread_returns: "i < length (j_left s) \<Longrightarrow> j_left s ! i = [] \<Longrightarrow> \<not> j_ret s ! i \<Longrightarrow>
    (\<forall>x. j_pc s \<noteq> Ended x) \<Longrightarrow> join_step mem can wss s (s\<lparr>j_ret := (j_ret s)[i := True]\<rparr>)"

section \<open>The invariant\<close>

text \<open>Which threads there are, which of them have ended, and which blocks are allocated.\<close>

definition pc_ok :: "nat \<Rightarrow> join_run \<Rightarrow> bool" where
  "pc_ok n s \<longleftrightarrow> (case j_pc s of
     Creating i \<Rightarrow> length (j_left s) = i \<and> i \<le> n \<and> (\<forall>k < i. j_ctx s ! k) \<and> j_image s
   | Joining i \<Rightarrow> length (j_left s) = n \<and> i \<le> n \<and> (\<forall>k < i. j_ret s ! k \<and> \<not> j_ctx s ! k) \<and>
       (\<forall>k < n. i \<le> k \<longrightarrow> j_ctx s ! k) \<and> j_image s
   | Writing \<Rightarrow> length (j_left s) = n \<and> (\<forall>k < n. j_ret s ! k \<and> \<not> j_ctx s ! k) \<and> \<not> j_image s
   | Ended x \<Rightarrow> length (j_left s) \<le> n \<and> (\<forall>k < length (j_left s). j_ctx s ! k) \<and> j_image s)"

definition left_of :: "writes list \<Rightarrow> join_run \<Rightarrow> nat \<Rightarrow> writes" where
  "left_of wss s i = (if i < length (j_left s) then j_left s ! i else wss ! i)"

text \<open>\<open>dones\<close> are the writes that the threads have done, in the order \<open>ys\<close>.\<close>

definition did :: "writes list \<Rightarrow> string \<Rightarrow> join_run \<Rightarrow> bool" where
  "did wss out s \<longleftrightarrow> (\<exists>dones ys. length dones = length wss \<and> interleaving dones ys \<and>
     j_out s = run_writes ys out \<and> (\<forall>i < length wss. wss ! i = dones ! i @ left_of wss s i))"

text \<open>The lists agree about which threads there are, and who has returned has done all writes.\<close>

definition lists_ok :: "nat \<Rightarrow> join_run \<Rightarrow> bool" where
  "lists_ok n s \<longleftrightarrow> length (j_ctx s) = length (j_left s) \<and> length (j_ret s) = length (j_left s) \<and>
     (\<forall>k < length (j_left s). j_ret s ! k \<longrightarrow> j_left s ! k = []) \<and> length (j_left s) \<le> n"

definition join_inv :: "writes list \<Rightarrow> string \<Rightarrow> join_run \<Rightarrow> bool" where
  "join_inv wss out s \<longleftrightarrow> pc_ok (length wss) s \<and> lists_ok (length wss) s \<and> did wss out s"

lemma join_start_inv: "join_inv wss out (join_start out)"
proof -
  have "did wss out (join_start out)"
    unfolding did_def
    by (intro exI [of _ "replicate (length wss) []"] exI [of _ "[]"])
      (auto simp: join_start_def left_of_def run_writes_def intro: interleaving.finished)
  then show ?thesis by (simp add: join_inv_def join_start_def pc_ok_def lists_ok_def)
qed

lemma did_cong: "did wss out s \<Longrightarrow> (\<And>i. left_of wss t i = left_of wss s i) \<Longrightarrow> j_out t = j_out s \<Longrightarrow> did wss out t"
  by (simp add: did_def)

lemma run_writes_snoc: "run_writes (ys @ [w]) out = run_writes [w] (run_writes ys out)"
  by (simp add: run_writes_def)

lemma join_main_create:
  assumes "join_inv wss out s" "j_pc s = Creating i" "i < length wss"
    and t: "t = s\<lparr>j_pc := Creating (i + 1), j_left := j_left s @ [wss ! i], j_ret := j_ret s @ [False],
      j_ctx := j_ctx s @ [True]\<rparr>"
  shows "join_inv wss out t"
proof -
  have len: "length (j_left s) = i" "length (j_ctx s) = i" "length (j_ret s) = i"
    and ctx: "\<forall>k < i. j_ctx s ! k" "j_image s"
    using assms(1,2) by (simp_all add: join_inv_def lists_ok_def pc_ok_def)
  have "did wss out t"
    by (rule did_cong [of wss out s])
      (use assms(1) len in \<open>simp_all add: join_inv_def t left_of_def nth_append less_Suc_eq\<close>)
  moreover have "pc_ok (length wss) t"
    using len ctx assms(3) by (simp add: pc_ok_def t nth_append less_Suc_eq)
  moreover have "lists_ok (length wss) t"
    using assms(1,3) len by (simp add: join_inv_def lists_ok_def t nth_append less_Suc_eq)
  ultimately show ?thesis by (simp add: join_inv_def)
qed

text \<open>A statement that leaves threads and output alone.\<close>

lemma join_main_keeps:
  assumes "join_inv wss out s" "pc_ok (length wss) t" "j_left t = j_left s" "j_ret t = j_ret s"
    and "length (j_ctx t) = length (j_ctx s)" "j_out t = j_out s"
  shows "join_inv wss out t"
proof -
  have "did wss out t"
    by (rule did_cong [of wss out s]) (use assms in \<open>simp_all add: join_inv_def left_of_def\<close>)
  then show ?thesis using assms by (simp add: join_inv_def lists_ok_def)
qed

lemma join_main_inv:
  assumes "join_inv wss out s" "join_main mem can wss s = Some t"
  shows "join_inv wss out t"
proof (cases "j_pc s")
  case (Creating i)
  have pc: "pc_ok (length wss) s" using assms(1) by (simp add: join_inv_def)
  consider "i < length wss" "t = s\<lparr>j_pc := Creating (i + 1), j_left := j_left s @ [wss ! i],
      j_ret := j_ret s @ [False], j_ctx := j_ctx s @ [True]\<rparr>"
    | "length wss \<le> i" "t = s\<lparr>j_pc := Joining 0\<rparr>" | x where "t = s\<lparr>j_pc := Ended x\<rparr>"
    using assms(2) Creating by (fastforce simp: join_main_def split: if_split_asm)
  then show ?thesis
  proof cases
    case 1
    show ?thesis by (rule join_main_create [OF assms(1) Creating 1])
  next
    case 2
    then have "pc_ok (length wss) t" using pc Creating by (simp add: pc_ok_def)
    then show ?thesis using 2 by (intro join_main_keeps [OF assms(1)]) simp_all
  next
    case 3
    then have "pc_ok (length wss) t" using pc Creating by (simp add: pc_ok_def)
    then show ?thesis using 3 by (intro join_main_keeps [OF assms(1)]) simp_all
  qed
next
  case (Joining i)
  have pc: "pc_ok (length wss) s" and "length (j_ctx s) = length (j_left s)"
    using assms(1) by (simp_all add: join_inv_def lists_ok_def)
  then have len: "length (j_ctx s) = length wss" using Joining by (simp add: pc_ok_def)
  consider "length wss \<le> i" "t = s\<lparr>j_pc := Writing, j_image := False\<rparr>"
    | "i < length wss" "j_ret s ! i" "t = s\<lparr>j_pc := Joining (i + 1), j_ctx := (j_ctx s)[i := False]\<rparr>"
    using assms(2) Joining by (fastforce simp: join_main_def split: if_split_asm)
  then show ?thesis
  proof cases
    case 1
    then have "pc_ok (length wss) t" using pc Joining by (simp add: pc_ok_def)
    then show ?thesis using 1 by (intro join_main_keeps [OF assms(1)]) simp_all
  next
    case 2
    then have "pc_ok (length wss) t"
      using pc Joining len by (simp add: pc_ok_def nth_list_update less_Suc_eq)
    then show ?thesis using 2 by (intro join_main_keeps [OF assms(1)]) simp_all
  qed
qed (use assms(2) in \<open>simp_all add: join_main_def\<close>)

lemma join_thread_inv:
  assumes "join_inv wss out s" "i < length (j_left s)" "j_left s ! i = w # ws" "\<forall>x. j_pc s \<noteq> Ended x"
  shows "join_inv wss out (s\<lparr>j_left := (j_left s)[i := ws], j_out := run_writes [w] (j_out s)\<rparr>)"
    (is "join_inv wss out ?t")
proof -
  obtain dones ys where d: "length dones = length wss" "interleaving dones ys" "j_out s = run_writes ys out"
      "\<forall>i < length wss. wss ! i = dones ! i @ left_of wss s i"
    using assms(1) unfolding join_inv_def did_def by blast
  have len: "length (j_left s) \<le> length wss" using assms(1) by (simp add: join_inv_def lists_ok_def)
  then have i: "i < length dones" using assms(2) d(1) by simp
  let ?dones = "dones[i := dones ! i @ [w]]"
  have "wss ! k = ?dones ! k @ left_of wss ?t k" if k: "k < length wss" for k
    using d(4) k i assms(2,3) by (cases "k = i") (auto simp: left_of_def)
  moreover have "interleaving ?dones (ys @ [w])" using d(2) i by (rule interleaving_snoc)
  moreover have "pc_ok (length wss) ?t"
    using assms by (cases "j_pc s") (simp_all add: join_inv_def pc_ok_def)
  moreover have "j_out ?t = run_writes (ys @ [w]) out" using d(3) by (simp add: run_writes_snoc)
  moreover have "length ?dones = length wss" using d(1) by simp
  ultimately have "did wss out ?t" unfolding did_def by blast
  moreover have "\<not> j_ret s ! i" using assms(1-3) by (auto simp: join_inv_def lists_ok_def)
  then have "lists_ok (length wss) ?t"
    using assms(1) by (auto simp: join_inv_def lists_ok_def) (metis nth_list_update_neq)
  ultimately show ?thesis using \<open>pc_ok (length wss) ?t\<close> by (simp add: join_inv_def)
qed

lemma join_return_inv:
  assumes "join_inv wss out s" "i < length (j_left s)" "j_left s ! i = []" "\<forall>x. j_pc s \<noteq> Ended x"
  shows "join_inv wss out (s\<lparr>j_ret := (j_ret s)[i := True]\<rparr>)" (is "join_inv wss out ?t")
proof -
  have "did wss out ?t" by (rule did_cong [of wss out s]) (use assms(1) in \<open>simp_all add: join_inv_def left_of_def\<close>)
  moreover have "pc_ok (length wss) ?t"
    using assms by (auto simp: join_inv_def lists_ok_def pc_ok_def nth_list_update split: join_pc.split)
  moreover have "lists_ok (length wss) ?t"
    using assms(1,3) by (auto simp: join_inv_def lists_ok_def) (metis nth_list_update_neq)
  ultimately show ?thesis by (simp add: join_inv_def)
qed

interpretation pnm_joins: transition_system "\<lambda>s. s = join_start out" "join_step mem can wss" "join_inv wss out"
  for out mem can wss
  by unfold_locales (auto intro: join_start_inv join_main_inv join_thread_inv join_return_inv elim!: join_step.cases)

lemma reachable_join: "(join_step mem can wss)\<^sup>*\<^sup>* (join_start out) s \<Longrightarrow> join_inv wss out s"
  by (rule pnm_joins.inv_reachable [OF refl])

section \<open>Every run ends, and only when all is done\<close>

definition pc_load :: "nat \<Rightarrow> join_pc \<Rightarrow> nat" where
  "pc_load n pc = (case pc of Creating i \<Rightarrow> 2 * n + 2 - i | Joining i \<Rightarrow> n + 1 - i | _ \<Rightarrow> 0)"

text \<open>The threads that still have to return, those that are not created yet among them.\<close>

definition unreturned :: "writes list \<Rightarrow> join_run \<Rightarrow> nat" where
  "unreturned wss s = length (filter Not (j_ret s)) + (length wss - length (j_ret s))"

lemma unreturned_return:
  assumes "i < length (j_ret s)" "\<not> j_ret s ! i"
  shows "unreturned wss (s\<lparr>j_ret := (j_ret s)[i := True]\<rparr>) < unreturned wss s"
proof -
  have "length (filter Not ((j_ret s)[i := True])) < length (filter Not (j_ret s))"
    using assms by (subst (2) id_take_nth_drop [of i "j_ret s"]) (simp_all add: upd_conv_take_nth_drop)
  then show ?thesis by (simp add: unreturned_def)
qed

definition join_load :: "writes list \<Rightarrow> join_run \<Rightarrow> nat" where
  "join_load wss s = pc_load (length wss) (j_pc s) + (\<Sum>ws\<leftarrow>j_left s. length ws) +
     (\<Sum>ws\<leftarrow>drop (length (j_left s)) wss. length ws) + unreturned wss s"

lemma join_step_load:
  assumes "join_inv wss out s" "join_step mem can wss s t"
  shows "join_load wss t < join_load wss s"
  using assms(2)
proof cases
  case main_moves
  show ?thesis
  proof (cases "j_pc s")
    case (Creating i)
    then have i: "length (j_left s) = i" "length (j_ret s) = i" "i \<le> length wss"
      using assms(1) by (auto simp: join_inv_def pc_ok_def lists_ok_def)
    show ?thesis
    proof (cases "i < length wss \<and> mem i \<and> can i")
      case True
      then have "drop i wss = wss ! i # drop (Suc i) wss" by (simp add: Cons_nth_drop_Suc)
      then show ?thesis using main_moves Creating i True
        by (auto simp: join_main_def join_load_def pc_load_def unreturned_def)
    next
      case False
      then show ?thesis using main_moves Creating i
        by (auto simp: join_main_def join_load_def pc_load_def unreturned_def split: if_split_asm)
    qed
  next
    case (Joining i)
    then have "i \<le> length wss" using assms(1) by (simp add: join_inv_def pc_ok_def)
    then show ?thesis using main_moves Joining
      by (auto simp: join_main_def join_load_def pc_load_def unreturned_def split: if_split_asm)
  qed (use main_moves in \<open>simp_all add: join_main_def\<close>)
next
  case (thread_moves i w ws)
  then show ?thesis
    using sum_list_map_update [of i "j_left s" length ws] by (simp add: join_load_def unreturned_def)
next
  case (thread_returns i)
  then have "i < length (j_ret s)" using assms(1) by (simp add: join_inv_def lists_ok_def)
  from unreturned_return [OF this thread_returns(4), of wss] show ?thesis
    by (simp add: thread_returns(1) join_load_def)
qed

lemma join_steps_load:
  "(join_step mem can wss ^^ n) (join_start out) s \<Longrightarrow> n + join_load wss s \<le> join_load wss (join_start out)"
proof (induction n arbitrary: s)
  case (Suc n)
  then obtain r where r: "(join_step mem can wss ^^ n) (join_start out) r" "join_step mem can wss r s" by auto
  have "join_inv wss out r" using r(1) by (intro reachable_join relpowp_imp_rtranclp)
  then show ?case using join_step_load [OF _ r(2)] Suc.IH [OF r(1)] by fastforce
qed simp

lemma join_stuck:
  assumes "join_inv wss out s" "\<forall>t. \<not> join_step mem can wss s t" "\<forall>i < length wss. mem i \<and> can i"
  shows "j_pc s = Writing \<or> (\<exists>x. j_pc s = Ended x)"
proof (cases "j_pc s")
  case (Creating i)
  then have "\<exists>t. join_main mem can wss s = Some t" by (simp add: join_main_def)
  then show ?thesis using assms(2) join_step.main_moves by blast
next
  case (Joining i)
  show ?thesis
  proof (cases "i < length wss \<and> \<not> j_ret s ! i")
    case True
    then have i: "i < length (j_left s)" using assms(1) Joining by (simp add: join_inv_def pc_ok_def)
    show ?thesis
    proof (cases "j_left s ! i")
      case Nil
      then show ?thesis using assms(2) Joining True join_step.thread_returns [OF i Nil, of mem can wss] by simp
    next
      case (Cons w ws)
      then show ?thesis using assms(2) Joining join_step.thread_moves [OF i Cons, of mem can wss] by simp
    qed
  next
    case False
    then have "\<exists>t. join_main mem can wss s = Some t" using Joining by (auto simp: join_main_def)
    then show ?thesis using assms(2) join_step.main_moves by blast
  qed
qed simp_all

text \<open>\<open>main\<close> ends early only when a thread cannot be made.\<close>

lemma join_no_end:
  assumes "(join_step mem can wss)\<^sup>*\<^sup>* (join_start out) s" "\<forall>i < length wss. mem i \<and> can i"
  shows "j_pc s \<noteq> Ended x"
  using assms(1)
proof (induction rule: rtranclp_induct)
  case (step s t)
  from step(2) show ?case
  proof cases
    case main_moves
    then show ?thesis using assms(2)
      by (auto simp: join_main_def split: join_pc.split_asm if_split_asm)
  qed (use step(3) in simp_all)
qed (simp add: join_start_def)

lemma joined:
  assumes "join_inv wss out s" "j_pc s = Writing"
  shows "\<exists>ys. interleaving wss ys \<and> j_out s = run_writes ys out"
proof -
  obtain dones ys where d: "length dones = length wss" "interleaving dones ys" "j_out s = run_writes ys out"
      "\<forall>i < length wss. wss ! i = dones ! i @ left_of wss s i"
    using assms(1) unfolding join_inv_def did_def by blast
  have "dones = wss"
    using d(1,4) assms by (intro nth_equalityI) (auto simp: join_inv_def lists_ok_def pc_ok_def left_of_def)
  then show ?thesis using d(2,3) by blast
qed

text \<open>A runner of schedules.\<close>

datatype jmove = Main | Thread nat

fun join_exec :: "(nat \<Rightarrow> bool) \<Rightarrow> (nat \<Rightarrow> bool) \<Rightarrow> writes list \<Rightarrow> join_run \<Rightarrow> jmove list \<Rightarrow> join_run option" where
  "join_exec mem can wss s [] = Some s"
| "join_exec mem can wss s (Main # ms) =
     (case join_main mem can wss s of None \<Rightarrow> None | Some t \<Rightarrow> join_exec mem can wss t ms)"
| "join_exec mem can wss s (Thread i # ms) =
     (if i < length (j_left s) \<and> (case j_pc s of Ended _ \<Rightarrow> False | _ \<Rightarrow> True)
      then (case j_left s ! i of
          [] \<Rightarrow> if j_ret s ! i then None else join_exec mem can wss (s\<lparr>j_ret := (j_ret s)[i := True]\<rparr>) ms
        | w # ws \<Rightarrow> join_exec mem can wss (s\<lparr>j_left := (j_left s)[i := ws], j_out := run_writes [w] (j_out s)\<rparr>) ms)
      else None)"

lemma join_exec_thread:
  assumes "join_exec mem can wss s (Thread i # ms) = Some t"
  obtains r where "join_step mem can wss s r" "join_exec mem can wss r ms = Some t"
proof -
  have s: "i < length (j_left s)" "\<forall>x. j_pc s \<noteq> Ended x" using assms by (auto split: if_split_asm)
  then have guard: "(case j_pc s of Ended _ \<Rightarrow> False | _ \<Rightarrow> True)" by (cases "j_pc s") simp_all
  show thesis
  proof (cases "j_left s ! i")
    case Nil
    then show thesis using assms s guard that [OF join_step.thread_returns [OF s(1) Nil _ s(2)]]
      by (simp split: if_split_asm)
  next
    case (Cons w ws)
    then show thesis using assms s guard that [OF join_step.thread_moves [OF s(1) Cons s(2)]] by simp
  qed
qed

lemma join_exec_steps:
  "join_exec mem can wss s ms = Some t \<Longrightarrow> (join_step mem can wss ^^ length ms) s t"
proof (induction ms arbitrary: s)
  case (Cons m ms)
  obtain r where "join_step mem can wss s r" "join_exec mem can wss r ms = Some t"
  proof (cases m)
    case Main
    then show thesis using Cons.prems that [OF join_step.main_moves] by (auto split: option.split_asm)
  next
    case (Thread i)
    then show thesis using Cons.prems join_exec_thread that by metis
  qed
  then show ?case
    using Cons.IH unfolding list.size(4) add_0_right by (simp del: relpowp.simps add: relpowp_Suc_I2)
qed simp

text \<open>Two threads by block on two bytes; the second one is done before the first has started.\<close>

definition two_bytes :: string where "two_bytes = [CHR 0x00, CHR 0x07]"

definition two_threads :: "writes list" where "two_threads = [[(0, CHR 0xFF)], [(1, CHR 0xF8)]]"

definition join_demo :: "jmove list" where
  "join_demo = [Main, Main, Thread 1, Thread 1, Main, Thread 0, Thread 0, Main, Main, Main]"

definition joined_run :: join_run where
  "joined_run = \<lparr>j_pc = Writing, j_left = [[], []], j_ret = [True, True], j_ctx = [False, False], j_image = False,
     j_out = [CHR 0xFF, CHR 0xF8]\<rparr>"

lemma two_threads_run:
  "spawn_workers BLOCK two_bytes 2 255 2 = Ok two_threads"
  "join_exec (\<lambda>_. True) (\<lambda>_. True) two_threads (join_start ''ab'') join_demo = Some joined_run"
  unfolding two_bytes_def two_threads_def by code_simp+

lemma joined_run_stuck: "\<not> join_step mem can two_threads joined_run t"
  by (auto simp: joined_run_def join_main_def less_Suc_eq elim!: join_step.cases)

section \<open>Properties\<close>

text \<open>
  C26: However the threads are scheduled, and whether or not a context or a thread can be made, no
  thread that has not returned finds its context or the image freed, and when the
  output is written every thread has returned and every block but the output has been freed.
\<close>

theorem pnm_join_safe:
  assumes "(join_step mem can wss)\<^sup>*\<^sup>* (join_start out) s"
  shows "(\<forall>i < length (j_left s). \<not> j_ret s ! i \<or> j_left s ! i \<noteq> [] \<longrightarrow> j_image s \<and> j_ctx s ! i) \<and>
    (j_pc s = Writing \<longrightarrow> \<not> j_image s \<and> True \<notin> set (j_ctx s) \<and> False \<notin> set (j_ret s) \<and>
      (\<exists>ys. interleaving wss ys \<and> j_out s = run_writes ys out))"
proof -
  have s: "join_inv wss out s" using assms by (rule reachable_join)
  then have pc: "pc_ok (length wss) s" and lists: "lists_ok (length wss) s" by (simp_all add: join_inv_def)
  from lists have left: "\<not> j_ret s ! i" if "\<not> j_ret s ! i \<or> j_left s ! i \<noteq> []" "i < length (j_left s)" for i
    using that by (auto simp: lists_ok_def)
  have "\<not> j_ret s ! i \<Longrightarrow> i < length (j_left s) \<Longrightarrow> j_image s \<and> j_ctx s ! i" for i
    using pc by (cases "j_pc s") (simp_all add: pc_ok_def, metis not_less)
  moreover have "\<not> j_image s \<and> True \<notin> set (j_ctx s) \<and> False \<notin> set (j_ret s)" if "j_pc s = Writing"
    using pc lists that by (auto simp: pc_ok_def lists_ok_def in_set_conv_nth)
  ultimately show ?thesis using joined [OF s] left by blast
qed

theorem pnm_join_safe_witness:
  "\<not> j_image joined_run \<and> (\<exists>ys. interleaving two_threads ys \<and> j_out joined_run = run_writes ys ''ab'')"
proof -
  have "j_pc joined_run = Writing" by (simp add: joined_run_def)
  then show ?thesis
    using pnm_join_safe [OF relpowp_imp_rtranclp [OF join_exec_steps [OF two_threads_run(2)]]] by blast
qed

text \<open>
  C13: On an image that fits its largest value, with any number of threads, by value or, when a sample
  has one byte and the lines are whole, by block, and provided that every context and every thread
  can be made: every schedule of \<open>main\<close> and the threads comes to an end, after at most two statements
  of \<open>main\<close> and one return for each thread, two statements more, and one step for each write, and then
  the output is the negative of the image, ready to be written.
\<close>

theorem pnm_join_negates:
  assumes "fits maxval img" "0 < threads" "threads < 2 ^ 31"
    and "meth = NUMBERS \<or> maxval \<le> 255 \<and> 0 < width \<and> width < 2 ^ 31 \<and> width dvd int (length img)"
    and "length out = length img"
  shows "\<exists>wss. spawn_workers meth img width maxval threads = Ok wss \<and>
    (\<forall>n s. (join_step (\<lambda>_. True) (\<lambda>_. True) wss ^^ n) (join_start out) s \<longrightarrow>
      n \<le> 3 * length wss + 2 + (\<Sum>ws\<leftarrow>wss. length ws) \<and>
      ((\<forall>t. \<not> join_step (\<lambda>_. True) (\<lambda>_. True) wss s t) \<longrightarrow> j_pc s = Writing \<and> j_out s = negative maxval img))"
proof -
  obtain wss where wss: "spawn_workers meth img width maxval threads = Ok wss"
    and neg: "\<And>ws out. interleaving wss ws \<and> length out = length img \<Longrightarrow> run_writes ws out = negative maxval img"
    using workers_negate [OF assms(1-4)] by blast
  have "n \<le> 3 * length wss + 2 + (\<Sum>ws\<leftarrow>wss. length ws) \<and>
      ((\<forall>t. \<not> join_step (\<lambda>_. True) (\<lambda>_. True) wss s t) \<longrightarrow> j_pc s = Writing \<and> j_out s = negative maxval img)"
    if run: "(join_step (\<lambda>_. True) (\<lambda>_. True) wss ^^ n) (join_start out) s" for n s
  proof -
    have bound: "n \<le> 3 * length wss + 2 + (\<Sum>ws\<leftarrow>wss. length ws)"
      using join_steps_load [OF run] by (simp add: join_load_def join_start_def pc_load_def unreturned_def)
    have reach: "(join_step (\<lambda>_. True) (\<lambda>_. True) wss)\<^sup>*\<^sup>* (join_start out) s"
      using run by (rule relpowp_imp_rtranclp)
    then have s: "join_inv wss out s" by (rule reachable_join)
    have "j_pc s = Writing \<and> j_out s = negative maxval img"
      if stuck: "\<forall>t. \<not> join_step (\<lambda>_. True) (\<lambda>_. True) wss s t"
    proof -
      have can: "\<forall>i < length wss. True \<and> True" by simp
      have "j_pc s = Writing \<or> (\<exists>x. j_pc s = Ended x)" by (rule join_stuck [OF s stuck can])
      moreover have "j_pc s \<noteq> Ended x" for x by (rule join_no_end [OF reach can])
      ultimately have "j_pc s = Writing" by blast
      moreover obtain ys where "interleaving wss ys" "j_out s = run_writes ys out"
        using joined [OF s \<open>j_pc s = Writing\<close>] by blast
      ultimately show ?thesis using neg [of ys out] assms(5) by simp
    qed
    with bound show ?thesis by simp
  qed
  then show ?thesis using wss by blast
qed

theorem pnm_join_negates_witness:
  "length join_demo \<le> 3 * length two_threads + 2 + (\<Sum>ws\<leftarrow>two_threads. length ws) \<and>
    j_pc joined_run = Writing \<and> j_out joined_run = negative 255 two_bytes"
proof -
  have "fits 255 two_bytes" unfolding two_bytes_def by (rule fits_255)
  then obtain wss where "spawn_workers BLOCK two_bytes 2 255 2 = Ok wss"
    and runs: "\<forall>n s. (join_step (\<lambda>_. True) (\<lambda>_. True) wss ^^ n) (join_start ''ab'') s \<longrightarrow>
      n \<le> 3 * length wss + 2 + (\<Sum>ws\<leftarrow>wss. length ws) \<and>
      ((\<forall>t. \<not> join_step (\<lambda>_. True) (\<lambda>_. True) wss s t) \<longrightarrow> j_pc s = Writing \<and> j_out s = negative 255 two_bytes)"
    using pnm_join_negates [of 255 two_bytes 2 BLOCK 2 "''ab''"] by (auto simp: two_bytes_def)
  then have "wss = two_threads" using two_threads_run(1) by simp
  then show ?thesis
    using runs join_exec_steps [OF two_threads_run(2)] joined_run_stuck by blast
qed

end
