(* ===== verification/Fifo.thy ===== *)
theory Fifo
  imports Decimal
begin

text \<open>
  The producer and the consumer of \<open>lab5/zad3\<close>. The producer cuts a file into messages
  \<open>lineno:data\<close> and writes them to a FIFO; the consumer reads messages from the FIFO and adds
  their data to the end of a line of the output file, which it rewrites in place. The models here give
  the messages of one producer and what a consumer makes of a sequence of reads; the lock and
  the wait with which the producers share the FIFO are in \<open>Fifo_Lock\<close>. The buffers
  are granted.
\<close>

definition MAXLINE :: int where "MAXLINE = 100000"

text \<open>\<open>parse_int\<close> of both programs, which does not look at \<open>errno\<close>.\<close>

definition parse_long :: "string \<Rightarrow> int option" where
  "parse_long str = (if str = [] then None
     else (case strtol10 str of (v, rest, _) \<Rightarrow> if rest = [] then Some v else None))"

section \<open>The producer\<close>

text \<open>\<open>"% 10ld:"\<close> of a positive number: right justified in ten columns, at least one blank.\<close>

definition line_prefix :: "int \<Rightarrow> string" where
  "line_prefix n =
     (let s = SPC # show_nat (nat n) in replicate (10 - length s) SPC @ s @ [CHR '':''])"

text \<open>
  One round of the loop: the block that \<open>read\<close> delivered behind the prefix, with a newline if
  it does not end in one. The buffer has \<open>blocksize + 12\<close> bytes.
\<close>

definition producer_message :: "nat \<Rightarrow> int \<Rightarrow> string \<Rightarrow> string result" where
  "producer_message blocksize lineno block =
     (let msg = line_prefix lineno @ block;
          msg = (if last block \<noteq> NL then msg @ [NL] else msg)
      in if blocksize + 12 < length msg then Err Undef_Behaviour else Ok msg)"

text \<open>
  The messages of a file. \<open>sched n\<close> is the number of bytes a \<open>read\<close> delivers when \<open>n\<close> are
  left, at most \<open>blocksize\<close>; a block size of 0 ends the loop at once.
\<close>

function producer_loop :: "nat \<Rightarrow> int \<Rightarrow> (nat \<Rightarrow> nat) \<Rightarrow> string \<Rightarrow> string list \<Rightarrow> string list result" where
  "producer_loop blocksize lineno sched inp msgs =
     (let n = min (min blocksize (length inp)) (max 1 (sched (length inp)))
      in if n = 0 then Ok msgs
         else rbind (producer_message blocksize lineno (take n inp)) (\<lambda>m.
           producer_loop blocksize lineno sched (drop n inp) (msgs @ [m])))"
  by pat_completeness auto
termination
  by (relation "measure (\<lambda>(_, _, _, inp, _). length inp)") auto

declare producer_loop.simps [simp del]

text \<open>The arguments; \<open>infile\<close> is the input file, if it can be opened.\<close>

definition producer_main :: "(nat \<Rightarrow> nat) \<Rightarrow> string option \<Rightarrow> string list \<Rightarrow> string list result" where
  "producer_main sched infile argv =
     (if length argv \<noteq> 5 then Err (Exit_Status 2)
      else (case (parse_long (argv ! 4), parse_long (argv ! 2)) of
          (Some blocksize, Some lineno) \<Rightarrow>
            if blocksize < 0 \<or> lineno < 1 \<or> MAXLINE < lineno then Err (Exit_Status 2)
            else (case infile of
                None \<Rightarrow> Err (Exit_Status 1)
              | Some inp \<Rightarrow>
                  if LONG_MAX < blocksize + 12 then Err Undef_Behaviour
                  else rbind (c_assert (length (line_prefix lineno) = 11)) (\<lambda>_.
                    producer_loop (nat blocksize) lineno sched inp []))
        | _ \<Rightarrow> Err (Exit_Status 2)))"

section \<open>The consumer\<close>

text \<open>
  The search for the end of line \<open>lineno\<close>: \<open>i\<close> and \<open>curline\<close> after the loop over \<open>outbuf\<close>.
\<close>

fun count_lines :: "string \<Rightarrow> nat \<Rightarrow> int \<Rightarrow> int \<Rightarrow> nat \<times> int" where
  "count_lines [] i curline lineno = (i, curline)"
| "count_lines (c # cs) i curline lineno =
     (if curline < lineno
      then count_lines cs (i + 1) (if c = NL then curline + 1 else curline) lineno
      else (i, curline))"

text \<open>A write at a position of the file, beyond the end if need be.\<close>

definition write_at :: "string \<Rightarrow> nat \<Rightarrow> string \<Rightarrow> string" where
  "write_at f pos s = take pos f @ s @ drop (pos + length s) f"

text \<open>
  The part of a round behind \<open>read_coalescing_redo_hack\<close>: \<open>out\<close> is the output file, \<open>d\<close> the
  data with its newline.
\<close>

definition insert_data :: "string \<Rightarrow> int \<Rightarrow> string \<Rightarrow> string result" where
  "insert_data out lineno d =
     (case count_lines out 0 0 lineno of (i, curline) \<Rightarrow>
       if curline = lineno
       then rbind (c_assert (0 < i \<and> i \<le> length out \<and> out ! (i - 1) = NL)) (\<lambda>_.
         let i = i - 1;
             f = write_at out i d
         in Ok (write_at f (i + length d) (drop (i + 1) out)))
       else rbind (c_assert (i = length out)) (\<lambda>_.
         Ok (out @ replicate (nat (lineno - 1 - curline)) NL @ d)))"

text \<open>
  The loop over the messages in the buffer. \<open>atoi\<close> reads the number, and \<open>memchr\<close> looks for
  the colon before the end of the first line. \<open>buf\<close> ends in a newline.
\<close>

function consume_buffer :: "string \<Rightarrow> string \<Rightarrow> string result" where
  "consume_buffer out buf =
     (case find_index NL buf of
       None \<Rightarrow> Err Undef_Behaviour
     | Some k \<Rightarrow>
         let msg = take (k + 1) buf
         in (case find_index CHR '':'' msg of
             None \<Rightarrow> Err (Exit_Status 1)
           | Some j \<Rightarrow>
               rbind (c_assert (j = 10)) (\<lambda>_.
               rbind (c_atoi buf) (\<lambda>lineno.
                 if lineno \<le> 0 then Err (Exit_Status 1)
                 else rbind (insert_data out lineno (drop (j + 1) msg)) (\<lambda>out.
                   if drop (k + 1) buf = [] then Ok out else consume_buffer out (drop (k + 1) buf))))))"
  by pat_completeness auto
termination
  by (relation "measure (\<lambda>(_, buf). length buf)") auto

declare consume_buffer.simps [simp del]

text \<open>
  The outer loop, on the list of what the reads from the FIFO deliver; the end of the list is
  the end of the file. \<open>buf\<close> is what the buffer of \<open>bufsz\<close> bytes holds; a read into a full
  buffer returns 0, and none delivers more than there is room for.
\<close>

fun consumer_loop :: "nat \<Rightarrow> string list \<Rightarrow> string \<Rightarrow> string \<Rightarrow> string result" where
  "consumer_loop bufsz [] buf out = (if buf = [] then Ok out else Err (Exit_Status 1))"
| "consumer_loop bufsz (r # reads) buf out =
     (if length buf = bufsz \<or> r = [] then (if buf = [] then Ok out else Err (Exit_Status 1))
      else if bufsz < length buf + length r then Err Undef_Behaviour
      else let b = buf @ r
        in if last b = NL
           then rbind (consume_buffer out b) (\<lambda>out. consumer_loop bufsz reads [] out)
           else consumer_loop bufsz reads b out)"

definition consumer_main :: "string list \<Rightarrow> string \<Rightarrow> string list \<Rightarrow> string result" where
  "consumer_main reads out argv =
     (if length argv \<noteq> 4 then Err (Exit_Status 2)
      else (case parse_long (argv ! 3) of
          None \<Rightarrow> Err (Exit_Status 2)
        | Some blocksize \<Rightarrow>
            if blocksize < 0 then Err (Exit_Status 2)
            else if LONG_MAX < blocksize + 12 then Err Undef_Behaviour
            else consumer_loop (nat blocksize + 12) reads [] out))"

end
