(* ===== verification/Fifo_Props.thy ===== *)
theory Fifo_Props
  imports Fifo
begin

text \<open>
  What the FIFO programs of \<open>lab5/zad3\<close> do together: the consumer adds the data of a message
  to the end of its line (\<open>insert_data_adds\<close>), consumes the messages in the buffer one after
  the other (\<open>consume_messages\<close>), and from several producers that write their messages in any
  order every file arrives in its line, in one piece and in order (\<open>fifo_delivers\<close>), as long
  as no newline stands before the end of a file.
\<close>

section \<open>Lines of a file\<close>

text \<open>Lines are counted from 0; a file that ends early goes on with empty lines.\<close>

fun line_of :: "nat \<Rightarrow> string \<Rightarrow> string" where
  "line_of k [] = []"
| "line_of 0 (c # cs) = (if c = NL then [] else c # line_of 0 cs)"
| "line_of (Suc k) (c # cs) = line_of (if c = NL then k else Suc k) cs"

text \<open>The file with \<open>d\<close> at the end of line \<open>k\<close>, which ends in a newline then.\<close>

fun add_to_line :: "nat \<Rightarrow> string \<Rightarrow> string \<Rightarrow> string" where
  "add_to_line 0 d [] = d @ [NL]"
| "add_to_line (Suc k) d [] = NL # add_to_line k d []"
| "add_to_line 0 d (c # cs) = (if c = NL then d @ c # cs else c # add_to_line 0 d cs)"
| "add_to_line (Suc k) d (c # cs) = c # add_to_line (if c = NL then k else Suc k) d cs"

lemma line_of_append: "NL \<notin> set d \<Longrightarrow> line_of 0 (d @ NL # s) = d"
  by (induction d) auto

lemma line_of_append_Suc: "NL \<notin> set d \<Longrightarrow> line_of (Suc k) (d @ NL # s) = line_of k s"
  by (induction d) auto

lemma line_of_add:
  "NL \<notin> set d \<Longrightarrow> line_of j (add_to_line k d s) = (if j = k then line_of j s @ d else line_of j s)"
proof (induction k d s arbitrary: j rule: add_to_line.induct)
  case (1 d)
  then show ?case by (cases j) (simp_all add: line_of_append line_of_append_Suc)
next
  case (2 k d)
  then show ?case by (cases j) simp_all
next
  case (3 d c cs)
  then show ?case by (cases j) (auto simp: line_of_append line_of_append_Suc)
next
  case (4 k d c cs)
  then show ?case by (cases j) auto
qed

section \<open>The search for the line\<close>

lemma add_to_line_nil: "add_to_line k d [] = replicate k NL @ d @ [NL]"
  by (induction k) simp_all

text \<open>With enough newlines the search stops behind the last one that it needs.\<close>

lemma count_lines_found:
  assumes "m \<le> count_list s NL" "0 < m" "lineno = cur + int m"
  obtains p where "count_lines s i cur lineno = (i + Suc p, lineno)" "p < length s" "s ! p = NL"
    "add_to_line (m - 1) d s = take p s @ d @ drop p s"
proof -
  have "\<exists>p. count_lines s i cur lineno = (i + Suc p, lineno) \<and> p < length s \<and> s ! p = NL \<and>
      add_to_line (m - 1) d s = take p s @ d @ drop p s"
    using assms
  proof (induction s arbitrary: i cur m)
    case Nil
    then show ?case by simp
  next
    case (Cons c s)
    show ?case
    proof (cases "c = NL \<and> m = 1")
      case True
      then have "count_lines (c # s) i cur lineno = (i + Suc 0, lineno)"
        using Cons.prems by (cases s) simp_all
      then show ?thesis using True by (intro exI[of _ 0]) simp
    next
      case False
      define m' where "m' = (if c = NL then m - 1 else m)"
      have m': "m' \<le> count_list s NL" "0 < m'"
          "lineno = (if c = NL then cur + 1 else cur) + int m'"
        using Cons.prems False by (auto simp: m'_def split: if_splits)
      obtain p where p: "count_lines s (i + 1) (if c = NL then cur + 1 else cur) lineno =
          (i + 1 + Suc p, lineno)" "p < length s" "s ! p = NL"
          "add_to_line (m' - 1) d s = take p s @ d @ drop p s"
        using Cons.IH[OF m', of "i + 1"] by metis
      have "add_to_line (m - 1) d (c # s) = c # add_to_line (m' - 1) d s"
        using False Cons.prems(2) m'(2) by (cases "m - 1"; cases "m - 2") (auto simp: m'_def)
      then show ?thesis using p Cons.prems(2,3) by (intro exI[of _ "Suc p"]) simp
    qed
  qed
  then show thesis using that by blast
qed

text \<open>With too few it reaches the end of the file.\<close>

lemma count_lines_short:
  "count_list s NL < m \<Longrightarrow>
    count_lines s i cur (cur + int m) = (i + length s, cur + int (count_list s NL))"
proof (induction s arbitrary: i cur m)
  case Nil
  then show ?case by simp
next
  case (Cons c s)
  show ?case
  proof (cases "c = NL")
    case True
    then have "cur + int m = (cur + 1) + int (m - 1)" "count_list s NL < m - 1"
      using Cons.prems by auto
    then show ?thesis using Cons.IH[of "m - 1" "i + 1" "cur + 1"] True by simp
  next
    case False
    then show ?thesis using Cons.IH[of m "i + 1" cur] Cons.prems by simp
  qed
qed

lemma add_to_line_short:
  "count_list s NL \<le> k \<Longrightarrow>
    add_to_line k d s = s @ replicate (k - count_list s NL) NL @ d @ [NL]"
proof (induction k d s rule: add_to_line.induct)
  case (4 k d c cs)
  then show ?case by (cases "c = NL") auto
qed (simp_all split: if_splits)

text \<open>A round adds the data to the end of its line.\<close>

lemma insert_data_adds:
  assumes "0 < n"
  shows "insert_data out (int n) (d @ [NL]) = Ok (add_to_line (n - 1) d out)"
proof (cases "n \<le> count_list out NL")
  case True
  then obtain p where p: "count_lines out 0 0 (int n) = (Suc p, int n)" "p < length out"
      "out ! p = NL" "add_to_line (n - 1) d out = take p out @ d @ drop p out"
    using count_lines_found[of n out "int n" 0 0] assms by auto
  have "drop p out = NL # drop (Suc p) out" using p(2,3) Cons_nth_drop_Suc by metis
  moreover have "drop (length d + (length out - p)) d = []" by simp
  ultimately show ?thesis
    using p by (simp add: insert_data_def write_at_def Let_def)
next
  case False
  then have lt: "count_list out NL < n" by simp
  have "count_lines out 0 0 (int n) = (length out, int (count_list out NL))"
    using count_lines_short[OF lt, of 0 0] by simp
  moreover have "int (count_list out NL) \<noteq> int n" using lt by simp
  moreover have "nat (int n - 1 - int (count_list out NL)) = n - 1 - count_list out NL" by simp
  moreover have "add_to_line (n - 1) d out =
      out @ replicate (n - 1 - count_list out NL) NL @ d @ [NL]"
    using lt by (intro add_to_line_short) simp
  ultimately show ?thesis by (simp add: insert_data_def)
qed

section \<open>Messages\<close>

definition message :: "nat \<times> string \<Rightarrow> string" where
  "message = (\<lambda>(n, d). line_prefix (int n) @ d @ [NL])"

text \<open>The messages that the programs exchange: a line in range, data without a newline.\<close>

definition fine_message :: "nat \<times> string \<Rightarrow> bool" where
  "fine_message = (\<lambda>(n, d). 1 \<le> n \<and> int n \<le> MAXLINE \<and> NL \<notin> set d)"

lemma digits_value_prefix:
  "\<forall>c \<in> set s. digit_value c \<noteq> None \<Longrightarrow> digit_value x = None \<Longrightarrow>
    digits_value acc (s @ x # t) = digits_value acc s"
  by (induction s arbitrary: acc) (auto split: option.splits)

text \<open>The prefix has eleven characters, the only colon at its end, and \<open>atoi\<close> reads the number back.\<close>

lemma line_prefix_length:
  assumes "int n \<le> MAXLINE"
  shows "length (line_prefix (int n)) = 11"
proof -
  have "length (show_nat n) \<le> 6" using assms by (intro show_nat_length) (simp_all add: MAXLINE_def)
  then show ?thesis by (simp add: line_prefix_def Let_def)
qed

lemma line_prefix_blanks:
  obtains k where "line_prefix (int n) = replicate (Suc k) SPC @ show_nat n @ [CHR '':'']"
  by (rule that[of "10 - length (SPC # show_nat n)"])
    (simp add: line_prefix_def Let_def replicate_append_same[symmetric])

lemma show_nat_no: "digit_value c = None \<Longrightarrow> c \<notin> set (show_nat n)"
  using show_nat_digits[of n] by auto

lemma line_prefix_atoi:
  assumes "int n \<le> MAXLINE"
  shows "c_atoi (line_prefix (int n) @ s) = Ok (int n)"
proof -
  obtain k where k: "line_prefix (int n) = replicate (Suc k) SPC @ show_nat n @ [CHR '':'']"
    by (rule line_prefix_blanks)
  obtain c cs where c: "show_nat n = c # cs" "\<not> is_c_space c" "c \<noteq> CHR ''-''" "c \<noteq> CHR ''+''"
    by (rule show_nat_head)
  have "is_c_space SPC" by (simp add: is_c_space_def)
  then have "dropWhile is_c_space (replicate (Suc k) SPC @ t) = dropWhile is_c_space t" for t
    by (induction k) simp_all
  then have "dropWhile is_c_space (line_prefix (int n) @ s) = show_nat n @ CHR '':'' # s"
    using c by (simp add: k)
  moreover have "digits_value 0 (show_nat n @ CHR '':'' # s) = int n"
    using digits_value_prefix[OF show_nat_digits, of "CHR '':''" 0 n s] digits_show_nat[of n]
    by (simp add: digit_value_def)
  ultimately show ?thesis using c assms by (simp add: c_atoi_def Let_def MAXLINE_def)
qed

lemma line_prefix_colon: "line_prefix n = butlast (line_prefix n) @ [CHR '':'']"
  by (simp add: line_prefix_def Let_def butlast_append)

lemma line_prefix_only:
  "digit_value c = None \<Longrightarrow> c \<noteq> SPC \<Longrightarrow> c \<notin> set (butlast (line_prefix (int n)))"
  using show_nat_no[of c n] by (auto simp: line_prefix_def Let_def butlast_append)

lemma line_prefix_no_NL: "NL \<notin> set (line_prefix (int n))"
  using show_nat_no[of NL n]
  by (auto simp: line_prefix_def Let_def digit_value_def)

section \<open>The consumer\<close>

abbreviation add_message :: "string \<Rightarrow> nat \<times> string \<Rightarrow> string" where
  "add_message out m \<equiv> add_to_line (fst m - 1) (snd m) out"

lemma find_index_at: "c \<notin> set xs \<Longrightarrow> find_index c (xs @ c # ys) = Some (length xs)"
  by (simp add: find_index_append)

lemma message_not_nil: "message m \<noteq> []"
  by (simp add: message_def split: prod.split)

lemma messages_nil: "concat (map message ms) = [] \<longleftrightarrow> ms = []"
  using message_not_nil by (cases ms) simp_all

text \<open>One round of the loop over the buffer consumes one message.\<close>

lemma consume_message:
  assumes "fine_message m"
  shows "consume_buffer out (message m @ rest) =
    (if rest = [] then Ok (add_message out m) else consume_buffer (add_message out m) rest)"
proof -
  obtain n d where m: "m = (n, d)" by (cases m)
  have fine: "1 \<le> n" "int n \<le> MAXLINE" "NL \<notin> set d" using assms by (auto simp: fine_message_def m)
  let ?p = "line_prefix (int n)"
  have len: "length ?p = 11" using fine by (intro line_prefix_length)
  have "NL \<notin> set (?p @ d)" using fine(3) line_prefix_no_NL by simp
  then have nl: "find_index NL ((?p @ d) @ NL # rest) = Some (length (?p @ d))"
    by (rule find_index_at)
  have "CHR '':'' \<notin> set (butlast ?p)" by (rule line_prefix_only) (simp_all add: digit_value_def)
  then have "find_index CHR '':'' (butlast ?p @ CHR '':'' # d @ [NL]) = Some (length (butlast ?p))"
    by (rule find_index_at)
  moreover have "butlast ?p @ CHR '':'' # d @ [NL] = ?p @ d @ [NL]"
    by (subst (2) line_prefix_colon) simp
  ultimately have colon: "find_index CHR '':'' (?p @ d @ [NL]) = Some 10" using len by simp
  have "c_atoi (?p @ d @ NL # rest) = Ok (int n)" using fine(2) by (rule line_prefix_atoi)
  moreover have "insert_data out (int n) (d @ [NL]) = Ok (add_message out m)"
    using insert_data_adds[of n out d] fine(1) m by simp
  ultimately show ?thesis
    using nl colon len fine(1)
    by (subst consume_buffer.simps) (simp add: m message_def)
qed

lemma consume_messages:
  "\<forall>m \<in> set ms. fine_message m \<Longrightarrow> ms \<noteq> [] \<Longrightarrow>
    consume_buffer out (concat (map message ms)) = Ok (foldl add_message out ms)"
proof (induction ms arbitrary: out)
  case (Cons m ms)
  have m: "fine_message m" using Cons.prems(1) by simp
  show ?case
  proof (cases "ms = []")
    case True
    then show ?thesis using consume_message[OF m, of out "[]"] by simp
  next
    case False
    then have "consume_buffer out (message m @ concat (map message ms)) =
        consume_buffer (add_message out m) (concat (map message ms))"
      by (simp only: consume_message[OF m] messages_nil if_False)
    then show ?thesis using Cons.IH[of "add_message out m"] Cons.prems(1) False by simp
  qed
qed simp

text \<open>A text of lines, cut behind a newline, is cut between two lines.\<close>

lemma lines_split:
  assumes "\<And>l. l \<in> set ls \<Longrightarrow> l \<noteq> [] \<and> NL \<notin> set (butlast l)"
    and "xs @ ys = concat ls" "xs \<noteq> []" "last xs = NL"
  obtains ls1 ls2 where "ls = ls1 @ ls2" "ls1 \<noteq> []" "xs = concat ls1" "ys = concat ls2"
proof -
  have "\<exists>ls1 ls2. ls = ls1 @ ls2 \<and> ls1 \<noteq> [] \<and> xs = concat ls1 \<and> ys = concat ls2"
    using assms
  proof (induction ls arbitrary: xs)
    case (Cons l ls)
    have l: "l \<noteq> []" "NL \<notin> set (butlast l)" using Cons.prems(1) by simp_all
    consider us where "l = xs @ us" "ys = us @ concat ls" | us where "xs = l @ us" "us @ ys = concat ls"
      using Cons.prems(2) by (auto simp: append_eq_append_conv2)
    then show ?case
    proof cases
      case (1 us)
      have "us = []"
      proof (rule ccontr)
        assume "us \<noteq> []"
        then have "last xs \<in> set (butlast l)" using 1(1) Cons.prems(3) by (simp add: butlast_append)
        then show False using l(2) Cons.prems(4) by simp
      qed
      then show ?thesis using 1 by (intro exI[of _ "[l]"] exI[of _ ls]) simp
    next
      case (2 us)
      show ?thesis
      proof (cases "us = []")
        case True
        then show ?thesis using 2 by (intro exI[of _ "[l]"] exI[of _ ls]) simp
      next
        case False
        then have "last us = NL" using 2(1) Cons.prems(4) by simp
        then obtain ls1 ls2 where "ls = ls1 @ ls2" "us = concat ls1" "ys = concat ls2"
          using Cons.IH[OF _ 2(2) False] Cons.prems(1) by auto
        then show ?thesis using 2(1) by (intro exI[of _ "l # ls1"] exI[of _ ls2]) simp
      qed
    qed
  qed simp
  then show thesis using that by blast
qed

text \<open>
  Reads that the buffer has room for: a read that does not end in a newline must leave room
  for the next one, and the last one ends in a newline.
\<close>

fun reads_fit :: "nat \<Rightarrow> nat \<Rightarrow> string list \<Rightarrow> bool" where
  "reads_fit bufsz n [] \<longleftrightarrow> n = 0"
| "reads_fit bufsz n (r # rs) \<longleftrightarrow> r \<noteq> [] \<and> n < bufsz \<and> n + length r \<le> bufsz \<and>
     reads_fit bufsz (if last r = NL then 0 else n + length r) rs"

lemma message_line: "fine_message m \<Longrightarrow> message m \<noteq> [] \<and> NL \<notin> set (butlast (message m))"
  using line_prefix_no_NL by (auto simp: message_def fine_message_def butlast_append split: prod.splits)

text \<open>Whatever the reads are that deliver the messages, in pieces or several at once.\<close>

lemma consumer_loop_messages:
  assumes "reads_fit bufsz (length buf) reads" "buf @ concat reads = concat (map message ms)"
    and "\<forall>m \<in> set ms. fine_message m"
  shows "consumer_loop bufsz reads buf out = Ok (foldl add_message out ms)"
  using assms
proof (induction reads arbitrary: buf ms out)
  case Nil
  then have "ms = []" using messages_nil[of ms] by simp
  then show ?case using Nil.prems(1) by simp
next
  case (Cons r rs)
  have r: "r \<noteq> []" "length buf < bufsz" "length buf + length r \<le> bufsz" using Cons.prems(1) by simp_all
  show ?case
  proof (cases "last r = NL")
    case True
    have "(buf @ r) @ concat rs = concat (map message ms)" using Cons.prems(2) by simp
    then obtain ls1 ls2 where ls: "map message ms = ls1 @ ls2" "ls1 \<noteq> []"
        "buf @ r = concat ls1" "concat rs = concat ls2"
      by (rule lines_split[rotated]) (use Cons.prems(3) message_line r True in auto)
    then obtain ms1 ms2 where ms: "ms = ms1 @ ms2" "ls1 = map message ms1" "ls2 = map message ms2"
      by (auto simp: map_eq_append_conv)
    have "consume_buffer out (buf @ r) = Ok (foldl add_message out ms1)"
      using consume_messages[of ms1 out] ls ms Cons.prems(3) by simp
    moreover have "consumer_loop bufsz rs [] out' = Ok (foldl add_message out' ms2)" for out'
      using Cons.IH[of "[]" ms2 out'] Cons.prems(1,3) True ls ms by simp
    ultimately show ?thesis using r True ms(1) by simp
  next
    case False
    then show ?thesis using Cons.IH[of "buf @ r" ms out] Cons.prems r by simp
  qed
qed

section \<open>The producer\<close>

definition without_final_newline :: "string \<Rightarrow> string" where
  "without_final_newline s = (if s \<noteq> [] \<and> last s = NL then butlast s else s)"

lemma without_final_newline_append:
  "t \<noteq> [] \<Longrightarrow> without_final_newline (s @ t) = s @ without_final_newline t"
  by (simp add: without_final_newline_def butlast_append)

lemma producer_message_block:
  assumes "b \<noteq> []" "length b \<le> bs" "int n \<le> MAXLINE"
  shows "producer_message bs (int n) b = Ok (message (n, without_final_newline b))"
proof -
  have "b @ (if last b = NL then [] else [NL]) = without_final_newline b @ [NL]"
    using append_butlast_last_id[OF assms(1)] assms(1)
    by (cases "last b = NL") (simp_all add: without_final_newline_def)
  then show ?thesis
    using assms line_prefix_length[OF assms(3)]
    by (auto simp: producer_message_def Let_def message_def)
qed

lemma without_final_newline_no:
  "NL \<notin> set (butlast s) \<Longrightarrow> NL \<notin> set (without_final_newline s)"
  by (cases s rule: rev_cases) (auto simp: without_final_newline_def)

text \<open>The messages of a file carry its text, without the final newline, in blocks.\<close>

lemma producer_loop_messages:
  assumes "0 < bs" "int n \<le> MAXLINE" "NL \<notin> set (butlast inp)"
  shows "\<exists>ds. producer_loop bs (int n) sched inp msgs = Ok (msgs @ map (\<lambda>d. message (n, d)) ds) \<and>
    concat ds = without_final_newline inp \<and> (\<forall>d \<in> set ds. NL \<notin> set d)"
  using assms(3)
proof (induction "length inp" arbitrary: inp msgs rule: less_induct)
  case less
  define k where "k = min (min bs (length inp)) (max 1 (sched (length inp)))"
  show ?case
  proof (cases "inp = []")
    case True
    then show ?thesis
      by (intro exI[of _ "[]"]) (simp add: producer_loop.simps without_final_newline_def)
  next
    case False
    then have k: "0 < k" "k \<le> bs" "k \<le> length inp" using assms(1) by (auto simp: k_def)
    let ?b = "take k inp" and ?r = "drop k inp"
    let ?d = "without_final_newline ?b"
    have b: "?b \<noteq> []" "length ?b \<le> bs" using k False by auto
    have split: "?r \<noteq> [] \<Longrightarrow> butlast inp = ?b @ butlast ?r"
      by (metis append_take_drop_id butlast_append)
    then have nl_b: "?r \<noteq> [] \<Longrightarrow> NL \<notin> set ?b" using less.prems by simp
    have nl: "NL \<notin> set (butlast ?b)"
      by (cases "?r = []") (use less.prems nl_b in \<open>auto dest: in_set_butlastD\<close>)
    have nl_r: "NL \<notin> set (butlast ?r)"
      by (cases "?r = []") (use less.prems split in auto)
    obtain ds where ds: "producer_loop bs (int n) sched ?r (msgs @ [message (n, ?d)]) =
          Ok ((msgs @ [message (n, ?d)]) @ map (\<lambda>d. message (n, d)) ds)"
        "concat ds = without_final_newline ?r" "\<forall>d \<in> set ds. NL \<notin> set d"
      using less.hyps[OF _ nl_r, of "msgs @ [message (n, ?d)]"] k False by auto
    have "producer_loop bs (int n) sched inp msgs = Ok (msgs @ map (\<lambda>d. message (n, d)) (?d # ds))"
      using k(1) ds(1) producer_message_block[OF b assms(2)]
      unfolding producer_loop.simps[of bs "int n" sched inp msgs] k_def[symmetric] by (simp add: Let_def)
    moreover have "concat (?d # ds) = without_final_newline inp"
    proof (cases "?r = []")
      case True
      then show ?thesis using ds(2) by (simp add: without_final_newline_def)
    next
      case False
      then have "last ?b \<noteq> NL" using nl_b b(1) last_in_set by metis
      then have "?d = ?b" by (simp add: without_final_newline_def)
      then show ?thesis using ds(2) without_final_newline_append[OF False, of ?b] by simp
    qed
    moreover have "NL \<notin> set ?d" using nl by (rule without_final_newline_no)
    ultimately show ?thesis using ds(3) by (intro exI[of _ "?d # ds"]) simp
  qed
qed

lemma parse_long_show:
  "int n \<le> LONG_MAX \<Longrightarrow> parse_long (show_nat n) = Some (int n)"
  using strtol_show_nat(1)[of n] by (cases rule: show_nat_head[of n]) (simp add: parse_long_def)

text \<open>
  A producer, by its line, the sizes of its reads and its input file, and the messages that it
  writes when it is called with blocks of \<open>bs\<close> bytes.
\<close>

type_synonym producer = "nat \<times> (nat \<Rightarrow> nat) \<times> string"

definition producer_run :: "nat \<Rightarrow> producer \<Rightarrow> string list result" where
  "producer_run bs = (\<lambda>(n, sched, inp).
     producer_main sched (Some inp) [''producer'', ''fifo'', show_nat n, ''in'', show_nat bs])"

definition producer_output :: "nat \<Rightarrow> producer \<Rightarrow> string list" where
  "producer_output bs p = (case producer_run bs p of Inr ms \<Rightarrow> ms | Inl _ \<Rightarrow> [])"

definition fine_producer :: "producer \<Rightarrow> bool" where
  "fine_producer = (\<lambda>(n, _, inp). 1 \<le> n \<and> int n \<le> MAXLINE \<and> NL \<notin> set (butlast inp))"

lemma producer_run_messages:
  assumes "fine_producer p" "0 < bs" "int bs + 12 \<le> LONG_MAX"
  obtains ds where "producer_run bs p = Ok (producer_output bs p)"
    "producer_output bs p = map message (map (Pair (fst p)) ds)"
    "concat ds = without_final_newline (snd (snd p))" "\<forall>d \<in> set ds. NL \<notin> set d"
proof -
  obtain n sched inp where p: "p = (n, sched, inp)" by (cases p)
  have n: "1 \<le> n" "int n \<le> MAXLINE" "NL \<notin> set (butlast inp)" using assms(1) by (auto simp: p fine_producer_def)
  have args: "parse_long (show_nat n) = Some (int n)" "parse_long (show_nat bs) = Some (int bs)"
    using n(2) assms(3) by (auto intro!: parse_long_show simp: MAXLINE_def LONG_MAX_def)
  obtain ds where ds: "producer_loop bs (int n) sched inp [] = Ok (map (\<lambda>d. message (n, d)) ds)"
      "concat ds = without_final_newline inp" "\<forall>d \<in> set ds. NL \<notin> set d"
    using producer_loop_messages[OF assms(2) n(2,3), of sched "[]"] by auto
  have "producer_run bs p = Ok (map (\<lambda>d. message (n, d)) ds)"
    using args n(1,2) assms(3) ds(1) line_prefix_length[OF n(2)]
    by (simp add: producer_run_def p producer_main_def)
  then show thesis using that ds(2,3) by (simp add: producer_output_def p comp_def)
qed

section \<open>Several producers and the consumer\<close>

lemma line_of_messages:
  "\<forall>m \<in> set ms. fine_message m \<Longrightarrow>
    line_of k (foldl add_message out ms) = line_of k out @ concat (map snd (filter (\<lambda>m. fst m = Suc k) ms))"
proof (induction ms arbitrary: out)
  case (Cons m ms)
  have "NL \<notin> set (snd m)" "0 < fst m" using Cons.prems by (auto simp: fine_message_def split: prod.splits)
  then have "line_of k (add_message out m) = (if fst m = Suc k then line_of k out @ snd m else line_of k out)"
    by (auto simp: line_of_add)
  then show ?case using Cons.IH[of "add_message out m"] Cons.prems by simp
qed simp

text \<open>
  The messages of distinct lines, in any order that keeps the order of each producer: the line
  of a producer receives the data of its messages, and the other lines stay as they are.
\<close>

lemma producers_lines:
  assumes "interleaving (map (\<lambda>(n, ds). map (Pair n) ds) qs) ms" "distinct (map fst qs)"
    and "\<forall>(n, ds) \<in> set qs. 1 \<le> n \<and> int n \<le> MAXLINE \<and> (\<forall>d \<in> set ds. NL \<notin> set d)"
  shows "\<forall>m \<in> set ms. fine_message m"
    and "(n, ds) \<in> set qs \<Longrightarrow> line_of (n - 1) (foldl add_message out ms) = line_of (n - 1) out @ concat ds"
    and "Suc k \<notin> fst ` set qs \<Longrightarrow> line_of k (foldl add_message out ms) = line_of k out"
proof -
  have set: "set ms = (\<Union>(n, ds) \<in> set qs. Pair n ` set ds)"
    using interleaving_set[OF assms(1)] by (auto split: prod.splits)
  show fine: "\<forall>m \<in> set ms. fine_message m"
    using assms(3) by (auto simp: set fine_message_def)
  show "line_of k (foldl add_message out ms) = line_of k out" if "Suc k \<notin> fst ` set qs"
  proof -
    have "filter (\<lambda>m. fst m = Suc k) ms = []" using that set by (force simp: filter_empty_conv)
    then show ?thesis using line_of_messages[OF fine] by simp
  qed
  show "line_of (n - 1) (foldl add_message out ms) = line_of (n - 1) out @ concat ds"
    if mem: "(n, ds) \<in> set qs"
  proof -
    obtain i where i: "i < length qs" "qs ! i = (n, ds)" using mem by (auto simp: in_set_conv_nth)
    have "filter (\<lambda>m. fst m = n) ms = filter (\<lambda>m. fst m = n) (map (\<lambda>(n, ds). map (Pair n) ds) qs ! i)"
    proof (rule interleaving_filter[OF assms(1)])
      fix j x assume j: "j < length (map (\<lambda>(n, ds). map (Pair n) ds) qs)" "j \<noteq> i"
        "x \<in> set (map (\<lambda>(n, ds). map (Pair n) ds) qs ! j)"
      obtain n' ds' where n': "qs ! j = (n', ds')" by (cases "qs ! j")
      have "n' \<noteq> n" using i j(1,2) n' assms(2) nth_eq_iff_index_eq[of "map fst qs" j i] by simp
      then show "fst x \<noteq> n" using j(1,3) n' by auto
    qed (use i in simp)
    moreover have "0 < n" using mem assms(3) by fastforce
    ultimately show ?thesis
      using line_of_messages[OF fine, of "n - 1" out] i by (simp add: filter_True comp_def)
  qed
qed

text \<open>
  Several producers write files to distinct lines, in blocks of any size that their
  \<open>read\<close>s deliver, and their messages reach the FIFO in any order that keeps each producer's
  own. The consumer, called with the same block size, reads the FIFO in any pieces that fit its
  buffer. Then every producer ends well, and the consumer leaves a file in which the text of
  each producer's file, without the final newline, stands at the end of its line, in one piece,
  and every other line is what it was.
\<close>

lemma fifo_delivers:
  assumes "0 < bs" "int bs + 12 \<le> LONG_MAX"
    and "\<forall>p \<in> set ps. fine_producer p" "distinct (map fst ps)"
    and "interleaving (map (producer_output bs) ps) ms"
    and "concat reads = concat ms" "reads_fit (bs + 12) 0 reads"
  shows "(\<forall>p \<in> set ps. producer_run bs p = Ok (producer_output bs p)) \<and>
    (\<exists>out'. consumer_main reads out [''consumer'', ''fifo'', ''out'', show_nat bs] = Ok out' \<and>
      (\<forall>(n, sched, inp) \<in> set ps. line_of (n - 1) out' = line_of (n - 1) out @ without_final_newline inp) \<and>
      (\<forall>k. Suc k \<notin> fst ` set ps \<longrightarrow> line_of k out' = line_of k out))"
proof -
  have "\<forall>p \<in> set ps. \<exists>ds. producer_run bs p = Ok (producer_output bs p) \<and>
      producer_output bs p = map message (map (Pair (fst p)) ds) \<and>
      concat ds = without_final_newline (snd (snd p)) \<and> (\<forall>d \<in> set ds. NL \<notin> set d)"
    using producer_run_messages[OF _ assms(1,2)] assms(3) by metis
  from bchoice[OF this] obtain D where D: "\<And>p. p \<in> set ps \<Longrightarrow> producer_run bs p = Ok (producer_output bs p) \<and>
      producer_output bs p = map message (map (Pair (fst p)) (D p)) \<and>
      concat (D p) = without_final_newline (snd (snd p)) \<and> (\<forall>d \<in> set (D p). NL \<notin> set d)"
    by blast
  define qs where "qs = map (\<lambda>p. (fst p, D p)) ps"
  have "map (producer_output bs) ps = map (map message) (map (\<lambda>(n, ds). map (Pair n) ds) qs)"
    using D by (simp add: qs_def)
  then have "interleaving (map (map message) (map (\<lambda>(n, ds). map (Pair n) ds) qs)) ms"
    using assms(5) by (simp only:)
  then obtain zs where zs: "ms = map message zs" "interleaving (map (\<lambda>(n, ds). map (Pair n) ds) qs) zs"
    by (rule interleaving_map)
  have qs: "distinct (map fst qs)" "fst ` set qs = fst ` set ps" using assms(4)
    by (simp_all add: qs_def comp_def image_image)
  have fine: "\<forall>(n, ds) \<in> set qs. 1 \<le> n \<and> int n \<le> MAXLINE \<and> (\<forall>d \<in> set ds. NL \<notin> set d)"
    using assms(3) D by (auto simp: qs_def fine_producer_def)
  note lines = producers_lines[OF zs(2) qs(1) fine]
  let ?out = "foldl add_message out zs"
  have "consumer_loop (bs + 12) reads [] out = Ok ?out"
    using assms(6,7) lines(1) zs(1) by (intro consumer_loop_messages) simp_all
  then have "consumer_main reads out [''consumer'', ''fifo'', ''out'', show_nat bs] = Ok ?out"
    using parse_long_show[of bs] assms(2) by (simp add: consumer_main_def)
  moreover have "line_of (n - 1) ?out = line_of (n - 1) out @ without_final_newline inp"
    if "(n, sched, inp) \<in> set ps" for n sched inp
  proof -
    have "(n, D (n, sched, inp)) \<in> set qs" using that by (force simp: qs_def)
    then show ?thesis using lines(2) D[OF that] by simp
  qed
  ultimately show ?thesis using lines(3) qs(2) D by auto
qed

text \<open>
  Reads that cut the messages into pieces but never cross the end of one always fit: this is
  what a consumer sees, since a producer writes only when the FIFO is empty.
\<close>

lemma reads_fit_append:
  "reads_fit b n rs \<Longrightarrow> reads_fit b 0 rs' \<Longrightarrow> reads_fit b n (rs @ rs')"
  by (induction b n rs rule: reads_fit.induct) auto

lemma reads_fit_message:
  assumes "\<forall>r \<in> set rs. r \<noteq> []" "rs \<noteq> []" "n + length (concat rs) \<le> b"
    and "last (concat rs) = NL" "NL \<notin> set (butlast (concat rs))"
  shows "reads_fit b n rs"
  using assms
proof (induction rs arbitrary: n)
  case (Cons r rs)
  have r: "r \<noteq> []" using Cons.prems(1) by simp
  show ?case
  proof (cases "rs = []")
    case True
    then show ?thesis using Cons.prems r by (cases r) auto
  next
    case False
    then have ne: "concat rs \<noteq> []" using Cons.prems(1) by (cases rs) auto
    then have but: "butlast (concat (r # rs)) = r @ butlast (concat rs)"
      by (simp only: concat.simps butlast_append if_False)
    then have "last r \<noteq> NL" using Cons.prems(5) last_in_set[OF r] by auto
    moreover have "last (concat (r # rs)) = last (concat rs)"
      using ne by (simp only: concat.simps last_append if_False)
    then have "reads_fit b (n + length r) rs"
      using Cons.prems False but by (intro Cons.IH) simp_all
    moreover have "0 < length (concat rs)" using ne by blast
    ultimately show ?thesis using r Cons.prems(3) by (cases r) auto
  qed
qed simp

lemma fifo_pieces_fit:
  assumes "\<forall>rs \<in> set pieces. rs \<noteq> [] \<and> (\<forall>r \<in> set rs. r \<noteq> []) \<and> length (concat rs) \<le> b \<and>
      (\<exists>m. fine_message m \<and> concat rs = message m)"
  shows "reads_fit b 0 (concat pieces)"
  using assms
proof (induction pieces)
  case (Cons rs pieces)
  obtain m where m: "fine_message m" "concat rs = message m" using Cons.prems by auto
  have "last (message m) = NL" by (simp add: message_def split: prod.split)
  then have "reads_fit b 0 rs"
    using m message_line[OF m(1)] Cons.prems by (intro reads_fit_message) simp_all
  then show ?case using Cons by (simp add: reads_fit_append)
qed simp

section \<open>A newline inside a block\<close>

lemma producer_message_inner:
  assumes "int n \<le> MAXLINE" "e \<noteq> []" "last e \<noteq> NL" "length d + length e + 1 \<le> bs"
  shows "producer_message bs (int n) (d @ NL # e) = Ok (message (n, d) @ e @ [NL])"
  using assms line_prefix_length[OF assms(1)]
  by (simp add: producer_message_def Let_def message_def)

text \<open>
  A block with a newline inside is sent as one message with one prefix. If its second line
  has no colon, the consumer adds the first line and then stops with \<open>exit(1)\<close>.
\<close>

theorem fifo_inner_newline_fails:
  assumes "fine_message (n, d)" "NL \<notin> set e" "CHR '':'' \<notin> set e" "e \<noteq> []"
    and "length d + length e + 1 \<le> bs" "int bs + 12 \<le> LONG_MAX"
  shows "\<exists>msg. producer_message bs (int n) (d @ NL # e) = Ok msg \<and>
    consumer_main (msg # reads) out [''consumer'', ''fifo'', ''out'', show_nat bs] = Err (Exit_Status 1)"
proof -
  let ?msg = "message (n, d) @ e @ [NL]"
  have n: "int n \<le> MAXLINE" using assms(1) by (simp add: fine_message_def)
  have "last e \<noteq> NL" using assms(2,4) last_in_set by metis
  then have "producer_message bs (int n) (d @ NL # e) = Ok ?msg"
    using n assms(4,5) by (intro producer_message_inner)
  moreover have "find_index CHR '':'' (e @ [NL]) = None"
    using assms(3) by (simp add: find_index_None)
  then have "consume_buffer out' (e @ [NL]) = Err (Exit_Status 1)" for out'
    using find_index_at[OF assms(2), of "[]"]
    by (subst consume_buffer.simps) (simp add: Let_def)
  then have "consume_buffer out ?msg = Err (Exit_Status 1)"
    by (simp add: consume_message[OF assms(1)])
  moreover have "length ?msg \<le> bs + 12" "?msg \<noteq> []"
    using assms(5) line_prefix_length[OF n] by (simp_all add: message_def)
  then have "consumer_loop (bs + 12) (?msg # reads) [] out =
      rbind (consume_buffer out ?msg) (\<lambda>out. consumer_loop (bs + 12) reads [] out)"
    by (auto simp: Let_def)
  ultimately show ?thesis
    using parse_long_show[of bs] assms(6) by (simp add: consumer_main_def)
qed

lemma fifo_inner_newline_fails_witness:
  "\<exists>msg. producer_message 20 (int 3) (''ab'' @ NL # ''cd'') = Ok msg \<and>
    consumer_main [msg] [] [''consumer'', ''fifo'', ''out'', show_nat 20] = Err (Exit_Status 1)"
  using fifo_inner_newline_fails[of 3 "''ab''" "''cd''" 20 "[]" "[]"]
  by (simp add: fine_message_def MAXLINE_def LONG_MAX_def)

text \<open>
  If the second line looks like a message, its text goes to the line that it names.
\<close>

lemma fifo_injection:
  assumes "fine_message (n, d)" "fine_message (k, e)" "e \<noteq> []" "length d + length e + 12 \<le> bs"
  shows "\<exists>msg. producer_message bs (int n) (d @ NL # line_prefix (int k) @ e) = Ok msg \<and>
    consume_buffer out msg = Ok (add_to_line (k - 1) e (add_to_line (n - 1) d out))"
proof -
  have k: "int n \<le> MAXLINE" "int k \<le> MAXLINE" "NL \<notin> set e" using assms(1,2) by (simp_all add: fine_message_def)
  have "last e \<noteq> NL" using k(3) assms(3) last_in_set by metis
  then have "producer_message bs (int n) (d @ NL # line_prefix (int k) @ e) =
      Ok (message (n, d) @ (line_prefix (int k) @ e) @ [NL])"
    using k assms(3,4) line_prefix_length[of k] by (intro producer_message_inner) simp_all
  moreover have "message (n, d) @ (line_prefix (int k) @ e) @ [NL] = concat (map message [(n, d), (k, e)])"
    by (simp add: message_def)
  ultimately show ?thesis using consume_messages[of "[(n, d), (k, e)]" out] assms(1,2) by simp
qed

end
