(* ===== verification/Fifo_Lock.thy ===== *)
theory Fifo_Lock
  imports Fifo_Props
begin

text \<open>
  The FIFO of \<open>lab5/zad3\<close> under several producers (\<open>producer.c\<close>): each takes the file lock, waits
  until the FIFO is empty, writes one message with \<open>writeall\<close>, in as many pieces as the kernel
  likes, and releases the lock. The consumer may read at any time. \<open>fifo_wire_whole\<close> shows that
  the messages arrive whole and in an interleaving, which is what \<open>fifo_delivers\<close> of \<open>Fifo_Props\<close>
  starts from, and \<open>fifo_reads_single\<close> that a read never spans two messages.
\<close>

section \<open>The processes\<close>

text \<open>
  \<open>todo\<close> are the messages a producer still has to send, the current one first, and \<open>unsent\<close> is
  the part of that one that \<open>writeall\<close> has left.
\<close>

datatype flabel = F_Lock | F_Poll | F_Write | F_Unlock | F_Done

record sender =
  fpc :: flabel
  todo :: "string list"
  unsent :: string

text \<open>\<open>wire\<close> is all that has been written to the FIFO, of which \<open>taken\<close> bytes have been read.\<close>

record fifo =
  senders :: "sender list"
  holder :: "nat option"
  wire :: string
  taken :: nat

definition in_pipe :: "fifo \<Rightarrow> nat" where
  "in_pipe s = length (wire s) - taken s"

definition next_message :: "sender \<Rightarrow> sender" where
  "next_message p = p\<lparr>fpc := if tl (todo p) = [] then F_Done else F_Lock, todo := tl (todo p)\<rparr>"

definition start_sender :: "string list \<Rightarrow> sender" where
  "start_sender msgs = \<lparr>fpc = if msgs = [] then F_Done else F_Lock, todo = msgs, unsent = []\<rparr>"

definition start_fifo :: "string list list \<Rightarrow> fifo" where
  "start_fifo mss = \<lparr>senders = map start_sender mss, holder = None, wire = [], taken = 0\<rparr>"

text \<open>A statement of producer \<open>i\<close>; \<open>k\<close> is the number of bytes that a \<open>write\<close> takes.\<close>

definition sender_stmt :: "nat \<Rightarrow> nat \<Rightarrow> fifo \<Rightarrow> fifo option" where
  "sender_stmt i k s =
     (let p = senders s ! i; set_p = (\<lambda>p s. s\<lparr>senders := (senders s)[i := p]\<rparr>)
      in case fpc p of
          F_Lock \<Rightarrow> if holder s = None
            then Some (set_p (p\<lparr>fpc := F_Poll\<rparr>) (s\<lparr>holder := Some i\<rparr>)) else None
        | F_Poll \<Rightarrow> if in_pipe s = 0
            then Some (set_p (p\<lparr>fpc := F_Write, unsent := hd (todo p)\<rparr>) s) else None
        | F_Write \<Rightarrow>
            if unsent p = [] then Some (set_p (p\<lparr>fpc := F_Unlock\<rparr>) s)
            else if 0 < k \<and> k \<le> length (unsent p)
            then Some (set_p (p\<lparr>unsent := drop k (unsent p)\<rparr>) (s\<lparr>wire := wire s @ take k (unsent p)\<rparr>))
            else None
        | F_Unlock \<Rightarrow> Some (set_p (next_message p) (s\<lparr>holder := None\<rparr>))
        | F_Done \<Rightarrow> None)"

inductive fifo_step :: "fifo \<Rightarrow> fifo \<Rightarrow> bool" where
  sends: "i < length (senders s) \<Longrightarrow> sender_stmt i k s = Some t \<Longrightarrow> fifo_step s t"
| reads: "0 < k \<Longrightarrow> k \<le> in_pipe s \<Longrightarrow> fifo_step s (s\<lparr>taken := taken s + k\<rparr>)"

section \<open>The invariant\<close>

text \<open>What a producer has written of its current message.\<close>

fun partly :: "sender \<Rightarrow> string \<Rightarrow> bool" where
  "partly p part \<longleftrightarrow> (case fpc p of
     F_Poll \<Rightarrow> part = []
   | F_Write \<Rightarrow> hd (todo p) = part @ unsent p
   | F_Unlock \<Rightarrow> part = hd (todo p)
   | _ \<Rightarrow> False)"

text \<open>
  \<open>sent\<close> are the messages each producer has completed and \<open>ys\<close> is the order they were sent in;
  \<open>part\<close> belongs to the holder of the lock. What is still in the pipe belongs to one message.
\<close>

definition writing :: "fifo \<Rightarrow> bool" where
  "writing s \<longleftrightarrow> (case holder s of None \<Rightarrow> False | Some i \<Rightarrow> fpc (senders s ! i) \<in> {F_Write, F_Unlock})"

definition shape :: "string list list \<Rightarrow> fifo \<Rightarrow> string list list \<Rightarrow> string list \<Rightarrow> string \<Rightarrow> bool" where
  "shape mss s sent ys part \<longleftrightarrow>
     length (senders s) = length mss \<and> length sent = length mss \<and>
     (\<forall>i < length mss. mss ! i = sent ! i @ todo (senders s ! i) \<and>
        (todo (senders s ! i) = [] \<longleftrightarrow> fpc (senders s ! i) = F_Done) \<and>
        (fpc (senders s ! i) \<in> {F_Poll, F_Write, F_Unlock} \<longleftrightarrow> holder s = Some i)) \<and>
     (\<forall>i. holder s = Some i \<longrightarrow> i < length mss) \<and>
     interleaving sent ys \<and> wire s = concat ys @ part \<and>
     (case holder s of None \<Rightarrow> part = [] | Some i \<Rightarrow> partly (senders s ! i) part) \<and>
     taken s \<le> length (wire s) \<and>
     length (concat (if writing s then ys else butlast ys)) \<le> taken s"

definition fifo_inv :: "string list list \<Rightarrow> fifo \<Rightarrow> bool" where
  "fifo_inv mss s \<longleftrightarrow> (\<exists>sent ys part. shape mss s sent ys part)"

lemma start_fifo_inv: "fifo_inv mss (start_fifo mss)"
  unfolding fifo_inv_def shape_def
  by (intro exI [of _ "replicate (length mss) []"] exI [of _ "[]"])
    (auto simp: start_fifo_def start_sender_def writing_def intro: interleaving.finished)

section \<open>Every step keeps it\<close>

lemma lock_step:
  assumes "shape mss s sent ys part" "i < length mss" "fpc (senders s ! i) = F_Lock" "sender_stmt i k s = Some t"
  shows "shape mss t sent ys part"
  using assms
  by (auto simp: shape_def sender_stmt_def Let_def nth_list_update writing_def split: if_split_asm)

lemma poll_step:
  assumes "shape mss s sent ys part" "i < length mss" "fpc (senders s ! i) = F_Poll" "sender_stmt i k s = Some t"
  shows "shape mss t sent ys part"
proof -
  have h: "holder s = Some i" "part = []" using assms(1-3) by (auto simp: shape_def)
  show ?thesis using assms h
    by (auto simp: shape_def sender_stmt_def Let_def nth_list_update in_pipe_def writing_def split: if_split_asm)
qed

lemma write_step:
  assumes "shape mss s sent ys part" "i < length mss" "fpc (senders s ! i) = F_Write" "sender_stmt i k s = Some t"
  shows "shape mss t sent ys (part @ take k (unsent (senders s ! i))) \<or> shape mss t sent ys part"
proof -
  have h: "holder s = Some i" "hd (todo (senders s ! i)) = part @ unsent (senders s ! i)" "writing s"
    using assms(1-3) by (auto simp: shape_def writing_def)
  show ?thesis
  proof (cases "unsent (senders s ! i) = []")
    case True
    then have "shape mss t sent ys part" using assms h
      by (auto simp: shape_def sender_stmt_def Let_def nth_list_update writing_def split: if_split_asm)
    then show ?thesis by simp
  next
    case False
    then have "shape mss t sent ys (part @ take k (unsent (senders s ! i)))" using assms h
      by (auto simp: shape_def sender_stmt_def Let_def nth_list_update writing_def split: if_split_asm)
    then show ?thesis by simp
  qed
qed

lemma unlock_step:
  assumes "shape mss s sent ys part" "i < length mss" "fpc (senders s ! i) = F_Unlock" "sender_stmt i k s = Some t"
  shows "shape mss t (sent[i := sent ! i @ [part]]) (ys @ [part]) []"
proof -
  have h: "holder s = Some i" "hd (todo (senders s ! i)) = part" "writing s" "todo (senders s ! i) \<noteq> []"
    using assms(1-3) by (auto simp: shape_def writing_def)
  then have todo: "todo (senders s ! i) = part # tl (todo (senders s ! i))" by (metis list.collapse)
  have t: "t = s\<lparr>holder := None, senders := (senders s)[i := next_message (senders s ! i)]\<rparr>"
    using assms(3,4) by (simp add: sender_stmt_def Let_def)
  have "interleaving (sent[i := sent ! i @ [part]]) (ys @ [part])"
    using assms(1,2) by (intro interleaving_snoc) (simp_all add: shape_def)
  moreover have "mss ! j = sent[i := sent ! i @ [part]] ! j @ todo (senders t ! j)" if "j < length mss" for j
    using assms(1,2) that todo by (cases "j = i") (auto simp: shape_def t next_message_def)
  moreover have "fpc (senders s ! j) \<notin> {F_Poll, F_Write, F_Unlock}" if "j < length mss" "j \<noteq> i" for j
    using assms(1) h(1) that by (auto simp: shape_def)
  ultimately show ?thesis
    using assms(1,2) h(1,3)
    by (auto simp: shape_def t nth_list_update next_message_def writing_def)
qed

lemma fifo_inv_step:
  assumes "fifo_inv mss s" "fifo_step s t"
  shows "fifo_inv mss t"
proof -
  obtain sent ys part where s: "shape mss s sent ys part" using assms(1) by (auto simp: fifo_inv_def)
  from assms(2) show ?thesis
  proof cases
    case (sends i k)
    then have i: "i < length mss" using s by (simp add: shape_def)
    show ?thesis
    proof (cases "fpc (senders s ! i)")
      case F_Done
      then show ?thesis using sends by (simp add: sender_stmt_def Let_def)
    qed (use lock_step [OF s i _ sends(2)] poll_step [OF s i _ sends(2)] write_step [OF s i _ sends(2)]
        unlock_step [OF s i _ sends(2)] in \<open>auto simp: fifo_inv_def\<close>)
  next
    case (reads k)
    have "shape mss t sent ys part"
      using s reads by (auto simp: shape_def in_pipe_def writing_def split: option.split)
    then show ?thesis by (auto simp: fifo_inv_def)
  qed
qed

interpretation fifo_sys: transition_system "\<lambda>s. s = start_fifo mss" fifo_step "fifo_inv mss" for mss
  by unfold_locales (auto intro: fifo_inv_step start_fifo_inv)

abbreviation fifo_reaches :: "fifo \<Rightarrow> fifo \<Rightarrow> bool" where
  "fifo_reaches \<equiv> fifo_step\<^sup>*\<^sup>*"

lemma reachable_shape:
  assumes "fifo_reaches (start_fifo mss) s"
  obtains sent ys part where "shape mss s sent ys part"
  using fifo_sys.inv_reachable [of "start_fifo mss" mss s] assms by (auto simp: fifo_inv_def)

lemma fifo_wire_whole:
  assumes "fifo_reaches (start_fifo mss) s" "\<forall>p \<in> set (senders s). fpc p = F_Done"
  shows "\<exists>ms. interleaving mss ms \<and> wire s = concat ms"
proof -
  obtain sent ys part where s: "shape mss s sent ys part" using assms(1) by (rule reachable_shape)
  have over: "fpc (senders s ! i) = F_Done" if "i < length mss" for i
    using assms(2) s that by (simp add: shape_def)
  have "holder s = None" using s over by (cases "holder s") (auto simp: shape_def)
  then have "part = []" using s by (simp add: shape_def)
  moreover have "sent = mss" using s over by (intro nth_equalityI) (auto simp: shape_def)
  ultimately show ?thesis using s by (auto simp: shape_def)
qed

lemma current_message:
  assumes "shape mss s sent ys part" "holder s = Some i" "fpc (senders s ! i) \<in> {F_Write, F_Unlock}"
  obtains w where "part @ w \<in> set (concat mss)"
proof -
  have i: "i < length mss" "mss ! i = sent ! i @ todo (senders s ! i)" "todo (senders s ! i) \<noteq> []"
    using assms by (auto simp: shape_def)
  have "hd (todo (senders s ! i)) \<in> set (mss ! i)" using i(2,3) by simp
  then have "hd (todo (senders s ! i)) \<in> set (concat mss)" using i(1) by auto
  moreover obtain w where "hd (todo (senders s ! i)) = part @ w"
    using assms by (auto simp: shape_def)
  ultimately show thesis using that by metis
qed

text \<open>What can be read belongs to one message.\<close>

lemma pipe_single:
  assumes "fifo_reaches (start_fifo mss) s" "0 < in_pipe s"
  shows "\<exists>u w. u @ drop (taken s) (wire s) @ w \<in> set (concat mss)"
proof -
  obtain sent ys part where s: "shape mss s sent ys part" using assms(1) by (rule reachable_shape)
  then have wire: "wire s = concat ys @ part" "taken s \<le> length (wire s)"
    "length (concat (if writing s then ys else butlast ys)) \<le> taken s" unfolding shape_def by blast+
  show ?thesis
  proof (cases "writing s")
    case True
    then obtain i where "holder s = Some i" "fpc (senders s ! i) \<in> {F_Write, F_Unlock}"
      by (auto simp: writing_def split: option.split_asm)
    then obtain w where "part @ w \<in> set (concat mss)" by (rule current_message [OF s])
    moreover have "drop (taken s) (wire s) = drop (taken s - length (concat ys)) part" using wire True by simp
    ultimately show ?thesis
      by (metis append_assoc append_take_drop_id)
  next
    case False
    then have "part = []" using s by (auto simp: shape_def writing_def split: option.split_asm flabel.split_asm)
    then have "ys \<noteq> []" using wire assms(2) by (auto simp: in_pipe_def)
    then have ys: "concat ys = concat (butlast ys) @ last ys" "last ys \<in> set ys"
      by (metis append_butlast_last_id concat_append concat.simps append_Nil2, simp)
    have "set ys = (\<Union>xs \<in> set sent. set xs)" using s by (intro interleaving_set) (simp add: shape_def)
    then obtain xs where "xs \<in> set sent" "last ys \<in> set xs" using ys(2) by blast
    then obtain i where i: "i < length sent" "last ys \<in> set (sent ! i)" by (metis in_set_conv_nth)
    have "length sent = length mss" using s by (simp add: shape_def)
    with i have "mss ! i \<in> set mss" by simp
    moreover have "last ys \<in> set (mss ! i)" using s i by (auto simp: shape_def)
    ultimately have "last ys \<in> set (concat mss)" by auto
    moreover have "drop (taken s) (wire s) = drop (taken s - length (concat (butlast ys))) (last ys)"
      using wire False \<open>part = []\<close> ys(1) by simp
    ultimately show ?thesis by (metis append_Nil2 append_take_drop_id)
  qed
qed

text \<open>A runner of schedules: producer \<open>i\<close> with a write of \<open>k\<close> bytes, or a read of \<open>k\<close> bytes.\<close>

datatype fmove = Send nat nat | Take nat

fun fifo_run :: "fifo \<Rightarrow> fmove list \<Rightarrow> fifo option" where
  "fifo_run s [] = Some s"
| "fifo_run s (Send i k # ms) = (if i < length (senders s)
     then (case sender_stmt i k s of None \<Rightarrow> None | Some t \<Rightarrow> fifo_run t ms) else None)"
| "fifo_run s (Take k # ms) = (if 0 < k \<and> k \<le> in_pipe s then fifo_run (s\<lparr>taken := taken s + k\<rparr>) ms else None)"

lemma fifo_run_reaches: "fifo_run s ms = Some t \<Longrightarrow> fifo_reaches s t"
  by (induction s ms rule: fifo_run.induct)
    (auto split: option.split_asm if_split_asm intro: converse_rtranclp_into_rtranclp fifo_step.intros)

text \<open>A run of two producers; the messages are cut by the writes and the reads.\<close>

definition two_producers :: "producer list" where
  "two_producers = [(3, (\<lambda>_. 2), ''abc'' @ [NL]), (1, (\<lambda>_. 1), ''xy'')]"

definition two_messages :: "string list list" where
  "two_messages = [[''         3:ab'' @ [NL], ''         3:c'' @ [NL]], [''         1:x'' @ [NL], ''         1:y'' @ [NL]]]"

definition one_message :: "nat \<Rightarrow> nat \<Rightarrow> nat \<Rightarrow> fmove list" where
  "one_message i k m = [Send i 1, Send i 1, Send i k, Send i m, Send i 1, Send i 1, Take k, Take m]"

definition four_messages :: "fmove list" where
  "four_messages = one_message 0 10 4 @ one_message 1 12 1 @ one_message 0 1 12 @ one_message 1 11 2"

lemma two_outputs: "map (producer_output 30) two_producers = two_messages"
  unfolding two_producers_def two_messages_def by code_simp

definition final_fifo :: fifo where
  "final_fifo = \<lparr>senders = [\<lparr>fpc = F_Done, todo = [], unsent = []\<rparr>, \<lparr>fpc = F_Done, todo = [], unsent = []\<rparr>],
     holder = None, wire = ''         3:ab'' @ [NL] @ ''         1:x'' @ [NL] @ ''         3:c'' @ [NL] @ ''         1:y'' @ [NL],
     taken = 53\<rparr>"

lemma final_fifo_run: "fifo_run (start_fifo two_messages) four_messages = Some final_fifo"
  by code_simp

section \<open>Properties\<close>

text \<open>
  Several producers run at the same time and write files to distinct lines; the kernel takes
  their messages in any pieces. When they have all ended, and the consumer, called with the
  same block size, has read what is in the FIFO in any pieces that fit its buffer, every
  producer has ended well, and the text of each producer's file, without the final newline,
  stands at the end of its line of the output file, in one piece; every other line is what it
  was.
\<close>

theorem fifo_system_delivers:
  assumes "0 < bs" "int bs + 12 \<le> LONG_MAX"
    and "\<forall>p \<in> set ps. fine_producer p" "distinct (map fst ps)"
    and "fifo_reaches (start_fifo (map (producer_output bs) ps)) s" "\<forall>p \<in> set (senders s). fpc p = F_Done"
    and "concat reads = wire s" "reads_fit (bs + 12) 0 reads"
  shows "(\<forall>p \<in> set ps. producer_run bs p = Ok (producer_output bs p)) \<and>
    (\<exists>out'. consumer_main reads out [''consumer'', ''fifo'', ''out'', show_nat bs] = Ok out' \<and>
      (\<forall>(n, sched, inp) \<in> set ps. line_of (n - 1) out' = line_of (n - 1) out @ without_final_newline inp) \<and>
      (\<forall>k. Suc k \<notin> fst ` set ps \<longrightarrow> line_of k out' = line_of k out))"
proof -
  obtain ms where "interleaving (map (producer_output bs) ps) ms" "wire s = concat ms"
    using fifo_wire_whole [OF assms(5,6)] by blast
  then show ?thesis using fifo_delivers [OF assms(1-4)] assms(7,8) by simp
qed

definition some_reads :: "string list" where
  "some_reads = [''         3:'', ''ab'' @ [NL], ''         1:x'' @ [NL], ''         3:c'' @ [NL] @ ''         1:y'' @ [NL]]"

lemma two_fine: "\<forall>p \<in> set two_producers. fine_producer p" "distinct (map fst two_producers)"
  by (simp_all add: two_producers_def fine_producer_def MAXLINE_def)

lemma final_read: "concat some_reads = wire final_fifo" "reads_fit (30 + 12) 0 some_reads"
    "\<forall>p \<in> set (senders final_fifo). fpc p = F_Done"
  by (simp_all add: some_reads_def final_fifo_def)

theorem fifo_system_delivers_witness:
  "\<exists>out'. consumer_main some_reads (''first'' @ [NL]) [''consumer'', ''fifo'', ''out'', show_nat 30] = Ok out' \<and>
    line_of 2 out' = ''abc'' \<and> line_of 0 out' = ''firstxy'' \<and> line_of 1 out' = []"
proof -
  have reach: "fifo_reaches (start_fifo (map (producer_output 30) two_producers)) final_fifo"
    unfolding two_outputs by (rule fifo_run_reaches [OF final_fifo_run])
  have "0 < (30 :: nat)" "int 30 + 12 \<le> LONG_MAX" by (simp_all add: LONG_MAX_def)
  from fifo_system_delivers [OF this two_fine reach final_read(3,1,2), THEN conjunct2, of "''first'' @ [NL]"]
  obtain out' where out: "consumer_main some_reads (''first'' @ [NL]) [''consumer'', ''fifo'', ''out'', show_nat 30] = Ok out'"
    and own: "\<forall>(n, sched, inp) \<in> set two_producers.
      line_of (n - 1) out' = line_of (n - 1) (''first'' @ [NL]) @ without_final_newline inp"
    and other: "\<forall>k. Suc k \<notin> fst ` set two_producers \<longrightarrow> line_of k out' = line_of k (''first'' @ [NL])"
    by blast
  have "line_of 2 out' = ''abc''" "line_of 0 out' = ''firstxy''"
    using own by (simp_all add: two_producers_def without_final_newline_def numeral_2_eq_2)
  moreover have "line_of 1 out' = []" using other by (simp add: two_producers_def)
  ultimately show ?thesis using out by blast
qed

text \<open>
  The producers wait until the FIFO is empty, so what can be read at any time belongs to one
  message: no read spans two of them.
\<close>

theorem fifo_reads_single:
  assumes "fifo_reaches (start_fifo mss) s" "0 < in_pipe s"
  shows "\<exists>u w. u @ drop (taken s) (wire s) @ w \<in> set (concat mss)"
  using assms by (rule pipe_single)

definition half_fifo :: fifo where
  "half_fifo = \<lparr>senders = [\<lparr>fpc = F_Write, todo = [''         3:ab'' @ [NL], ''         3:c'' @ [NL]], unsent = '':ab'' @ [NL]\<rparr>,
      \<lparr>fpc = F_Lock, todo = [''         1:x'' @ [NL], ''         1:y'' @ [NL]], unsent = []\<rparr>],
     holder = Some 0, wire = ''         3'', taken = 4\<rparr>"

lemma half_fifo_run: "fifo_run (start_fifo two_messages) [Send 0 1, Send 0 1, Send 0 10, Take 4] = Some half_fifo"
  by code_simp

theorem fifo_reads_single_witness:
  "\<exists>u w. u @ drop (taken half_fifo) (wire half_fifo) @ w \<in> set (concat two_messages)"
  by (rule fifo_reads_single [OF fifo_run_reaches [OF half_fifo_run]]) (simp add: half_fifo_def in_pipe_def)

text \<open>The lock never blocks for good: until all producers have ended, some process can move.\<close>

theorem fifo_no_deadlock:
  assumes "fifo_reaches (start_fifo mss) s" "\<exists>p \<in> set (senders s). fpc p \<noteq> F_Done"
  shows "\<exists>t. fifo_step s t"
proof (cases "0 < in_pipe s")
  case True
  then show ?thesis using fifo_step.reads [of 1 s] by auto
next
  case empty: False
  obtain sent ys part where s: "shape mss s sent ys part" using assms(1) by (rule reachable_shape)
  have move: "\<exists>t. sender_stmt i 1 s = Some t" if "fpc (senders s ! i) \<noteq> F_Done" "holder s = None \<or> fpc (senders s ! i) \<noteq> F_Lock" for i
    using that empty by (cases "fpc (senders s ! i)") (auto simp: sender_stmt_def Let_def Suc_le_eq)
  show ?thesis
  proof (cases "holder s")
    case None
    obtain i where "i < length (senders s)" "fpc (senders s ! i) \<noteq> F_Done" using assms(2) by (auto simp: in_set_conv_nth)
    then show ?thesis using move [of i] None fifo_step.sends by blast
  next
    case (Some i)
    then have i: "i < length (senders s)" "fpc (senders s ! i) \<in> {F_Poll, F_Write, F_Unlock}"
      using s by (auto simp: shape_def)
    then have "fpc (senders s ! i) \<noteq> F_Done" "fpc (senders s ! i) \<noteq> F_Lock" by auto
    then show ?thesis using move [of i] i(1) fifo_step.sends by blast
  qed
qed

theorem fifo_no_deadlock_witness: "\<exists>t. fifo_step half_fifo t"
  by (rule fifo_no_deadlock [OF fifo_run_reaches [OF half_fifo_run]]) (simp add: half_fifo_def)

end
