(* ===== verification/Fifo_Group.thy ===== *)
theory Fifo_Group
  imports Fifo_Lock
begin

text \<open>
  Several consumers (\<open>consumer.c\<close>) on the FIFO of \<open>Fifo_Lock\<close>: each takes the lock of the output
  file, reads until the last byte it has read is a newline, adds what it read to the output
  file, and releases the lock; at the end of the FIFO it leaves the loop, still with the lock,
  which ends with the process. The FIFO has ended when all producers are through and it is empty. The
  model starts when all processes have opened the FIFO. Work on the output file is one step:
  only the holder of the lock touches it; what a consumer that fails has written of a group
  of messages is not kept.
\<close>

section \<open>The consumers\<close>

datatype consumer_pc = C_Lock | C_Read | C_Process | C_Unlock | C_End "unit result"

text \<open>\<open>cbuf\<close> is what lies between \<open>buf\<close> and \<open>p\<close>.\<close>

record consumer =
  cpc :: consumer_pc
  cbuf :: string

record fifo_group =
  pipe :: fifo
  consumers :: "consumer list"
  out_lock :: "nat option"
  out_text :: string

definition all_closed :: "fifo \<Rightarrow> bool" where
  "all_closed s \<longleftrightarrow> (\<forall>p \<in> set (senders s). fpc p = F_Done)"

definition start_group :: "string list list \<Rightarrow> nat \<Rightarrow> string \<Rightarrow> fifo_group" where
  "start_group mss m out = \<lparr>pipe = start_fifo mss, consumers = replicate m \<lparr>cpc = C_Lock, cbuf = []\<rparr>,
     out_lock = None, out_text = out\<rparr>"

text \<open>What a \<open>read\<close> of \<open>k\<close> bytes delivers.\<close>

definition pipe_bytes :: "nat \<Rightarrow> fifo \<Rightarrow> string" where
  "pipe_bytes k s = take k (drop (taken s) (wire s))"

definition set_consumer :: "nat \<Rightarrow> consumer \<Rightarrow> fifo_group \<Rightarrow> fifo_group" where
  "set_consumer c q g = g\<lparr>consumers := (consumers g)[c := q]\<rparr>"

text \<open>The process ends, and its lock with it.\<close>

definition end_consumer :: "nat \<Rightarrow> unit result \<Rightarrow> fifo_group \<Rightarrow> fifo_group" where
  "end_consumer c r g = (set_consumer c ((consumers g ! c)\<lparr>cpc := C_End r\<rparr>) g)\<lparr>out_lock := None\<rparr>"

text \<open>
  A statement of consumer \<open>c\<close>; \<open>k\<close> is the number of bytes that a \<open>read\<close> delivers. A read into a
  full buffer, or at the end of the FIFO, returns 0, and the buffer is then empty or bad.
\<close>

definition consumer_stmt :: "nat \<Rightarrow> nat \<Rightarrow> nat \<Rightarrow> fifo_group \<Rightarrow> fifo_group option" where
  "consumer_stmt bufsz c k g =
     (let q = consumers g ! c in case cpc q of
       C_Lock \<Rightarrow> if out_lock g = None
         then Some ((set_consumer c \<lparr>cpc = C_Read, cbuf = []\<rparr> g)\<lparr>out_lock := Some c\<rparr>) else None
     | C_Read \<Rightarrow>
         if length (cbuf q) = bufsz \<or> in_pipe (pipe g) = 0 \<and> all_closed (pipe g)
         then Some (end_consumer c (if cbuf q = [] then Ok () else Err (Exit_Status 1)) g)
         else if 0 < k \<and> k \<le> in_pipe (pipe g) \<and> length (cbuf q) + k \<le> bufsz
         then let b = cbuf q @ pipe_bytes k (pipe g)
           in Some ((set_consumer c \<lparr>cpc = if last b = NL then C_Process else C_Read, cbuf = b\<rparr> g)
                \<lparr>pipe := (pipe g)\<lparr>taken := taken (pipe g) + k\<rparr>\<rparr>)
         else None
     | C_Process \<Rightarrow>
         (case consume_buffer (out_text g) (cbuf q) of
            Inl e \<Rightarrow> Some (end_consumer c (Err e) g)
          | Inr out \<Rightarrow> Some ((set_consumer c (q\<lparr>cpc := C_Unlock\<rparr>) g)\<lparr>out_text := out\<rparr>))
     | C_Unlock \<Rightarrow> Some ((set_consumer c (q\<lparr>cpc := C_Lock\<rparr>) g)\<lparr>out_lock := None\<rparr>)
     | C_End r \<Rightarrow> None)"

inductive group_step :: "nat \<Rightarrow> fifo_group \<Rightarrow> fifo_group \<Rightarrow> bool" for bufsz where
  produces: "i < length (senders (pipe g)) \<Longrightarrow> sender_stmt i k (pipe g) = Some s \<Longrightarrow>
    group_step bufsz g (g\<lparr>pipe := s\<rparr>)"
| consumes: "c < length (consumers g) \<Longrightarrow> consumer_stmt bufsz c k g = Some h \<Longrightarrow> group_step bufsz g h"

section \<open>The stream of lines\<close>

definition one_line :: "string \<Rightarrow> bool" where
  "one_line l \<longleftrightarrow> l \<noteq> [] \<and> last l = NL \<and> NL \<notin> set (butlast l)"

lemma one_line_cases:
  assumes "one_line l" obtains d where "l = d @ [NL]" "NL \<notin> set d"
  using assms by (metis append_butlast_last_id one_line_def)

lemma one_line_message: "fine_message z \<Longrightarrow> one_line (message z)"
  using message_line [of z] by (simp add: one_line_def message_def split: prod.split)

lemma one_line_same: "one_line l \<Longrightarrow> one_line m \<Longrightarrow> l @ x = m @ y \<Longrightarrow> l = m \<and> x = y"
  by (elim one_line_cases) (auto simp: append_eq_append_conv2 append_eq_Cons_conv Cons_eq_append_conv)

lemma lines_aligned:
  "\<forall>l \<in> set ls. one_line l \<Longrightarrow> \<forall>l \<in> set ms. one_line l \<Longrightarrow> concat ls @ v = concat ms \<Longrightarrow>
    \<exists>rest. ms = ls @ rest \<and> v = concat rest"
proof (induction ls arbitrary: ms)
  case (Cons l ls)
  have "l \<noteq> []" using Cons.prems(1) by (simp add: one_line_def)
  then obtain m ms' where ms: "ms = m # ms'" using Cons.prems(3) by (cases ms) auto
  have "l = m \<and> concat ls @ v = concat ms'"
    using Cons.prems ms by (intro one_line_same) simp_all
  then show ?case using Cons.IH [of ms'] Cons.prems ms by auto
qed simp

lemma partial_line:
  assumes "one_line l" "b @ v = l @ w" "NL \<notin> set b"
  shows "length b < length l"
proof (rule ccontr)
  assume "\<not> length b < length l"
  then have "l = take (length l) b"
    using assms(2) by (metis append_eq_append_conv_if append_eq_conv_conj not_less take_all_iff)
  then have "set l \<subseteq> set b" by (metis set_take_subset)
  moreover have "NL \<in> set l" using assms(1) by (metis last_in_set one_line_def)
  ultimately show False using assms(3) by blast
qed

lemma part_of_line:
  assumes "one_line (u @ b @ w)"
  shows "NL \<notin> set (butlast b)"
proof (cases "b = []")
  case False
  have "butlast (u @ b @ w) = u @ (if w = [] then butlast b else b @ butlast w)"
    using False by (simp add: butlast_append)
  then show ?thesis
    using assms by (auto simp: one_line_def split: if_split_asm dest: in_set_butlastD)
qed simp

text \<open>What a buffer of \<open>bufsz\<close> bytes can take: messages of at most that length.\<close>

definition fine_wire :: "nat \<Rightarrow> string list list \<Rightarrow> bool" where
  "fine_wire bufsz mss \<longleftrightarrow>
     (\<forall>l \<in> set (concat mss). length l \<le> bufsz \<and> (\<exists>z. fine_message z \<and> l = message z))"

lemma fine_wire_line:
  assumes "fine_wire bufsz mss" "l \<in> set (concat mss)"
  shows "one_line l"
proof -
  obtain z where "fine_message z" "l = message z" using assms unfolding fine_wire_def by blast
  then show ?thesis by (simp add: one_line_message)
qed

text \<open>What has been written is the beginning of a sequence of whole messages.\<close>

lemma wire_begins:
  assumes "fifo_reaches (start_fifo mss) s"
  obtains ms w where "wire s @ w = concat ms" "set ms \<subseteq> set (concat mss)" "taken s \<le> length (wire s)"
proof -
  obtain sent ys part where s: "shape mss s sent ys part" using assms by (rule reachable_shape)
  have sent: "set xs \<subseteq> set (concat mss)" if xs: "xs \<in> set sent" for xs
  proof -
    obtain i where i: "i < length sent" "xs = sent ! i" using xs by (auto simp: in_set_conv_nth)
    have len: "length sent = length mss" using s by (simp add: shape_def)
    then have "mss ! i = xs @ todo (senders s ! i)" using s i by (auto simp: shape_def)
    moreover have "mss ! i \<in> set mss" using i(1) len by simp
    ultimately have "set (xs @ todo (senders s ! i)) \<subseteq> set (concat mss)" by (metis UN_upper set_concat)
    then show ?thesis by simp
  qed
  have "set ys = (\<Union>xs \<in> set sent. set xs)" using s by (intro interleaving_set) (simp add: shape_def)
  then have ys: "set ys \<subseteq> set (concat mss)" using sent by fast
  have wire: "wire s = concat ys @ part" "taken s \<le> length (wire s)" using s by (auto simp: shape_def)
  show thesis
  proof (cases "part = []")
    case True
    then show thesis using that [of "[]" ys] ys wire by simp
  next
    case False
    then obtain i where i: "holder s = Some i" "partly (senders s ! i) part"
      using s by (auto simp: shape_def split: option.split_asm)
    then have "fpc (senders s ! i) \<in> {F_Write, F_Unlock}"
      using False by (cases "fpc (senders s ! i)") auto
    then obtain w where "part @ w \<in> set (concat mss)" by (rule current_message [OF s i(1)])
    then show thesis using that [of w "ys @ [part @ w]"] ys wire by simp
  qed
qed

section \<open>The invariant\<close>

definition read_part :: "fifo_group \<Rightarrow> string" where
  "read_part g = (case out_lock g of None \<Rightarrow> []
     | Some c \<Rightarrow> if cpc (consumers g ! c) = C_Unlock then [] else cbuf (consumers g ! c))"

text \<open>The state of one consumer: whether it has the lock, and what is in its buffer.\<close>

definition consumer_ok :: "fifo \<Rightarrow> bool \<Rightarrow> consumer \<Rightarrow> bool" where
  "consumer_ok s has q \<longleftrightarrow> (case cpc q of
       C_Lock \<Rightarrow> \<not> has
     | C_Read \<Rightarrow> has \<and> NL \<notin> set (cbuf q)
     | C_Process \<Rightarrow> has \<and> one_line (cbuf q)
     | C_Unlock \<Rightarrow> has
     | C_End r \<Rightarrow> \<not> has \<and> r = Ok () \<and> all_closed s \<and> in_pipe s = 0)"

text \<open>The messages \<open>zs\<close> have been added to the output file.\<close>

definition group_shape :: "string list list \<Rightarrow> nat \<Rightarrow> string \<Rightarrow> fifo_group \<Rightarrow> (nat \<times> string) list \<Rightarrow> bool" where
  "group_shape mss m out g zs \<longleftrightarrow>
     fifo_reaches (start_fifo mss) (pipe g) \<and> length (consumers g) = m \<and>
     (\<forall>c. out_lock g = Some c \<longrightarrow> c < m) \<and>
     (\<forall>c < m. consumer_ok (pipe g) (out_lock g = Some c) (consumers g ! c)) \<and>
     take (taken (pipe g)) (wire (pipe g)) = concat (map message zs) @ read_part g \<and>
     (\<forall>z \<in> set zs. fine_message z) \<and> out_text g = foldl add_message out zs"

definition group_inv :: "string list list \<Rightarrow> nat \<Rightarrow> string \<Rightarrow> fifo_group \<Rightarrow> bool" where
  "group_inv mss m out g \<longleftrightarrow> (\<exists>zs. group_shape mss m out g zs)"

lemma start_group_inv: "group_inv mss m out (start_group mss m out)"
  unfolding group_inv_def group_shape_def
  by (intro exI [of _ "[]"]) (auto simp: start_group_def start_fifo_def consumer_ok_def read_part_def)

text \<open>A consumer's own step leaves the others as they are.\<close>

lemma consumers_ok_update:
  assumes "\<forall>c < m. consumer_ok s (lk = Some c) (qs ! c)" "length qs = m" "lk = None \<or> lk = Some c"
    "c < m" "consumer_ok s' (lk' = Some c) q" "lk' = None \<or> lk' = Some c"
    "all_closed s \<and> in_pipe s = 0 \<Longrightarrow> all_closed s' \<and> in_pipe s' = 0"
  shows "\<forall>d < m. consumer_ok s' (lk' = Some d) (qs[c := q] ! d)"
proof (intro allI impI)
  fix d assume d: "d < m"
  show "consumer_ok s' (lk' = Some d) (qs[c := q] ! d)"
  proof (cases "d = c")
    case True
    then show ?thesis using assms(2,4,5) by simp
  next
    case False
    then have "consumer_ok s False (qs ! d)" using assms(1,3) d by auto
    then have "consumer_ok s' False (qs ! d)"
      using assms(7) by (simp add: consumer_ok_def split: consumer_pc.splits)
    then show ?thesis using False assms(6) by auto
  qed
qed

text \<open>The buffer and what can still be read.\<close>

lemma group_stream:
  assumes "group_shape mss m out g zs" "fine_wire bufsz mss"
  obtains rest w where "read_part g @ drop (taken (pipe g)) (wire (pipe g)) @ w = concat rest"
    "set rest \<subseteq> set (concat mss)"
proof -
  have reach: "fifo_reaches (start_fifo mss) (pipe g)" using assms(1) by (simp add: group_shape_def)
  obtain ms w where ms: "wire (pipe g) @ w = concat ms" "set ms \<subseteq> set (concat mss)"
    by (rule wire_begins [OF reach])
  have "wire (pipe g) = take (taken (pipe g)) (wire (pipe g)) @ drop (taken (pipe g)) (wire (pipe g))"
    by simp
  also have "take (taken (pipe g)) (wire (pipe g)) = concat (map message zs) @ read_part g"
    using assms(1) by (simp add: group_shape_def)
  finally have "concat (map message zs) @ read_part g @ drop (taken (pipe g)) (wire (pipe g)) @ w = concat ms"
    using ms(1) by (metis append_assoc)
  moreover have "\<forall>l \<in> set (map message zs). one_line l"
    using assms(1) one_line_message by (auto simp: group_shape_def)
  moreover have "\<forall>l \<in> set ms. one_line l" using ms(2) fine_wire_line [OF assms(2)] by blast
  ultimately obtain rest where "ms = map message zs @ rest"
      "read_part g @ drop (taken (pipe g)) (wire (pipe g)) @ w = concat rest"
    using lines_aligned [of "map message zs" ms] by blast
  then show thesis using that [of w rest] ms(2) by simp
qed

text \<open>At the end of the FIFO every message has been read, and nothing of another one.\<close>

lemma closed_messages:
  assumes "group_shape mss m out g zs" "fine_wire bufsz mss" "in_pipe (pipe g) = 0 \<and> all_closed (pipe g)"
  obtains ms rest where "interleaving mss ms" "ms = map message zs @ rest" "read_part g = concat rest"
proof -
  have reach: "fifo_reaches (start_fifo mss) (pipe g)"
    and taken: "take (taken (pipe g)) (wire (pipe g)) = concat (map message zs) @ read_part g"
    and zs: "\<forall>l \<in> set (map message zs). one_line l"
    using assms(1) one_line_message by (auto simp: group_shape_def)
  obtain ms where ms: "interleaving mss ms" "wire (pipe g) = concat ms"
    using fifo_wire_whole [OF reach] assms(3) by (auto simp: all_closed_def)
  have "length (wire (pipe g)) \<le> taken (pipe g)" using assms(3) by (simp add: in_pipe_def)
  then have "concat (map message zs) @ read_part g = concat ms" using taken ms(2) by simp
  moreover have "\<forall>l \<in> set ms. one_line l"
    using interleaving_set [OF ms(1)] fine_wire_line [OF assms(2)] by auto
  ultimately show thesis using lines_aligned [OF zs] ms(1) that by blast
qed

lemma read_part_end:
  assumes "group_shape mss m out g zs" "fine_wire bufsz mss" "in_pipe (pipe g) = 0 \<and> all_closed (pipe g)"
    and "NL \<notin> set (read_part g)"
  shows "read_part g = []"
proof -
  obtain ms rest where ms: "interleaving mss ms" "ms = map message zs @ rest" "read_part g = concat rest"
    by (rule closed_messages [OF assms(1-3)])
  have "rest = []"
  proof (cases rest)
    case (Cons l ls)
    then have "l \<in> set (concat mss)" using ms(2) interleaving_set [OF ms(1)] by auto
    then have "one_line l" by (rule fine_wire_line [OF assms(2)])
    then have "NL \<in> set l" by (metis last_in_set one_line_def)
    then show ?thesis using assms(4) ms(3) Cons by simp
  qed
  then show ?thesis using ms(3) by simp
qed

lemma read_part_short:
  assumes "group_shape mss m out g zs" "fine_wire bufsz mss" "NL \<notin> set (read_part g)" "0 < bufsz"
  shows "length (read_part g) < bufsz"
proof (cases "read_part g = []")
  case False
  obtain rest w where r: "read_part g @ drop (taken (pipe g)) (wire (pipe g)) @ w = concat rest"
      "set rest \<subseteq> set (concat mss)"
    by (rule group_stream [OF assms(1,2)])
  then obtain l ls where l: "rest = l # ls" using False by (cases rest) auto
  then have "l \<in> set (concat mss)" using r(2) by simp
  then have "one_line l" "length l \<le> bufsz"
    using fine_wire_line [OF assms(2)] assms(2) unfolding fine_wire_def by blast+
  then show ?thesis using partial_line [of l "read_part g" _ "concat ls"] r(1) l assms(3) by fastforce
qed (use assms(4) in simp)

text \<open>A whole line in the buffer is a message.\<close>

lemma read_part_message:
  assumes "group_shape mss m out g zs" "fine_wire bufsz mss" "one_line (read_part g)"
  obtains z where "fine_message z" "read_part g = message z"
proof -
  obtain rest w where r: "read_part g @ drop (taken (pipe g)) (wire (pipe g)) @ w = concat rest"
      "set rest \<subseteq> set (concat mss)"
    by (rule group_stream [OF assms(1,2)])
  have "\<forall>l \<in> set rest. one_line l" using r(2) fine_wire_line [OF assms(2)] by blast
  then obtain ls where "rest = [read_part g] @ ls"
    using lines_aligned [of "[read_part g]" rest "drop (taken (pipe g)) (wire (pipe g)) @ w"] assms(3) r(1)
    by auto
  then have "read_part g \<in> set (concat mss)" using r(2) by simp
  then show thesis using that assms(2) unfolding fine_wire_def by blast
qed

section \<open>Every step keeps it\<close>

lemma sender_stmt_wire:
  "sender_stmt i k s = Some t \<Longrightarrow> taken t = taken s \<and> (\<exists>w. wire t = wire s @ w)"
  by (auto simp: sender_stmt_def Let_def split: flabel.split_asm if_split_asm)

lemma closed_no_stmt: "all_closed s \<Longrightarrow> i < length (senders s) \<Longrightarrow> sender_stmt i k s = None"
  by (simp add: all_closed_def sender_stmt_def Let_def)

lemma produces_keeps:
  assumes "group_shape mss m out g zs" "i < length (senders (pipe g))" "sender_stmt i k (pipe g) = Some s"
  shows "group_shape mss m out (g\<lparr>pipe := s\<rparr>) zs"
proof -
  have "fifo_step (pipe g) s" using assms(2,3) by (rule fifo_step.sends)
  moreover have "fifo_reaches (start_fifo mss) (pipe g)" using assms(1) by (simp add: group_shape_def)
  ultimately have reach: "fifo_reaches (start_fifo mss) s" by simp
  have "taken (pipe g) \<le> length (wire (pipe g))"
    using wire_begins \<open>fifo_reaches (start_fifo mss) (pipe g)\<close> by metis
  then have "take (taken s) (wire s) = take (taken (pipe g)) (wire (pipe g))"
    using sender_stmt_wire [OF assms(3)] by auto
  moreover have "\<not> all_closed (pipe g)" using closed_no_stmt assms(2,3) by auto
  then have "consumer_ok (pipe g) b q \<Longrightarrow> consumer_ok s b q" for b q
    by (simp add: consumer_ok_def split: consumer_pc.splits)
  moreover have "read_part (g\<lparr>pipe := s\<rparr>) = read_part g" by (simp add: read_part_def split: option.split)
  ultimately show ?thesis
    using assms(1) reach unfolding group_shape_def by simp
qed

lemma holder_consumer:
  assumes "group_shape mss m out g zs" "c < m" "cpc (consumers g ! c) \<in> {C_Read, C_Process, C_Unlock}"
  shows "out_lock g = Some c"
  using assms by (auto simp: group_shape_def consumer_ok_def)

lemma group_shape_consumer:
  assumes "group_shape mss m out g zs" "c < m"
  shows "consumer_ok (pipe g) (out_lock g = Some c) (consumers g ! c)"
  using assms by (simp add: group_shape_def)

text \<open>How the state after a step of consumer \<open>c\<close> is put together.\<close>

lemma group_shapeI:
  assumes "group_shape mss m out g zs" "c < m" "out_lock g = None \<or> out_lock g = Some c"
    and "consumers h = (consumers g)[c := q]" "out_lock h = None \<or> out_lock h = Some c"
    and "consumer_ok (pipe h) (out_lock h = Some c) q"
    and "fifo_reaches (pipe g) (pipe h)"
      "all_closed (pipe g) \<and> in_pipe (pipe g) = 0 \<Longrightarrow> all_closed (pipe h) \<and> in_pipe (pipe h) = 0"
    and "take (taken (pipe h)) (wire (pipe h)) = concat (map message zs') @ read_part h"
    and "\<forall>z \<in> set zs'. fine_message z" "out_text h = foldl add_message out zs'"
  shows "group_shape mss m out h zs'"
proof -
  have g: "fifo_reaches (start_fifo mss) (pipe g)" "length (consumers g) = m"
      "\<forall>d < m. consumer_ok (pipe g) (out_lock g = Some d) (consumers g ! d)"
    using assms(1) by (simp_all add: group_shape_def)
  have "\<forall>d < m. consumer_ok (pipe h) (out_lock h = Some d) (consumers h ! d)"
    unfolding assms(4) by (rule consumers_ok_update [OF g(3,2) assms(3,2,6,5,8)])
  moreover have "fifo_reaches (start_fifo mss) (pipe h)" using g(1) assms(7) by (rule rtranclp_trans)
  ultimately show ?thesis
    using assms(2,4,5,9-11) g(2) by (auto simp: group_shape_def)
qed

text \<open>The four program points.\<close>

lemma lock_keeps:
  assumes g: "group_shape mss m out g zs" "c < m" "cpc (consumers g ! c) = C_Lock"
    and h: "consumer_stmt bufsz c k g = Some h"
  shows "group_shape mss m out h zs"
proof -
  have free: "out_lock g = None"
    and h: "h = (set_consumer c \<lparr>cpc = C_Read, cbuf = []\<rparr> g)\<lparr>out_lock := Some c\<rparr>"
    using h g(3) by (simp_all add: consumer_stmt_def Let_def split: if_split_asm)
  have "read_part h = read_part g"
    using free g by (simp add: h read_part_def set_consumer_def group_shape_def)
  then show ?thesis
    using g free by (intro group_shapeI [OF g(1,2), where q = "\<lparr>cpc = C_Read, cbuf = []\<rparr>"])
      (simp_all add: h set_consumer_def consumer_ok_def group_shape_def)
qed

lemma unlock_keeps:
  assumes g: "group_shape mss m out g zs" "c < m" "cpc (consumers g ! c) = C_Unlock"
    and h: "consumer_stmt bufsz c k g = Some h"
  shows "group_shape mss m out h zs"
proof -
  have has: "out_lock g = Some c" using holder_consumer [OF g(1,2)] g(3) by simp
  have h: "h = (set_consumer c ((consumers g ! c)\<lparr>cpc := C_Lock\<rparr>) g)\<lparr>out_lock := None\<rparr>"
    using h g(3) by (simp add: consumer_stmt_def Let_def)
  have "read_part h = read_part g" using has g by (simp add: h read_part_def set_consumer_def)
  then show ?thesis
    using g has by (intro group_shapeI [OF g(1,2), where q = "(consumers g ! c)\<lparr>cpc := C_Lock\<rparr>"])
      (simp_all add: h set_consumer_def consumer_ok_def group_shape_def)
qed

lemma process_keeps:
  assumes g: "group_shape mss m out g zs" "c < m" "cpc (consumers g ! c) = C_Process"
    and h: "consumer_stmt bufsz c k g = Some h" and fine: "fine_wire bufsz mss"
  shows "\<exists>z. group_shape mss m out h (zs @ [z])"
proof -
  have has: "out_lock g = Some c" using holder_consumer [OF g(1,2)] g(3) by simp
  have read_part: "read_part g = cbuf (consumers g ! c)" using has g(3) by (simp add: read_part_def)
  have "one_line (read_part g)"
    using group_shape_consumer [OF g(1,2)] g(3) read_part by (simp add: consumer_ok_def)
  then obtain z where z: "fine_message z" "read_part g = message z"
    by (rule read_part_message [OF g(1) fine])
  then have "consume_buffer (out_text g) (cbuf (consumers g ! c)) = Ok (add_message (out_text g) z)"
    using consume_messages [of "[z]" "out_text g"] read_part by simp
  then have h: "h = (set_consumer c ((consumers g ! c)\<lparr>cpc := C_Unlock\<rparr>) g)\<lparr>out_text := add_message (out_text g) z\<rparr>"
    using h g(3) by (simp add: consumer_stmt_def Let_def)
  have "c < length (consumers g)" using g(1,2) by (simp add: group_shape_def)
  then have "read_part h = []" using has by (simp add: h read_part_def set_consumer_def)
  then have "group_shape mss m out h (zs @ [z])"
    using g has z by (intro group_shapeI [OF g(1,2), where q = "(consumers g ! c)\<lparr>cpc := C_Unlock\<rparr>"])
      (simp_all add: h set_consumer_def consumer_ok_def group_shape_def)
  then show ?thesis ..
qed

lemma read_keeps:
  assumes g: "group_shape mss m out g zs" "c < m" "cpc (consumers g ! c) = C_Read"
    and h: "consumer_stmt bufsz c k g = Some h" and fine: "fine_wire bufsz mss" "0 < bufsz"
  shows "group_shape mss m out h zs"
proof -
  have has: "out_lock g = Some c" using holder_consumer [OF g(1,2)] g(3) by simp
  have len: "c < length (consumers g)" using g(1,2) by (simp add: group_shape_def)
  have read_part: "read_part g = cbuf (consumers g ! c)" using has g(3) by (simp add: read_part_def)
  have nl: "NL \<notin> set (read_part g)"
    using group_shape_consumer [OF g(1,2)] g(3) read_part by (simp add: consumer_ok_def)
  have short: "length (cbuf (consumers g ! c)) < bufsz"
    using read_part_short [OF g(1) fine(1) nl fine(2)] read_part by simp
  have reach: "fifo_reaches (start_fifo mss) (pipe g)"
    and taken: "take (taken (pipe g)) (wire (pipe g)) = concat (map message zs) @ read_part g"
    using g(1) by (simp_all add: group_shape_def)
  show ?thesis
  proof (cases "in_pipe (pipe g) = 0 \<and> all_closed (pipe g)")
    case True
    have "read_part g = []" by (rule read_part_end [OF g(1) fine(1) True nl])
    then have h: "h = end_consumer c (Ok ()) g"
      using h g(3) True read_part by (simp add: consumer_stmt_def Let_def)
    have "read_part h = read_part g" using \<open>read_part g = []\<close> by (simp add: h read_part_def end_consumer_def)
    then show ?thesis
      using g has True by (intro group_shapeI [OF g(1,2), where q = "(consumers g ! c)\<lparr>cpc := C_End (Ok ())\<rparr>"])
        (simp_all add: h end_consumer_def set_consumer_def consumer_ok_def group_shape_def)
  next
    case False
    let ?d = "pipe_bytes k (pipe g)"
    let ?b = "read_part g @ ?d"
    have k: "0 < k" "k \<le> in_pipe (pipe g)"
      and h: "h = (set_consumer c \<lparr>cpc = if last ?b = NL then C_Process else C_Read, cbuf = ?b\<rparr> g)
                \<lparr>pipe := (pipe g)\<lparr>taken := taken (pipe g) + k\<rparr>\<rparr>"
      using h g(3) False short read_part
      by (auto simp add: consumer_stmt_def Let_def split: if_split_asm)
    have step: "fifo_step (pipe g) (pipe h)" using fifo_step.reads [OF k] by (simp add: h)
    obtain u w where uw: "u @ drop (taken (pipe g)) (wire (pipe g)) @ w \<in> set (concat mss)"
      using pipe_single [OF reach] k by auto
    obtain v where "drop (taken (pipe g)) (wire (pipe g)) = ?d @ v"
      by (metis append_take_drop_id pipe_bytes_def)
    then have "one_line (u @ ?d @ v @ w)" using fine_wire_line [OF fine(1) uw] by simp
    then have "NL \<notin> set (butlast ?d)" by (rule part_of_line)
    moreover have "?d \<noteq> []" using k by (auto simp: pipe_bytes_def in_pipe_def)
    ultimately have b: "?b \<noteq> []" "NL \<notin> set (butlast ?b)" using nl by (simp_all add: butlast_append)
    have ok: "consumer_ok (pipe h) (out_lock h = Some c) \<lparr>cpc = if last ?b = NL then C_Process else C_Read, cbuf = ?b\<rparr>"
    proof (cases "last ?b = NL")
      case True
      then show ?thesis using b has by (simp add: h consumer_ok_def one_line_def set_consumer_def)
    next
      case noline: False
      have "set ?b = insert (last ?b) (set (butlast ?b))"
        using b(1) by (metis append_butlast_last_id insert_is_Un list.simps(15) set_append sup_commute empty_set)
      then show ?thesis using b noline has by (simp add: h consumer_ok_def set_consumer_def)
    qed
    have "read_part h = ?b" using has len by (simp add: h read_part_def set_consumer_def)
    then have "take (taken (pipe h)) (wire (pipe h)) = concat (map message zs) @ read_part h"
      using taken by (simp add: h take_add pipe_bytes_def)
    moreover have a: "consumers h = (consumers g)[c := \<lparr>cpc = if last ?b = NL then C_Process else C_Read, cbuf = ?b\<rparr>]"
      and lk: "out_lock h = Some c" and otxt: "out_text h = out_text g"
      using has by (simp_all add: h set_consumer_def)
    ultimately show ?thesis
      by (intro group_shapeI [OF g(1,2) _ a _ ok])
        (use has g(1) False step in \<open>simp_all add: group_shape_def r_into_rtranclp\<close>)
  qed
qed

lemma group_inv_step:
  assumes "group_inv mss m out g" "group_step bufsz g h" "fine_wire bufsz mss" "0 < bufsz"
  shows "group_inv mss m out h"
proof -
  obtain zs where g: "group_shape mss m out g zs" using assms(1) by (auto simp: group_inv_def)
  from assms(2) show ?thesis
  proof cases
    case (produces i k s)
    then show ?thesis using produces_keeps [OF g] by (auto simp: group_inv_def)
  next
    case (consumes c k)
    have c: "c < m" using consumes(1) g by (simp add: group_shape_def)
    show ?thesis
    proof (cases "cpc (consumers g ! c)")
      case (C_End r)
      then show ?thesis using consumes(2) by (simp add: consumer_stmt_def Let_def)
    qed (use lock_keeps [OF g c _ consumes(2)] read_keeps [OF g c _ consumes(2) assms(3,4)]
        process_keeps [OF g c _ consumes(2) assms(3)] unlock_keeps [OF g c _ consumes(2)]
        in \<open>auto simp: group_inv_def\<close>)
  qed
qed

interpretation fifo_consumers: transition_system
    "\<lambda>g. g = start_group mss m out \<and> fine_wire bufsz mss \<and> 0 < bufsz" "group_step bufsz"
    "\<lambda>g. group_inv mss m out g \<and> fine_wire bufsz mss \<and> 0 < bufsz" for mss m out bufsz
  by unfold_locales (auto intro: group_inv_step start_group_inv)

lemma reachable_group:
  assumes "(group_step bufsz)\<^sup>*\<^sup>* (start_group mss m out) g" "fine_wire bufsz mss" "0 < bufsz"
  obtains zs where "group_shape mss m out g zs"
  using fifo_consumers.inv_reachable [where mss = mss and m = m and out = out and bufsz = bufsz
      and s = "start_group mss m out" and t = g] assms
  by (auto simp: group_inv_def)

section \<open>They never wait for each other in vain\<close>

definition all_ended :: "fifo_group \<Rightarrow> bool" where
  "all_ended g \<longleftrightarrow> all_closed (pipe g) \<and> (\<forall>q \<in> set (consumers g). cpc q = C_End (Ok ()))"

text \<open>A consumer can move when there is something to read, or nothing will ever be.\<close>

lemma consumer_moves:
  assumes "group_shape mss m out g zs" "fine_wire bufsz mss" "0 < bufsz" "c < m"
    and "out_lock g = None \<and> cpc (consumers g ! c) = C_Lock \<or> out_lock g = Some c"
    and "0 < in_pipe (pipe g) \<or> all_closed (pipe g)"
  shows "\<exists>h. group_step bufsz g h"
proof -
  have ok: "consumer_ok (pipe g) (out_lock g = Some c) (consumers g ! c)"
    by (rule group_shape_consumer [OF assms(1,4)])
  have short: "length (cbuf (consumers g ! c)) < bufsz" if "cpc (consumers g ! c) = C_Read"
  proof -
    have "out_lock g = Some c" using that assms(5) by auto
    then have "read_part g = cbuf (consumers g ! c)" using that by (simp add: read_part_def)
    moreover have "NL \<notin> set (cbuf (consumers g ! c))" using ok that by (simp add: consumer_ok_def)
    ultimately show ?thesis using read_part_short [OF assms(1,2)] assms(3) by simp
  qed
  have "\<exists>h. consumer_stmt bufsz c 1 g = Some h"
    using ok assms(5,6) short
    by (cases "cpc (consumers g ! c)")
      (auto simp: consumer_stmt_def consumer_ok_def Let_def Suc_le_eq split: sum.split)
  moreover have "c < length (consumers g)" using assms(1,4) by (simp add: group_shape_def)
  ultimately show ?thesis using group_step.consumes by blast
qed

lemma group_moves:
  assumes "group_shape mss m out g zs" "fine_wire bufsz mss" "0 < bufsz" "0 < m" "\<not> all_ended g"
  shows "\<exists>h. group_step bufsz g h"
proof (cases "0 < in_pipe (pipe g) \<or> all_closed (pipe g)")
  case True
  have len: "length (consumers g) = m" using assms(1) by (simp add: group_shape_def)
  show ?thesis
  proof (cases "out_lock g")
    case (Some c)
    then have "c < m" using assms(1) by (simp add: group_shape_def)
    then show ?thesis using consumer_moves [OF assms(1-3)] True Some by blast
  next
    case None
    have "\<exists>c < m. cpc (consumers g ! c) = C_Lock"
    proof (rule ccontr)
      assume no: "\<not> (\<exists>c < m. cpc (consumers g ! c) = C_Lock)"
      have ended: "cpc (consumers g ! c) = C_End (Ok ()) \<and> all_closed (pipe g) \<and> in_pipe (pipe g) = 0"
        if "c < m" for c
        using group_shape_consumer [OF assms(1) that] None no that
        by (cases "cpc (consumers g ! c)") (auto simp: consumer_ok_def)
      then have "all_ended g" using assms(4) len by (auto simp: all_ended_def in_set_conv_nth)
      then show False using assms(5) by simp
    qed
    then show ?thesis using consumer_moves [OF assms(1-3)] True None by blast
  qed
next
  case False
  have reach: "fifo_reaches (start_fifo mss) (pipe g)" using assms(1) by (simp add: group_shape_def)
  obtain s where "fifo_step (pipe g) s"
    using fifo_no_deadlock [OF reach] False by (auto simp: all_closed_def)
  then show ?thesis
  proof cases
    case (sends i k)
    then show ?thesis using group_step.produces by blast
  qed (use False in simp)
qed

section \<open>Every run ends\<close>

text \<open>
  What is left to do: a byte weighs more before it is written than in the FIFO, and there more
  than a consumer's turn.
\<close>

definition todo_load :: "string list \<Rightarrow> nat" where
  "todo_load ls = (\<Sum>l\<leftarrow>ls. 5 * length l + 4)"

definition sender_load :: "sender \<Rightarrow> nat" where
  "sender_load p = (case fpc p of
       F_Lock \<Rightarrow> todo_load (todo p)
     | F_Poll \<Rightarrow> 5 * length (hd (todo p)) + 3 + todo_load (tl (todo p))
     | F_Write \<Rightarrow> 5 * length (unsent p) + 2 + todo_load (tl (todo p))
     | F_Unlock \<Rightarrow> 1 + todo_load (tl (todo p))
     | F_Done \<Rightarrow> 0)"

definition consumer_load :: "consumer \<Rightarrow> nat" where
  "consumer_load q = (case cpc q of C_Lock \<Rightarrow> 2 | C_Read \<Rightarrow> 1 | C_Process \<Rightarrow> 4 | C_Unlock \<Rightarrow> 3 | C_End r \<Rightarrow> 0)"

definition group_load :: "fifo_group \<Rightarrow> nat" where
  "group_load g = (\<Sum>p\<leftarrow>senders (pipe g). sender_load p) + 4 * in_pipe (pipe g) +
     (\<Sum>q\<leftarrow>consumers g. consumer_load q)"

lemma todo_load_simps [simp]:
  "todo_load [] = 0" "todo_load (l # ls) = 5 * length l + 4 + todo_load ls"
  "todo_load (ls @ ms) = todo_load ls + todo_load ms"
  by (simp_all add: todo_load_def)

lemma sender_stmt_load:
  assumes "fifo_reaches (start_fifo mss) s" "i < length (senders s)" "sender_stmt i k s = Some t"
  shows "(\<Sum>p\<leftarrow>senders t. sender_load p) + 4 * in_pipe t < (\<Sum>p\<leftarrow>senders s. sender_load p) + 4 * in_pipe s"
proof -
  obtain sent ys part where s: "shape mss s sent ys part" using assms(1) by (rule reachable_shape)
  let ?p = "senders s ! i"
  have todo: "todo ?p = [] \<longleftrightarrow> fpc ?p = F_Done" using s assms(2) by (simp add: shape_def)
  have taken: "taken s \<le> length (wire s)" using s unfolding shape_def by blast
  have "\<exists>p. senders t = (senders s)[i := p] \<and> sender_load p + 4 * in_pipe t < sender_load ?p + 4 * in_pipe s"
  proof (cases "fpc ?p")
    case F_Write
    then show ?thesis using assms(3) taken
      by (auto simp: sender_stmt_def Let_def sender_load_def in_pipe_def split: if_split_asm)
  next
    case F_Done
    then show ?thesis using assms(3) by (simp add: sender_stmt_def Let_def)
  qed (use assms(3) todo in \<open>cases "todo ?p"; auto simp: sender_stmt_def Let_def sender_load_def in_pipe_def
        next_message_def split: if_split_asm\<close>)+
  then obtain p where "senders t = (senders s)[i := p]" "sender_load p + 4 * in_pipe t < sender_load ?p + 4 * in_pipe s"
    by blast
  then show ?thesis using sum_list_map_update [OF assms(2), of sender_load p] by simp
qed

lemma consumer_stmt_load:
  assumes "c < length (consumers g)" "consumer_stmt bufsz c k g = Some h"
  shows "senders (pipe h) = senders (pipe g) \<and>
    4 * in_pipe (pipe h) + (\<Sum>q\<leftarrow>consumers h. consumer_load q) <
      4 * in_pipe (pipe g) + (\<Sum>q\<leftarrow>consumers g. consumer_load q)"
proof -
  have "senders (pipe h) = senders (pipe g) \<and> (\<exists>q. consumers h = (consumers g)[c := q] \<and>
      4 * in_pipe (pipe h) + consumer_load q < 4 * in_pipe (pipe g) + consumer_load (consumers g ! c))"
    using assms(2)
    by (auto simp: consumer_stmt_def Let_def consumer_load_def set_consumer_def end_consumer_def in_pipe_def
        split: consumer_pc.split_asm if_split_asm sum.split_asm)
  then obtain q where "senders (pipe h) = senders (pipe g)" "consumers h = (consumers g)[c := q]"
      "4 * in_pipe (pipe h) + consumer_load q < 4 * in_pipe (pipe g) + consumer_load (consumers g ! c)"
    by blast
  then show ?thesis using sum_list_map_update [OF assms(1), of consumer_load q] by simp
qed

lemma group_step_load:
  assumes "group_inv mss m out g" "group_step bufsz g h"
  shows "group_load h < group_load g"
  using assms(2)
proof cases
  case (produces i k s)
  have "fifo_reaches (start_fifo mss) (pipe g)" using assms(1) by (auto simp: group_inv_def group_shape_def)
  then show ?thesis using sender_stmt_load [OF _ produces(2,3)] produces(1) by (simp add: group_load_def)
next
  case (consumes c k)
  then show ?thesis using consumer_stmt_load [OF consumes] by (simp add: group_load_def)
qed

lemma start_group_load: "group_load (start_group mss m out) = 2 * m + todo_load (concat mss)"
proof -
  have "(\<Sum>p\<leftarrow>map start_sender mss. sender_load p) = todo_load (concat mss)"
    by (induction mss) (simp_all add: start_sender_def sender_load_def)
  then show ?thesis
    by (simp add: group_load_def start_group_def start_fifo_def in_pipe_def consumer_load_def
        sum_list_replicate)
qed

lemma group_steps_load:
  assumes "(group_step bufsz ^^ n) (start_group mss m out) g" "fine_wire bufsz mss" "0 < bufsz"
  shows "n + group_load g \<le> group_load (start_group mss m out)"
  using assms(1)
proof (induction n arbitrary: g)
  case (Suc n)
  then obtain f where f: "(group_step bufsz ^^ n) (start_group mss m out) f" "group_step bufsz f g" by auto
  have "(group_step bufsz)\<^sup>*\<^sup>* (start_group mss m out) f" using f(1) by (rule relpowp_imp_rtranclp)
  then obtain zs where "group_shape mss m out f zs" using assms(2,3) by (rule reachable_group)
  then have "group_load g < group_load f"
    using group_step_load [of mss m out f bufsz g] f(2) by (auto simp: group_inv_def)
  then show ?case using Suc.IH [OF f(1)] by simp
qed simp

section \<open>What the producers send fits the buffer\<close>

lemma producer_loop_lengths:
  "producer_loop bs n sched inp msgs = Ok ms \<Longrightarrow> \<forall>l \<in> set msgs. length l \<le> bs + 12 \<Longrightarrow>
    \<forall>l \<in> set ms. length l \<le> bs + 12"
proof (induction "length inp" arbitrary: inp msgs rule: less_induct)
  case less
  define k where "k = min (min bs (length inp)) (max 1 (sched (length inp)))"
  note eq = less.prems(1) [unfolded producer_loop.simps [of bs n sched inp msgs] k_def [symmetric] Let_def]
  show ?case
  proof (cases "k = 0")
    case True
    then show ?thesis using eq less.prems(2) by simp
  next
    case False
    then obtain m where m: "producer_message bs n (take k inp) = Ok m"
        "producer_loop bs n sched (drop k inp) (msgs @ [m]) = Ok ms"
      using eq by (cases "producer_message bs n (take k inp)") auto
    have "length m \<le> bs + 12" using m(1) by (auto simp: producer_message_def Let_def split: if_split_asm)
    moreover have "length (drop k inp) < length inp" using False by (auto simp: k_def)
    ultimately show ?thesis using less.hyps [OF _ m(2)] less.prems(2) by auto
  qed
qed

lemma producer_run_lengths:
  assumes "producer_run bs p = Ok ms" "l \<in> set ms" "int bs + 12 \<le> LONG_MAX"
  shows "length l \<le> bs + 12"
proof -
  obtain n sched inp where p: "p = (n, sched, inp)" by (cases p)
  have "parse_long (show_nat bs) = Some (int bs)" using assms(3) by (intro parse_long_show) simp
  then obtain k where "producer_loop bs k sched inp [] = Ok ms"
    using assms(1)
    by (auto simp: p producer_run_def producer_main_def c_assert_def split: option.split_asm if_split_asm)
  then show ?thesis using producer_loop_lengths assms(2) by fastforce
qed

lemma producers_fine_wire:
  assumes "0 < bs" "int bs + 12 \<le> LONG_MAX" "\<forall>p \<in> set ps. fine_producer p"
  shows "fine_wire (bs + 12) (map (producer_output bs) ps)"
proof -
  have "length l \<le> bs + 12 \<and> (\<exists>z. fine_message z \<and> l = message z)"
    if p: "p \<in> set ps" "l \<in> set (producer_output bs p)" for p l
  proof -
    have fine: "fine_producer p" using assms(3) p(1) by blast
    then obtain ds where ds: "producer_run bs p = Ok (producer_output bs p)"
        "producer_output bs p = map message (map (Pair (fst p)) ds)" "\<forall>d \<in> set ds. NL \<notin> set d"
      using producer_run_messages [OF _ assms(1,2)] by metis
    then obtain d where d: "d \<in> set ds" "l = message (fst p, d)" using p(2) by auto
    have "fine_message (fst p, d)"
      using fine ds(3) d(1) by (auto simp: fine_message_def fine_producer_def split: prod.split_asm)
    then show ?thesis using producer_run_lengths [OF ds(1) p(2) assms(2)] d(2) by blast
  qed
  then show ?thesis by (auto simp: fine_wire_def)
qed

section \<open>When all have ended\<close>

lemma group_final:
  assumes "group_shape mss m out g zs" "fine_wire bufsz mss" "0 < m" "all_ended g"
  shows "interleaving mss (map message zs)"
proof -
  have len: "length (consumers g) = m" using assms(1) by (simp add: group_shape_def)
  have ended: "cpc (consumers g ! c) = C_End (Ok ())" if "c < m" for c
    using assms(4) len that by (simp add: all_ended_def)
  have closed: "in_pipe (pipe g) = 0 \<and> all_closed (pipe g)"
    using group_shape_consumer [OF assms(1,3)] ended [OF assms(3)] by (simp add: consumer_ok_def)
  have "out_lock g = None"
  proof (cases "out_lock g")
    case (Some c)
    then have "c < m" using assms(1) by (simp add: group_shape_def)
    then show ?thesis
      using group_shape_consumer [OF assms(1), of c] ended [of c] Some by (simp add: consumer_ok_def)
  qed
  then have nil: "read_part g = []" by (simp add: read_part_def)
  obtain ms rest where ms: "interleaving mss ms" "ms = map message zs @ rest" "read_part g = concat rest"
    by (rule closed_messages [OF assms(1,2) closed])
  have "rest = []"
  proof (cases rest)
    case (Cons l ls)
    then have "l \<in> set (concat mss)" using ms(2) interleaving_set [OF ms(1)] by auto
    then have "one_line l" by (rule fine_wire_line [OF assms(2)])
    then show ?thesis using nil ms(3) Cons by (simp add: one_line_def)
  qed
  then show ?thesis using ms by simp
qed

lemma ended_no_step: "all_ended g \<Longrightarrow> \<not> group_step bufsz g h"
  by (auto simp: all_ended_def consumer_stmt_def closed_no_stmt elim!: group_step.cases)

text \<open>One consumer alone, reading message by message, would leave the same file.\<close>

lemma consumer_main_messages:
  assumes "int bs + 12 \<le> LONG_MAX" "\<forall>z \<in> set zs. fine_message z \<and> length (message z) \<le> bs + 12"
  shows "reads_fit (bs + 12) 0 (map message zs)"
    "consumer_main (map message zs) out [''consumer'', ''fifo'', ''out'', show_nat bs] = Ok (foldl add_message out zs)"
proof -
  have "map message zs = concat (map (\<lambda>z. [message z]) zs)" by (induction zs) simp_all
  moreover have "reads_fit (bs + 12) 0 (concat (map (\<lambda>z. [message z]) zs))"
    using assms(2) message_line by (intro fifo_pieces_fit) fastforce
  ultimately show fit: "reads_fit (bs + 12) 0 (map message zs)" by simp
  have "consumer_loop (bs + 12) (map message zs) [] out = Ok (foldl add_message out zs)"
    using fit assms(2) by (intro consumer_loop_messages) simp_all
  then show "consumer_main (map message zs) out [''consumer'', ''fifo'', ''out'', show_nat bs] =
      Ok (foldl add_message out zs)"
    using parse_long_show [of bs] assms(1) by (simp add: consumer_main_def)
qed

text \<open>A runner of schedules, with the number of bytes of a \<open>write\<close> or a \<open>read\<close>.\<close>

datatype gmove = Produce nat nat | Consume nat nat

fun group_run :: "nat \<Rightarrow> fifo_group \<Rightarrow> gmove list \<Rightarrow> fifo_group option" where
  "group_run bufsz g [] = Some g"
| "group_run bufsz g (Produce i k # ms) = (if i < length (senders (pipe g))
     then (case sender_stmt i k (pipe g) of None \<Rightarrow> None | Some s \<Rightarrow> group_run bufsz (g\<lparr>pipe := s\<rparr>) ms)
     else None)"
| "group_run bufsz g (Consume c k # ms) = (if c < length (consumers g)
     then (case consumer_stmt bufsz c k g of None \<Rightarrow> None | Some h \<Rightarrow> group_run bufsz h ms)
     else None)"

lemma group_run_steps: "group_run bufsz g ms = Some h \<Longrightarrow> (group_step bufsz ^^ length ms) g h"
  by (induction bufsz g ms rule: group_run.induct)
    (auto split: option.split_asm if_split_asm simp del: relpowp.simps(2)
      intro: relpowp_Suc_I2 group_step.intros)

text \<open>
  Two producers and two consumers: a message each for consumer 0 and consumer 1 in turn, and
  each finds the end of the FIFO.
\<close>

definition group_message :: "nat \<Rightarrow> nat \<Rightarrow> nat \<Rightarrow> nat \<Rightarrow> gmove list" where
  "group_message i c k m = [Consume c 0, Produce i 1, Produce i 1, Produce i k, Consume c k,
     Produce i m, Produce i 1, Produce i 1, Consume c m, Consume c 0, Consume c 0]"

definition group_moves_demo :: "gmove list" where
  "group_moves_demo = group_message 0 0 10 4 @ group_message 1 1 12 1 @ group_message 0 0 1 12 @
     group_message 1 1 11 2 @ [Consume 1 0, Consume 1 0, Consume 0 0, Consume 0 0]"

definition final_group :: fifo_group where
  "final_group = \<lparr>pipe = final_fifo,
     consumers = [\<lparr>cpc = C_End (Ok ()), cbuf = []\<rparr>, \<lparr>cpc = C_End (Ok ()), cbuf = []\<rparr>],
     out_lock = None, out_text = ''firstxy'' @ [NL, NL] @ ''abc'' @ [NL]\<rparr>"

lemma final_group_run:
  "group_run (30 + 12) (start_group two_messages 2 (''first'' @ [NL])) group_moves_demo = Some final_group"
  unfolding two_messages_def by code_simp

section \<open>Properties\<close>

text \<open>
  C14: Several producers write files of one line each (no newline, or one at the end) to distinct
  lines, with numbers up to \<open>MAXLINE\<close>, while one or more consumers, called with the same positive
  block size, read the FIFO; the kernel takes and delivers the bytes in any pieces. When
  nothing can move any more, every producer and every consumer has ended well, and the text of each
  producer's file, without the final newline, stands at the end of its line of the output
  file, in one piece; every other line is what it was.
\<close>

theorem fifo_group_delivers:
  assumes "0 < bs" "int bs + 12 \<le> LONG_MAX" "0 < m"
    and "\<forall>p \<in> set ps. fine_producer p" "distinct (map fst ps)"
    and "(group_step (bs + 12))\<^sup>*\<^sup>* (start_group (map (producer_output bs) ps) m out) g"
    and "\<forall>h. \<not> group_step (bs + 12) g h"
  shows "all_ended g \<and> (\<forall>p \<in> set ps. producer_run bs p = Ok (producer_output bs p)) \<and>
    (\<forall>(n, sched, inp) \<in> set ps. line_of (n - 1) (out_text g) = line_of (n - 1) out @ without_final_newline inp) \<and>
    (\<forall>k. Suc k \<notin> fst ` set ps \<longrightarrow> line_of k (out_text g) = line_of k out)"
proof -
  let ?mss = "map (producer_output bs) ps"
  have fine: "fine_wire (bs + 12) ?mss" "0 < bs + 12"
    using producers_fine_wire [OF assms(1,2,4)] by simp_all
  obtain zs where g: "group_shape ?mss m out g zs" using assms(6) fine by (rule reachable_group)
  have ended: "all_ended g" using group_moves [OF g fine assms(3)] assms(7) by blast
  have inter: "interleaving ?mss (map message zs)" by (rule group_final [OF g fine(1) assms(3) ended])
  have "\<forall>z \<in> set zs. fine_message z \<and> length (message z) \<le> bs + 12"
  proof
    fix z assume z: "z \<in> set zs"
    then have "message z \<in> set (concat ?mss)" using interleaving_set [OF inter] by auto
    then have "length (message z) \<le> bs + 12" using fine(1) unfolding fine_wire_def by blast
    then show "fine_message z \<and> length (message z) \<le> bs + 12" using g z by (simp add: group_shape_def)
  qed
  note alone = consumer_main_messages [OF assms(2) this]
  have "out_text g = foldl add_message out zs" using g by (simp add: group_shape_def)
  then show ?thesis
    using fifo_delivers [OF assms(1,2,4,5) inter refl alone(1), of out] alone(2) [of out] ended by simp
qed

theorem fifo_group_delivers_witness:
  "all_ended final_group \<and> line_of 2 (out_text final_group) = ''abc'' \<and>
    line_of 0 (out_text final_group) = ''firstxy'' \<and> line_of 1 (out_text final_group) = []"
proof -
  have run: "(group_step (30 + 12))\<^sup>*\<^sup>*
      (start_group (map (producer_output 30) two_producers) 2 (''first'' @ [NL])) final_group"
    unfolding two_outputs using group_run_steps [OF final_group_run] by (rule relpowp_imp_rtranclp)
  have "\<forall>h. \<not> group_step (30 + 12) final_group h"
    using ended_no_step final_read(3) by (simp add: all_ended_def all_closed_def final_group_def)
  then have "all_ended final_group \<and> (\<forall>(n, sched, inp) \<in> set two_producers.
      line_of (n - 1) (out_text final_group) = line_of (n - 1) (''first'' @ [NL]) @ without_final_newline inp) \<and>
      (\<forall>k. Suc k \<notin> fst ` set two_producers \<longrightarrow> line_of k (out_text final_group) = line_of k (''first'' @ [NL]))"
    using fifo_group_delivers [OF _ _ _ two_fine run] by (simp add: LONG_MAX_def)
  then show ?thesis by (simp add: two_producers_def without_final_newline_def numeral_2_eq_2)
qed

text \<open>
  C25: However the processes are scheduled and whatever pieces the kernel takes and delivers, a
  run of producers of such files and of consumers has at most as many steps as there is work: five for each
  byte to be sent, four for each message, two for each consumer.
\<close>

theorem fifo_group_ends:
  assumes "0 < bs" "int bs + 12 \<le> LONG_MAX" "\<forall>p \<in> set ps. fine_producer p"
    and "(group_step (bs + 12) ^^ n) (start_group (map (producer_output bs) ps) m out) g"
  shows "n \<le> 2 * m + (\<Sum>p\<leftarrow>ps. \<Sum>l\<leftarrow>producer_output bs p. 5 * length l + 4)"
proof -
  have "fine_wire (bs + 12) (map (producer_output bs) ps)" by (rule producers_fine_wire [OF assms(1-3)])
  from group_steps_load [OF assms(4) this]
  have "n \<le> 2 * m + todo_load (concat (map (producer_output bs) ps))" by (simp add: start_group_load)
  also have "todo_load (concat (map (producer_output bs) ps)) =
      (\<Sum>p\<leftarrow>ps. \<Sum>l\<leftarrow>producer_output bs p. 5 * length l + 4)"
    by (induction ps) (simp_all, simp add: todo_load_def)
  finally show ?thesis .
qed

theorem fifo_group_ends_witness:
  "length group_moves_demo \<le> 2 * 2 + (\<Sum>p\<leftarrow>two_producers. \<Sum>l\<leftarrow>producer_output 30 p. 5 * length l + 4)"
proof -
  have "(group_step (30 + 12) ^^ length group_moves_demo)
      (start_group (map (producer_output 30) two_producers) 2 (''first'' @ [NL])) final_group"
    unfolding two_outputs by (rule group_run_steps [OF final_group_run])
  from fifo_group_ends [OF _ _ two_fine(1) this] show ?thesis by (simp add: LONG_MAX_def)
qed

end
