(* ===== verification/Grep.thy ===== *)
theory Grep
  imports Dir_Spec Decimal "HOL-Library.Sublist" "HOL-Library.Multiset"
begin

text \<open>
  The recursive search of \<open>lab3/zad3/main.c\<close>: a process per directory looks for a string in the
  files of its directory, block by block, and forks a child for every subdirectory down to a
  given depth. The path string is that of \<open>lab2/zad3\<close> (\<open>Path_Str\<close>; the code is the same), and
  so is the view of the file system (\<open>Dir_Walk\<close>), which here has the contents of files too.
\<close>

section \<open>Searching a file\<close>

text \<open>\<open>memmem\<close> and \<open>strstr\<close>: the first position of a string.\<close>

fun find_sub :: "string \<Rightarrow> string \<Rightarrow> nat option" where
  "find_sub needle [] = (if needle = [] then Some 0 else None)"
| "find_sub needle (c # cs) =
     (if take (length needle) (c # cs) = needle then Some 0 else map_option Suc (find_sub needle cs))"

definition SEARCH_BUF :: nat where "SEARCH_BUF = 4096"

text \<open>The room behind the kept bytes, \<open>sizeof(buf) - needlesize\<close>, in \<open>size_t\<close>.\<close>

definition room_left :: "nat \<Rightarrow> nat" where
  "room_left k = nat ((int SEARCH_BUF - int k) mod 2 ^ 64)"

text \<open>\<open>memmove(buf, buf + nbuf - needlesize, needlesize)\<close>, which must stay inside the buffer.\<close>

definition keep_tail :: "nat \<Rightarrow> string \<Rightarrow> string result" where
  "keep_tail k buf =
     (if length buf < k \<or> SEARCH_BUF < k then Err Undef_Behaviour else Ok (drop (length buf - k) buf))"

text \<open>
  The loop over the file. \<open>carry\<close> is what the last round left at the start of the buffer,
  \<open>rest\<close> what is still to be read; \<open>sched n\<close> is the number of bytes that a \<open>read\<close> delivers
  when \<open>n\<close> are left, at most what was asked for; bytes delivered behind the end of the
  buffer are undefined behaviour. The end of the file is an error of \<open>read\<close>, or
  the end (and then \<open>close\<close> may fail).
\<close>

function grep_loop :: "string \<Rightarrow> bool \<Rightarrow> (nat \<Rightarrow> nat) \<Rightarrow> dir_end \<Rightarrow> bool \<Rightarrow> string \<Rightarrow> string \<Rightarrow> bool result" where
  "grep_loop needle shebangchk sched e first carry rest =
     (let start = (if first then 0 else length needle);
          asked = (if first then SEARCH_BUF else room_left (length needle));
          n = min (min asked (length rest)) (max 1 (sched (length rest)))
      in if n = 0 then (if rest = [] \<and> e = Read_Fails then Err (Exit_Status 1) else Ok False)
         else if SEARCH_BUF < start + n then Err Undef_Behaviour
         else let buf = (if first then [] else carry) @ take n rest
           in if first \<and> shebangchk \<and> 2 \<le> length buf \<and> take 2 buf \<noteq> ''#!'' then Ok False
              else if find_sub needle buf \<noteq> None then Ok True
              else rbind (c_assert (length needle \<le> length buf)) (\<lambda>_.
                rbind (keep_tail (length needle) buf) (\<lambda>kept.
                  grep_loop needle shebangchk sched e False kept (drop n rest))))"
  by pat_completeness auto
termination
  by (relation "measure (\<lambda>(_, _, _, _, _, _, rest). length rest)", rule wf_measure)
    (simp only: in_measure prod.case length_drop, linarith)

declare grep_loop.simps [simp del]

section \<open>Looking at an entry\<close>

text \<open>
  \<open>fs_fork\<close> says for which directories a process can be forked; the first one, for the directory
  of the command line, goes by the empty string.
\<close>

record gsys = fsys +
  fs_open :: "string \<Rightarrow> (string \<times> dir_end) option"
  fs_sched :: "nat \<Rightarrow> nat"
  fs_fork :: "string \<Rightarrow> bool"

definition haveperms :: "'a fsys_scheme \<Rightarrow> fstat \<Rightarrow> u32 \<Rightarrow> u32 \<Rightarrow> u32 \<Rightarrow> bool" where
  "haveperms fs sb usr grp oth \<longleftrightarrow>
     (if st_uid sb = fs_uid fs then st_mode sb AND usr > 0
      else if st_gid sb = fs_gid fs then st_mode sb AND grp > 0
      else st_mode sb AND oth > 0)"

definition readable :: "'a fsys_scheme \<Rightarrow> fstat \<Rightarrow> bool" where
  "readable fs sb \<longleftrightarrow> haveperms fs sb 0x100 0x20 0x4"

definition executable :: "'a fsys_scheme \<Rightarrow> fstat \<Rightarrow> bool" where
  "executable fs sb \<longleftrightarrow> haveperms fs sb 0x40 0x8 0x1"

text \<open>The first occurrence of the suffix must be at the end of the path.\<close>

definition ends_at_first :: "string \<Rightarrow> string \<Rightarrow> bool" where
  "ends_at_first path suf \<longleftrightarrow> (case find_sub suf path of None \<Rightarrow> False | Some i \<Rightarrow> length path = i + length suf)"

definition binary_name :: "string \<Rightarrow> bool" where
  "binary_name path \<longleftrightarrow> ends_at_first path ''.o'' \<or> ends_at_first path ''.png'' \<or> ends_at_first path ''.gz'' \<or>
     ends_at_first path ''.zip'' \<or> ends_at_first path ''.core''"

definition search_file :: "gsys \<Rightarrow> string \<Rightarrow> bool \<Rightarrow> string \<Rightarrow> bool result" where
  "search_file fs needle shebangchk path = (case fs_open fs path of
     None \<Rightarrow> Err (Exit_Status 1)
   | Some (s, e) \<Rightarrow>
       rbind (grep_loop needle shebangchk (fs_sched fs) e True [] s) (\<lambda>found.
         if e = Close_Fails then Err (Exit_Status 1) else Ok found))"

text \<open>\<open>process\<close>: whether to enter the path, and whether it was reported.\<close>

definition grep_process :: "gsys \<Rightarrow> string \<Rightarrow> string \<Rightarrow> (bool \<times> bool) result" where
  "grep_process fs needle path = (case fs_lstat fs path of
     None \<Rightarrow> Ok (False, False)
   | Some sb \<Rightarrow>
       rbind (if st_mode sb AND S_IFMT = 0x8000 \<and> readable fs sb
              then (if st_mode sb AND 0x49 = 0
                    then (if binary_name path then Ok False else search_file fs needle False path)
                    else search_file fs needle True path)
              else Ok False) (\<lambda>found.
         Ok (st_mode sb AND S_IFMT = S_IFDIR \<and> readable fs sb \<and> executable fs sb, found)))"

section \<open>The processes\<close>

text \<open>
  A process with what it wrote, how it ended (\<open>exit(n)\<close> or a failed assertion) and the children
  that it forked. The processes share nothing, so what appears on the standard output is
  some interleaving of what they wrote.
\<close>

datatype gproc = Proc (p_writes: "string list") (p_exit: error) (p_kids: "gproc list")

text \<open>
  Printed lines go through the buffer of \<open>stdout\<close>: \<open>flushes b\<close> says whether the library writes
  the lines \<open>b\<close> out at once. On a terminal it always does. \<open>fork\<close> copies the buffer, and
  \<open>exit\<close> writes it out, a failed assertion does not.
\<close>

record gstate =
  g_writes :: "string list"
  g_buf :: "string list"
  g_path :: sstr
  g_kids :: "gproc list"

definition print_hit :: "(string list \<Rightarrow> bool) \<Rightarrow> string \<Rightarrow> gstate \<Rightarrow> gstate" where
  "print_hit flushes path st = (let b = g_buf st @ [path] in
     if flushes b then st\<lparr>g_writes := g_writes st @ b, g_buf := []\<rparr> else st\<lparr>g_buf := b\<rparr>)"

definition end_process :: "gstate \<Rightarrow> error \<Rightarrow> gproc" where
  "end_process st x =
     Proc (g_writes st @ (case x of Exit_Status _ \<Rightarrow> g_buf st | _ \<Rightarrow> [])) x (g_kids st)"

text \<open>The loop of \<open>wait\<close>s and the exit status.\<close>

definition wait_kids :: "gstate \<Rightarrow> gproc" where
  "wait_kids st = end_process st
     (Exit_Status (if \<forall>k \<in> set (g_kids st). p_exit k = Exit_Status 0 then 0 else 1))"

definition path_text :: "sstr \<Rightarrow> string" where
  "path_text ss = (case sdata ss of None \<Rightarrow> [] | Some d \<Rightarrow> cstr d)"

definition pop_component :: "sstr \<Rightarrow> sstr result" where
  "pop_component ss = rbind (path_pop ss) (\<lambda>(popped, ss). rbind (c_assert (popped \<noteq> None)) (\<lambda>_. Ok ss))"

text \<open>
  \<open>walk\<close>, from the \<open>readdir\<close> of the names that are left. A child starts with a copy of the
  path and of the buffer, and opens the directory it was forked for. When \<open>fork\<close> fails, the
  process waits for the children it has and ends with 1.
\<close>

function grep_entries :: "allocator \<Rightarrow> gsys \<Rightarrow> (string list \<Rightarrow> bool) \<Rightarrow> string \<Rightarrow> nat \<Rightarrow>
    string list \<Rightarrow> dir_end \<Rightarrow> gstate \<Rightarrow> gproc" where
  "grep_entries al fs flushes needle depth [] e st =
     (if e = Closes then wait_kids st else end_process st (Exit_Status 1))"
| "grep_entries al fs flushes needle depth (name # names) e st =
     (if is_dot name then grep_entries al fs flushes needle depth names e st
      else (case path_push al (g_path st) name of
          Inl x \<Rightarrow> end_process st x
        | Inr ss \<Rightarrow>
            let st = st\<lparr>g_path := ss\<rparr>; path = path_text ss
            in (case grep_process fs needle path of
                Inl x \<Rightarrow> end_process st x
              | Inr (enter, found) \<Rightarrow>
                  let st = (if found then print_hit flushes path st else st)
                  in if enter \<and> 1 < depth \<and> \<not> fs_fork fs path then end_process st (Exit_Status 1)
                  else let st = (if enter \<and> 1 < depth
                        then st\<lparr>g_kids := g_kids st @ [let child = st\<lparr>g_writes := [], g_kids := []\<rparr> in
                            (case fs_opendir fs path of
                               None \<Rightarrow> end_process child (Exit_Status 1)
                             | Some (ms, e') \<Rightarrow> grep_entries al fs flushes needle (depth - 1) ms e' child)]\<rparr>
                        else st)
                  in (case pop_component ss of
                      Inl x \<Rightarrow> end_process st x
                    | Inr ss \<Rightarrow> grep_entries al fs flushes needle depth names e (st\<lparr>g_path := ss\<rparr>)))))"
  by pat_completeness auto
termination
  by (relation "measures [\<lambda>(_, _, _, _, depth, _, _, _). depth, \<lambda>(_, _, _, _, _, names, _, _). length names]") auto

definition grep_walk :: "allocator \<Rightarrow> gsys \<Rightarrow> (string list \<Rightarrow> bool) \<Rightarrow> string \<Rightarrow> nat \<Rightarrow> gstate \<Rightarrow> gproc" where
  "grep_walk al fs flushes needle depth st = (case fs_opendir fs (path_text (g_path st)) of
     None \<Rightarrow> end_process st (Exit_Status 1)
   | Some (names, e) \<Rightarrow> grep_entries al fs flushes needle depth names e st)"

text \<open>\<open>parse_int\<close>, as everywhere, and \<open>main\<close>: the exit status and the process that was forked.\<close>

definition parse_depth :: "string \<Rightarrow> int option" where
  "parse_depth str = (if str = [] then None
     else (case strtol10 str of (v, rest, _) \<Rightarrow> if rest = [] then Some v else None))"

definition grep_main :: "allocator \<Rightarrow> gsys \<Rightarrow> (string list \<Rightarrow> bool) \<Rightarrow> (string \<Rightarrow> bool) \<Rightarrow> string list \<Rightarrow>
    int \<times> gproc option" where
  "grep_main al fs flushes chdir argv =
     (if length argv \<noteq> 4 then (2, None)
      else (case parse_depth (argv ! 3) of
          None \<Rightarrow> (2, None)
        | Some depth \<Rightarrow>
            if depth \<le> 0 then (2, None)
            else if length (argv ! 2) < 1 then (2, None)
            else if \<not> fs_fork fs [] then (1, None)
            else let st = \<lparr>g_writes = [], g_buf = [], g_path = ss_zero, g_kids = []\<rparr>;
                child = (if \<not> chdir (argv ! 1) then end_process st (Exit_Status 1)
                  else (case path_assign al ss_zero ''.'' of
                      Inl x \<Rightarrow> end_process st x
                    | Inr ss \<Rightarrow> grep_walk al fs flushes (argv ! 2) (nat depth) (st\<lparr>g_path := ss\<rparr>)))
              in (if p_exit child = Exit_Status 0 then 0 else 1, Some child)))"

end
