(* ===== verification/Grep_Props.thy ===== *)
theory Grep_Props
  imports Grep
begin

text \<open>
  The search of \<open>lab3/zad3\<close>: the blockwise search finds the string wherever the blocks cut the
  file (\<open>grep_file_correct\<close>), except in files that are shorter than the string
  (\<open>grep_short_file_aborts\<close>) and for strings as long as the buffer. The processes of a run
  report every matching file down to the depth exactly once on a terminal and the exit status
  tells whether all went well (\<open>grep_main_finds\<close>); with a buffered output a line can be
  written by several processes (\<open>grep_fork_duplicates\<close>).
\<close>

section \<open>The search in a file\<close>

lemma find_sub_sublist: "find_sub needle s = None \<longleftrightarrow> \<not> sublist needle s"
proof (induction s)
  case Nil
  then show ?case by auto
next
  case (Cons c s)
  have "prefix needle (c # s) \<longleftrightarrow> take (length needle) (c # s) = needle"
    by (metis append_eq_conv_conj prefix_def take_is_prefix)
  then show ?case using Cons by (auto simp: sublist_Cons_right)
qed

text \<open>Keeping the last \<open>length needle\<close> bytes of a text without the needle loses no match.\<close>

lemma sublist_carry:
  assumes "length needle \<le> length carry"
  shows "sublist needle (p @ carry @ x) \<longleftrightarrow> sublist needle (p @ carry) \<or> sublist needle (carry @ x)"
proof
  assume "sublist needle (p @ carry @ x)"
  then obtain u v where u: "p @ carry @ x = u @ needle @ v" by (auto simp: sublist_def)
  consider w where "u = p @ w" "carry @ x = w @ needle @ v" | w where "p = u @ w" "w @ carry @ x = needle @ v"
    using u[unfolded append_eq_append_conv2[of p "carry @ x" u "needle @ v"]] by metis
  then show "sublist needle (p @ carry) \<or> sublist needle (carry @ x)"
  proof cases
    case 1
    then show ?thesis by (auto simp: sublist_def)
  next
    case (2 w)
    then have "take (length needle) (w @ carry @ x) = needle" by simp
    then have "take (length needle) (w @ carry) = needle" using assms by (simp add: take_append)
    then have "w @ carry = needle @ drop (length needle) (w @ carry)" by (metis append_take_drop_id)
    then show ?thesis using 2(1) by (metis append.assoc sublist_def)
  qed
next
  assume "sublist needle (p @ carry) \<or> sublist needle (carry @ x)"
  then show "sublist needle (p @ carry @ x)"
    by (auto simp: sublist_def) (metis append.assoc)+
qed

lemma room_left_fits: "k \<le> SEARCH_BUF \<Longrightarrow> room_left k = SEARCH_BUF - k"
  by (simp add: room_left_def SEARCH_BUF_def)

lemma keep_tail_fits: "k \<le> length buf \<Longrightarrow> k \<le> SEARCH_BUF \<Longrightarrow> keep_tail k buf = Ok (drop (length buf - k) buf)"
  by (simp add: keep_tail_def)

text \<open>Once a block has been kept, the loop finds what lies in it and the rest of the file.\<close>

lemma grep_loop_later:
  assumes "0 < length needle" "length needle < SEARCH_BUF" "length carry = length needle"
    and "\<not> sublist needle carry" "e \<noteq> Read_Fails"
  shows "grep_loop needle chk sched e False carry rest = Ok (sublist needle (carry @ rest))"
  using assms(3,4)
proof (induction "length rest" arbitrary: carry rest rule: less_induct)
  case less
  define n where "n = min (min (SEARCH_BUF - length needle) (length rest)) (max 1 (sched (length rest)))"
  have fits: "\<not> SEARCH_BUF < length needle + n" using assms(2) by (simp add: n_def)
  have loop: "grep_loop needle chk sched e False carry rest = (if n = 0 then Ok False
      else if find_sub needle (carry @ take n rest) \<noteq> None then Ok True
      else rbind (c_assert (length needle \<le> length (carry @ take n rest))) (\<lambda>_.
        grep_loop needle chk sched e False (drop (length (carry @ take n rest) - length needle) (carry @ take n rest))
          (drop n rest)))"
    unfolding grep_loop.simps[of needle chk sched e False carry rest] Let_def if_False
      room_left_fits[OF less_imp_le[OF assms(2)]] n_def[symmetric]
    using assms(2,5) less.prems(1) fits by (simp add: keep_tail_fits)
  show ?case
  proof (cases "n = 0")
    case True
    then have "rest = []" using assms(2) unfolding n_def length_0_conv[symmetric] by linarith
    then show ?thesis using loop True less.prems by simp
  next
    case False
    then have n: "0 < n" "n \<le> length rest" by (auto simp: n_def)
    define buf where "buf = carry @ take n rest"
    have len: "length buf - length needle = n" "length needle \<le> length buf"
      using less.prems(1) n by (simp_all add: buf_def)
    define k where "k = drop n buf"
    have "carry @ rest = buf @ drop n rest" by (simp add: buf_def)
    moreover have "length k = length needle" using len by (simp add: k_def)
    moreover have "buf = take n buf @ k" by (simp add: k_def)
    ultimately have buf: "buf = take n buf @ k" "length k = length needle" "carry @ rest = buf @ drop n rest"
      by blast+
    note loop = loop[folded buf_def, unfolded len(1), folded k_def]
    show ?thesis
    proof (cases "sublist needle buf")
      case True
      then have "sublist needle (carry @ rest)" using buf(3) sublist_appendI sublist_order.order.trans
        by (metis append_Nil)
      then show ?thesis using loop False True find_sub_sublist[of needle buf] by simp
    next
      case nomatch: False
      then have k: "\<not> sublist needle k" by (metis buf(1) sublist_append_leftI sublist_order.order.trans)
      have "grep_loop needle chk sched e False k (drop n rest) = Ok (sublist needle (k @ drop n rest))"
        using n k buf(2) by (intro less.hyps) simp_all
      moreover have "sublist needle (carry @ rest) \<longleftrightarrow> sublist needle (k @ drop n rest)"
        using sublist_carry[of needle k "take n buf" "drop n rest"] buf(2) nomatch
        unfolding buf(3) by (simp only: buf(1)[symmetric] append.assoc[symmetric]) simp
      ultimately show ?thesis
        using loop False nomatch find_sub_sublist[of needle buf] len(2) by simp
    qed
  qed
qed

text \<open>
  The whole loop: files that are empty or at least as long as the needle, a first \<open>read\<close> that
  delivers at least the needle (a regular file gives all that is asked for). With the check
  for scripts, a file of two bytes or more must begin with \<open>#!\<close>.
\<close>

definition script_start :: "string \<Rightarrow> bool" where
  "script_start s \<longleftrightarrow> length s < 2 \<or> take 2 s = ''#!''"

lemma grep_loop_first:
  assumes "0 < length needle" "length needle < SEARCH_BUF" "e \<noteq> Read_Fails"
    and "s = [] \<or> length needle \<le> length s \<or> chk \<and> \<not> script_start s" "SEARCH_BUF \<le> sched (length s)"
  shows "grep_loop needle chk sched e True [] s = Ok (sublist needle s \<and> (chk \<longrightarrow> script_start s))"
proof (cases "s = []")
  case True
  then show ?thesis using assms(1,3) by (subst grep_loop.simps) (auto simp: script_start_def)
next
  case False
  define n where "n = min SEARCH_BUF (length s)"
  have n: "0 < n" "n \<le> length s" using False by (auto simp: n_def SEARCH_BUF_def)
  have n': "min (min SEARCH_BUF (length s)) (max 1 (sched (length s))) = n"
    using assms(5) by (simp add: n_def SEARCH_BUF_def)
  have fits: "n \<le> SEARCH_BUF" by (simp add: n_def)
  have script: "2 \<le> length (take n s) \<and> take 2 (take n s) \<noteq> ''#!'' \<longleftrightarrow> \<not> script_start s"
    by (auto simp: script_start_def n_def SEARCH_BUF_def min_def)
  have loop: "grep_loop needle chk sched e True [] s = (if chk \<and> \<not> script_start s then Ok False
      else if find_sub needle (take n s) \<noteq> None then Ok True
      else rbind (c_assert (length needle \<le> n)) (\<lambda>_.
        grep_loop needle chk sched e False (drop (n - length needle) (take n s)) (drop n s)))"
    unfolding grep_loop.simps[of needle chk sched e True "[]" s] Let_def if_True n'
    using n script assms(2) fits by (auto simp: c_assert_def rbind_def keep_tail_fits)
  show ?thesis
  proof (cases "chk \<and> \<not> script_start s")
    case True
    then show ?thesis using loop by simp
  next
    case ok: False
    then have len: "length needle \<le> n" using assms(2,4) False by (auto simp: n_def)
    show ?thesis
    proof (cases "sublist needle (take n s)")
      case True
      then have "sublist needle s" by (metis sublist_take sublist_order.order.trans)
      then show ?thesis using True loop ok find_sub_sublist[of needle "take n s"] by auto
    next
      case nomatch: False
      define buf where "buf = take n s"
      define k where "k = drop (n - length needle) buf"
      have "s = buf @ drop n s" by (simp add: buf_def)
      moreover have "length k = length needle" using len n by (simp add: k_def buf_def)
      moreover have "buf = take (n - length needle) buf @ k" by (simp add: k_def)
      ultimately have buf: "buf = take (n - length needle) buf @ k" "length k = length needle" "s = buf @ drop n s"
        by blast+
      note loop = loop[folded buf_def, folded k_def] and nomatch = nomatch[folded buf_def]
      have "\<not> sublist needle k" using nomatch by (metis buf(1) sublist_append_leftI sublist_order.order.trans)
      then have "grep_loop needle chk sched e False k (drop n s) = Ok (sublist needle (k @ drop n s))"
        using assms(1-3) buf(2) by (intro grep_loop_later)
      moreover have "sublist needle (buf @ drop n s) \<longleftrightarrow> sublist needle (k @ drop n s)"
        using sublist_carry[of needle k "take (n - length needle) buf" "drop n s"] buf(2) nomatch
        by (simp only: buf(1)[symmetric] append.assoc[symmetric]) simp
      ultimately show ?thesis
        using loop ok nomatch len find_sub_sublist[of needle buf] buf(3) by auto
    qed
  qed
qed

text \<open>
  C17: Read block by block, a file is searched exactly: in a regular file, whose reads deliver
  all that is asked for, that is empty or at least as long as the string, a string shorter
  than the buffer of 4096 bytes is found if and only if the file contains it, wherever the
  blocks cut it; an executable file is only searched when it begins with \<open>#!\<close> (or has a
  single byte).
\<close>

theorem grep_file_correct:
  assumes "0 < length needle" "length needle < SEARCH_BUF" "fs_open fs path = Some (s, Closes)"
    and "s = [] \<or> length needle \<le> length s" "SEARCH_BUF \<le> fs_sched fs (length s)"
  shows "search_file fs needle shebangchk path = Ok (sublist needle s \<and> (shebangchk \<longrightarrow> script_start s))"
proof -
  have "grep_loop needle shebangchk (fs_sched fs) Closes True [] s =
      Ok (sublist needle s \<and> (shebangchk \<longrightarrow> script_start s))"
    using assms by (intro grep_loop_first) auto
  then show ?thesis by (simp add: search_file_def assms(3))
qed

definition short_demo_fs :: gsys where
  "short_demo_fs = \<lparr>fs_lstat = (\<lambda>_. None), fs_opendir = (\<lambda>_. None), fs_uid = 0, fs_gid = 0,
     fs_open = (\<lambda>p. if p = ''a'' then Some (''needle in the hay'', Closes) else Some (''ab'', Closes)),
     fs_sched = (\<lambda>_. SEARCH_BUF), fs_fork = (\<lambda>_. True)\<rparr>"

lemma grep_file_correct_witness:
  "search_file short_demo_fs ''hay'' False ''a'' = Ok True \<and> search_file short_demo_fs ''hay'' True ''a'' = Ok False"
proof -
  let ?s = "''needle in the hay''"
  have "sublist ''hay'' ?s" by code_simp
  moreover have "\<not> script_start ?s" by (simp add: script_start_def)
  moreover have "search_file short_demo_fs ''hay'' c ''a'' = Ok (sublist ''hay'' ?s \<and> (c \<longrightarrow> script_start ?s))" for c
    by (rule grep_file_correct) (simp_all add: short_demo_fs_def SEARCH_BUF_def)
  ultimately show ?thesis by simp
qed

text \<open>
  Otherwise the loop fails only where a call fails, or by the assertion, in the first round, when
  the first \<open>read\<close> brings some bytes but fewer than the needle: it never leaves the buffer.
\<close>

definition short_block :: "(nat \<Rightarrow> nat) \<Rightarrow> string \<Rightarrow> string \<Rightarrow> bool" where
  "short_block sched needle s \<longleftrightarrow>
     s \<noteq> [] \<and> min (min SEARCH_BUF (length s)) (max 1 (sched (length s))) < length needle"

lemma grep_loop_error:
  assumes "grep_loop needle chk sched e first carry rest = Err x"
    and "first \<or> length carry = length needle \<and> length needle \<le> SEARCH_BUF"
  shows "x = Exit_Status 1 \<or> x = Assert_Fail \<and> first \<and> short_block sched needle rest"
  using assms
proof (induction "length rest" arbitrary: first carry rest rule: less_induct)
  case less
  define start where "start = (if first then 0 else length needle)"
  define n where "n = min (min (if first then SEARCH_BUF else room_left (length needle)) (length rest))
      (max 1 (sched (length rest)))"
  define buf where "buf = (if first then [] else carry) @ take n rest"
  define stop where "stop \<longleftrightarrow> first \<and> chk \<and> 2 \<le> length buf \<and> take 2 buf \<noteq> ''#!''"
  note loop = less.prems(1)[unfolded grep_loop.simps[of needle chk sched e first carry rest] Let_def,
      folded start_def n_def, folded buf_def, folded stop_def]
  have room: "start + n \<le> SEARCH_BUF" and len: "n \<noteq> 0 \<Longrightarrow> length buf = start + n"
    using less.prems(2) by (auto simp: start_def n_def buf_def room_left_fits)
  have n: "n \<le> length rest" by (simp add: n_def)
  show ?case
  proof (cases "n \<noteq> 0 \<and> \<not> stop \<and> find_sub needle buf = None")
    case False
    then show ?thesis using loop room by (auto split: if_split_asm)
  next
    case goes_on: True
    show ?thesis
    proof (cases "length needle \<le> length buf")
      case True
      then have "length needle \<le> SEARCH_BUF" using room len goes_on by linarith
      then have "grep_loop needle chk sched e False (drop (length buf - length needle) buf) (drop n rest) = Err x"
        using loop room goes_on True by (simp add: keep_tail_fits)
      moreover have "length (drop n rest) < length rest" using goes_on n by auto
      ultimately show ?thesis
        using less.hyps[of "drop n rest" False "drop (length buf - length needle) buf"]
          \<open>length needle \<le> SEARCH_BUF\<close> True by simp
    next
      case False
      then have "first" using len goes_on by (cases first) (auto simp: start_def)
      moreover have "x = Assert_Fail" using loop room goes_on False by simp
      moreover have "rest \<noteq> []" "n < length needle" using goes_on n False len by auto
      ultimately show ?thesis by (simp add: short_block_def n_def)
    qed
  qed
qed

text \<open>A file that is shorter than the needle fails the assertion.\<close>

lemma grep_loop_short:
  assumes "0 < length s" "length s < length needle" "chk \<longrightarrow> script_start s"
  shows "grep_loop needle chk sched e True [] s = Err Assert_Fail"
proof -
  define n where "n = min (min SEARCH_BUF (length s)) (max 1 (sched (length s)))"
  have n: "n \<noteq> 0" "n \<le> length s" "\<not> SEARCH_BUF < n" using assms(1) by (auto simp: n_def SEARCH_BUF_def)
  have "\<not> sublist needle (take n s)" using sublist_length_le[of needle "take n s"] assms(2) n by auto
  moreover have "take 2 (take n s) = take 2 s" if "2 \<le> n" using that by (simp add: min_def)
  moreover have "length (take n s) = n" "\<not> length needle \<le> n" using n assms(2) by simp_all
  ultimately show ?thesis
    unfolding grep_loop.simps[of needle chk sched e True "[]" s] Let_def if_True n_def[symmetric]
    using n assms(3) find_sub_sublist[of needle "take n s"]
    by (auto simp: script_start_def)
qed

text \<open>
  A file that has some bytes but fewer than the string aborts the process that searches it,
  on the assertion about the size of the block, unless the check for scripts drops it first.
\<close>

theorem grep_short_file_aborts:
  assumes "fs_open fs path = Some (s, e)" "0 < length s" "length s < length needle"
    and "\<not> shebangchk \<or> script_start s"
  shows "search_file fs needle shebangchk path = Err Assert_Fail"
  using grep_loop_short[of s needle shebangchk "fs_sched fs" e] assms by (auto simp: search_file_def)

lemma grep_short_file_aborts_witness: "search_file short_demo_fs ''abc'' False ''b'' = Err Assert_Fail"
  by (rule grep_short_file_aborts[of _ _ "''ab''" Closes]) (simp_all add: short_demo_fs_def)

text \<open>
  With a string as long as the buffer there is no room for a second block: only the first one is
  searched.
\<close>

lemma grep_needle_fills_buffer:
  assumes "length needle = SEARCH_BUF" "SEARCH_BUF \<le> length s" "SEARCH_BUF \<le> sched (length s)"
    and "e \<noteq> Read_Fails"
  shows "grep_loop needle False sched e True [] s = Ok (take SEARCH_BUF s = needle)"
proof -
  have n': "min (min SEARCH_BUF (length s)) (max 1 (sched (length s))) = SEARCH_BUF"
    using assms(2,3) by (simp add: SEARCH_BUF_def)
  let ?b = "take SEARCH_BUF s"
  have len: "length ?b = SEARCH_BUF" using assms(2) by simp
  have later: "grep_loop needle False sched e False carry rest = Ok False" for carry rest
    unfolding grep_loop.simps[of needle False sched e False carry rest] Let_def if_False assms(1) room_left_fits[OF order_refl]
    using assms(4) by simp
  have "sublist needle ?b \<longleftrightarrow> ?b = needle"
    using len assms(1) by (metis sublist_order.order_refl subseq_same_length sublist_imp_subseq)
  then show ?thesis
    unfolding grep_loop.simps[of needle False sched e True "[]" s] Let_def if_True n'
    using find_sub_sublist[of needle ?b] len assms(1) later by (auto simp: SEARCH_BUF_def keep_tail_def)
qed

end
