(* ===== verification/Grep_Run.thy ===== *)
theory Grep_Run
  imports Grep_Props
begin

text \<open>
  A whole run of the search of \<open>lab3/zad3\<close>: which entries it looks at (\<open>below\<close>), when a process
  and all its children end well (\<open>healthy\<close>), and what they write.
\<close>

section \<open>The entries of a run\<close>

definition enters :: "gsys \<Rightarrow> string \<Rightarrow> bool" where
  "enters fs p \<longleftrightarrow> (case fs_lstat fs p of None \<Rightarrow> False
   | Some sb \<Rightarrow> st_mode sb AND S_IFMT = S_IFDIR \<and> readable fs sb \<and> executable fs sb)"

text \<open>The paths below a directory whose remaining entries are given, down to a depth.\<close>

function below :: "gsys \<Rightarrow> nat \<Rightarrow> string \<Rightarrow> string list \<Rightarrow> string list" where
  "below fs depth path [] = []"
| "below fs depth path (n # ns) =
     (if is_dot n then below fs depth path ns
      else path_in path n #
        (if enters fs (path_in path n) \<and> 1 < depth
         then (case fs_opendir fs (path_in path n) of None \<Rightarrow> []
           | Some (ms, _) \<Rightarrow> below fs (depth - 1) (path_in path n) ms)
         else []) @ below fs depth path ns)"
  by pat_completeness auto
termination
  by (relation "measures [\<lambda>(fs, depth, path, ns). depth, \<lambda>(fs, depth, path, ns). length ns]") auto

function healthy :: "gsys \<Rightarrow> string \<Rightarrow> nat \<Rightarrow> string \<Rightarrow> string list \<Rightarrow> dir_end \<Rightarrow> bool" where
  "healthy fs needle depth path [] e \<longleftrightarrow> e = Closes"
| "healthy fs needle depth path (n # ns) e \<longleftrightarrow>
     (if is_dot n then healthy fs needle depth path ns e
      else (\<exists>r. grep_process fs needle (path_in path n) = Ok r) \<and>
        (enters fs (path_in path n) \<and> 1 < depth \<longrightarrow> fs_fork fs (path_in path n)) \<and>
        (if enters fs (path_in path n) \<and> 1 < depth
         then (case fs_opendir fs (path_in path n) of None \<Rightarrow> False
           | Some (ms, e') \<Rightarrow> healthy fs needle (depth - 1) (path_in path n) ms e')
         else True) \<and> healthy fs needle depth path ns e)"
  by pat_completeness auto
termination
  by (relation "measures [\<lambda>(fs, needle, depth, path, ns, e). depth, \<lambda>(fs, needle, depth, path, ns, e). length ns]") auto

definition hit :: "gsys \<Rightarrow> string \<Rightarrow> string \<Rightarrow> bool" where
  "hit fs needle p \<longleftrightarrow> (\<exists>b. grep_process fs needle p = Ok (b, True))"

lemma grep_process_enters: "grep_process fs needle p = Ok (b, f) \<Longrightarrow> b = enters fs p"
  by (auto simp: grep_process_def enters_def rbind_eq_Inr split: option.splits)

text \<open>A run is healthy if every entry can be searched and every directory read.\<close>

lemma healthy_search: "healthy fs needle depth path ns e \<Longrightarrow> p \<in> set (below fs depth path ns) \<Longrightarrow>
    \<exists>r. grep_process fs needle p = Ok r"
proof (induction fs depth path ns arbitrary: e rule: below.induct)
  case (2 fs depth path n ns)
  show ?case
  proof (cases "is_dot n")
    case True
    then show ?thesis using 2(1)[OF True] 2(4-) by simp
  next
    case dot: False
    show ?thesis
    proof (cases "enters fs (path_in path n) \<and> 1 < depth")
      case True
      then obtain ms e' where ms: "fs_opendir fs (path_in path n) = Some (ms, e')"
        using 2(4) dot by (cases "fs_opendir fs (path_in path n)") auto
      have sub: "healthy fs needle (depth - 1) (path_in path n) ms e'" "healthy fs needle depth path ns e"
          "\<exists>r. grep_process fs needle (path_in path n) = Ok r"
        using 2(4) dot True ms by simp_all
      consider "p = path_in path n" | "p \<in> set (below fs (depth - 1) (path_in path n) ms)"
        | "p \<in> set (below fs depth path ns)"
        using 2(5) dot True ms by auto
      then show ?thesis
        using sub(3) 2(2)[OF dot True ms refl sub(1)] 2(3)[OF dot sub(2)] by cases blast+
    next
      case False
      have "healthy fs needle depth path ns e" "\<exists>r. grep_process fs needle (path_in path n) = Ok r"
        using 2(4) by (simp_all only: healthy.simps dot False if_False simp_thms)
      moreover have "p = path_in path n \<or> p \<in> set (below fs depth path ns)"
        using 2(5) by (simp only: below.simps dot False if_False append_Nil list.set insert_iff)
      ultimately show ?thesis using 2(3)[OF dot] by blast
    qed
  qed
qed simp

lemma healthyI:
  assumes "\<forall>p \<in> set (below fs depth path ns). (\<exists>r. grep_process fs needle p = Ok r) \<and>
      (enters fs p \<longrightarrow> fs_fork fs p \<and> (\<exists>ms. fs_opendir fs p = Some (ms, Closes)))"
  shows "healthy fs needle depth path ns Closes"
  using assms
proof (induction fs depth path ns rule: below.induct)
  case (2 fs depth path n ns)
  show ?case
  proof (cases "is_dot n")
    case True
    then show ?thesis using 2(1)[OF True] 2(4-) by simp
  next
    case dot: False
    show ?thesis
    proof (cases "enters fs (path_in path n) \<and> 1 < depth")
      case True
      then obtain ms where ms: "fs_opendir fs (path_in path n) = Some (ms, Closes)"
        using 2(4) dot by auto
      have "set (below fs depth path (n # ns)) = insert (path_in path n)
          (set (below fs (depth - 1) (path_in path n) ms) \<union> set (below fs depth path ns))"
        using dot True ms by simp
      note all = 2(4)[unfolded this]
      have "healthy fs needle (depth - 1) (path_in path n) ms Closes"
        using all by (intro 2(2)[OF dot True ms refl]) blast
      moreover have "healthy fs needle depth path ns Closes"
        using all by (intro 2(3)[OF dot]) blast
      moreover have "(\<exists>r. grep_process fs needle (path_in path n) = Ok r) \<and> fs_fork fs (path_in path n)"
        using all True by blast
      ultimately show ?thesis using dot True ms by simp
    next
      case False
      have "set (below fs depth path (n # ns)) = insert (path_in path n) (set (below fs depth path ns))"
        by (simp only: below.simps dot False if_False append_Nil list.set)
      note all = 2(4)[unfolded this]
      have "healthy fs needle depth path ns Closes"
        using all by (intro 2(3)[OF dot]) blast
      moreover have "\<exists>r. grep_process fs needle (path_in path n) = Ok r"
        using all by blast
      ultimately show ?thesis by (simp only: healthy.simps dot False if_False simp_thms)
    qed
  qed
qed simp

section \<open>The loop over the entries\<close>

lemma pop_component_holds:
  assumes "holds ss (path_in path n)" "name_ok n" "length path \<le> ss_limit"
  obtains ss' where "pop_component ss = Ok ss'" "holds ss' path"
  using path_pop_rep [of ss path n] assms by (auto simp: holds_def name_ok_def pop_component_def)

lemma path_text_holds: "holds ss path \<Longrightarrow> path_text ss = path"
  by (auto simp: holds_def path_text_def ss_rep_data)

definition names_fine :: "gsys \<Rightarrow> bool" where
  "names_fine fs \<longleftrightarrow> (\<forall>p ns e. fs_opendir fs p = Some (ns, e) \<longrightarrow> (\<forall>n \<in> set ns. name_ok n))"

lemma print_hit_simps [simp]:
  "g_path (print_hit fl p st) = g_path st" "g_kids (print_hit fl p st) = g_kids st"
  by (simp_all add: print_hit_def Let_def)

lemma p_exit_end [simp]: "p_exit (end_process st x) = x"
  by (simp add: end_process_def)

declare grep_entries.simps [simp del] plenty [simp del]

definition grep_child :: "gsys \<Rightarrow> (string list \<Rightarrow> bool) \<Rightarrow> string \<Rightarrow> nat \<Rightarrow> string \<Rightarrow> gstate \<Rightarrow> gproc" where
  "grep_child fs fl needle depth path st = (let child = st\<lparr>g_writes := [], g_kids := []\<rparr> in
     case fs_opendir fs path of
       None \<Rightarrow> end_process child (Exit_Status 1)
     | Some (ms, e') \<Rightarrow> grep_entries plenty fs fl needle (depth - 1) ms e' child)"

text \<open>One round, with the path as a plain string.\<close>

lemma grep_entries_round:
  assumes "holds (g_path st) path" "name_ok n" "length path + 256 \<le> ss_limit" "\<not> is_dot n"
  obtains ss ss' where "holds ss (path_in path n)" "holds ss' path"
    "grep_entries plenty fs fl needle depth (n # ns) e st =
      (case grep_process fs needle (path_in path n) of
         Inl x \<Rightarrow> end_process (st\<lparr>g_path := ss\<rparr>) x
       | Inr (enter, found) \<Rightarrow>
           let st = st\<lparr>g_path := ss\<rparr>;
               st = (if found then print_hit fl (path_in path n) st else st)
           in if enter \<and> 1 < depth \<and> \<not> fs_fork fs (path_in path n) then end_process st (Exit_Status 1)
           else let st = (if enter \<and> 1 < depth
                 then st\<lparr>g_kids := g_kids st @ [grep_child fs fl needle depth (path_in path n) st]\<rparr> else st)
           in grep_entries plenty fs fl needle depth ns e (st\<lparr>g_path := ss'\<rparr>))"
proof -
  obtain ss where ss: "path_push plenty (g_path st) n = Ok ss" "holds ss (path_in path n)"
    using assms(1-3) by (rule push_holds)
  have "length path \<le> ss_limit" using assms(3) by simp
  with ss(2) assms(2) obtain ss' where ss': "pop_component ss = Ok ss'" "holds ss' path"
    by (rule pop_component_holds)
  show thesis
    by (rule that[OF ss(2) ss'(2)])
      (auto simp: grep_entries.simps(2) assms(4) ss(1) ss'(1) path_text_holds[OF ss(2)] grep_child_def Let_def
        split: sum.split)
qed

lemma grep_entries_stops:
  assumes "holds (g_path st) path" "name_ok n" "length path + 256 \<le> ss_limit" "\<not> is_dot n"
    and "grep_process fs needle (path_in path n) = Err x"
  obtains ss where
    "grep_entries plenty fs fl needle depth (n # ns) e st = end_process (st\<lparr>g_path := ss\<rparr>) x"
  by (rule grep_entries_round[OF assms(1-4), of fs fl needle depth ns e])
    (rule that, simp only: assms(5) sum.case)

text \<open>Or when no process can be forked for a directory.\<close>

lemma grep_entries_no_fork:
  assumes "holds (g_path st) path" "name_ok n" "length path + 256 \<le> ss_limit" "\<not> is_dot n"
    and "grep_process fs needle (path_in path n) = Ok (b, f)" "b \<and> 1 < depth \<and> \<not> fs_fork fs (path_in path n)"
  obtains st2 where "g_kids st2 = g_kids st"
    "grep_entries plenty fs fl needle depth (n # ns) e st = end_process st2 (Exit_Status 1)"
  by (rule grep_entries_round[OF assms(1-4), of fs fl needle depth ns e], rule that)
    (simp_all only: assms(5,6) sum.case prod.case Let_def if_True simp_thms, simp)

text \<open>A round whose entry can be searched goes on with the next one.\<close>

lemma grep_entries_next:
  assumes "holds (g_path st) path" "name_ok n" "length path + 256 \<le> ss_limit" "\<not> is_dot n"
    and "grep_process fs needle (path_in path n) = Ok (b, f)" "\<not> (b \<and> 1 < depth \<and> \<not> fs_fork fs (path_in path n))"
  obtains ss ss' st2 where "holds ss (path_in path n)" "holds ss' path"
    "st2 = (if f then print_hit fl (path_in path n) (st\<lparr>g_path := ss\<rparr>) else st\<lparr>g_path := ss\<rparr>)"
    "grep_entries plenty fs fl needle depth (n # ns) e st =
      grep_entries plenty fs fl needle depth ns e (st2\<lparr>g_kids := g_kids st @
        (if b \<and> 1 < depth then [grep_child fs fl needle depth (path_in path n) st2] else []), g_path := ss'\<rparr>)"
proof -
  obtain ss ss' where ss: "holds ss (path_in path n)" "holds ss' path"
    and round: "grep_entries plenty fs fl needle depth (n # ns) e st =
      (case grep_process fs needle (path_in path n) of
         Inl x \<Rightarrow> end_process (st\<lparr>g_path := ss\<rparr>) x
       | Inr (enter, found) \<Rightarrow>
           let st = st\<lparr>g_path := ss\<rparr>;
               st = (if found then print_hit fl (path_in path n) st else st)
           in if enter \<and> 1 < depth \<and> \<not> fs_fork fs (path_in path n) then end_process st (Exit_Status 1)
           else let st = (if enter \<and> 1 < depth
                 then st\<lparr>g_kids := g_kids st @ [grep_child fs fl needle depth (path_in path n) st]\<rparr> else st)
           in grep_entries plenty fs fl needle depth ns e (st\<lparr>g_path := ss'\<rparr>))"
    using assms(1-4) by (rule grep_entries_round)
  define st2 where "st2 = (if f then print_hit fl (path_in path n) (st\<lparr>g_path := ss\<rparr>) else st\<lparr>g_path := ss\<rparr>)"
  have kids: "g_kids st2 = g_kids st" by (simp add: st2_def)
  have same: "st2\<lparr>g_kids := g_kids st, g_path := ss'\<rparr> = st2\<lparr>g_path := ss'\<rparr>" using kids by (cases st2) simp
  have "grep_entries plenty fs fl needle depth (n # ns) e st =
      grep_entries plenty fs fl needle depth ns e (st2\<lparr>g_kids := g_kids st @
        (if b \<and> 1 < depth then [grep_child fs fl needle depth (path_in path n) st2] else []), g_path := ss'\<rparr>)"
    unfolding round assms(5) sum.case prod.case Let_def st2_def[symmetric] if_not_P[OF assms(6)]
    by (cases "b \<and> 1 < depth") (simp_all only: kids same if_True if_False append_Nil2 simp_thms
        gstate.update_convs gstate.select_convs)
  then show thesis by (rule that[OF ss st2_def])
qed

text \<open>Which entries are looked into.\<close>

definition searches :: "gsys \<Rightarrow> string \<Rightarrow> bool" where
  "searches fs p \<longleftrightarrow> (case fs_lstat fs p of None \<Rightarrow> False
   | Some sb \<Rightarrow> st_mode sb AND S_IFMT = 0x8000 \<and> readable fs sb \<and> (st_mode sb AND 0x49 = 0 \<longrightarrow> \<not> binary_name p))"

text \<open>
  \<open>grep_process\<close> ends a process only by \<open>exit(1)\<close>, or by the assertion when the first block of the file
  is shorter than the string.
\<close>

definition short_read :: "gsys \<Rightarrow> string \<Rightarrow> string \<Rightarrow> bool" where
  "short_read fs needle p \<longleftrightarrow> searches fs p \<and> (case fs_open fs p of None \<Rightarrow> False
   | Some (s, e) \<Rightarrow> short_block (fs_sched fs) needle s)"

lemma search_file_error:
  "search_file fs needle chk p = Err x \<Longrightarrow> x = Exit_Status 1 \<or>
    x = Assert_Fail \<and> (\<exists>s e. fs_open fs p = Some (s, e) \<and> short_block (fs_sched fs) needle s)"
  by (auto dest!: grep_loop_error simp: search_file_def rbind_eq_Inl split: option.split_asm prod.split_asm if_split_asm)

lemma grep_process_error:
  assumes "grep_process fs needle p = Err x"
  shows "x = Exit_Status 1 \<or> x = Assert_Fail \<and> short_read fs needle p"
proof -
  obtain chk where "search_file fs needle chk p = Err x" "searches fs p"
    using assms by (auto simp: grep_process_def searches_def rbind_eq_Inl split: option.split_asm if_split_asm)
  then show ?thesis using search_file_error by (fastforce simp: short_read_def)
qed

primrec all_writes :: "gproc \<Rightarrow> string list" where
  "all_writes (Proc w x ks) = w @ concat (map all_writes ks)"

definition kids_fine :: "gstate \<Rightarrow> bool" where
  "kids_fine st \<longleftrightarrow> (\<forall>k \<in> set (g_kids st). p_exit k = Exit_Status 0)"

text \<open>A process ends with status 0 if and only if it is healthy and all its children were.\<close>

lemma grep_child_exit:
  assumes "\<And>ms e' st. fs_opendir fs path = Some (ms, e') \<Longrightarrow> holds (g_path st) path \<Longrightarrow>
      p_exit (grep_entries plenty fs fl needle (depth - 1) ms e' st) = Exit_Status 0 \<longleftrightarrow>
        kids_fine st \<and> healthy fs needle (depth - 1) path ms e'"
    and "holds (g_path st) path"
  shows "p_exit (grep_child fs fl needle depth path st) = Exit_Status 0 \<longleftrightarrow>
    (case fs_opendir fs path of None \<Rightarrow> False | Some (ms, e') \<Rightarrow> healthy fs needle (depth - 1) path ms e')"
proof (cases "fs_opendir fs path")
  case None
  then show ?thesis by (simp add: grep_child_def)
next
  case (Some d)
  then show ?thesis
    using assms(1)[of "fst d" "snd d" "st\<lparr>g_writes := [], g_kids := []\<rparr>"] assms(2)
    by (cases d) (simp add: grep_child_def kids_fine_def)
qed

lemma child_room:
  "name_ok n \<Longrightarrow> length path + 256 * depth \<le> ss_limit \<Longrightarrow> 1 \<le> depth \<Longrightarrow>
    length (path_in path n) + 256 * (depth - 1) \<le> ss_limit"
  by (cases depth) (auto simp: name_ok_def)

lemma grep_entries_exit:
  assumes "names_fine fs" "\<forall>n \<in> set ns. name_ok n" "holds (g_path st) path"
    and "length path + 256 * depth \<le> ss_limit" "1 \<le> depth"
  shows "p_exit (grep_entries plenty fs fl needle depth ns e st) = Exit_Status 0 \<longleftrightarrow>
    kids_fine st \<and> healthy fs needle depth path ns e"
  using assms
proof (induction fs needle depth path ns e arbitrary: st rule: healthy.induct)
  case (1 fs needle depth path e)
  show ?case by (auto simp: grep_entries.simps(1) wait_kids_def kids_fine_def)
next
  case (2 fs needle depth path n ns e)
  have n: "name_ok n" and ns: "\<forall>n \<in> set ns. name_ok n" using 2(5) by auto
  have room: "length path + 256 \<le> ss_limit" using 2(7,8) by linarith
  let ?p = "path_in path n"
  consider (dot) "is_dot n" | (err) x where "\<not> is_dot n" "grep_process fs needle ?p = Err x"
    | (nofork) f where "\<not> is_dot n" "grep_process fs needle ?p = Ok (enters fs ?p, f)"
        "enters fs ?p \<and> 1 < depth \<and> \<not> fs_fork fs ?p"
    | (ok) f where "\<not> is_dot n" "grep_process fs needle ?p = Ok (enters fs ?p, f)"
        "\<not> (enters fs ?p \<and> 1 < depth \<and> \<not> fs_fork fs ?p)"
    using grep_process_enters by (cases "grep_process fs needle ?p") fastforce+
  then show ?case
  proof cases
    case dot
    then show ?thesis using 2(1)[OF dot 2(4) ns 2(6-8)] by (simp add: grep_entries.simps(2))
  next
    case (err x)
    obtain ss where "grep_entries plenty fs fl needle depth (n # ns) e st = end_process (st\<lparr>g_path := ss\<rparr>) x"
      using 2(6) n room err by (rule grep_entries_stops)
    then show ?thesis using err grep_process_error[OF err(2)] by auto
  next
    case (nofork f)
    obtain st2 where "grep_entries plenty fs fl needle depth (n # ns) e st = end_process st2 (Exit_Status 1)"
      using 2(6) n room nofork by (rule grep_entries_no_fork)
    moreover have "\<not> healthy fs needle depth path (n # ns) e" using nofork by simp
    ultimately show ?thesis by simp
  next
    case (ok f)
    obtain ss ss' st2 where ss: "holds ss ?p" "holds ss' path"
      and st2: "st2 = (if f then print_hit fl ?p (st\<lparr>g_path := ss\<rparr>) else st\<lparr>g_path := ss\<rparr>)"
      and "next": "grep_entries plenty fs fl needle depth (n # ns) e st =
        grep_entries plenty fs fl needle depth ns e (st2\<lparr>g_kids := g_kids st @
          (if enters fs ?p \<and> 1 < depth then [grep_child fs fl needle depth ?p st2] else []), g_path := ss'\<rparr>)"
      by (rule grep_entries_next[OF 2(6) n room ok])
    have "p_exit (grep_child fs fl needle depth ?p st2) = Exit_Status 0 \<longleftrightarrow>
        (case fs_opendir fs ?p of None \<Rightarrow> False | Some (ms, e') \<Rightarrow> healthy fs needle (depth - 1) ?p ms e')"
      if deep: "enters fs ?p \<and> 1 < depth"
    proof (rule grep_child_exit)
      fix ms e' and st :: gstate assume d: "fs_opendir fs ?p = Some (ms, e')" "holds (g_path st) ?p"
      have "\<forall>m \<in> set ms. name_ok m" using 2(4) d(1) unfolding names_fine_def by blast
      then show "p_exit (grep_entries plenty fs fl needle (depth - 1) ms e' st) = Exit_Status 0 \<longleftrightarrow>
          kids_fine st \<and> healthy fs needle (depth - 1) ?p ms e'"
        by (rule 2(2)[OF ok(1) deep d(1) refl 2(4) _ d(2) child_room[OF n 2(7,8)]]) (use deep in linarith)
    qed (use ss st2 in simp)
    then show ?thesis
      unfolding "next" using 2(3)[OF ok(1) 2(4) ns _ 2(7,8)] ss(2) ok by (auto simp: kids_fine_def)
  qed
qed

text \<open>
  What a healthy run writes on a terminal: every matching path below the directory, once.
\<close>

abbreviation terminal :: "string list \<Rightarrow> bool" where "terminal \<equiv> \<lambda>_. True"

lemma print_hit_terminal:
  "g_buf st = [] \<Longrightarrow> g_buf (print_hit terminal p st) = []"
  "g_buf st = [] \<Longrightarrow> g_writes (print_hit terminal p st) = g_writes st @ [p]"
  by (simp_all add: print_hit_def)

lemma grep_child_writes:
  assumes "\<And>ms e' st. fs_opendir fs path = Some (ms, e') \<Longrightarrow> holds (g_path st) path \<Longrightarrow> g_buf st = [] \<Longrightarrow>
      mset (all_writes (grep_entries plenty fs terminal needle (depth - 1) ms e' st)) =
        mset (g_writes st) + mset (concat (map all_writes (g_kids st))) +
        mset (filter (hit fs needle) (below fs (depth - 1) path ms))"
    and "holds (g_path st) path" "g_buf st = []" "fs_opendir fs path \<noteq> None"
  shows "mset (all_writes (grep_child fs terminal needle depth path st)) = mset (filter (hit fs needle)
    (case fs_opendir fs path of None \<Rightarrow> [] | Some (ms, _) \<Rightarrow> below fs (depth - 1) path ms))"
proof -
  obtain ms e' where "fs_opendir fs path = Some (ms, e')" using assms(4) by auto
  then show ?thesis
    using assms(1)[of ms e' "st\<lparr>g_writes := [], g_kids := []\<rparr>"] assms(2,3) by (simp add: grep_child_def)
qed

lemma healthy_deep:
  assumes "healthy fs needle depth path (n # ns) e" "\<not> is_dot n" "enters fs (path_in path n) \<and> 1 < depth"
  obtains ms e' where "fs_opendir fs (path_in path n) = Some (ms, e')"
    "healthy fs needle (depth - 1) (path_in path n) ms e'"
  using assms by (cases "fs_opendir fs (path_in path n)") auto

lemma grep_entries_writes:
  assumes "names_fine fs" "\<forall>n \<in> set ns. name_ok n" "holds (g_path st) path"
    and "length path + 256 * depth \<le> ss_limit" "1 \<le> depth" "g_buf st = []" "healthy fs needle depth path ns e"
  shows "mset (all_writes (grep_entries plenty fs terminal needle depth ns e st)) =
    mset (g_writes st) + mset (concat (map all_writes (g_kids st))) +
    mset (filter (hit fs needle) (below fs depth path ns))"
  using assms
proof (induction fs needle depth path ns e arbitrary: st rule: healthy.induct)
  case (1 fs needle depth path e)
  then show ?case by (auto simp: grep_entries.simps(1) wait_kids_def end_process_def)
next
  case (2 fs needle depth path n ns e)
  have n: "name_ok n" and ns: "\<forall>n \<in> set ns. name_ok n" using 2(5) by auto
  have room: "length path + 256 \<le> ss_limit" using 2(7,8) by linarith
  let ?p = "path_in path n"
  show ?case
  proof (cases "is_dot n")
    case True
    then show ?thesis using 2(1)[OF True 2(4) ns 2(6-9)] 2(10) by (simp add: grep_entries.simps(2))
  next
    case dot: False
    then obtain f where f: "grep_process fs needle ?p = Ok (enters fs ?p, f)"
      using 2(10) grep_process_enters by fastforce
    have fork: "\<not> (enters fs ?p \<and> 1 < depth \<and> \<not> fs_fork fs ?p)" using 2(10) dot by auto
    have healthy: "healthy fs needle depth path ns e" using 2(10) dot by simp
    obtain ss ss' st2 where ss: "holds ss ?p" "holds ss' path"
      and st2: "st2 = (if f then print_hit terminal ?p (st\<lparr>g_path := ss\<rparr>) else st\<lparr>g_path := ss\<rparr>)"
      and "next": "grep_entries plenty fs terminal needle depth (n # ns) e st =
        grep_entries plenty fs terminal needle depth ns e (st2\<lparr>g_kids := g_kids st @
          (if enters fs ?p \<and> 1 < depth then [grep_child fs terminal needle depth ?p st2] else []), g_path := ss'\<rparr>)"
      by (rule grep_entries_next[OF 2(6) n room dot f fork])
    have st2: "g_buf st2 = []" "g_writes st2 = g_writes st @ (if f then [?p] else [])" "g_path st2 = ss"
      using 2(9) print_hit_terminal[of "st\<lparr>g_path := ss\<rparr>"] by (simp_all add: st2)
    have hit: "hit fs needle ?p \<longleftrightarrow> f" by (simp add: hit_def f)
    let ?deep = "enters fs ?p \<and> 1 < depth" and ?child = "grep_child fs terminal needle depth ?p st2"
    let ?sub = "case fs_opendir fs ?p of None \<Rightarrow> [] | Some (ms, _) \<Rightarrow> below fs (depth - 1) ?p ms"
    have "mset (all_writes ?child) = mset (filter (hit fs needle) ?sub)" if deep: ?deep
    proof (rule grep_child_writes)
      obtain ms e' where d': "fs_opendir fs ?p = Some (ms, e')" "healthy fs needle (depth - 1) ?p ms e'"
        using 2(10) dot deep by (rule healthy_deep)
      then show "fs_opendir fs ?p \<noteq> None" by simp
      fix ms e' and st :: gstate assume d: "fs_opendir fs ?p = Some (ms, e')" "holds (g_path st) ?p" "g_buf st = []"
      have "\<forall>m \<in> set ms. name_ok m" using 2(4) d(1) unfolding names_fine_def by blast
      moreover have "healthy fs needle (depth - 1) ?p ms e'" "1 \<le> depth - 1" using d' d(1) deep by auto
      ultimately show "mset (all_writes (grep_entries plenty fs terminal needle (depth - 1) ms e' st)) =
          mset (g_writes st) + mset (concat (map all_writes (g_kids st))) +
          mset (filter (hit fs needle) (below fs (depth - 1) ?p ms))"
        by (intro 2(2)[OF dot deep d(1) refl 2(4) _ d(2) child_room[OF n 2(7,8)]] d(3))
    qed (use ss st2 in auto)
    moreover define K where "K = (if ?deep then [?child] else [])"
    moreover define S where "S = (if ?deep then ?sub else [])"
    ultimately have kids: "mset (concat (map all_writes K)) = mset (filter (hit fs needle) S)"
      by (cases ?deep) (simp_all only: if_True if_False list.map concat.simps append_Nil2 filter.simps simp_thms)
    have below: "below fs depth path (n # ns) = ?p # S @ below fs depth path ns"
      by (simp only: below.simps dot if_False S_def)
    have "mset (all_writes (grep_entries plenty fs terminal needle depth ns e (st2\<lparr>g_kids := g_kids st @ K, g_path := ss'\<rparr>))) =
        mset (g_writes st2) + mset (concat (map all_writes (g_kids st @ K))) + mset (filter (hit fs needle) (below fs depth path ns))"
      using 2(3)[OF dot 2(4) ns _ 2(7,8) _ healthy, of "st2\<lparr>g_kids := g_kids st @ K, g_path := ss'\<rparr>"] ss(2) st2(1)
      by simp
    then show ?thesis
      unfolding "next"[folded K_def] below st2(2) using kids hit by simp
  qed
qed

text \<open>How the processes of a run can end.\<close>

primrec all_exits :: "gproc \<Rightarrow> error list" where
  "all_exits (Proc w x ks) = x # concat (map all_exits ks)"

definition grep_outcomes :: "gsys \<Rightarrow> string \<Rightarrow> string list \<Rightarrow> error set" where
  "grep_outcomes fs needle ps =
     {Exit_Status 0, Exit_Status 1} \<union> (if \<exists>p \<in> set ps. short_read fs needle p then {Assert_Fail} else {})"

definition outcomes_fine :: "error set \<Rightarrow> gproc list \<Rightarrow> bool" where
  "outcomes_fine X ks \<longleftrightarrow> Exit_Status 0 \<in> X \<and> Exit_Status 1 \<in> X \<and> (\<forall>k \<in> set ks. set (all_exits k) \<subseteq> X)"

lemma grep_outcomes_mono: "set ps \<subseteq> set qs \<Longrightarrow> grep_outcomes fs needle ps \<subseteq> grep_outcomes fs needle qs"
  by (auto simp: grep_outcomes_def)

lemma below_cons: "\<not> is_dot n \<Longrightarrow>
    \<exists>ps. below fs depth path (n # ns) = path_in path n # ps @ below fs depth path ns"
  unfolding below.simps(2) by (simp only: if_False) blast

lemma below_here: "\<not> is_dot n \<Longrightarrow> path_in path n \<in> set (below fs depth path (n # ns))"
  using below_cons[of n fs depth path ns] by (metis list.set_intros(1))

lemma below_later: "set (below fs depth path ns) \<subseteq> set (below fs depth path (n # ns))"
proof (cases "is_dot n")
  case True
  then show ?thesis by (simp only: below.simps(2) if_True)
next
  case False
  then obtain ps where "below fs depth path (n # ns) = path_in path n # ps @ below fs depth path ns"
    using below_cons by blast
  then show ?thesis by (simp only: list.set set_append) blast
qed

lemma below_deeper:
  assumes "\<not> is_dot n" "enters fs (path_in path n) \<and> 1 < depth" "fs_opendir fs (path_in path n) = Some (ms, e)"
  shows "set (below fs (depth - 1) (path_in path n) ms) \<subseteq> set (below fs depth path (n # ns))"
  using assms by auto

lemma process_outcome:
  "grep_process fs needle p = Err x \<Longrightarrow> p \<in> set ps \<Longrightarrow> x \<in> grep_outcomes fs needle ps"
  by (auto dest!: grep_process_error simp: grep_outcomes_def)

lemma outcomes_end:
  "outcomes_fine X (g_kids st) \<Longrightarrow> x \<in> X \<Longrightarrow> outcomes_fine X [end_process st x]"
  by (auto simp: outcomes_fine_def end_process_def)

lemma outcomes_fail: "outcomes_fine X (g_kids st) \<Longrightarrow> outcomes_fine X [end_process st (Exit_Status 1)]"
  by (intro outcomes_end) (simp_all add: outcomes_fine_def)

lemma outcomes_wait: "outcomes_fine X (g_kids st) \<Longrightarrow> outcomes_fine X [wait_kids st]"
  unfolding wait_kids_def by (rule outcomes_end) (auto simp: outcomes_fine_def)

lemma grep_entries_outcomes:
  assumes "names_fine fs" "\<forall>n \<in> set ns. name_ok n" "holds (g_path st) path"
    and "length path + 256 * depth \<le> ss_limit" "1 \<le> depth" "outcomes_fine X (g_kids st)"
    and "grep_outcomes fs needle (below fs depth path ns) \<subseteq> X"
  shows "outcomes_fine X [grep_entries plenty fs fl needle depth ns e st]"
  using assms
proof (induction fs needle depth path ns e arbitrary: st rule: healthy.induct)
  case (1 fs needle depth path e)
  then show ?case
    by (cases "e = Closes") (simp_all add: grep_entries.simps(1) outcomes_wait outcomes_fail)
next
  case (2 fs needle depth path n ns e)
  have n: "name_ok n" and ns: "\<forall>n \<in> set ns. name_ok n" using 2(5) by auto
  have room: "length path + 256 \<le> ss_limit" using 2(7,8) by linarith
  let ?p = "path_in path n"
  consider (dot) "is_dot n" | (err) x where "\<not> is_dot n" "grep_process fs needle ?p = Err x"
    | (nofork) f where "\<not> is_dot n" "grep_process fs needle ?p = Ok (enters fs ?p, f)"
        "enters fs ?p \<and> 1 < depth \<and> \<not> fs_fork fs ?p"
    | (ok) f where "\<not> is_dot n" "grep_process fs needle ?p = Ok (enters fs ?p, f)"
        "\<not> (enters fs ?p \<and> 1 < depth \<and> \<not> fs_fork fs ?p)"
    using grep_process_enters by (cases "grep_process fs needle ?p") fastforce+
  then show ?case
  proof cases
    case dot
    then show ?thesis using 2(1)[OF dot 2(4) ns 2(6-9)] 2(10) by (simp add: grep_entries.simps(2))
  next
    case (err x)
    obtain ss where "grep_entries plenty fs fl needle depth (n # ns) e st = end_process (st\<lparr>g_path := ss\<rparr>) x"
      using 2(6) n room err by (rule grep_entries_stops)
    moreover have "x \<in> grep_outcomes fs needle (below fs depth path (n # ns))"
      using below_here[OF err(1)] by (rule process_outcome[OF err(2)])
    then have "x \<in> X" using 2(10) by (rule subsetD[rotated])
    ultimately show ?thesis using outcomes_end[of X "st\<lparr>g_path := ss\<rparr>" x] 2(9) by simp
  next
    case (nofork f)
    obtain st2 where "g_kids st2 = g_kids st"
        "grep_entries plenty fs fl needle depth (n # ns) e st = end_process st2 (Exit_Status 1)"
      using 2(6) n room nofork by (rule grep_entries_no_fork)
    then show ?thesis using outcomes_fail[of X st2] 2(9) by simp
  next
    case (ok f)
    obtain ss ss' st2 where ss: "holds ss ?p" "holds ss' path"
      and st2: "st2 = (if f then print_hit fl ?p (st\<lparr>g_path := ss\<rparr>) else st\<lparr>g_path := ss\<rparr>)"
      and "next": "grep_entries plenty fs fl needle depth (n # ns) e st =
        grep_entries plenty fs fl needle depth ns e (st2\<lparr>g_kids := g_kids st @
          (if enters fs ?p \<and> 1 < depth then [grep_child fs fl needle depth ?p st2] else []), g_path := ss'\<rparr>)"
      by (rule grep_entries_next[OF 2(6) n room ok])
    define K where "K = (if enters fs ?p \<and> 1 < depth then [grep_child fs fl needle depth ?p st2] else [])"
    have ends: "Exit_Status 0 \<in> X" "Exit_Status 1 \<in> X" using 2(9) by (simp_all add: outcomes_fine_def)
    have "outcomes_fine X [grep_child fs fl needle depth ?p st2]" if deep: "enters fs ?p \<and> 1 < depth"
    proof (cases "fs_opendir fs ?p")
      case None
      then show ?thesis using ends by (simp add: grep_child_def) (rule outcomes_fail, simp add: outcomes_fine_def)
    next
      case (Some d)
      then obtain ms e' where d: "fs_opendir fs ?p = Some (ms, e')" by (cases d) simp
      have "\<forall>m \<in> set ms. name_ok m" using 2(4) d unfolding names_fine_def by blast
      moreover have "1 \<le> depth - 1" using deep by linarith
      moreover have "grep_outcomes fs needle (below fs (depth - 1) ?p ms) \<subseteq> X"
        by (rule order_trans[OF grep_outcomes_mono[OF below_deeper[OF ok(1) deep d]] 2(10)])
      ultimately show ?thesis
        using 2(2)[OF ok(1) deep d refl 2(4) _ _ child_room[OF n 2(7,8)], of "st2\<lparr>g_writes := [], g_kids := []\<rparr>"]
          d ss(1) st2 ends by (simp add: grep_child_def outcomes_fine_def)
    qed
    then have "outcomes_fine X (g_kids st @ K)" using 2(9) by (auto simp: outcomes_fine_def K_def)
    moreover have "grep_outcomes fs needle (below fs depth path ns) \<subseteq> X"
      by (rule order_trans[OF grep_outcomes_mono[OF below_later] 2(10)])
    ultimately show ?thesis
      unfolding "next"[folded K_def] using ss(2) by (intro 2(3)[OF ok(1) 2(4) ns _ 2(7,8)]) simp_all
  qed
qed

section \<open>The program\<close>

text \<open>Which of the entries that are looked into contain the string.\<close>

definition has_exec_bit :: "gsys \<Rightarrow> string \<Rightarrow> bool" where
  "has_exec_bit fs p \<longleftrightarrow> (case fs_lstat fs p of None \<Rightarrow> False | Some sb \<Rightarrow> st_mode sb AND 0x49 \<noteq> 0)"

definition file_matches :: "gsys \<Rightarrow> string \<Rightarrow> string \<Rightarrow> bool" where
  "file_matches fs needle p \<longleftrightarrow> searches fs p \<and> (case fs_open fs p of None \<Rightarrow> False
   | Some (s, e) \<Rightarrow> sublist needle s \<and> (has_exec_bit fs p \<longrightarrow> script_start s))"

text \<open>A file that can be read to its end, and is not a few bytes short of the string.\<close>

definition easy_file :: "gsys \<Rightarrow> string \<Rightarrow> string \<Rightarrow> bool" where
  "easy_file fs needle p \<longleftrightarrow> (searches fs p \<longrightarrow> (case fs_open fs p of None \<Rightarrow> False
   | Some (s, e) \<Rightarrow> e = Closes \<and> (s = [] \<or> length needle \<le> length s)))"

lemma search_file_easy:
  assumes "fs_open fs p = Some (s, Closes)" "s = [] \<or> length needle \<le> length s"
    and "0 < length needle" "length needle < SEARCH_BUF" "\<And>n. SEARCH_BUF \<le> fs_sched fs n"
  shows "search_file fs needle chk p = Ok (sublist needle s \<and> (chk \<longrightarrow> script_start s))"
proof -
  have "grep_loop needle chk (fs_sched fs) Closes True [] s = Ok (sublist needle s \<and> (chk \<longrightarrow> script_start s))"
    using assms by (intro grep_loop_first) auto
  then show ?thesis by (simp add: search_file_def assms(1))
qed

lemma search_file_short:
  assumes "fs_open fs p = Some (s, e)" "0 < length s" "length s < length needle" "chk \<longrightarrow> script_start s"
  shows "search_file fs needle chk p = Err Assert_Fail"
  using grep_loop_short[of s needle chk "fs_sched fs" e] assms by (simp add: search_file_def)

lemma grep_process_easy:
  assumes "easy_file fs needle p" "0 < length needle" "length needle < SEARCH_BUF"
    and "\<And>n. SEARCH_BUF \<le> fs_sched fs n"
  shows "grep_process fs needle p = Ok (enters fs p, file_matches fs needle p)"
proof (cases "fs_lstat fs p")
  case None
  then show ?thesis by (simp add: grep_process_def enters_def file_matches_def searches_def)
next
  case (Some sb)
  show ?thesis
  proof (cases "searches fs p")
    case True
    then obtain s where s: "fs_open fs p = Some (s, Closes)" "s = [] \<or> length needle \<le> length s"
      using assms(1) by (auto simp: easy_file_def split: option.split_asm)
    have "search_file fs needle c p = Ok (sublist needle s \<and> (c \<longrightarrow> script_start s))" for c
      using s assms(2-4) by (rule search_file_easy)
    then show ?thesis using True Some s(1)
      by (auto simp: grep_process_def searches_def enters_def file_matches_def has_exec_bit_def)
  next
    case False
    then show ?thesis using Some
      by (auto simp: grep_process_def searches_def enters_def file_matches_def)
  qed
qed

lemma grep_process_short:
  assumes "searches fs p" "fs_open fs p = Some (s, e)" "0 < length s" "length s < length needle"
    and "has_exec_bit fs p \<longrightarrow> script_start s"
  shows "grep_process fs needle p = Err Assert_Fail"
  using assms search_file_short[OF assms(2-4)]
  by (auto simp: grep_process_def searches_def has_exec_bit_def split: option.splits)

lemma grep_main_child:
  assumes "chdir dir" "0 < length needle" "1 \<le> depth" "int depth \<le> LONG_MAX"
    and "fs_opendir fs ''.'' = Some (ns, e)" "fs_fork fs []"
  obtains st where "holds (g_path st) ''.''" "g_writes st = []" "g_buf st = []" "g_kids st = []"
    "grep_main plenty fs fl chdir [prog, dir, needle, show_nat depth] =
      (let child = grep_entries plenty fs fl needle depth ns e st
       in (if p_exit child = Exit_Status 0 then 0 else 1, Some child))"
proof -
  obtain ss where ss: "path_assign plenty ss_zero ''.'' = Ok ss" "holds ss ''.''"
    using path_assign_rep[of "''.''"] by (auto simp: holds_def ss_limit_def)
  have "show_nat depth \<noteq> []" by (rule show_nat_head[of depth]) simp
  then have "parse_depth (show_nat depth) = Some (int depth)"
    using strtol_show_nat(1)[OF assms(4)] by (simp add: parse_depth_def)
  then show thesis
    by (intro that[of "\<lparr>g_writes = [], g_buf = [], g_path = ss, g_kids = []\<rparr>"])
      (use assms ss path_text_holds[OF ss(2)] in \<open>simp_all add: grep_main_def grep_walk_def Let_def\<close>)
qed

text \<open>
  C16: On a terminal, where the processes can all be forked, every directory down to the depth can be
  read and every searched file can be read and is empty or at least as long as the string, the
  program exits with status 0, and the lines that all its processes write are the paths of the matching files
  down to the depth, each once.
\<close>

theorem grep_main_finds:
  assumes "names_fine fs" "\<And>n. SEARCH_BUF \<le> fs_sched fs n" "chdir dir"
    and "0 < length needle" "length needle < SEARCH_BUF" "1 \<le> depth" "depth \<le> 2 ^ 50"
    and "fs_opendir fs ''.'' = Some (ns, Closes)" "fs_fork fs []"
    and "\<forall>p \<in> set (below fs depth ''.'' ns). easy_file fs needle p \<and>
      (enters fs p \<longrightarrow> fs_fork fs p \<and> (\<exists>ms. fs_opendir fs p = Some (ms, Closes)))"
  shows "\<exists>child. grep_main plenty fs terminal chdir [prog, dir, needle, show_nat depth] = (0, Some child) \<and>
    mset (all_writes child) = mset (filter (file_matches fs needle) (below fs depth ''.'' ns))"
proof -
  have "int depth \<le> LONG_MAX" using assms(7) by (simp add: LONG_MAX_def)
  then obtain st where st: "holds (g_path st) ''.''" "g_writes st = []" "g_buf st = []" "g_kids st = []"
    and main: "grep_main plenty fs terminal chdir [prog, dir, needle, show_nat depth] =
      (let child = grep_entries plenty fs terminal needle depth ns Closes st
       in (if p_exit child = Exit_Status 0 then 0 else 1, Some child))"
    using assms(3,4,6,8,9) by (metis grep_main_child)
  let ?child = "grep_entries plenty fs terminal needle depth ns Closes st"
  have proc: "grep_process fs needle p = Ok (enters fs p, file_matches fs needle p)"
    if "p \<in> set (below fs depth ''.'' ns)" for p
    using assms(10) that by (intro grep_process_easy assms(2,4,5)) blast
  then have healthy: "healthy fs needle depth ''.'' ns Closes"
    using assms(10) by (intro healthyI) blast
  have ns: "\<forall>n \<in> set ns. name_ok n" using assms(1,8) unfolding names_fine_def by blast
  have room: "length ''.'' + 256 * depth \<le> ss_limit" using assms(7) by (simp add: ss_limit_def)
  note run = assms(1) ns st(1) room assms(6)
  have "p_exit ?child = Exit_Status 0"
    using grep_entries_exit[OF run] healthy st(4) by (simp add: kids_fine_def)
  moreover have "filter (hit fs needle) (below fs depth ''.'' ns) =
      filter (file_matches fs needle) (below fs depth ''.'' ns)"
    using proc by (intro filter_cong refl) (simp add: hit_def)
  then have "mset (all_writes ?child) = mset (filter (file_matches fs needle) (below fs depth ''.'' ns))"
    using grep_entries_writes[OF run st(3) healthy] st(2,4) by simp
  ultimately show ?thesis using main by (simp add: Let_def)
qed

text \<open>A directory with a file that matches, one that does not, and a subdirectory with a match.\<close>

definition grep_demo_fs :: gsys where
  "grep_demo_fs = \<lparr>fs_lstat = map_of [(''./a'', demo_stat 0x81A4 7), (''./b'', demo_stat 0x81A4 4),
       (''./d'', demo_stat 0x41ED 40), (''./d/c'', demo_stat 0x81A4 5)],
     fs_opendir = map_of [(''.'', ([''.'', ''..'', ''a'', ''b'', ''d''], Closes)), (''./d'', ([''c''], Closes))],
     fs_uid = 1, fs_gid = 1,
     fs_open = map_of [(''./a'', (''the hay'', Closes)), (''./b'', (''none'', Closes)), (''./d/c'', (''hay!!'', Closes))],
     fs_sched = (\<lambda>_. SEARCH_BUF), fs_fork = (\<lambda>_. True)\<rparr>"

lemma grep_demo_below:
  "below grep_demo_fs 2 ''.'' [''.'', ''..'', ''a'', ''b'', ''d''] = [''./a'', ''./b'', ''./d'', ''./d/c'']"
  by code_simp

lemma grep_demo_names: "names_fine grep_demo_fs"
  by (auto simp: names_fine_def grep_demo_fs_def name_ok_def split: if_split_asm)

lemma grep_main_finds_witness:
  "\<exists>child. grep_main plenty grep_demo_fs terminal (\<lambda>_. True) [''main'', ''..'', ''hay'', show_nat 2] = (0, Some child) \<and>
    mset (all_writes child) = mset [''./a'', ''./d/c'']"
proof -
  let ?ns = "[''.'', ''..'', ''a'', ''b'', ''d'']"
  have "\<forall>p \<in> set (below grep_demo_fs 2 ''.'' ?ns). easy_file grep_demo_fs ''hay'' p \<and>
      (enters grep_demo_fs p \<longrightarrow> fs_fork grep_demo_fs p \<and> (\<exists>ms. fs_opendir grep_demo_fs p = Some (ms, Closes)))"
  proof -
    have "\<not> enters grep_demo_fs ''./a''" "\<not> enters grep_demo_fs ''./b''" "\<not> enters grep_demo_fs ''./d/c''"
      by code_simp+
    moreover have "fs_opendir grep_demo_fs ''./d'' = Some ([''c''], Closes)" by code_simp
    moreover have "easy_file grep_demo_fs ''hay'' ''./a''" "easy_file grep_demo_fs ''hay'' ''./b''"
        "easy_file grep_demo_fs ''hay'' ''./d''" "easy_file grep_demo_fs ''hay'' ''./d/c''"
      by code_simp+
    moreover have "fs_fork grep_demo_fs p" for p by (simp add: grep_demo_fs_def)
    ultimately show ?thesis unfolding grep_demo_below by auto
  qed
  moreover have "fs_fork grep_demo_fs []" by (simp add: grep_demo_fs_def)
  moreover have "filter (file_matches grep_demo_fs ''hay'') (below grep_demo_fs 2 ''.'' ?ns) = [''./a'', ''./d/c'']"
    by code_simp
  moreover have "fs_opendir grep_demo_fs ''.'' = Some (?ns, Closes)" by code_simp
  moreover have "SEARCH_BUF \<le> fs_sched grep_demo_fs n" for n by (simp add: grep_demo_fs_def)
  moreover have "0 < length ''hay''" "length ''hay'' < SEARCH_BUF" "(2::nat) \<le> 2 ^ 50" "(1::nat) \<le> 2"
    by (simp_all add: SEARCH_BUF_def)
  ultimately show ?thesis
    using grep_main_finds[of grep_demo_fs "\<lambda>_. True" "''..''" "''hay''" 2 ?ns "''main''"] grep_demo_names
    by metis
qed

text \<open>What a run may look at.\<close>

definition all_below :: "gsys \<Rightarrow> nat \<Rightarrow> string list" where
  "all_below fs depth = (case fs_opendir fs ''.'' of None \<Rightarrow> [] | Some (ns, _) \<Rightarrow> below fs depth ''.'' ns)"

text \<open>
  C36: On every file system whose names are those of \<open>readdir\<close>, whatever cannot be read in it,
  however the output is buffered and the reads are cut: every process of a run ends with
  status 0 or 1, or on the assertion about the block size, and this only if the first \<open>read\<close> of some
  searched file brings some bytes but fewer than the string. No process reads or moves bytes outside
  the search buffer, fails another assertion or runs out of the path.
\<close>

theorem grep_main_outcomes:
  assumes "names_fine fs" "0 < length needle" "1 \<le> depth" "depth \<le> 2 ^ 50"
  shows "\<exists>status child. grep_main plenty fs fl chdir [prog, dir, needle, show_nat depth] = (status, child) \<and>
    status \<in> {0, 1} \<and> set (case child of None \<Rightarrow> [] | Some c \<Rightarrow> all_exits c) \<subseteq>
      {Exit_Status 0, Exit_Status 1} \<union>
      (if list_ex (short_read fs needle) (all_below fs depth) then {Assert_Fail} else {})"
proof -
  define X where "X = {Exit_Status 0, Exit_Status 1} \<union>
      (if list_ex (short_read fs needle) (all_below fs depth) then {Assert_Fail} else {})"
  obtain ss where ss: "path_assign plenty ss_zero ''.'' = Ok ss" "holds ss ''.''"
    using path_assign_rep[of "''.''"] by (auto simp: holds_def ss_limit_def)
  let ?st = "\<lparr>g_writes = [], g_buf = [], g_path = ss, g_kids = []\<rparr>"
  have room: "length ''.'' + 256 * depth \<le> ss_limit" using assms(4) by (simp add: ss_limit_def)
  have kids: "outcomes_fine X (g_kids ?st)" by (simp add: outcomes_fine_def X_def)
  have fail: "outcomes_fine X [end_process st (Exit_Status 1)]" if "g_kids st = []" for st
    using that by (intro outcomes_fail) (simp add: outcomes_fine_def X_def)
  have walk: "outcomes_fine X [grep_walk plenty fs fl needle depth ?st]"
  proof (cases "fs_opendir fs ''.''")
    case None
    then show ?thesis using fail path_text_holds[OF ss(2)] by (simp add: grep_walk_def)
  next
    case (Some d)
    then have "\<forall>n \<in> set (fst d). name_ok n" using assms(1) unfolding names_fine_def by (metis prod.collapse)
    moreover have "grep_outcomes fs needle (below fs depth ''.'' (fst d)) = X"
      using Some by (cases d) (simp add: grep_outcomes_def all_below_def list_ex_iff X_def)
    ultimately have "outcomes_fine X [grep_entries plenty fs fl needle depth (fst d) (snd d) ?st]"
      using ss(2) by (intro grep_entries_outcomes[OF assms(1) _ _ room assms(3) kids]) simp_all
    then show ?thesis using Some path_text_holds[OF ss(2)] by (cases d) (simp add: grep_walk_def)
  qed
  have "int depth \<le> LONG_MAX" using assms(4) by (simp add: LONG_MAX_def)
  moreover have "show_nat depth \<noteq> []" by (rule show_nat_head[of depth]) simp
  ultimately have "parse_depth (show_nat depth) = Some (int depth)"
    using strtol_show_nat(1)[of depth] by (simp add: parse_depth_def)
  then show ?thesis
    unfolding X_def[symmetric]
    using assms(2,3) fail walk ss(1) by (simp add: grep_main_def Let_def outcomes_fine_def)
qed

lemma grep_main_outcomes_witness:
  "\<exists>status child. grep_main plenty grep_demo_fs terminal (\<lambda>_. True) [''main'', ''..'', ''hay'', show_nat 2] = (status, child) \<and>
    status \<in> {0, 1} \<and> set (case child of None \<Rightarrow> [] | Some c \<Rightarrow> all_exits c) \<subseteq> {Exit_Status 0, Exit_Status 1}"
proof -
  have "\<not> list_ex (short_read grep_demo_fs ''hay'') (all_below grep_demo_fs 2)" by code_simp
  then show ?thesis
    using grep_main_outcomes[of grep_demo_fs "''hay''" 2 terminal "\<lambda>_. True" "''main''" "''..''"] grep_demo_names
    by simp
qed

text \<open>
  A single file that has some bytes but fewer than the string, anywhere down to the depth,
  makes the whole program end with status 1, however the output is buffered.
\<close>

theorem grep_main_short_file:
  assumes "names_fine fs" "chdir dir" "1 \<le> depth" "depth \<le> 2 ^ 50"
    and "fs_opendir fs ''.'' = Some (ns, e)" "p \<in> set (below fs depth ''.'' ns)"
    and "searches fs p" "fs_open fs p = Some (s, e')" "0 < length s" "length s < length needle"
    and "\<not> has_exec_bit fs p \<or> script_start s"
  shows "fst (grep_main plenty fs fl chdir [prog, dir, needle, show_nat depth]) = 1"
proof -
  have depth: "int depth \<le> LONG_MAX" "0 < length needle" using assms(4,10) by (simp add: LONG_MAX_def, linarith)
  show ?thesis
  proof (cases "fs_fork fs []")
    case False
    have "show_nat depth \<noteq> []" by (rule show_nat_head[of depth]) simp
    then show ?thesis
      using False depth assms(3) strtol_show_nat(1)[OF depth(1)] by (simp add: grep_main_def parse_depth_def)
  next
    case True
    with depth obtain st where st: "holds (g_path st) ''.''"
      and main: "grep_main plenty fs fl chdir [prog, dir, needle, show_nat depth] =
        (let child = grep_entries plenty fs fl needle depth ns e st
         in (if p_exit child = Exit_Status 0 then 0 else 1, Some child))"
      using assms(2,3,5) by (metis grep_main_child)
    have ns: "\<forall>n \<in> set ns. name_ok n" using assms(1,5) unfolding names_fine_def by blast
    have room: "length ''.'' + 256 * depth \<le> ss_limit" using assms(4) by (simp add: ss_limit_def)
    have "grep_process fs needle p = Err Assert_Fail"
      using grep_process_short[OF assms(7-10)] assms(11) by blast
    then have "\<not> healthy fs needle depth ''.'' ns e"
      using healthy_search[of fs needle depth "''.''" ns e p] assms(6) by fastforce
    then have "p_exit (grep_entries plenty fs fl needle depth ns e st) \<noteq> Exit_Status 0"
      using grep_entries_exit[OF assms(1) ns st room assms(3)] by blast
    then show ?thesis using main by (simp add: Let_def)
  qed
qed

lemma grep_main_short_file_witness:
  "fst (grep_main plenty grep_demo_fs terminal (\<lambda>_. True) [''main'', ''..'', ''hay!!!'', show_nat 2]) = 1"
proof (rule grep_main_short_file)
  show "''./d/c'' \<in> set (below grep_demo_fs 2 ''.'' [''.'', ''..'', ''a'', ''b'', ''d''])"
    unfolding grep_demo_below by simp
  show "searches grep_demo_fs ''./d/c''" by code_simp
  show "fs_opendir grep_demo_fs ''.'' = Some ([''.'', ''..'', ''a'', ''b'', ''d''], Closes)" by code_simp
  show "fs_open grep_demo_fs ''./d/c'' = Some (''hay!!'', Closes)" by code_simp
  show "\<not> has_exec_bit grep_demo_fs ''./d/c'' \<or> script_start ''hay!!''" by code_simp
qed (simp_all add: grep_demo_names)

text \<open>
  When the standard output is not a terminal, a line that a process has printed before it forks
  is still in the buffer, and parent and child both write it: here the path of the file in
  the top directory appears twice.
\<close>

lemma grep_fork_duplicates:
  "map_option all_writes (snd (grep_main plenty grep_demo_fs (\<lambda>_. False) (\<lambda>_. True) [''main'', ''..'', ''hay'', ''2''])) =
    Some [''./a'', ''./a'', ''./d/c'']"
  by code_simp

end
