(* ===== verification/Confirm.thy ===== *)
theory Confirm
  imports Decimal
begin

text \<open>
  The confirmed signals of \<open>lab4/zad3b/main.c\<close>: a parent sends a number of signals to its child
  and waits for a confirmation of each; the child counts them, and when the end signal arrives
  it sends the same number back in the same way.

  Both processes run the same code on globals of their own. A process is its program counter,
  its globals and the signals that are pending for it. A statement is a step; a handler runs
  between two statements and is one step, since the other process can only see the signal that
  it sends at its end. \<open>nap\<close> only lets time pass.
\<close>

section \<open>The processes\<close>

text \<open>The three builds send by \<open>kill\<close>, by \<open>kill\<close> of a real time signal, or by \<open>sigqueue\<close>.\<close>

datatype build = RT | KILL | QUEUE

datatype who = Parent | Child

datatype sg = SIGINC | SIGFIN

definition pid_of :: "who \<Rightarrow> nat" where
  "pid_of w = (case w of Parent \<Rightarrow> 1 | Child \<Rightarrow> 2)"

definition peer :: "who \<Rightarrow> who" where
  "peer w = (case w of Parent \<Rightarrow> Child | Child \<Rightarrow> Parent)"

text \<open>A signal with \<open>si_pid\<close> and \<open>si_value\<close>.\<close>

type_synonym siginfo = "sg \<times> nat \<times> int"

text \<open>
  Program points. \<open>L_Test i\<close> is the head of the loop with the variable \<open>i\<close>, \<open>I_Assert\<close> to
  \<open>I_Wait\<close> are the statements of \<open>confirm_inc\<close> in it. \<open>M_Crash\<close> is a failed assertion, an
  overflow of the counter or a signal to process 0, which is the whole group.
\<close>

datatype clabel =
    M_Nap | M_Sending | M_Counter
  | C_Wait | C_Sending
  | L_Test int | I_Assert int | I_Clear int | I_Send int | I_Wait int
  | M_Fin | M_Unsend | M_Reset | M_Wait | M_Print | M_Reap | M_Done | M_Crash

record sproc =
  pc :: clabel
  targetpid :: nat
  counter :: int
  finished :: bool
  sending :: bool
  confirmed :: bool
  pending :: "siginfo list"

text \<open>What is printed: the report of \<open>handler_fin\<close>, and the last line of \<open>main\<close>.\<close>

datatype cevent = End_Signal who int "int option" | Result int int

section \<open>Signals\<close>

text \<open>Only real time signals queue; another one that is pending already is not recorded again.\<close>

definition post :: "build \<Rightarrow> siginfo \<Rightarrow> sproc \<Rightarrow> sproc" where
  "post b s p = (if b \<noteq> RT \<and> fst s \<in> fst ` set (pending p) then p
     else p\<lparr>pending := pending p @ [s]\<rparr>)"

definition send_sig :: "who \<Rightarrow> build \<Rightarrow> sg \<Rightarrow> sproc \<Rightarrow> sproc \<Rightarrow> sproc \<times> sproc" where
  "send_sig me b sig self other =
     (if targetpid self = pid_of (peer me) then (self, post b (sig, pid_of me, counter self) other)
      else (self\<lparr>pc := M_Crash\<rparr>, other))"

definition note_sender :: "nat \<Rightarrow> sproc \<Rightarrow> sproc" where
  "note_sender pid self = (if targetpid self = 0 then self\<lparr>targetpid := pid\<rparr> else self)"

definition handler_inc :: "who \<Rightarrow> build \<Rightarrow> nat \<Rightarrow> sproc \<Rightarrow> sproc \<Rightarrow> sproc \<times> sproc" where
  "handler_inc me b pid self other =
     (let self = note_sender pid self
      in if sending self then (self\<lparr>confirmed := True\<rparr>, other)
         else if \<not> finished self
         then (if 2147483647 \<le> counter self then (self\<lparr>pc := M_Crash\<rparr>, other)
               else send_sig me b SIGINC (self\<lparr>counter := counter self + 1\<rparr>) other)
         else (self, other))"

definition handler_fin :: "who \<Rightarrow> build \<Rightarrow> nat \<Rightarrow> int \<Rightarrow> sproc \<Rightarrow> sproc \<times> cevent list" where
  "handler_fin me b pid v self =
     (let self = note_sender pid self
      in (self\<lparr>finished := True\<rparr>, [End_Signal me (counter self) (if b = QUEUE then Some v else None)]))"

definition handle :: "who \<Rightarrow> build \<Rightarrow> siginfo \<Rightarrow> sproc \<Rightarrow> sproc \<Rightarrow> sproc \<times> sproc \<times> cevent list" where
  "handle me b s self other = (case s of (sig, pid, v) \<Rightarrow>
     (case sig of
        SIGINC \<Rightarrow> (case handler_inc me b pid self other of (self, other) \<Rightarrow> (self, other, []))
      | SIGFIN \<Rightarrow> (case handler_fin me b pid v self of (self, out) \<Rightarrow> (self, other, out))))"

section \<open>The statements\<close>

definition long_as_int :: "int \<Rightarrow> int" where
  "long_as_int v = sint (word_of_int v :: 32 word)"

text \<open>\<open>confirm_inc\<close>, statement by statement; \<open>i\<close> is the variable of the loop around it.\<close>

fun confirm_inc :: "who \<Rightarrow> build \<Rightarrow> clabel \<Rightarrow> sproc \<Rightarrow> sproc \<Rightarrow> (sproc \<times> sproc \<times> cevent list) option" where
  "confirm_inc me b (I_Assert i) s t = Some (s\<lparr>pc := if sending s then I_Clear i else M_Crash\<rparr>, t, [])"
| "confirm_inc me b (I_Clear i) s t = Some (s\<lparr>pc := I_Send i, confirmed := False\<rparr>, t, [])"
| "confirm_inc me b (I_Send i) s t =
     (case send_sig me b SIGINC (s\<lparr>pc := I_Wait i\<rparr>) t of (s, t) \<Rightarrow> Some (s, t, []))"
| "confirm_inc me b (I_Wait i) s t =
     (if confirmed s then Some (s\<lparr>pc := L_Test (i + 1)\<rparr>, t, []) else None)"
| "confirm_inc me b _ s t = None"

text \<open>
  The statements of \<open>child\<close> before its loop. It has installed the handlers that it inherited
  once more. A loop that waits has no step.
\<close>

fun child_stmt :: "clabel \<Rightarrow> sproc \<Rightarrow> sproc \<Rightarrow> (sproc \<times> sproc \<times> cevent list) option" where
  "child_stmt C_Wait s t = (if finished s then Some (s\<lparr>pc := C_Sending\<rparr>, t, []) else None)"
| "child_stmt C_Sending s t = Some (s\<lparr>pc := L_Test 0, sending := True\<rparr>, t, [])"
| "child_stmt _ s t = None"

text \<open>
  A statement of \<open>main\<close> behind \<open>start_child\<close>, and the loop with the end signal that both
  processes have.
\<close>

fun main_stmt :: "who \<Rightarrow> build \<Rightarrow> int \<Rightarrow> clabel \<Rightarrow> sproc \<Rightarrow> sproc \<Rightarrow> (sproc \<times> sproc \<times> cevent list) option" where
  "main_stmt me b cnt M_Nap s t = Some (s\<lparr>pc := M_Sending\<rparr>, t, [])"
| "main_stmt me b cnt M_Sending s t = Some (s\<lparr>pc := M_Counter, sending := True\<rparr>, t, [])"
| "main_stmt me b cnt M_Counter s t = Some (s\<lparr>pc := L_Test 0, counter := long_as_int cnt\<rparr>, t, [])"
| "main_stmt me b cnt C_Wait s t = child_stmt C_Wait s t"
| "main_stmt me b cnt C_Sending s t = child_stmt C_Sending s t"
| "main_stmt me b cnt (L_Test i) s t =
     Some (s\<lparr>pc := if i < counter s then I_Assert i else M_Fin\<rparr>, t, [])"
| "main_stmt me b cnt (I_Assert i) s t = confirm_inc me b (I_Assert i) s t"
| "main_stmt me b cnt (I_Clear i) s t = confirm_inc me b (I_Clear i) s t"
| "main_stmt me b cnt (I_Send i) s t = confirm_inc me b (I_Send i) s t"
| "main_stmt me b cnt (I_Wait i) s t = confirm_inc me b (I_Wait i) s t"
| "main_stmt me b cnt M_Fin s t =
     (case send_sig me b SIGFIN (s\<lparr>pc := M_Unsend\<rparr>) t of (s, t) \<Rightarrow> Some (s, t, []))"
| "main_stmt me b cnt M_Unsend s t =
     Some (s\<lparr>pc := if me = Parent then M_Reset else M_Done, sending := False\<rparr>, t, [])"
| "main_stmt me b cnt M_Reset s t = Some (s\<lparr>pc := M_Wait, counter := 0\<rparr>, t, [])"
| "main_stmt me b cnt M_Wait s t = (if finished s then Some (s\<lparr>pc := M_Print\<rparr>, t, []) else None)"
| "main_stmt me b cnt M_Print s t = Some (s\<lparr>pc := M_Reap\<rparr>, t, [Result cnt (counter s)])"
| "main_stmt me b cnt M_Reap s t =
     (if pc t = M_Done \<or> pc t = M_Crash then Some (s\<lparr>pc := M_Done\<rparr>, t, []) else None)"
| "main_stmt me b cnt M_Done s t = None"
| "main_stmt me b cnt M_Crash s t = None"

text \<open>Both processes with what has been printed, right behind \<open>fork\<close>.\<close>

record csys =
  parent :: sproc
  child :: sproc
  clog :: "cevent list"

definition start_sys :: csys where
  "start_sys = \<lparr>
     parent = \<lparr>pc = M_Nap, targetpid = pid_of Child, counter = 0, finished = False, sending = False,
       confirmed = False, pending = []\<rparr>,
     child = \<lparr>pc = C_Wait, targetpid = 0, counter = 0, finished = False, sending = False,
       confirmed = False, pending = []\<rparr>,
     clog = []\<rparr>"

definition alive :: "sproc \<Rightarrow> bool" where
  "alive p \<longleftrightarrow> pc p \<noteq> M_Done \<and> pc p \<noteq> M_Crash"

text \<open>Any pending signal may be delivered.\<close>

definition take_signal :: "nat \<Rightarrow> sproc \<Rightarrow> siginfo \<times> sproc" where
  "take_signal i p = (pending p ! i, p\<lparr>pending := take i (pending p) @ drop (Suc i) (pending p)\<rparr>)"

inductive confirm_step :: "build \<Rightarrow> int \<Rightarrow> csys \<Rightarrow> csys \<Rightarrow> bool" for b cnt where
  parent_runs: "main_stmt Parent b cnt (pc (parent s)) (parent s) (child s) = Some (p, c, out) \<Longrightarrow>
    confirm_step b cnt s \<lparr>parent = p, child = c, clog = clog s @ out\<rparr>"
| child_runs: "main_stmt Child b cnt (pc (child s)) (child s) (parent s) = Some (c, p, out) \<Longrightarrow>
    confirm_step b cnt s \<lparr>parent = p, child = c, clog = clog s @ out\<rparr>"
| parent_handles: "alive (parent s) \<Longrightarrow> i < length (pending (parent s)) \<Longrightarrow>
    take_signal i (parent s) = (sig, self) \<Longrightarrow> handle Parent b sig self (child s) = (p, c, out) \<Longrightarrow>
    confirm_step b cnt s \<lparr>parent = p, child = c, clog = clog s @ out\<rparr>"
| child_handles: "alive (child s) \<Longrightarrow> i < length (pending (child s)) \<Longrightarrow>
    take_signal i (child s) = (sig, self) \<Longrightarrow> handle Child b sig self (parent s) = (c, p, out) \<Longrightarrow>
    confirm_step b cnt s \<lparr>parent = p, child = c, clog = clog s @ out\<rparr>"

text \<open>\<open>main\<close>: the count that a run starts with, or the exit status.\<close>

definition confirm_main :: "string list \<Rightarrow> int result" where
  "confirm_main argv =
     (if length argv \<noteq> 2 \<or> argv ! 1 = [] then Err (Exit_Status 2)
      else (case strtol10 (argv ! 1) of (cnt, rest, _) \<Rightarrow>
        if rest \<noteq> [] \<or> cnt < 0 then Err (Exit_Status 2) else Ok cnt))"

end
