(* ===== verification/Confirm_Props.thy ===== *)
theory Confirm_Props
  imports Confirm
begin

text \<open>
  What the confirmed signals of \<open>lab4/zad3b\<close> achieve. The invariant follows the run through the
  count up (\<open>counting_up\<close>) and the count back (\<open>counting_down\<close>, \<open>wind_up\<close>): at most one signal is ever on its
  way, so that no build loses one, and the child always counts right. The count back is only
  right when the parent has reset its counter before the child starts; otherwise counts are lost
  or both processes wait for ever.
\<close>

section \<open>The invariant\<close>

definition waits_for :: "sg \<Rightarrow> nat \<Rightarrow> sproc \<Rightarrow> bool" where
  "waits_for g q p \<longleftrightarrow> (\<exists>v. pending p = [(g, q, v)])"

definition quiet :: "sproc \<Rightarrow> sproc \<Rightarrow> bool" where
  "quiet p c \<longleftrightarrow> pending p = [] \<and> pending c = []"

text \<open>The parent \<open>p\<close> counts up to \<open>N\<close>; by its statement, what holds of it and of the child \<open>c\<close>.\<close>

fun counting_up :: "int \<Rightarrow> clabel \<Rightarrow> sproc \<Rightarrow> sproc \<Rightarrow> bool" where
  "counting_up N M_Nap p c \<longleftrightarrow> counter c = 0 \<and> quiet p c"
| "counting_up N M_Sending p c \<longleftrightarrow> counter c = 0 \<and> quiet p c"
| "counting_up N M_Counter p c \<longleftrightarrow> counter c = 0 \<and> quiet p c \<and> sending p"
| "counting_up N (L_Test i) p c \<longleftrightarrow> counter c = i \<and> quiet p c \<and> sending p \<and> counter p = N \<and> 0 \<le> i \<and> i \<le> N"
| "counting_up N (I_Assert i) p c \<longleftrightarrow> counter c = i \<and> quiet p c \<and> sending p \<and> counter p = N \<and> 0 \<le> i \<and> i < N"
| "counting_up N (I_Clear i) p c \<longleftrightarrow> counter c = i \<and> quiet p c \<and> sending p \<and> counter p = N \<and> 0 \<le> i \<and> i < N"
| "counting_up N (I_Send i) p c \<longleftrightarrow>
     counter c = i \<and> quiet p c \<and> sending p \<and> counter p = N \<and> 0 \<le> i \<and> i < N \<and> \<not> confirmed p"
| "counting_up N (I_Wait i) p c \<longleftrightarrow> sending p \<and> counter p = N \<and> 0 \<le> i \<and> i < N \<and>
     (if confirmed p then counter c = i + 1 \<and> quiet p c
      else if pending p = [] then counter c = i \<and> waits_for SIGINC 1 c
      else counter c = i + 1 \<and> waits_for SIGINC 2 p \<and> pending c = [])"
| "counting_up N M_Fin p c \<longleftrightarrow> counter c = N \<and> quiet p c \<and> sending p \<and> counter p = N"
| "counting_up N _ p c \<longleftrightarrow> False"

definition first_half :: "int \<Rightarrow> sproc \<Rightarrow> sproc \<Rightarrow> bool" where
  "first_half N p c \<longleftrightarrow> counting_up N (pc p) p c \<and> pc c = C_Wait \<and> \<not> finished c \<and> \<not> sending c \<and> \<not> finished p \<and>
     targetpid p = 2 \<and> targetpid c \<le> 1"

text \<open>The child counts back; by its statement, what holds of it and of the parent.\<close>

fun counting_down :: "int \<Rightarrow> clabel \<Rightarrow> sproc \<Rightarrow> sproc \<Rightarrow> bool" where
  "counting_down N C_Wait c p \<longleftrightarrow> \<not> sending c \<and> \<not> finished p \<and> pending p = [] \<and>
     (if finished c then pending c = [] \<and> targetpid c = 1 else pending c = [(SIGFIN, 1, N)])"
| "counting_down N C_Sending c p \<longleftrightarrow> finished c \<and> targetpid c = 1 \<and> \<not> finished p \<and> quiet p c \<and> \<not> sending c"
| "counting_down N (L_Test j) c p \<longleftrightarrow> finished c \<and> targetpid c = 1 \<and> \<not> finished p \<and> quiet p c \<and> sending c \<and> 0 \<le> j \<and> j \<le> N"
| "counting_down N (I_Assert j) c p \<longleftrightarrow> finished c \<and> targetpid c = 1 \<and> \<not> finished p \<and> quiet p c \<and> sending c \<and> 0 \<le> j \<and> j < N"
| "counting_down N (I_Clear j) c p \<longleftrightarrow> finished c \<and> targetpid c = 1 \<and> \<not> finished p \<and> quiet p c \<and> sending c \<and> 0 \<le> j \<and> j < N"
| "counting_down N (I_Send j) c p \<longleftrightarrow> finished c \<and> targetpid c = 1 \<and> \<not> finished p \<and> quiet p c \<and> sending c \<and> 0 \<le> j \<and> j < N \<and>
     \<not> confirmed c"
| "counting_down N (I_Wait j) c p \<longleftrightarrow> finished c \<and> targetpid c = 1 \<and> \<not> finished p \<and> sending c \<and> 0 \<le> j \<and> j < N \<and>
     (if confirmed c then quiet p c
      else if pending c = [] then waits_for SIGINC 2 p
      else waits_for SIGINC 1 c \<and> pending p = [])"
| "counting_down N M_Fin c p \<longleftrightarrow> finished c \<and> targetpid c = 1 \<and> \<not> finished p \<and> quiet p c \<and> sending c"
| "counting_down N M_Unsend c p \<longleftrightarrow> finished c \<and> targetpid c = 1 \<and> pending c = [] \<and> sending c \<and>
     (if finished p then pending p = [] else waits_for SIGFIN 2 p)"
| "counting_down N M_Done c p \<longleftrightarrow> finished c \<and> targetpid c = 1 \<and> pending c = [] \<and>
     (if finished p then pending p = [] else waits_for SIGFIN 2 p)"
| "counting_down N _ c p \<longleftrightarrow> False"

text \<open>How many signals of the child the parent has counted.\<close>

fun returned :: "int \<Rightarrow> clabel \<Rightarrow> sproc \<Rightarrow> int" where
  "returned N (L_Test j) c = j"
| "returned N (I_Assert j) c = j"
| "returned N (I_Clear j) c = j"
| "returned N (I_Send j) c = j"
| "returned N (I_Wait j) c = (if confirmed c \<or> pending c \<noteq> [] then j + 1 else j)"
| "returned N M_Fin c = N"
| "returned N M_Unsend c = N"
| "returned N M_Done c = N"
| "returned N _ c = 0"

text \<open>Where the parent is meanwhile, when \<open>k\<close> signals of the child have been counted.\<close>

fun wind_up :: "int \<Rightarrow> clabel \<Rightarrow> sproc \<Rightarrow> int \<Rightarrow> bool" where
  "wind_up N M_Unsend p k \<longleftrightarrow> sending p \<and> counter p = N \<and> k = 0"
| "wind_up N M_Reset p k \<longleftrightarrow> \<not> sending p \<and> counter p = N + k"
| "wind_up N M_Wait p k \<longleftrightarrow> \<not> sending p \<and> 0 \<le> counter p \<and> counter p \<le> k"
| "wind_up N M_Print p k \<longleftrightarrow> \<not> sending p \<and> finished p \<and> 0 \<le> counter p \<and> counter p \<le> k"
| "wind_up N M_Reap p k \<longleftrightarrow> \<not> sending p \<and> finished p"
| "wind_up N M_Done p k \<longleftrightarrow> finished p"
| "wind_up N _ p k \<longleftrightarrow> False"

definition second_half :: "int \<Rightarrow> sproc \<Rightarrow> sproc \<Rightarrow> bool" where
  "second_half N p c \<longleftrightarrow> counting_down N (pc c) c p \<and> wind_up N (pc p) p (returned N (pc c) c) \<and> counter c = N \<and>
     targetpid p = 2 \<and> targetpid c \<le> 1"

text \<open>The first signal of the child was taken for a confirmation: it waits for one in vain.\<close>

definition stuck :: "int \<Rightarrow> sproc \<Rightarrow> sproc \<Rightarrow> bool" where
  "stuck N p c \<longleftrightarrow> pc c = I_Wait 0 \<and> sending c \<and> finished c \<and> \<not> confirmed c \<and> quiet p c \<and> counter c = N \<and>
     (pc p = M_Unsend \<or> pc p = M_Reset \<or> pc p = M_Wait) \<and> \<not> finished p"

definition event_ok :: "build \<Rightarrow> int \<Rightarrow> cevent \<Rightarrow> bool" where
  "event_ok b N e \<longleftrightarrow> (case e of
     End_Signal w n x \<Rightarrow> w = Child \<longrightarrow> n = N \<and> x = (if b = QUEUE then Some N else None)
   | Result m r \<Rightarrow> m = N \<and> 0 \<le> r \<and> r \<le> N)"

definition halves :: "int \<Rightarrow> sproc \<Rightarrow> sproc \<Rightarrow> bool" where
  "halves N p c \<longleftrightarrow> first_half N p c \<or> second_half N p c \<or> stuck N p c"

definition confirm_inv :: "build \<Rightarrow> int \<Rightarrow> csys \<Rightarrow> bool" where
  "confirm_inv b N s \<longleftrightarrow> halves N (parent s) (child s) \<and> (\<forall>e \<in> set (clog s). event_ok b N e)"

text \<open>Counts whose double fits in an \<open>int\<close>.\<close>

definition small_count :: "int \<Rightarrow> bool" where
  "small_count N \<longleftrightarrow> 0 \<le> N \<and> 2 * N < 2147483647"

section \<open>Every step keeps it\<close>

lemma long_as_int_small: "small_count N \<Longrightarrow> long_as_int N = N"
  using signed_take_bit_int_eq_self[of 31 N] by (simp add: small_count_def long_as_int_def signed_of_int)

lemma post_quiet: "pending p = [] \<Longrightarrow> post b s p = p\<lparr>pending := [s]\<rparr>"
  by (simp add: post_def)

lemmas signal_simps = send_sig_def post_quiet pid_of_def peer_def quiet_def waits_for_def

lemma first_parent_runs:
  assumes "first_half N p c" "main_stmt Parent b N (pc p) p c = Some (p', c', out)" "small_count N"
  shows "halves N p' c' \<and> out = []"
  using assms
  by (cases "pc p") (auto simp: first_half_def halves_def second_half_def signal_simps long_as_int_small
      small_count_def split: if_split_asm)

lemma first_child_runs:
  assumes "first_half N p c" "main_stmt Child b N (pc c) c p = Some (c', p', out)"
  shows "halves N p' c' \<and> out = []"
  using assms by (auto simp: first_half_def)

text \<open>Handlers; at most one signal is pending.\<close>

lemma take_only: "pending p = [s] \<Longrightarrow> i < length (pending p) \<Longrightarrow> take_signal i p = (s, p\<lparr>pending := []\<rparr>)"
  by (simp add: take_signal_def)

lemmas handle_simps = handle_def handler_inc_def handler_fin_def note_sender_def signal_simps

lemma first_child_handles:
  assumes "first_half N p c" "i < length (pending c)" "take_signal i c = (sig, self)"
    and "handle Child b sig self p = (c', p', out)" "small_count N"
  shows "halves N p' c' \<and> out = []"
  using assms
  by (cases "pc p") (auto simp: first_half_def halves_def take_only handle_simps small_count_def
      split: if_split_asm)

lemma first_parent_handles:
  assumes "first_half N p c" "i < length (pending p)" "take_signal i p = (sig, self)"
    and "handle Parent b sig self c = (p', c', out)"
  shows "halves N p' c' \<and> out = []"
  using assms
  by (cases "pc p") (auto simp: first_half_def halves_def take_only handle_simps split: if_split_asm)

lemma counting_down_parent:
  "finished p' = finished p \<Longrightarrow> pending p' = pending p \<Longrightarrow> counting_down N l c p' \<longleftrightarrow> counting_down N l c p"
  by (cases l) (simp_all add: quiet_def waits_for_def)

lemma returned_bounds: "counting_down N l c p \<Longrightarrow> 0 \<le> N \<Longrightarrow> 0 \<le> returned N l c \<and> returned N l c \<le> N"
  by (cases l) auto

lemma second_parent_runs:
  assumes "second_half N p c" "main_stmt Parent b N (pc p) p c = Some (p', c', out)" "small_count N"
  shows "second_half N p' c' \<and> (\<forall>e \<in> set out. event_ok b N e)"
proof -
  have down: "counting_down N (pc c) c p" and rest: "wind_up N (pc p) p (returned N (pc c) c)"
      "counter c = N" "targetpid p = 2" "targetpid c \<le> 1"
    using assms(1) by (simp_all add: second_half_def)
  have bounds: "0 \<le> returned N (pc c) c" "returned N (pc c) c \<le> N"
    using returned_bounds[OF down] assms(3) by (simp_all add: small_count_def)
  have "c' = c \<and> finished p' = finished p \<and> pending p' = pending p \<and> targetpid p' = 2 \<and>
      wind_up N (pc p') p' (returned N (pc c) c) \<and> (\<forall>e \<in> set out. event_ok b N e)"
    using assms(2) rest bounds by (cases "pc p") (auto simp: event_ok_def split: if_split_asm)
  then have "second_half N p' c'"
    using down rest counting_down_parent[of p' p N "pc c" c] by (simp add: second_half_def)
  then show ?thesis using \<open>c' = c \<and> _\<close> by simp
qed

lemma wind_up_pending [simp]: "wind_up N l (p\<lparr>pending := x\<rparr>) k \<longleftrightarrow> wind_up N l p k"
  by (cases l) simp_all

lemma second_child_runs:
  assumes "second_half N p c" "main_stmt Child b N (pc c) c p = Some (c', p', out)" "small_count N"
  shows "second_half N p' c' \<and> (\<forall>e \<in> set out. event_ok b N e)"
  using assms
  by (cases "pc c") (auto simp: halves_def second_half_def signal_simps small_count_def split: if_split_asm)

lemma second_parent_pending:
  assumes "second_half N p c" "pending p \<noteq> []"
  obtains (inc) v j where "pending p = [(SIGINC, 2, v)]" "pc c = I_Wait j" "\<not> confirmed c" "pending c = []"
      "\<not> finished p" "0 \<le> j" "j < N" "finished c" "sending c" "targetpid c = 1"
    | (fin) v where "pending p = [(SIGFIN, 2, v)]" "pc c = M_Unsend \<or> pc c = M_Done" "\<not> finished p"
  using assms by (cases "pc c") (auto simp: second_half_def quiet_def waits_for_def split: if_split_asm)

lemma second_parent_handles:
  assumes "second_half N p c" "i < length (pending p)" "take_signal i p = (sig, self)"
    and "handle Parent b sig self c = (p', c', out)" "small_count N"
  shows "halves N p' c' \<and> (\<forall>e \<in> set out. event_ok b N e)"
proof -
  have "pending p \<noteq> []" using assms(2) by auto
  with assms(1) show ?thesis
  proof (cases rule: second_parent_pending)
    case (inc v j)
    then show ?thesis using assms
      by (cases "pc p") (auto simp: take_only second_half_def halves_def stuck_def handle_simps small_count_def
          split: if_split_asm)
  next
    case (fin v)
    then show ?thesis using assms
      by (cases "pc p") (auto simp: take_only second_half_def halves_def handle_simps event_ok_def
          split: if_split_asm)
  qed
qed

lemma second_child_pending:
  assumes "second_half N p c" "pending c \<noteq> []"
  obtains (fin) "pending c = [(SIGFIN, 1, N)]" "pc c = C_Wait" "\<not> finished c"
    | (inc) v j where "pending c = [(SIGINC, 1, v)]" "pc c = I_Wait j" "sending c" "\<not> confirmed c" "pending p = []"
      "targetpid c = 1"
  using assms by (cases "pc c") (auto simp: second_half_def quiet_def waits_for_def split: if_split_asm)

lemma second_child_handles:
  assumes "second_half N p c" "i < length (pending c)" "take_signal i c = (sig, self)"
    and "handle Child b sig self p = (c', p', out)"
  shows "second_half N p' c' \<and> (\<forall>e \<in> set out. event_ok b N e)"
proof -
  have "pending c \<noteq> []" using assms(2) by auto
  with assms(1) show ?thesis
  proof (cases rule: second_child_pending)
    case fin
    then show ?thesis using assms
      by (auto simp: take_only second_half_def halves_def handle_simps event_ok_def split: if_split_asm)
  next
    case (inc v j)
    then show ?thesis using assms
      by (auto simp: take_only second_half_def halves_def handle_simps event_ok_def split: if_split_asm)
  qed
qed

lemma stuck_step:
  assumes "stuck N (parent s) (child s)" "confirm_step b cnt s t"
  shows "stuck N (parent t) (child t) \<and> clog t = clog s"
  using assms(2,1) by cases (auto simp: stuck_def quiet_def split: if_split_asm)

lemma confirm_inv_step:
  assumes "confirm_inv b N s" "confirm_step b N s t" "small_count N"
  shows "confirm_inv b N t"
proof -
  have log: "\<forall>e \<in> set (clog s). event_ok b N e" using assms(1) by (simp add: confirm_inv_def)
  consider "first_half N (parent s) (child s)" | "second_half N (parent s) (child s)" | "stuck N (parent s) (child s)"
    using assms(1) by (auto simp: confirm_inv_def halves_def)
  then show ?thesis
  proof cases
    case 1
    from assms(2) show ?thesis
      by cases (use first_parent_runs[OF 1 _ assms(3)] first_child_runs[OF 1] first_parent_handles[OF 1]
        first_child_handles[OF 1 _ _ _ assms(3)] log in \<open>fastforce simp: confirm_inv_def\<close>)+
  next
    case 2
    from assms(2) show ?thesis
    proof cases
      case (parent_runs p c out)
      then show ?thesis
        using second_parent_runs[OF 2 parent_runs(2) assms(3)] log by (auto simp: confirm_inv_def halves_def)
    next
      case (child_runs c p out)
      then show ?thesis
        using second_child_runs[OF 2 child_runs(2) assms(3)] log by (auto simp: confirm_inv_def halves_def)
    next
      case (parent_handles i sig self p c out)
      then show ?thesis
        using second_parent_handles[OF 2 parent_handles(3-5) assms(3)] log by (auto simp: confirm_inv_def)
    next
      case (child_handles i sig self c p out)
      then show ?thesis
        using second_child_handles[OF 2 child_handles(3-5)] log by (auto simp: confirm_inv_def halves_def)
    qed
  next
    case 3
    then show ?thesis using stuck_step[OF 3 assms(2)] log by (simp add: confirm_inv_def halves_def)
  qed
qed

lemma start_sys_inv: "confirm_inv b N start_sys"
  by (simp add: confirm_inv_def halves_def first_half_def start_sys_def quiet_def pid_of_def)

interpretation confirm: transition_system "\<lambda>s. s = start_sys \<and> small_count N" "confirm_step b N"
  "\<lambda>s. confirm_inv b N s \<and> small_count N" for b N
  by unfold_locales (auto intro: confirm_inv_step start_sys_inv)

abbreviation confirm_reaches :: "build \<Rightarrow> int \<Rightarrow> csys \<Rightarrow> csys \<Rightarrow> bool" where
  "confirm_reaches b N \<equiv> (confirm_step b N)\<^sup>*\<^sup>*"

lemma reachable_confirm_inv:
  "small_count N \<Longrightarrow> confirm_reaches b N start_sys s \<Longrightarrow> confirm_inv b N s"
  using confirm.inv_reachable[of start_sys N b s] by simp

section \<open>A count back that starts in time\<close>

text \<open>The parent has reset its counter, and what the child has sent back is what it has counted.\<close>

fun settled :: "clabel \<Rightarrow> sproc \<Rightarrow> int \<Rightarrow> bool" where
  "settled M_Wait p k \<longleftrightarrow> \<not> sending p \<and> counter p = k"
| "settled M_Print p k \<longleftrightarrow> \<not> sending p \<and> counter p = k \<and> finished p"
| "settled M_Reap p k \<longleftrightarrow> \<not> sending p \<and> counter p = k \<and> finished p"
| "settled M_Done p k \<longleftrightarrow> \<not> sending p \<and> counter p = k \<and> finished p"
| "settled _ p k \<longleftrightarrow> False"

definition timely :: "int \<Rightarrow> csys \<Rightarrow> bool" where
  "timely N s \<longleftrightarrow> small_count N \<and> second_half N (parent s) (child s) \<and>
     settled (pc (parent s)) (parent s) (returned N (pc (child s)) (child s))"

lemma timely_parent_runs:
  assumes "second_half N p c" "settled (pc p) p (returned N (pc c) c)"
    and "main_stmt Parent b N (pc p) p c = Some (p', c', out)"
  shows "settled (pc p') p' (returned N (pc c') c')"
  using assms by (cases "pc p") (auto split: if_split_asm)

lemma settled_pending [simp]: "settled l (p\<lparr>pending := x\<rparr>) k \<longleftrightarrow> settled l p k"
  by (cases l) simp_all

lemma timely_child_runs:
  assumes "second_half N p c" "settled (pc p) p (returned N (pc c) c)"
    and "main_stmt Child b N (pc c) c p = Some (c', p', out)"
  shows "settled (pc p') p' (returned N (pc c') c')"
  using assms
  by (cases "pc c") (auto simp: second_half_def signal_simps split: if_split_asm)

lemma timely_parent_handles:
  assumes "second_half N p c" "settled (pc p) p (returned N (pc c) c)" "small_count N"
    and "i < length (pending p)" "take_signal i p = (sig, self)" "handle Parent b sig self c = (p', c', out)"
  shows "second_half N p' c' \<and> settled (pc p') p' (returned N (pc c') c')"
proof -
  have "pending p \<noteq> []" using assms(4) by auto
  with assms(1) show ?thesis
  proof (cases rule: second_parent_pending)
    case (inc v j)
    then show ?thesis using assms
      by (cases "pc p") (auto simp: take_only second_half_def handle_simps small_count_def split: if_split_asm)
  next
    case (fin v)
    then show ?thesis using assms
      by (cases "pc p") (auto simp: take_only second_half_def handle_simps split: if_split_asm)
  qed
qed

lemma timely_child_handles:
  assumes "second_half N p c" "settled (pc p) p (returned N (pc c) c)"
    and "i < length (pending c)" "take_signal i c = (sig, self)" "handle Child b sig self p = (c', p', out)"
  shows "settled (pc p') p' (returned N (pc c') c')"
proof -
  have "pending c \<noteq> []" using assms(3) by auto
  with assms(1) show ?thesis
  proof (cases rule: second_child_pending)
    case fin
    then show ?thesis using assms by (auto simp: take_only handle_simps split: if_split_asm)
  next
    case (inc v j)
    then show ?thesis using assms by (auto simp: take_only handle_simps split: if_split_asm)
  qed
qed

text \<open>All steps together.\<close>

lemma timely_step:
  assumes "timely N s" "confirm_step b N s t"
  shows "timely N t"
proof -
  have s: "small_count N" "second_half N (parent s) (child s)"
      "settled (pc (parent s)) (parent s) (returned N (pc (child s)) (child s))"
    using assms(1) by (simp_all add: timely_def)
  from assms(2) show ?thesis
  proof cases
    case (parent_runs p c out)
    then show ?thesis
      using second_parent_runs[OF s(2) parent_runs(2) s(1)] timely_parent_runs[OF s(2,3) parent_runs(2)] s(1)
      by (simp add: timely_def)
  next
    case (child_runs c p out)
    then show ?thesis
      using second_child_runs[OF s(2) child_runs(2) s(1)] timely_child_runs[OF s(2,3) child_runs(2)] s(1)
      by (simp add: timely_def)
  next
    case (parent_handles i sig self p c out)
    then show ?thesis
      using timely_parent_handles[OF s(2,3,1) parent_handles(3-5)] s(1) by (simp add: timely_def)
  next
    case (child_handles i sig self c p out)
    then show ?thesis
      using second_child_handles[OF s(2) child_handles(3-5)] timely_child_handles[OF s(2,3) child_handles(3-5)] s(1)
      by (simp add: timely_def)
  qed
qed

text \<open>The run gets closer to its end.\<close>

fun child_rank :: "int \<Rightarrow> clabel \<Rightarrow> sproc \<Rightarrow> nat" where
  "child_rank N C_Wait c = nat (10 * N) + 48 + length (pending c)"
| "child_rank N C_Sending c = nat (10 * N) + 47"
| "child_rank N (L_Test j) c = nat (10 * (N - j)) + 20"
| "child_rank N (I_Assert j) c = nat (10 * (N - j)) + 19"
| "child_rank N (I_Clear j) c = nat (10 * (N - j)) + 18"
| "child_rank N (I_Send j) c = nat (10 * (N - j)) + 17"
| "child_rank N (I_Wait j) c = nat (10 * (N - j)) + 14 + length (pending c)"
| "child_rank N M_Fin c = 19"
| "child_rank N M_Unsend c = 10"
| "child_rank N _ c = 8"

fun parent_rank :: "clabel \<Rightarrow> nat" where
  "parent_rank M_Wait = 3"
| "parent_rank M_Print = 2"
| "parent_rank M_Reap = 1"
| "parent_rank _ = 0"

definition timely_rank :: "int \<Rightarrow> csys \<Rightarrow> nat" where
  "timely_rank N s = child_rank N (pc (child s)) (child s) + 2 * length (pending (parent s)) +
     parent_rank (pc (parent s))"

lemma child_can_run:
  assumes "second_half N p c" "main_stmt Child b N (pc c) c p = Some (c', p', out)" "pc p = pc p'"
  shows "child_rank N (pc c') c' + 2 * length (pending p') < child_rank N (pc c) c + 2 * length (pending p)"
  using assms
  by (cases "pc c") (auto simp: second_half_def signal_simps split: if_split_asm)

lemma child_has_step:
  assumes "second_half N p c" "pc c \<noteq> M_Done" "pc c = C_Wait \<Longrightarrow> finished c" "\<And>j. pc c = I_Wait j \<Longrightarrow> confirmed c"
  obtains c' p' out where "main_stmt Child b N (pc c) c p = Some (c', p', out)" "pc p' = pc p"
  using assms by (cases "pc c") (auto simp: second_half_def signal_simps)

lemma parent_has_step:
  assumes "settled (pc p) p k" "finished p" "pc c = M_Done" "pc p \<noteq> M_Done"
  obtains p' out where "main_stmt Parent b N (pc p) p c = Some (p', c, out)"
    "parent_rank (pc p') < parent_rank (pc p)" "pending p' = pending p"
  using assms by (cases "pc p") auto

text \<open>Delivering the only pending signal.\<close>

lemma parent_takes:
  assumes "alive (parent s)" "pending (parent s) = [sig]"
    and "handle Parent b sig ((parent s)\<lparr>pending := []\<rparr>) (child s) = (p, c, out)"
  shows "confirm_step b N s \<lparr>parent = p, child = c, clog = clog s @ out\<rparr>"
  using assms by (intro confirm_step.parent_handles[of s 0]) (simp_all add: take_signal_def)

lemma child_takes:
  assumes "alive (child s)" "pending (child s) = [sig]"
    and "handle Child b sig ((child s)\<lparr>pending := []\<rparr>) (parent s) = (c, p, out)"
  shows "confirm_step b N s \<lparr>parent = p, child = c, clog = clog s @ out\<rparr>"
  using assms by (intro confirm_step.child_handles[of s 0]) (simp_all add: take_signal_def)

lemma timely_inc_lowers:
  assumes "timely N s" "pending (parent s) = [(SIGINC, 2, v)]" "pc (child s) = I_Wait j" "\<not> confirmed (child s)"
    and "pending (child s) = []" "\<not> finished (parent s)" "j < N"
  shows "\<exists>t. confirm_step b N s t \<and> timely_rank N t < timely_rank N s"
proof -
  have alive: "alive (parent s)" and p: "\<not> sending (parent s)" "targetpid (parent s) = 2" "counter (parent s) < 2147483647"
    using assms by (cases "pc (parent s)"; auto simp: timely_def alive_def second_half_def small_count_def)+
  obtain p' c' out where h: "handle Parent b (SIGINC, 2, v) ((parent s)\<lparr>pending := []\<rparr>) (child s) = (p', c', out)"
    by (rule prod_cases3)
  have "pending p' = [] \<and> pc p' = pc (parent s) \<and> pc c' = pc (child s) \<and> length (pending c') = 1"
    using h p assms(5,6) by (auto simp: handle_simps)
  then show ?thesis
    using parent_takes[OF alive assms(2) h, of N] assms(2,3,5)
    by (intro exI[of _ "\<lparr>parent = p', child = c', clog = clog s @ out\<rparr>"]) (simp add: timely_rank_def)
qed

lemma handle_fin_keeps:
  "handle me b (SIGFIN, q, v) (self\<lparr>pending := []\<rparr>) other = (self', other', out) \<Longrightarrow>
    pending self' = [] \<and> pc self' = pc self \<and> other' = other"
  by (auto simp: handle_simps Let_def split: if_split_asm)

lemma handle_confirmation_keeps:
  "sending self \<Longrightarrow> handle me b (SIGINC, q, v) (self\<lparr>pending := []\<rparr>) other = (self', other', out) \<Longrightarrow>
    pending self' = [] \<and> pc self' = pc self \<and> other' = other"
  by (auto simp: handle_simps Let_def split: if_split_asm)

lemma timely_fin_lowers:
  assumes "timely N s" "pending (parent s) = [(SIGFIN, 2, v)]" "\<not> finished (parent s)"
  shows "\<exists>t. confirm_step b N s t \<and> timely_rank N t < timely_rank N s"
proof -
  have alive: "alive (parent s)"
    using assms by (cases "pc (parent s)") (auto simp: timely_def alive_def)
  obtain p' c' out where h: "handle Parent b (SIGFIN, 2, v) ((parent s)\<lparr>pending := []\<rparr>) (child s) = (p', c', out)"
    by (rule prod_cases3)
  have "pending p' = [] \<and> pc p' = pc (parent s) \<and> c' = child s"
    using h by (rule handle_fin_keeps)
  then show ?thesis
    using parent_takes[OF alive assms(2) h, of N] assms(2)
    by (intro exI[of _ "\<lparr>parent = p', child = c', clog = clog s @ out\<rparr>"]) (simp add: timely_rank_def)
qed

lemma timely_child_lowers:
  assumes "timely N s" "pending (child s) \<noteq> []"
  shows "\<exists>t. confirm_step b N s t \<and> timely_rank N t < timely_rank N s"
proof -
  have half: "second_half N (parent s) (child s)" using assms(1) by (simp add: timely_def)
  obtain sig q v where sig: "pending (child s) = [(sig, q, v)]" "sig = SIGINC \<longrightarrow> sending (child s)"
    and pc: "pc (child s) = C_Wait \<or> (\<exists>j. pc (child s) = I_Wait j)"
    using half assms(2) by (cases rule: second_child_pending) auto
  then have alive: "alive (child s)" by (auto simp: alive_def)
  obtain c' p' out where h: "handle Child b (sig, q, v) ((child s)\<lparr>pending := []\<rparr>) (parent s) = (c', p', out)"
    by (rule prod_cases3)
  have "pending c' = [] \<and> pc c' = pc (child s) \<and> p' = parent s"
    using h sig(2) handle_fin_keeps handle_confirmation_keeps by (cases sig) metis+
  then show ?thesis
    using child_takes[OF alive sig(1) h, of N] sig(1) pc
    by (intro exI[of _ "\<lparr>parent = p', child = c', clog = clog s @ out\<rparr>"]) (auto simp: timely_rank_def)
qed

lemma timely_closer:
  assumes "timely N s" "pc (parent s) \<noteq> M_Done"
  shows "\<exists>t. confirm_step b N s t \<and> timely_rank N t < timely_rank N s"
proof (cases "pending (child s) \<noteq> []")
  case True
  then show ?thesis using assms(1) by (intro timely_child_lowers)
next
  case quiet_child: False
  have half: "second_half N (parent s) (child s)"
    and settled: "settled (pc (parent s)) (parent s) (returned N (pc (child s)) (child s))"
    using assms(1) by (simp_all add: timely_def)
  show ?thesis
  proof (cases "pending (parent s) \<noteq> []")
    case True
    with half show ?thesis
    proof (cases rule: second_parent_pending)
      case (inc v j)
      then show ?thesis using assms(1) by (intro timely_inc_lowers)
    next
      case (fin v)
      then show ?thesis using assms(1) by (intro timely_fin_lowers)
    qed
  next
    case quiet_parent: False
    show ?thesis
    proof (cases "pc (child s) = M_Done")
      case True
      then have "finished (parent s)"
        using half quiet_parent by (auto simp: second_half_def waits_for_def split: if_split_asm)
      then obtain p' out where "main_stmt Parent b N (pc (parent s)) (parent s) (child s) = Some (p', child s, out)"
          "parent_rank (pc p') < parent_rank (pc (parent s))" "pending p' = pending (parent s)"
        using parent_has_step[OF settled _ True assms(2)] by metis
      then show ?thesis
        by (intro exI[of _ "\<lparr>parent = p', child = child s, clog = clog s @ out\<rparr>"])
          (simp add: timely_rank_def confirm_step.parent_runs)
    next
      case False
      have "finished (child s)" if "pc (child s) = C_Wait"
        using half quiet_child that by (auto simp: second_half_def split: if_split_asm)
      moreover have "confirmed (child s)" if "pc (child s) = I_Wait j" for j
        using half quiet_child quiet_parent that by (auto simp: second_half_def waits_for_def split: if_split_asm)
      ultimately obtain c' p' out where step: "main_stmt Child b N (pc (child s)) (child s) (parent s) = Some (c', p', out)"
          "pc p' = pc (parent s)"
        by (rule child_has_step[OF half False])
      then show ?thesis
        using child_can_run[OF half step(1)]
        by (intro exI[of _ "\<lparr>parent = p', child = c', clog = clog s @ out\<rparr>"])
          (simp add: timely_rank_def confirm_step.child_runs)
    qed
  qed
qed

interpretation count_back: ranked_system "timely N" "confirm_step b N" "timely N"
  "\<lambda>s. pc (parent s) = M_Done" "timely_rank N" for b N
  by unfold_locales (auto intro: timely_step timely_closer)

section \<open>Running a schedule\<close>

datatype move = Runs who | Handles who

fun do_move :: "build \<Rightarrow> int \<Rightarrow> csys \<Rightarrow> move \<Rightarrow> csys option" where
  "do_move b cnt s (Runs Parent) =
     map_option (\<lambda>(p, c, out). \<lparr>parent = p, child = c, clog = clog s @ out\<rparr>)
       (main_stmt Parent b cnt (pc (parent s)) (parent s) (child s))"
| "do_move b cnt s (Runs Child) =
     map_option (\<lambda>(c, p, out). \<lparr>parent = p, child = c, clog = clog s @ out\<rparr>)
       (main_stmt Child b cnt (pc (child s)) (child s) (parent s))"
| "do_move b cnt s (Handles Parent) =
     (if alive (parent s) \<and> pending (parent s) \<noteq> []
      then (case take_signal 0 (parent s) of (sig, self) \<Rightarrow> (case handle Parent b sig self (child s) of
        (p, c, out) \<Rightarrow> Some \<lparr>parent = p, child = c, clog = clog s @ out\<rparr>)) else None)"
| "do_move b cnt s (Handles Child) =
     (if alive (child s) \<and> pending (child s) \<noteq> []
      then (case take_signal 0 (child s) of (sig, self) \<Rightarrow> (case handle Child b sig self (parent s) of
        (c, p, out) \<Rightarrow> Some \<lparr>parent = p, child = c, clog = clog s @ out\<rparr>)) else None)"

fun do_moves :: "build \<Rightarrow> int \<Rightarrow> csys \<Rightarrow> move list \<Rightarrow> csys option" where
  "do_moves b cnt s [] = Some s"
| "do_moves b cnt s (m # ms) = (case do_move b cnt s m of None \<Rightarrow> None | Some t \<Rightarrow> do_moves b cnt t ms)"

lemma do_move_step: "do_move b cnt s m = Some t \<Longrightarrow> confirm_step b cnt s t"
  by (cases "(b, cnt, s, m)" rule: do_move.cases)
    (auto intro: confirm_step.intros split: prod.splits if_split_asm)

lemma do_moves_reach: "do_moves b cnt s ms = Some t \<Longrightarrow> confirm_reaches b cnt s t"
  by (induction b cnt s ms rule: do_moves.induct)
    (auto split: option.split_asm dest!: do_move_step intro: converse_rtranclp_into_rtranclp)

text \<open>The parent has had \<open>i\<close> of \<open>N\<close> signals confirmed.\<close>

definition counted_up :: "int \<Rightarrow> int \<Rightarrow> csys" where
  "counted_up N i = \<lparr>
     parent = \<lparr>pc = L_Test i, targetpid = 2, counter = N, finished = False, sending = True,
       confirmed = (0 < i), pending = []\<rparr>,
     child = \<lparr>pc = C_Wait, targetpid = (if 0 < i then 1 else 0), counter = i, finished = False, sending = False,
       confirmed = False, pending = []\<rparr>,
     clog = []\<rparr>"

lemma count_up_start:
  "small_count N \<Longrightarrow> do_moves b N start_sys [Runs Parent, Runs Parent, Runs Parent] = Some (counted_up N 0)"
  by (simp add: start_sys_def counted_up_def long_as_int_small pid_of_def)

lemma count_up_round:
  assumes "0 \<le> i" "i < N" "small_count N"
  shows "do_moves b N (counted_up N i) [Runs Parent, Runs Parent, Runs Parent, Runs Parent,
    Handles Child, Handles Parent, Runs Parent] = Some (counted_up N (i + 1))"
  using assms
  by (auto simp: counted_up_def handle_simps take_signal_def alive_def small_count_def Let_def)

lemma count_up_reaches:
  assumes "small_count N" "int k \<le> N"
  shows "confirm_reaches b N start_sys (counted_up N (int k))"
  using assms(2)
proof (induction k)
  case 0
  then show ?case using count_up_start[OF assms(1)] do_moves_reach by fastforce
next
  case (Suc k)
  then have "confirm_reaches b N start_sys (counted_up N (int k))" by simp
  moreover have "confirm_reaches b N (counted_up N (int k)) (counted_up N (int (Suc k)))"
    using do_moves_reach[OF count_up_round[of "int k" N b]] Suc.prems assms(1) by (simp add: add.commute)
  ultimately show ?case by (rule rtranclp_trans)
qed

lemma counted_up_all: "small_count N \<Longrightarrow> confirm_reaches b N start_sys (counted_up N N)"
  using count_up_reaches[of N "nat N" b] by (simp add: small_count_def)

definition up_to_reset :: "move list" where
  "up_to_reset = [Runs Parent, Runs Parent, Runs Parent, Runs Parent]"

definition too_early :: "move list" where
  "too_early = [Runs Parent, Runs Parent, Handles Child, Runs Child, Runs Child, Runs Child, Runs Child,
     Runs Child, Runs Child, Handles Parent]"

lemma too_early_stuck:
  assumes "small_count N" "0 < N"
  shows "\<exists>t. do_moves b N (counted_up N N) too_early = Some t \<and> stuck N (parent t) (child t)"
  using assms
  by (simp add: too_early_def counted_up_def handle_simps take_signal_def alive_def Let_def stuck_def)

text \<open>
  The situation in which the count back goes right: the parent waits for it with its counter at
  0, and the child has not begun to send.
\<close>

definition on_time :: "csys \<Rightarrow> bool" where
  "on_time s \<longleftrightarrow> pc (parent s) = M_Wait \<and> counter (parent s) = 0 \<and>
     (pc (child s) = C_Wait \<or> pc (child s) = C_Sending)"

lemma up_to_reset_on_time:
  "small_count N \<Longrightarrow> \<exists>t. do_moves b N (counted_up N N) up_to_reset = Some t \<and> on_time t"
  by (simp add: up_to_reset_def counted_up_def handle_simps on_time_def)

lemma on_time_timely:
  assumes "small_count N" "confirm_reaches b N start_sys s" "on_time s"
  shows "timely N s"
proof -
  have "halves N (parent s) (child s)"
    using reachable_confirm_inv[OF assms(1,2)] by (simp add: confirm_inv_def)
  then have "second_half N (parent s) (child s)"
    using assms(3) by (auto simp: halves_def first_half_def stuck_def on_time_def)
  then show ?thesis using assms(1,3) by (auto simp: timely_def on_time_def second_half_def)
qed

section \<open>Properties\<close>

lemma halves_fine:
  assumes "halves N p c"
  shows "pc p \<noteq> M_Crash \<and> pc c \<noteq> M_Crash \<and> length (pending p) \<le> 1 \<and> length (pending c) \<le> 1"
  using assms by (cases "pc p"; cases "pc c")
    (auto simp: halves_def first_half_def second_half_def stuck_def quiet_def waits_for_def split: if_split_asm)

text \<open>
  C19: In every build and every interleaving no assertion fails, no counter overflows, no signal
  goes to process 0, and at most one signal is ever pending for a process: so none is lost,
  although only real time signals queue.
\<close>

theorem confirm_safe:
  assumes "small_count cnt" "confirm_reaches b cnt start_sys s"
  shows "pc (parent s) \<noteq> M_Crash \<and> pc (child s) \<noteq> M_Crash \<and>
    length (pending (parent s)) \<le> 1 \<and> length (pending (child s)) \<le> 1"
  using halves_fine reachable_confirm_inv[OF assms] unfolding confirm_inv_def by blast

lemma confirm_safe_witness:
  "pc (parent (counted_up 5 5)) \<noteq> M_Crash \<and> pc (child (counted_up 5 5)) \<noteq> M_Crash \<and>
    length (pending (parent (counted_up 5 5))) \<le> 1 \<and> length (pending (child (counted_up 5 5))) \<le> 1"
  by (rule confirm_safe[of 5 KILL], simp_all add: small_count_def counted_up_all)

text \<open>
  What the programs report: when the end signal reaches the child, the child has counted
  exactly the number asked for (and with \<open>sigqueue\<close> reads that number from the signal), and
  the number that the parent gives at its end lies between 0 and it.
\<close>

theorem confirm_reports:
  assumes "small_count cnt" "confirm_reaches b cnt start_sys s" "e \<in> set (clog s)"
  shows "case e of
      End_Signal w n expected \<Rightarrow> w = Child \<longrightarrow> n = cnt \<and> expected = (if b = QUEUE then Some cnt else None)
    | Result m received \<Rightarrow> m = cnt \<and> 0 \<le> received \<and> received \<le> cnt"
  using reachable_confirm_inv[OF assms(1,2)] assms(3) by (simp add: confirm_inv_def event_ok_def)

definition child_told :: csys where
  "child_told = the (do_moves QUEUE 2 (counted_up 2 2) [Runs Parent, Runs Parent, Handles Child])"

lemma child_told_reached:
  "confirm_reaches QUEUE 2 start_sys child_told" "clog child_told = [End_Signal Child 2 (Some 2)]"
proof -
  have "do_moves QUEUE 2 (counted_up 2 2) [Runs Parent, Runs Parent, Handles Child] = Some child_told"
    by code_simp
  then show "confirm_reaches QUEUE 2 start_sys child_told"
    using counted_up_all[of 2 QUEUE] do_moves_reach by (fastforce simp: small_count_def)
  show "clog child_told = [End_Signal Child 2 (Some 2)]" by code_simp
qed

lemma confirm_reports_witness:
  "End_Signal Child 2 (Some 2) \<in> set (clog child_told) \<and> (2::int) = 2 \<and> Some (2::int) = (if QUEUE = QUEUE then Some 2 else None)"
  using confirm_reports[of 2 QUEUE child_told "End_Signal Child 2 (Some 2)"] child_told_reached
  by (simp add: small_count_def)

text \<open>
  C18: If the parent has reset its counter before the child starts to send, the count back is
  right: from every later state the program can end, and the number that it prints is the
  number asked for.
\<close>

theorem confirm_counts_back:
  assumes "small_count cnt" "confirm_reaches b cnt start_sys s" "on_time s" "confirm_reaches b cnt s t"
  shows "(\<exists>u. confirm_reaches b cnt t u \<and> pc (parent u) = M_Done) \<and>
    (pc (parent t) = M_Print \<or> pc (parent t) = M_Reap \<or> pc (parent t) = M_Done \<longrightarrow> counter (parent t) = cnt)"
proof -
  have timely: "timely cnt t"
    using count_back.inv_steps[OF assms(4)] on_time_timely[OF assms(1-3)] by blast
  have "returned cnt (pc (child t)) (child t) = cnt" if "finished (parent t)"
    using timely that by (cases "pc (child t)") (auto simp: timely_def second_half_def)
  then have "pc (parent t) = M_Print \<or> pc (parent t) = M_Reap \<or> pc (parent t) = M_Done \<longrightarrow> counter (parent t) = cnt"
    using timely by (auto simp: timely_def)
  then show ?thesis using count_back.goal_in_reach[OF timely] by blast
qed

lemma confirm_counts_back_witness:
  "\<exists>s. on_time s \<and> (\<exists>u. confirm_reaches RT 3 s u \<and> pc (parent u) = M_Done \<and> counter (parent u) = 3)"
proof -
  have small: "small_count 3" by (simp add: small_count_def)
  obtain s where s: "do_moves RT 3 (counted_up 3 3) up_to_reset = Some s" "on_time s"
    using up_to_reset_on_time[OF small] by blast
  have reach: "confirm_reaches RT 3 start_sys s"
    using counted_up_all[OF small] do_moves_reach[OF s(1)] by (rule rtranclp_trans)
  obtain u where u: "confirm_reaches RT 3 s u" "pc (parent u) = M_Done"
    using confirm_counts_back[OF small reach s(2) rtranclp.rtrancl_refl] by blast
  have "counter (parent u) = 3" using confirm_counts_back[OF small reach s(2) u(1)] u(2) by blast
  then show ?thesis using s(2) u by blast
qed

text \<open>
  C39: But for every positive number and in every build the child can be faster: its first signal
  then comes while the parent still takes signals for confirmations, and both processes wait
  for ever.
\<close>

theorem confirm_can_deadlock:
  assumes "small_count cnt" "0 < cnt"
  shows "\<exists>s. confirm_reaches b cnt start_sys s \<and>
    (\<forall>t. confirm_reaches b cnt s t \<longrightarrow> pc (parent t) \<noteq> M_Done \<and> pc (child t) = I_Wait 0)"
proof -
  obtain s where s: "do_moves b cnt (counted_up cnt cnt) too_early = Some s" "stuck cnt (parent s) (child s)"
    using too_early_stuck[OF assms] by blast
  have "stuck cnt (parent t) (child t)" if "confirm_reaches b cnt s t" for t
    using that s(2) by (induction rule: rtranclp_induct) (auto dest: stuck_step)
  then have "pc (parent t) \<noteq> M_Done \<and> pc (child t) = I_Wait 0" if "confirm_reaches b cnt s t" for t
    using that by (fastforce simp: stuck_def)
  then show ?thesis
    using rtranclp_trans[OF counted_up_all[OF assms(1)] do_moves_reach[OF s(1)]] by blast
qed

lemma confirm_can_deadlock_witness:
  "\<exists>s. confirm_reaches KILL 1 start_sys s \<and> pc (child s) = I_Wait 0 \<and> pc (parent s) \<noteq> M_Done"
  using confirm_can_deadlock[of 1 KILL] by (auto simp: small_count_def)

text \<open>
  Or the parent resets its counter when it has counted already: a run with one signal that
  reports none.
\<close>

definition late_reset :: "move list" where
  "late_reset = [Runs Parent, Runs Parent, Runs Parent, Handles Child, Runs Child, Runs Child, Runs Child,
     Runs Child, Runs Child, Runs Child, Handles Parent, Handles Child, Runs Child, Runs Child, Runs Child,
     Runs Child, Handles Parent, Runs Parent, Runs Parent, Runs Parent, Runs Parent]"

lemma confirm_loses_count:
  "\<exists>s. confirm_reaches KILL 1 start_sys s \<and> pc (parent s) = M_Done \<and> Result 1 0 \<in> set (clog s)"
proof -
  have small: "small_count 1" by (simp add: small_count_def)
  obtain s where s: "do_moves KILL 1 (counted_up 1 1) late_reset = Some s"
      "pc (parent s) = M_Done" "Result 1 0 \<in> set (clog s)"
    by (simp add: late_reset_def counted_up_def handle_simps take_signal_def alive_def Let_def)
  then show ?thesis using rtranclp_trans[OF counted_up_all[OF small] do_moves_reach[OF s(1)]] by blast
qed

end
