(* ===== verification/Catch.thy ===== *)
theory Catch
  imports Confirm
begin

text \<open>
  The signal catcher and sender of \<open>lab4/zad3a/main.c\<close>: a parent sends a number of signals and
  an end signal to its child, which counts them and sends as many back; nothing is confirmed.
  Builds, signals and process identifiers are those of \<open>Confirm\<close>.

  A handler is one step. It can interrupt the other one; but each uses \<open>counter\<close> once, so that
  a nested run has the effect of one handler after the other, and any pending signal may be the
  next to be delivered. \<open>nap\<close> only lets time pass.
\<close>

text \<open>
  Program points, in the order of the code: \<open>S_Count\<close> to \<open>S_Reap\<close> are those of \<open>main\<close> behind
  \<open>start_child\<close>, \<open>K_Wait\<close> is the first of \<open>child\<close>, which shares the loop and the end signal.
  \<open>S_Crash\<close> is an overflow of the counter or a signal to process 0, the whole group.
\<close>

datatype slabel =
    S_Count | K_Wait | S_Test int | S_Send int | S_Fin | S_Reset | S_Wait | S_Print | S_Reap | S_Done | S_Crash

record catcher =
  at :: slabel
  target :: nat
  count :: int
  ended :: bool
  inbox :: "siginfo list"

text \<open>The report of \<open>handler_fin\<close>, the line that \<open>main\<close> prints, and the report of \<open>wait_child\<close>.\<close>

datatype sevent = Final_Count who int "int option" | Expected int | Child_Exited

section \<open>Signals\<close>

text \<open>
  Only real time signals queue, as long as the system has room for pending signals (\<open>RLIMIT_SIGPENDING\<close>,
  assumed not to be reached); another one that is pending already is not recorded again.
\<close>

definition post_to :: "build \<Rightarrow> siginfo \<Rightarrow> catcher \<Rightarrow> catcher" where
  "post_to b s p = (if b \<noteq> RT \<and> fst s \<in> fst ` set (inbox p) then p else p\<lparr>inbox := inbox p @ [s]\<rparr>)"

definition send :: "who \<Rightarrow> build \<Rightarrow> sg \<Rightarrow> catcher \<Rightarrow> catcher \<Rightarrow> catcher \<times> catcher" where
  "send me b sig self other =
     (if target self = pid_of (peer me) then (self, post_to b (sig, pid_of me, count self) other)
      else (self\<lparr>at := S_Crash\<rparr>, other))"

definition catch_inc :: "catcher \<Rightarrow> catcher" where
  "catch_inc self = (if 2147483647 \<le> count self then self\<lparr>at := S_Crash\<rparr> else self\<lparr>count := count self + 1\<rparr>)"

definition catch_fin :: "who \<Rightarrow> build \<Rightarrow> nat \<Rightarrow> int \<Rightarrow> catcher \<Rightarrow> catcher \<times> sevent list" where
  "catch_fin me b pid v self =
     (let self = (if target self = 0 then self\<lparr>target := pid\<rparr> else self)
      in (self\<lparr>ended := True\<rparr>, [Final_Count me (count self) (if b = QUEUE then Some v else None)]))"

definition catch_sig :: "who \<Rightarrow> build \<Rightarrow> siginfo \<Rightarrow> catcher \<Rightarrow> catcher \<times> sevent list" where
  "catch_sig me b s self = (case s of (sig, pid, v) \<Rightarrow>
     (case sig of SIGINC \<Rightarrow> (catch_inc self, []) | SIGFIN \<Rightarrow> catch_fin me b pid v self))"

section \<open>The statements\<close>

text \<open>
  A statement of a process, with the process it talks to. The loop re-reads \<open>counter\<close> in each
  round; a loop that waits has no step.
\<close>

fun send_stmt :: "who \<Rightarrow> build \<Rightarrow> slabel \<Rightarrow> catcher \<Rightarrow> catcher \<Rightarrow> (catcher \<times> catcher) option" where
  "send_stmt me b (S_Test i) s t = Some (s\<lparr>at := if i < count s then S_Send i else S_Fin\<rparr>, t)"
| "send_stmt me b (S_Send i) s t = Some (send me b SIGINC (s\<lparr>at := S_Test (i + 1)\<rparr>) t)"
| "send_stmt me b S_Fin s t =
     Some (send me b SIGFIN (s\<lparr>at := if me = Parent then S_Reset else S_Done\<rparr>) t)"
| "send_stmt me b _ s t = None"

definition catch_child :: "build \<Rightarrow> slabel \<Rightarrow> catcher \<Rightarrow> catcher \<Rightarrow> (catcher \<times> catcher) option" where
  "catch_child b l s t =
     (if l = K_Wait then (if ended s then Some (s\<lparr>at := S_Test 0\<rparr>, t) else None) else send_stmt Child b l s t)"

fun catch_main :: "build \<Rightarrow> int \<Rightarrow> slabel \<Rightarrow> catcher \<Rightarrow> catcher \<Rightarrow> (catcher \<times> catcher \<times> sevent list) option" where
  "catch_main b cnt S_Count s t = Some (s\<lparr>at := S_Test 0, count := long_as_int cnt\<rparr>, t, [])"
| "catch_main b cnt S_Reset s t = Some (s\<lparr>at := S_Wait, count := 0\<rparr>, t, [])"
| "catch_main b cnt S_Wait s t = (if ended s then Some (s\<lparr>at := S_Print\<rparr>, t, []) else None)"
| "catch_main b cnt S_Print s t = Some (s\<lparr>at := S_Reap\<rparr>, t, [Expected cnt])"
| "catch_main b cnt S_Reap s t =
     (if at t = S_Done then Some (s\<lparr>at := S_Done\<rparr>, t, [Child_Exited]) else None)"
| "catch_main b cnt l s t = map_option (\<lambda>(s, t). (s, t, [])) (send_stmt Parent b l s t)"

text \<open>Both processes with what has been printed, right behind \<open>fork\<close>.\<close>

record catch_sys =
  par :: catcher
  chi :: catcher
  printed :: "sevent list"

definition catch_start :: catch_sys where
  "catch_start = \<lparr>
     par = \<lparr>at = S_Count, target = pid_of Child, count = 0, ended = False, inbox = []\<rparr>,
     chi = \<lparr>at = K_Wait, target = 0, count = 0, ended = False, inbox = []\<rparr>,
     printed = []\<rparr>"

definition running :: "catcher \<Rightarrow> bool" where
  "running p \<longleftrightarrow> at p \<noteq> S_Done \<and> at p \<noteq> S_Crash"

definition dequeue :: "nat \<Rightarrow> catcher \<Rightarrow> siginfo \<times> catcher" where
  "dequeue i p = (inbox p ! i, p\<lparr>inbox := take i (inbox p) @ drop (Suc i) (inbox p)\<rparr>)"

inductive catch_step :: "build \<Rightarrow> int \<Rightarrow> catch_sys \<Rightarrow> catch_sys \<Rightarrow> bool" for b cnt where
  par_runs: "catch_main b cnt (at (par s)) (par s) (chi s) = Some (p, c, out) \<Longrightarrow>
    catch_step b cnt s \<lparr>par = p, chi = c, printed = printed s @ out\<rparr>"
| chi_runs: "catch_child b (at (chi s)) (chi s) (par s) = Some (c, p) \<Longrightarrow>
    catch_step b cnt s \<lparr>par = p, chi = c, printed = printed s\<rparr>"
| par_catches: "running (par s) \<Longrightarrow> i < length (inbox (par s)) \<Longrightarrow> dequeue i (par s) = (sig, self) \<Longrightarrow>
    catch_sig Parent b sig self = (p, out) \<Longrightarrow>
    catch_step b cnt s \<lparr>par = p, chi = chi s, printed = printed s @ out\<rparr>"
| chi_catches: "running (chi s) \<Longrightarrow> i < length (inbox (chi s)) \<Longrightarrow> dequeue i (chi s) = (sig, self) \<Longrightarrow>
    catch_sig Child b sig self = (c, out) \<Longrightarrow>
    catch_step b cnt s \<lparr>par = par s, chi = c, printed = printed s @ out\<rparr>"

text \<open>\<open>main\<close>: the count that a run starts with, or the exit status.\<close>

definition catch_args :: "string list \<Rightarrow> int result" where
  "catch_args argv =
     (if length argv \<noteq> 2 \<or> argv ! 1 = [] then Err (Exit_Status 2)
      else (case strtol10 (argv ! 1) of (cnt, rest, _) \<Rightarrow>
        if rest \<noteq> [] \<or> cnt < 0 then Err (Exit_Status 2) else Ok cnt))"

end
