(* ===== verification/Catch_Props.thy ===== *)
theory Catch_Props
  imports Catch Confirm_Props
begin

text \<open>
  What the unconfirmed signals of \<open>lab4/zad3a\<close> achieve. Every build can always finish, and
  counts no signal that was not sent. Real time signals are not lost, so the child's counter is
  right once nothing is pending for it; but the report of the end signal may come too early, and
  the parent's counter is reset after the child may have begun to send.
\<close>

section \<open>Pending signals\<close>

definition waiting :: "sg \<Rightarrow> catcher \<Rightarrow> nat" where
  "waiting g p = length (filter (\<lambda>s. fst s = g) (inbox p))"

lemma waiting_update [simp]:
  "waiting g (p\<lparr>at := l\<rparr>) = waiting g p" "waiting g (p\<lparr>count := n\<rparr>) = waiting g p"
  "waiting g (p\<lparr>ended := e\<rparr>) = waiting g p" "waiting g (p\<lparr>target := q\<rparr>) = waiting g p"
  by (simp_all add: waiting_def)

lemma waiting_post:
  "waiting g (post_to b s p) = waiting g p + (if fst s = g \<and> (b = RT \<or> waiting g p = 0) then 1 else 0)"
proof -
  have "waiting g p = 0 \<longleftrightarrow> g \<notin> fst ` set (inbox p)"
    by (auto simp: waiting_def filter_empty_conv)
  then show ?thesis by (cases "g = fst s") (simp_all add: waiting_def post_to_def)
qed

lemma waiting_empty: "inbox p = [] \<Longrightarrow> waiting g p = 0"
  by (simp add: waiting_def)

text \<open>All pending signals are from one process.\<close>

definition senders :: "nat \<Rightarrow> catcher \<Rightarrow> bool" where
  "senders q p \<longleftrightarrow> (\<forall>s \<in> set (inbox p). fst (snd s) = q)"

lemma senders_post [simp]: "senders q (post_to b (g, q, v) p) \<longleftrightarrow> senders q p"
  by (auto simp: senders_def post_to_def)

lemma senders_update [simp]:
  "senders g (p\<lparr>at := l\<rparr>) = senders g p" "senders g (p\<lparr>count := n\<rparr>) = senders g p"
  "senders g (p\<lparr>ended := e\<rparr>) = senders g p" "senders g (p\<lparr>target := q\<rparr>) = senders g p"
  by (simp_all add: senders_def)

lemma post_to_keeps [simp]:
  "at (post_to b s p) = at p" "count (post_to b s p) = count p" "ended (post_to b s p) = ended p"
  "target (post_to b s p) = target p"
  by (simp_all add: post_to_def)

lemma filter_remove:
  "i < length xs \<Longrightarrow> length (filter P xs) = length (filter P (take i xs @ drop (Suc i) xs)) + (if P (xs ! i) then 1 else 0)"
  using arg_cong [OF id_take_nth_drop [of i xs], of "\<lambda>ys. length (filter P ys)"] by simp

lemma dequeue_waiting:
  assumes "dequeue i p = (s, q)" "i < length (inbox p)"
  shows "waiting g p = waiting g q + (if fst s = g then 1 else 0)"
  using assms filter_remove [of i "inbox p" "\<lambda>s. fst s = g"] by (auto simp: waiting_def dequeue_def)

lemma dequeue_keeps:
  assumes "dequeue i p = (s, q)" "i < length (inbox p)"
  shows "at q = at p" "count q = count p" "ended q = ended p" "target q = target p"
    and "s \<in> set (inbox p)" "set (inbox q) \<subseteq> set (inbox p)"
  using assms by (auto simp: dequeue_def dest: in_set_takeD in_set_dropD)

section \<open>The invariant\<close>

text \<open>What a process has sent so far.\<close>

fun sent :: "int \<Rightarrow> slabel \<Rightarrow> int" where
  "sent N S_Count = 0"
| "sent N K_Wait = 0"
| "sent N (S_Test i) = i"
| "sent N (S_Send i) = i"
| "sent N _ = N"

text \<open>
  What the child \<open>c\<close> has sent back; behind its loop, where its counter may still grow, at most the counter.
\<close>

definition sent_back :: "catcher \<Rightarrow> int" where
  "sent_back c = (case at c of K_Wait \<Rightarrow> 0 | S_Test j \<Rightarrow> j | S_Send j \<Rightarrow> j | _ \<Rightarrow> count c)"

fun end_sent :: "slabel \<Rightarrow> bool" where
  "end_sent S_Reset \<longleftrightarrow> True"
| "end_sent S_Wait \<longleftrightarrow> True"
| "end_sent S_Print \<longleftrightarrow> True"
| "end_sent S_Reap \<longleftrightarrow> True"
| "end_sent S_Done \<longleftrightarrow> True"
| "end_sent _ \<longleftrightarrow> False"

text \<open>The parent \<open>p\<close> and the child \<open>c\<close> at their program points.\<close>

fun par_at :: "int \<Rightarrow> slabel \<Rightarrow> catcher \<Rightarrow> catcher \<Rightarrow> bool" where
  "par_at N S_Count p c \<longleftrightarrow> inbox p = []"
| "par_at N (S_Test i) p c \<longleftrightarrow> inbox p = [] \<and> count p = N \<and> 0 \<le> i \<and> i \<le> N"
| "par_at N (S_Send i) p c \<longleftrightarrow> inbox p = [] \<and> count p = N \<and> 0 \<le> i \<and> i < N"
| "par_at N S_Fin p c \<longleftrightarrow> inbox p = [] \<and> count p = N"
| "par_at N S_Reset p c \<longleftrightarrow> N \<le> count p \<and> count p + int (waiting SIGINC p) \<le> N + sent_back c"
| "par_at N S_Wait p c \<longleftrightarrow> 0 \<le> count p \<and> count p + int (waiting SIGINC p) \<le> sent_back c"
| "par_at N S_Print p c \<longleftrightarrow> ended p \<and> 0 \<le> count p \<and> count p + int (waiting SIGINC p) \<le> sent_back c"
| "par_at N S_Reap p c \<longleftrightarrow> ended p \<and> 0 \<le> count p \<and> count p + int (waiting SIGINC p) \<le> sent_back c"
| "par_at N S_Done p c \<longleftrightarrow> ended p \<and> 0 \<le> count p \<and> count p + int (waiting SIGINC p) \<le> sent_back c"
| "par_at N _ p c \<longleftrightarrow> False"

fun chi_at :: "slabel \<Rightarrow> catcher \<Rightarrow> bool" where
  "chi_at K_Wait c \<longleftrightarrow> True"
| "chi_at (S_Test j) c \<longleftrightarrow> ended c \<and> 0 \<le> j \<and> j \<le> count c"
| "chi_at (S_Send j) c \<longleftrightarrow> ended c \<and> 0 \<le> j \<and> j < count c"
| "chi_at S_Fin c \<longleftrightarrow> ended c"
| "chi_at S_Done c \<longleftrightarrow> ended c"
| "chi_at _ c \<longleftrightarrow> False"

text \<open>Exactly one end signal for a process to which one has been sent: pending or handled.\<close>

definition end_signal :: "bool \<Rightarrow> catcher \<Rightarrow> bool" where
  "end_signal sent_it p \<longleftrightarrow> waiting SIGFIN p = (if sent_it \<and> \<not> ended p then 1 else 0) \<and> (ended p \<longrightarrow> sent_it)"

definition pair_inv :: "build \<Rightarrow> int \<Rightarrow> catcher \<Rightarrow> catcher \<Rightarrow> bool" where
  "pair_inv b N p c \<longleftrightarrow> par_at N (at p) p c \<and> chi_at (at c) c \<and>
     target p = 2 \<and> target c = (if ended c then 1 else 0) \<and> senders 1 c \<and>
     end_signal (end_sent (at p)) c \<and> end_signal (at c = S_Done) p \<and>
     0 \<le> count c \<and> count c + int (waiting SIGINC c) \<le> sent N (at p) \<and>
     (b = RT \<longrightarrow> count c + int (waiting SIGINC c) = sent N (at p))"

definition printed_ok :: "int \<Rightarrow> sevent \<Rightarrow> bool" where
  "printed_ok N e \<longleftrightarrow> (case e of
     Final_Count w n x \<Rightarrow> 0 \<le> n \<and> n \<le> (if w = Child then N else 2 * N)
   | Expected n \<Rightarrow> n = N
   | Child_Exited \<Rightarrow> True)"

definition catch_inv :: "build \<Rightarrow> int \<Rightarrow> catch_sys \<Rightarrow> bool" where
  "catch_inv b N s \<longleftrightarrow> pair_inv b N (par s) (chi s) \<and> (\<forall>e \<in> set (printed s). printed_ok N e)"

section \<open>Every step keeps it\<close>

lemma sent_bounds:
  "pair_inv b N p c \<Longrightarrow> 0 \<le> N \<Longrightarrow> 0 \<le> sent_back c \<and> sent_back c \<le> count c \<and> count c \<le> N \<and> sent N (at p) \<le> N"
  by (cases "at c"; cases "at p") (auto simp: pair_inv_def sent_back_def)

lemma sent_back_cong: "at d = at c \<Longrightarrow> count d = count c \<Longrightarrow> sent_back d = sent_back c"
  by (cases "at c") (simp_all add: sent_back_def)

lemma sent_back_post [simp]: "sent_back (post_to b s c) = sent_back c"
  by (rule sent_back_cong) simp_all

lemma sent_back_grows: "at d = at c \<Longrightarrow> count c \<le> count d \<Longrightarrow> sent_back c \<le> sent_back d"
  by (cases "at c") (simp_all add: sent_back_def)

lemma end_signal_update [simp]:
  "end_signal e (p\<lparr>at := l\<rparr>) = end_signal e p" "end_signal e (p\<lparr>count := n\<rparr>) = end_signal e p"
  "end_signal e (p\<lparr>target := q\<rparr>) = end_signal e p"
  "end_signal e (p\<lparr>target := q, ended := x\<rparr>) = end_signal e (p\<lparr>ended := x\<rparr>)"
  by (simp_all add: end_signal_def)

lemma end_signal_post [simp]:
  "end_signal e (post_to b (SIGINC, q, v) p) = end_signal e p"
  "end_signal False p \<Longrightarrow> end_signal True (post_to b (SIGFIN, q, v) p)"
  by (auto simp: end_signal_def waiting_post split: if_split_asm)

lemma chi_at_cong: "count d = count c \<Longrightarrow> ended d = ended c \<Longrightarrow> chi_at l d = chi_at l c"
  by (cases l) simp_all

lemma chi_at_update [simp]:
  "chi_at l (post_to b s c) = chi_at l c" "chi_at l (c\<lparr>at := k\<rparr>) = chi_at l c"
  by (rule chi_at_cong; simp)+

text \<open>Once the end signal is out, the parent only counts what the child has sent.\<close>

lemma par_at_back:
  "end_sent l \<Longrightarrow> par_at N l p c \<longleftrightarrow> (l \<in> {S_Print, S_Reap, S_Done} \<longrightarrow> ended p) \<and>
    (if l = S_Reset then N else 0) \<le> count p \<and>
    count p + int (waiting SIGINC p) \<le> (if l = S_Reset then N else 0) + sent_back c"
  by (cases l) auto

lemma par_runs_inv:
  assumes inv: "pair_inv b N p c" and step: "catch_main b N (at p) p c = Some (p', c', out)" and "small_count N"
  shows "pair_inv b N p' c' \<and> (\<forall>e \<in> set out. printed_ok N e)"
proof (cases "at p")
  case S_Count
  then show ?thesis using assms by (auto simp: pair_inv_def long_as_int_small small_count_def)
next
  case K_Wait
  then show ?thesis using inv by (simp add: pair_inv_def)
next
  case (S_Test i)
  then show ?thesis using inv step by (auto simp: pair_inv_def)
next
  case (S_Send i)
  then show ?thesis using inv step by (auto simp: pair_inv_def send_def peer_def pid_of_def waiting_post)
next
  case S_Fin
  then show ?thesis using inv step sent_bounds [OF inv] assms(3) unfolding small_count_def
    by (auto simp: pair_inv_def send_def peer_def pid_of_def waiting_post waiting_empty)
next
  case S_Reset
  then show ?thesis using inv step by (auto simp: pair_inv_def)
next
  case S_Wait
  then show ?thesis using inv step by (auto simp: pair_inv_def split: if_split_asm)
next
  case S_Print
  then show ?thesis using inv step by (auto simp: pair_inv_def printed_ok_def)
next
  case S_Reap
  then show ?thesis using inv step by (auto simp: pair_inv_def printed_ok_def split: if_split_asm)
next
  case S_Done
  then show ?thesis using step by simp
next
  case S_Crash
  then show ?thesis using inv by (simp add: pair_inv_def)
qed

lemma chi_back:
  assumes "pair_inv b N p c" "ended c"
  shows "end_sent (at p)" "sent N (at p) = N" "count c \<le> N" "target c = 1"
proof -
  show "end_sent (at p)" using assms by (simp add: pair_inv_def end_signal_def)
  then show "sent N (at p) = N" by (cases "at p") auto
  then show "count c \<le> N" "target c = 1" using assms by (auto simp: pair_inv_def)
qed

lemma chi_ended:
  assumes "pair_inv b N p c" "at c \<noteq> K_Wait"
  shows "ended c"
  using assms by (cases "at c") (auto simp: pair_inv_def)

lemma chi_runs_inv:
  assumes inv: "pair_inv b N p c" and step: "catch_child b (at c) c p = Some (c', p')"
  shows "pair_inv b N p' c'"
proof -
  have ended: "ended c"
  proof (cases "at c = K_Wait")
    case True
    then show ?thesis using step by (simp add: catch_child_def split: if_split_asm)
  qed (rule chi_ended [OF inv])
  note past = chi_back [OF inv ended]
  note rest = inv [unfolded pair_inv_def par_at_back [OF past(1)]] par_at_back [OF past(1)]
  show ?thesis
  proof (cases "at c")
    case K_Wait
    then have "c' = c\<lparr>at := S_Test 0\<rparr>" "p' = p" using step ended by (simp_all add: catch_child_def)
    then show ?thesis using K_Wait rest ended by (simp add: pair_inv_def sent_back_def)
  next
    case (S_Test j)
    then have "c' = c\<lparr>at := if j < count c then S_Send j else S_Fin\<rparr>" "p' = p"
      using step by (simp_all add: catch_child_def)
    then show ?thesis using S_Test rest past ended by (simp add: pair_inv_def sent_back_def)
  next
    case (S_Send j)
    then have "c' = c\<lparr>at := S_Test (j + 1)\<rparr>" "p' = post_to b (SIGINC, 2, count c) p"
      using step past by (simp_all add: catch_child_def send_def peer_def pid_of_def)
    then show ?thesis using S_Send rest past ended
      by (cases "at p = S_Reset"; cases "b = RT \<or> waiting SIGINC p = 0") (simp_all add: pair_inv_def waiting_post sent_back_def)
  next
    case S_Fin
    then have "c' = c\<lparr>at := S_Done\<rparr>" "p' = post_to b (SIGFIN, 2, count c) p"
      using step past by (simp_all add: catch_child_def send_def peer_def pid_of_def)
    then show ?thesis using S_Fin rest past ended by (simp add: pair_inv_def waiting_post sent_back_def)
  qed (use step inv in \<open>auto simp: catch_child_def pair_inv_def\<close>)
qed

text \<open>A handler; the end signal is the only one of its kind.\<close>

lemma dequeue_end_signal:
  assumes "dequeue i p = (s, q)" "i < length (inbox p)" "end_signal e p"
  shows "fst s = SIGINC \<Longrightarrow> end_signal e q"
    and "fst s = SIGFIN \<Longrightarrow> e \<and> \<not> ended p \<and> end_signal e (q\<lparr>ended := True\<rparr>)"
  using assms(3) dequeue_waiting [OF assms(1,2), of SIGFIN] dequeue_keeps [OF assms(1,2)]
  by (auto simp: end_signal_def split: if_split_asm)

lemma senders_dequeue:
  assumes "dequeue i p = (s, q)" "i < length (inbox p)" "senders r p"
  shows "senders r q \<and> fst (snd s) = r"
  using dequeue_keeps [OF assms(1,2)] assms(3) by (auto simp: senders_def)

lemma chi_catches_inv:
  assumes inv: "pair_inv b N p c" and i: "i < length (inbox c)" and d: "dequeue i c = (sig, self)"
    and h: "catch_sig Child b sig self = (c', out)" and "small_count N"
  shows "pair_inv b N p c' \<and> (\<forall>e \<in> set out. printed_ok N e)"
proof -
  note keeps = dequeue_keeps [OF d i] dequeue_waiting [OF d i, of SIGINC]
  have es: "end_signal (end_sent (at p)) c" using inv by (simp add: pair_inv_def)
  note es = dequeue_end_signal [OF d i es]
  have sender: "senders 1 self \<and> fst (snd sig) = 1"
    using senders_dequeue [OF d i] inv by (simp add: pair_inv_def)
  obtain g q v where sig: "sig = (g, q, v)" by (cases sig)
  show ?thesis
  proof (cases g)
    case SIGINC
    then have "count self < 2147483647"
      using keeps inv \<open>small_count N\<close> sent_bounds [OF inv] by (simp add: sig pair_inv_def small_count_def)
    then have c': "c' = self\<lparr>count := count c + 1\<rparr>" "out = []"
      using h SIGINC keeps(2) by (simp_all add: catch_sig_def catch_inc_def sig)
    have "chi_at (at c) c'"
      using inv keeps unfolding c' pair_inv_def by (cases "at c") simp_all
    moreover have "sent_back c \<le> sent_back c'"
      using keeps by (intro sent_back_grows) (simp_all add: c')
    ultimately show ?thesis using inv keeps es(1) sender SIGINC
      by (cases "at p") (auto simp: c' sig pair_inv_def)
  next
    case SIGFIN
    have e: "end_sent (at p)" "\<not> ended c" "end_signal (end_sent (at p)) (self\<lparr>ended := True\<rparr>)"
      using es(2) SIGFIN by (auto simp: sig)
    have k: "at c = K_Wait" using chi_ended [OF inv] e(2) by blast
    have c': "c' = self\<lparr>target := 1, ended := True\<rparr>"
        "out = [Final_Count Child (count c) (if b = QUEUE then Some v else None)]"
      using h SIGFIN sender e(2) keeps inv by (simp_all add: catch_sig_def catch_fin_def sig pair_inv_def)
    have "sent_back c' = sent_back c" using keeps by (intro sent_back_cong) (simp_all add: c')
    then show ?thesis using inv keeps e k sender SIGFIN \<open>small_count N\<close> sent_bounds [OF inv]
      by (simp add: c' sig pair_inv_def par_at_back printed_ok_def small_count_def)
  qed
qed

lemma par_catches_inv:
  assumes inv: "pair_inv b N p c" and i: "i < length (inbox p)" and d: "dequeue i p = (sig, self)"
    and h: "catch_sig Parent b sig self = (p', out)" and "small_count N"
  shows "pair_inv b N p' c \<and> (\<forall>e \<in> set out. printed_ok N e)"
proof -
  note keeps = dequeue_keeps [OF d i] dequeue_waiting [OF d i, of SIGINC]
  have es: "end_signal (at c = S_Done) p" using inv by (simp add: pair_inv_def)
  note es = dequeue_end_signal [OF d i es]
  have past: "end_sent (at p)" using inv i by (cases "at p") (auto simp: pair_inv_def)
  note rest = inv [unfolded pair_inv_def par_at_back [OF past]] par_at_back [OF past]
  have N: "0 \<le> N" using \<open>small_count N\<close> by (simp add: small_count_def)
  obtain g q v where sig: "sig = (g, q, v)" by (cases sig)
  show ?thesis
  proof (cases g)
    case SIGINC
    then have "count self < 2147483647"
      using keeps rest \<open>small_count N\<close> sent_bounds [OF inv N] by (simp add: sig small_count_def split: if_split_asm)
    then have p': "p' = self\<lparr>count := count p + 1\<rparr>" "out = []"
      using h SIGINC keeps(2) by (simp_all add: catch_sig_def catch_inc_def sig)
    show ?thesis using rest keeps es(1) SIGINC by (simp add: p' sig pair_inv_def)
  next
    case SIGFIN
    have e: "at c = S_Done" "end_signal (at c = S_Done) (self\<lparr>ended := True\<rparr>)" using es(2) SIGFIN by (auto simp: sig)
    have p': "p' = self\<lparr>ended := True\<rparr>" "out = [Final_Count Parent (count p) (if b = QUEUE then Some v else None)]"
      using h SIGFIN keeps inv by (simp_all add: catch_sig_def catch_fin_def sig pair_inv_def)
    show ?thesis using rest keeps e SIGFIN sent_bounds [OF inv N] N
      by (simp add: p' sig pair_inv_def printed_ok_def split: if_split_asm)
  qed
qed

lemma catch_inv_step:
  assumes "catch_inv b N s" "catch_step b N s t" "small_count N"
  shows "catch_inv b N t"
proof -
  have inv: "pair_inv b N (par s) (chi s)" and out: "\<forall>e \<in> set (printed s). printed_ok N e"
    using assms(1) by (simp_all add: catch_inv_def)
  from assms(2) show ?thesis
  proof cases
    case (par_runs p c out)
    then show ?thesis using par_runs_inv [OF inv par_runs(2) assms(3)] out by (auto simp: catch_inv_def)
  next
    case (chi_runs c p)
    then show ?thesis using chi_runs_inv [OF inv chi_runs(2)] out by (auto simp: catch_inv_def)
  next
    case (par_catches i sig self p out)
    then show ?thesis using par_catches_inv [OF inv par_catches(3-5) assms(3)] out by (auto simp: catch_inv_def)
  next
    case (chi_catches i sig self c out)
    then show ?thesis using chi_catches_inv [OF inv chi_catches(3-5) assms(3)] out by (auto simp: catch_inv_def)
  qed
qed

lemma catch_start_inv: "catch_inv b N catch_start"
  by (simp add: catch_inv_def catch_start_def pair_inv_def end_signal_def waiting_def senders_def pid_of_def)

section \<open>Every run can end\<close>

text \<open>A parent that is not waiting lowers its rank, and so does a child that is not.\<close>

fun par_rank :: "int \<Rightarrow> slabel \<Rightarrow> nat" where
  "par_rank N S_Count = nat (2 * N) + 9"
| "par_rank N (S_Test i) = nat (2 * (N - i)) + 8"
| "par_rank N (S_Send i) = nat (2 * (N - i)) + 7"
| "par_rank N S_Fin = 7"
| "par_rank N S_Reset = 6"
| "par_rank N S_Wait = 5"
| "par_rank N S_Print = 4"
| "par_rank N S_Reap = 3"
| "par_rank N _ = 0"

fun chi_rank :: "int \<Rightarrow> slabel \<Rightarrow> nat" where
  "chi_rank N K_Wait = nat (2 * N) + 9"
| "chi_rank N (S_Test i) = nat (2 * (N - i)) + 8"
| "chi_rank N (S_Send i) = nat (2 * (N - i)) + 7"
| "chi_rank N S_Fin = 7"
| "chi_rank N _ = 0"

definition catch_rank :: "int \<Rightarrow> catch_sys \<Rightarrow> nat" where
  "catch_rank N s = par_rank N (at (par s)) + chi_rank N (at (chi s)) +
     (if ended (par s) then 0 else 1) + (if ended (chi s) then 0 else 1)"

lemma par_goes_on:
  assumes inv: "pair_inv b N p c" and "small_count N" and "at p \<noteq> S_Done"
    and "at p = S_Wait \<Longrightarrow> ended p" "at p = S_Reap \<Longrightarrow> at c = S_Done"
  obtains p' c' out where "catch_main b N (at p) p c = Some (p', c', out)"
    and "par_rank N (at p') < par_rank N (at p)" "at c' = at c" "ended c' = ended c" "ended p' = ended p"
  using assms by (cases "at p") (auto simp: pair_inv_def send_def peer_def pid_of_def long_as_int_small)

lemma chi_goes_on:
  assumes inv: "pair_inv b N p c" and "ended c" "at c \<noteq> S_Done"
  obtains c' p' where "catch_child b (at c) c p = Some (c', p')"
    and "chi_rank N (at c') < chi_rank N (at c)" "at p' = at p" "ended c' = ended c" "ended p' = ended p"
  using assms chi_back [OF inv assms(2)]
  by (cases "at c") (auto simp: catch_child_def pair_inv_def send_def peer_def pid_of_def)

text \<open>An end signal that is pending can be delivered.\<close>

lemma waiting_index:
  assumes "waiting g p \<noteq> 0"
  obtains i q v r where "i < length (inbox p)" "dequeue i p = ((g, q, v), r)" "at r = at p"
proof -
  obtain s where "s \<in> set (inbox p)" "fst s = g" using assms by (auto simp: waiting_def filter_empty_conv)
  then obtain i q v where "i < length (inbox p)" "inbox p ! i = (g, q, v)"
    by (metis in_set_conv_nth prod.collapse)
  then show thesis using that [of i q v] by (simp add: dequeue_def)
qed

lemma catch_fin_ends: "catch_sig w b (SIGFIN, q, v) r = (p, out) \<Longrightarrow> ended p \<and> at p = at r"
  by (auto simp: catch_sig_def catch_fin_def Let_def)

lemma par_hears_end:
  assumes "end_signal True (par s)" "\<not> ended (par s)" "running (par s)"
  shows "\<exists>t. catch_step b N s t \<and> catch_rank N t < catch_rank N s"
proof -
  have "waiting SIGFIN (par s) \<noteq> 0" using assms by (simp add: end_signal_def)
  then obtain i q v r where d: "i < length (inbox (par s))" "dequeue i (par s) = ((SIGFIN, q, v), r)" "at r = at (par s)"
    by (rule waiting_index)
  obtain p out where h: "catch_sig Parent b (SIGFIN, q, v) r = (p, out)" by (rule prod.exhaust)
  show ?thesis
    using catch_step.par_catches [OF assms(3) d(1,2) h, of N] catch_fin_ends [OF h] d(3) assms(2)
    by (intro exI conjI) (auto simp: catch_rank_def)
qed

lemma chi_hears_end:
  assumes "end_signal True (chi s)" "\<not> ended (chi s)" "running (chi s)"
  shows "\<exists>t. catch_step b N s t \<and> catch_rank N t < catch_rank N s"
proof -
  have "waiting SIGFIN (chi s) \<noteq> 0" using assms by (simp add: end_signal_def)
  then obtain i q v r where d: "i < length (inbox (chi s))" "dequeue i (chi s) = ((SIGFIN, q, v), r)" "at r = at (chi s)"
    by (rule waiting_index)
  obtain c out where h: "catch_sig Child b (SIGFIN, q, v) r = (c, out)" by (rule prod.exhaust)
  show ?thesis
    using catch_step.chi_catches [OF assms(3) d(1,2) h, of N] catch_fin_ends [OF h] d(3) assms(2)
    by (intro exI conjI) (auto simp: catch_rank_def)
qed

lemma catch_closer:
  assumes "catch_inv b N s" "small_count N" "at (par s) \<noteq> S_Done"
  shows "\<exists>t. catch_step b N s t \<and> catch_rank N t < catch_rank N s"
proof -
  let ?p = "par s" and ?c = "chi s"
  have inv: "pair_inv b N ?p ?c" using assms(1) by (simp add: catch_inv_def)
  show ?thesis
  proof (cases "(at ?p = S_Wait \<longrightarrow> ended ?p) \<and> (at ?p = S_Reap \<longrightarrow> at ?c = S_Done)")
    case True
    then obtain p' c' out where m: "catch_main b N (at ?p) ?p ?c = Some (p', c', out)"
      "par_rank N (at p') < par_rank N (at ?p)" "at c' = at ?c" "ended c' = ended ?c" "ended p' = ended ?p"
      using par_goes_on [OF inv assms(2,3)] by metis
    show ?thesis using catch_step.par_runs [OF m(1)] m(2-5)
      by (intro exI conjI) (auto simp: catch_rank_def)
  next
    case False
    then have past: "end_sent (at ?p)" "running ?p" "running ?c \<or> at ?c = S_Done"
      using inv by (cases "at ?c"; auto simp: running_def pair_inv_def)+
    show ?thesis
    proof (cases "at ?c = S_Done")
      case True
      then show ?thesis using False inv past(2) by (intro par_hears_end) (auto simp: pair_inv_def)
    next
      case busy: False
      show ?thesis
      proof (cases "ended ?c")
        case True
        then obtain c' p' where m: "catch_child b (at ?c) ?c ?p = Some (c', p')"
          "chi_rank N (at c') < chi_rank N (at ?c)" "at p' = at ?p" "ended c' = ended ?c" "ended p' = ended ?p"
          using chi_goes_on [OF inv _ busy] by metis
        show ?thesis using catch_step.chi_runs [OF m(1)] m(2-5)
          by (intro exI conjI) (auto simp: catch_rank_def)
      next
        case False
        then show ?thesis using past busy inv by (intro chi_hears_end) (auto simp: pair_inv_def)
      qed
    qed
  qed
qed

interpretation catching: ranked_system "\<lambda>s. s = catch_start \<and> small_count N" "catch_step b N"
  "\<lambda>s. catch_inv b N s \<and> small_count N" "\<lambda>s. at (par s) = S_Done" "catch_rank N" for b N
  by unfold_locales (auto intro: catch_inv_step catch_start_inv catch_closer)

abbreviation catch_reaches :: "build \<Rightarrow> int \<Rightarrow> catch_sys \<Rightarrow> catch_sys \<Rightarrow> bool" where
  "catch_reaches b N \<equiv> (catch_step b N)\<^sup>*\<^sup>*"

lemma reachable_catch_inv:
  "small_count N \<Longrightarrow> catch_reaches b N catch_start s \<Longrightarrow> catch_inv b N s"
  using catching.inv_reachable [of catch_start N b s] by simp

section \<open>Running a schedule\<close>

datatype turn = Par | Chi | Par_Catches nat | Chi_Catches nat

fun do_turn :: "build \<Rightarrow> int \<Rightarrow> catch_sys \<Rightarrow> turn \<Rightarrow> catch_sys option" where
  "do_turn b cnt s Par = map_option (\<lambda>(p, c, out). \<lparr>par = p, chi = c, printed = printed s @ out\<rparr>)
     (catch_main b cnt (at (par s)) (par s) (chi s))"
| "do_turn b cnt s Chi = map_option (\<lambda>(c, p). \<lparr>par = p, chi = c, printed = printed s\<rparr>)
     (catch_child b (at (chi s)) (chi s) (par s))"
| "do_turn b cnt s (Par_Catches i) = (if running (par s) \<and> i < length (inbox (par s))
     then (case dequeue i (par s) of (sig, self) \<Rightarrow> (case catch_sig Parent b sig self of
       (p, out) \<Rightarrow> Some \<lparr>par = p, chi = chi s, printed = printed s @ out\<rparr>)) else None)"
| "do_turn b cnt s (Chi_Catches i) = (if running (chi s) \<and> i < length (inbox (chi s))
     then (case dequeue i (chi s) of (sig, self) \<Rightarrow> (case catch_sig Child b sig self of
       (c, out) \<Rightarrow> Some \<lparr>par = par s, chi = c, printed = printed s @ out\<rparr>)) else None)"

fun do_turns :: "build \<Rightarrow> int \<Rightarrow> catch_sys \<Rightarrow> turn list \<Rightarrow> catch_sys option" where
  "do_turns b cnt s [] = Some s"
| "do_turns b cnt s (m # ms) = (case do_turn b cnt s m of None \<Rightarrow> None | Some t \<Rightarrow> do_turns b cnt t ms)"

lemma do_turn_step: "do_turn b cnt s m = Some t \<Longrightarrow> catch_step b cnt s t"
  by (cases "(b, cnt, s, m)" rule: do_turn.cases)
    (auto intro: catch_step.intros split: prod.splits if_split_asm)

lemma do_turns_reach: "do_turns b cnt s ms = Some t \<Longrightarrow> catch_reaches b cnt s t"
  by (induction b cnt s ms rule: do_turns.induct)
    (auto split: option.split_asm dest!: do_turn_step intro: converse_rtranclp_into_rtranclp)

text \<open>Rounds: a schedule that leads from \<open>st i\<close> to \<open>st (i + 1)\<close> leads from the first to the last.\<close>

lemma rounds_reach:
  assumes "\<And>i. 0 \<le> i \<Longrightarrow> i < N \<Longrightarrow> do_turns b N (st i) ms = Some (st (i + 1))" "0 \<le> N"
  shows "catch_reaches b N (st 0) (st N)"
proof -
  have "int k \<le> N \<Longrightarrow> catch_reaches b N (st 0) (st (int k))" for k
  proof (induction k)
    case (Suc k)
    then have "catch_reaches b N (st 0) (st (int k))" by simp
    also have "catch_reaches b N (st (int k)) (st (int k + 1))"
      using assms(1) [of "int k"] Suc.prems by (intro do_turns_reach) simp
    finally show ?case by (simp add: add.commute)
  qed simp
  from this [of "nat N"] show ?thesis using assms(2) by simp
qed

lemmas turn_simps = send_def peer_def pid_of_def post_to_def dequeue_def running_def catch_sig_def
  catch_inc_def catch_fin_def catch_child_def small_count_def Let_def

text \<open>The child has counted \<open>i\<close> signals, each when it came.\<close>

definition caught :: "int \<Rightarrow> int \<Rightarrow> catch_sys" where
  "caught N i = \<lparr>par = \<lparr>at = S_Test i, target = 2, count = N, ended = False, inbox = []\<rparr>,
     chi = \<lparr>at = K_Wait, target = 0, count = i, ended = False, inbox = []\<rparr>, printed = []\<rparr>"

lemma catch_begins: "small_count N \<Longrightarrow> do_turns b N catch_start [Par] = Some (caught N 0)"
  by (simp add: catch_start_def caught_def long_as_int_small pid_of_def)

lemma caught_round: "small_count N \<Longrightarrow> i < N \<Longrightarrow> do_turns b N (caught N i) [Par, Par, Chi_Catches 0] = Some (caught N (i + 1))"
  by (simp add: caught_def turn_simps)

lemma caught_all:
  assumes "small_count N"
  shows "catch_reaches b N catch_start (caught N N)"
proof -
  have "catch_reaches b N catch_start (caught N 0)"
    using catch_begins [OF assms] by (rule do_turns_reach)
  also have "catch_reaches b N (caught N 0) (caught N N)"
    by (rule rounds_reach [where st = "caught N", OF caught_round [OF assms]])
      (use assms in \<open>simp_all add: small_count_def\<close>)
  finally show ?thesis .
qed

text \<open>The child has sent \<open>j\<close> signals back while the parent is still at its reset.\<close>

definition returning :: "build \<Rightarrow> int \<Rightarrow> int \<Rightarrow> catch_sys" where
  "returning b N j = \<lparr>par = \<lparr>at = S_Reset, target = 2, count = N + j, ended = False, inbox = []\<rparr>,
     chi = \<lparr>at = S_Test j, target = 1, count = N, ended = True, inbox = []\<rparr>,
     printed = [Final_Count Child N (if b = QUEUE then Some N else None)]\<rparr>"

lemma turn_round: "small_count N \<Longrightarrow> do_turns b N (caught N N) [Par, Par, Chi_Catches 0, Chi] = Some (returning b N 0)"
  by (simp add: caught_def returning_def turn_simps)

lemma returning_round:
  "small_count N \<Longrightarrow> j < N \<Longrightarrow> do_turns b N (returning b N j) [Chi, Chi, Par_Catches 0] = Some (returning b N (j + 1))"
  by (simp add: returning_def turn_simps)

lemma returning_all:
  assumes "small_count N"
  shows "catch_reaches b N catch_start (returning b N N)"
proof -
  have "catch_reaches b N catch_start (caught N N)" using assms by (rule caught_all)
  also have "catch_reaches b N (caught N N) (returning b N 0)"
    using turn_round [OF assms] by (rule do_turns_reach)
  also have "catch_reaches b N (returning b N 0) (returning b N N)"
    by (rule rounds_reach [where st = "returning b N", OF returning_round [OF assms]])
      (use assms in \<open>simp_all add: small_count_def\<close>)
  finally show ?thesis .
qed

text \<open>The parent has sent \<open>i\<close> signals before the child handles one.\<close>

definition flooded :: "build \<Rightarrow> int \<Rightarrow> int \<Rightarrow> catch_sys" where
  "flooded b N i = \<lparr>par = \<lparr>at = S_Test i, target = 2, count = N, ended = False, inbox = []\<rparr>,
     chi = \<lparr>at = K_Wait, target = 0, count = 0, ended = False,
       inbox = replicate (if b = RT then nat i else min (nat i) 1) (SIGINC, 1, N)\<rparr>, printed = []\<rparr>"

lemma flooded_round: "0 \<le> i \<Longrightarrow> i < N \<Longrightarrow> do_turns b N (flooded b N i) [Par, Par] = Some (flooded b N (i + 1))"
  by (auto simp: flooded_def turn_simps nat_add_distrib replicate_append_same min_def)

lemma flooded_all:
  assumes "small_count N"
  shows "catch_reaches b N catch_start (flooded b N N)"
proof -
  have "do_turns b N catch_start [Par] = Some (flooded b N 0)"
    using catch_begins [OF assms] by (simp add: flooded_def caught_def)
  then have "catch_reaches b N catch_start (flooded b N 0)" by (rule do_turns_reach)
  also have "catch_reaches b N (flooded b N 0) (flooded b N N)"
    by (rule rounds_reach [where st = "flooded b N", OF flooded_round])
      (use assms in \<open>simp_all add: small_count_def\<close>)
  finally show ?thesis .
qed

section \<open>Properties\<close>

text \<open>
  C38: In every build and whatever signals are lost, the program can always end: from every
  reachable state a run leads to one in which both processes have returned from \<open>main\<close> and
  \<open>child\<close>.
\<close>

theorem catch_can_end:
  assumes "small_count cnt" "catch_reaches b cnt catch_start s"
  shows "\<exists>t. catch_reaches b cnt s t \<and> at (par t) = S_Done \<and> at (chi t) = S_Done"
proof -
  obtain t where t: "catch_reaches b cnt s t" "at (par t) = S_Done"
    using catching.goal_reachable [of catch_start cnt b s] assms by blast
  have "catch_reaches b cnt catch_start t" using assms(2) t(1) by (rule rtranclp_trans)
  then have "pair_inv b cnt (par t) (chi t)"
    using reachable_catch_inv [OF assms(1)] by (simp add: catch_inv_def)
  then have "at (chi t) = S_Done" using t(2) by (auto simp: pair_inv_def end_signal_def)
  with t show ?thesis by blast
qed

theorem catch_can_end_witness:
  "\<exists>t. catch_reaches KILL 5 (flooded KILL 5 5) t \<and> at (par t) = S_Done \<and> at (chi t) = S_Done"
  by (rule catch_can_end [OF _ flooded_all]) (simp_all add: small_count_def)




text \<open>
  What is reported: the child at most the number asked for, the parent at most twice that
  number.
\<close>

theorem catch_reports:
  assumes "small_count cnt" "catch_reaches b cnt catch_start s" "Final_Count w n x \<in> set (printed s)"
  shows "0 \<le> n \<and> n \<le> (if w = Child then cnt else 2 * cnt)"
  using reachable_catch_inv [OF assms(1,2)] assms(3) by (auto simp: catch_inv_def printed_ok_def)

theorem catch_reports_witness:
  "0 \<le> (5 :: int) \<and> (5 :: int) \<le> (if Child = Child then 5 else 2 * 5)"
  by (rule catch_reports [OF _ returning_all [of 5 RT], where x = None]) (simp_all add: small_count_def returning_def)

text \<open>
  The parent resets its counter only after the end signal: in every build a run exists in
  which it reports twice the number of signals that were sent to it.
\<close>

theorem catch_reports_double:
  assumes "small_count cnt"
  shows "\<exists>s x. catch_reaches b cnt catch_start s \<and> Final_Count Parent (2 * cnt) x \<in> set (printed s)"
proof -
  obtain s x where "do_turns b cnt (returning b cnt cnt) [Chi, Chi, Par_Catches 0] = Some s"
    "Final_Count Parent (2 * cnt) x \<in> set (printed s)"
    by (simp add: returning_def turn_simps)
  then show ?thesis using rtranclp_trans [OF returning_all [OF assms] do_turns_reach] by blast
qed

theorem catch_reports_double_witness:
  "\<exists>s x. catch_reaches RT 5 catch_start s \<and> Final_Count Parent 10 x \<in> set (printed s)"
  using catch_reports_double [of 5 RT] by (simp add: small_count_def)

text \<open>
  In the builds without real time signals all but one of the signals to the child can get
  lost; it then counts one, with nothing pending.
\<close>

theorem catch_loses_signals:
  assumes "small_count cnt" "0 < cnt" "b \<noteq> RT"
  shows "\<exists>s. catch_reaches b cnt catch_start s \<and> ended (chi s) \<and> inbox (chi s) = [] \<and> count (chi s) = 1"
proof -
  obtain s where "do_turns b cnt (flooded b cnt cnt) [Par, Par, Chi_Catches 0, Chi_Catches 0] = Some s"
    "ended (chi s)" "inbox (chi s) = []" "count (chi s) = 1"
    using assms by (simp add: flooded_def turn_simps)
  then show ?thesis using rtranclp_trans [OF flooded_all [OF assms(1)] do_turns_reach] by blast
qed

theorem catch_loses_signals_witness:
  "\<exists>s. catch_reaches KILL 5 catch_start s \<and> ended (chi s) \<and> inbox (chi s) = [] \<and> count (chi s) = 1"
  by (rule catch_loses_signals) (simp_all add: small_count_def)

text \<open>
  The handler of the end signal may run before those of the signals that came first: in
  every build a run exists in which the child reports 0.
\<close>

theorem catch_reports_early:
  assumes "small_count cnt" "0 < cnt"
  shows "\<exists>s x. catch_reaches b cnt catch_start s \<and> Final_Count Child 0 x \<in> set (printed s)"
proof -
  let ?n = "if b = RT then nat cnt else min (nat cnt) 1"
  obtain s x where "do_turns b cnt (flooded b cnt cnt) [Par, Par, Chi_Catches ?n] = Some s"
    "Final_Count Child 0 x \<in> set (printed s)"
    using assms by (simp add: flooded_def turn_simps nth_append)
  then show ?thesis using rtranclp_trans [OF flooded_all [OF assms(1)] do_turns_reach] by blast
qed

theorem catch_reports_early_witness:
  "\<exists>s x. catch_reaches RT 5 catch_start s \<and> Final_Count Child 0 x \<in> set (printed s)"
  by (rule catch_reports_early) (simp_all add: small_count_def)

end
