(* ===== verification/Integrate.thy ===== *)
theory Integrate
  imports Decimal
begin

text \<open>
  The numerical integration of \<open>lab3/zad2/main.c\<close>: worker processes sum up the function at
  every \<open>workers\<close>-th sample, pairwise in the manner of a binary counter, write their sums to
  files, and the parent adds the sums of the files in the same way.

  The arithmetic of \<open>double\<close> is a parameter, the record \<open>arith\<close>; it rounds, and no law is
  assumed of it.
\<close>

record 'd arith =
  ar_add :: "'d \<Rightarrow> 'd \<Rightarrow> 'd"
  ar_sub :: "'d \<Rightarrow> 'd \<Rightarrow> 'd"
  ar_mul :: "'d \<Rightarrow> 'd \<Rightarrow> 'd"
  ar_div :: "'d \<Rightarrow> 'd \<Rightarrow> 'd"
  ar_num :: "int \<Rightarrow> 'd"

definition func :: "'d arith \<Rightarrow> 'd \<Rightarrow> 'd" where
  "func A x = ar_div A (ar_num A 4) (ar_add A (ar_mul A x x) (ar_num A 1))"

text \<open>The value at sample \<open>s\<close>.\<close>

definition sample_value :: "'d arith \<Rightarrow> int \<Rightarrow> int \<Rightarrow> 'd" where
  "sample_value A samples s = func A (ar_div A (ar_num A s) (ar_sub A (ar_num A samples) (ar_num A 1)))"

section \<open>The binary counter of partial sums\<close>

definition UINT_BITS :: nat where "UINT_BITS = 32"

text \<open>Counting trailing zeros; the value is not 0 in the loop.\<close>

function ctz_loop :: "u32 \<Rightarrow> nat \<Rightarrow> nat" where
  "ctz_loop v i = (if v \<noteq> 0 \<and> v AND 1 = 0 then ctz_loop (drop_bit 1 v) (i + 1) else i)"
  by pat_completeness auto
termination
proof (relation "measure (\<lambda>(v, _). unat v)")
  fix v :: u32 and i :: nat
  assume "v \<noteq> 0 \<and> v AND 1 = 0"
  then have "0 < unat v" by (simp add: unat_gt_0)
  moreover have "unat (drop_bit 1 v) = unat v div 2"
    by (metis drop_bit_eq_div power_one_right unat_drop_bit_eq)
  ultimately show "((drop_bit 1 v, i + 1), v, i) \<in> measure (\<lambda>(v, _). unat v)" by simp
qed simp

declare ctz_loop.simps [simp del]

definition ctz :: "u32 \<Rightarrow> nat" where
  "ctz v = (if v = 0 then UINT_BITS else ctz_loop v 0)"

text \<open>
  \<open>mask\<close> counts the numbers added, \<open>accum\<close> holds the partial sums; the next number is put into
  the bin of the carry, with the partial sums below. An index behind the array is undefined.
\<close>

type_synonym 'd counter = "u32 \<times> 'd list"

definition add_number :: "('d \<Rightarrow> 'd \<Rightarrow> 'd) \<Rightarrow> 'd \<Rightarrow> 'd counter \<Rightarrow> 'd counter result" where
  "add_number add v = (\<lambda>(mask, accum).
     let mask = mask + 1; bin = ctz mask
     in if length accum \<le> bin then Err Undef_Behaviour
        else Ok (mask, accum[bin := foldl (\<lambda>sum i. add sum (accum ! i)) v [0..<bin]]))"

definition sum_up :: "('d \<Rightarrow> 'd \<Rightarrow> 'd) \<Rightarrow> 'd \<Rightarrow> 'd counter \<Rightarrow> 'd" where
  "sum_up add zero = (\<lambda>(mask, accum).
     foldl (\<lambda>res i. if bit mask i then add res (accum ! i) else res) zero [0..<UINT_BITS])"

definition no_numbers :: "'d \<Rightarrow> 'd counter" where
  "no_numbers zero = (0, replicate UINT_BITS zero)"

section \<open>A worker\<close>

text \<open>The loop \<open>for (s = offset; s < samples; s += workers)\<close>; an overflow of \<open>s\<close> is undefined.\<close>

function worker_loop :: "('d \<Rightarrow> 'd \<Rightarrow> 'd) \<Rightarrow> (int \<Rightarrow> 'd) \<Rightarrow> int \<Rightarrow> int \<Rightarrow> int \<Rightarrow> 'd counter \<Rightarrow> 'd counter result" where
  "worker_loop add f s samples workers c =
     (if s < samples \<and> 0 < workers
      then rbind (add_number add (f s) c) (\<lambda>c.
        if LONG_MAX < s + workers then Err Undef_Behaviour
        else worker_loop add f (s + workers) samples workers c)
      else Ok c)"
  by pat_completeness auto
termination
  by (relation "measure (\<lambda>(_, _, s, samples, _, _). nat (samples - s))") auto

declare worker_loop.simps [simp del]

text \<open>The file of worker \<open>offset\<close>, whose name is printed into 12 bytes.\<close>

definition worker_file :: "nat \<Rightarrow> string" where
  "worker_file offset = ''w'' @ show_nat (offset + 1) @ ''.bin''"

definition file_name :: "nat \<Rightarrow> string result" where
  "file_name offset =
     (if 12 < length (worker_file offset) + 1 then Err Undef_Behaviour else Ok (worker_file offset))"

text \<open>\<open>child\<close>: the file and the number written to it. \<open>writable\<close> says which files can be.\<close>

definition worker_child :: "'d arith \<Rightarrow> (string \<Rightarrow> bool) \<Rightarrow> int \<Rightarrow> int \<Rightarrow> nat \<Rightarrow> (string \<times> 'd) result" where
  "worker_child A writable samples workers offset =
     rbind (worker_loop (ar_add A) (sample_value A samples) (int offset) samples workers
       (no_numbers (ar_num A 0))) (\<lambda>c.
     rbind (file_name offset) (\<lambda>name.
       if writable name then Ok (name, sum_up (ar_add A) (ar_num A 0) c) else Err (Exit_Status 1)))"

section \<open>The parent\<close>

text \<open>
  The loop that reads the files back. \<open>files\<close> is the directory after the workers have ended,
  \<open>write_all\<close>, where each has written a file of its own.
\<close>

definition collect_step :: "'d arith \<Rightarrow> (string \<Rightarrow> 'd option) \<Rightarrow> 'd counter \<Rightarrow> nat \<Rightarrow> 'd counter result" where
  "collect_step A files c r =
     rbind (file_name r) (\<lambda>name.
       case files name of None \<Rightarrow> Err (Exit_Status 1) | Some res \<Rightarrow> add_number (ar_add A) res c)"

definition write_all :: "(string \<Rightarrow> 'd option) \<Rightarrow> (string \<times> 'd) result list \<Rightarrow> (string \<Rightarrow> 'd option)" where
  "write_all old ends = foldl (\<lambda>fs r. case r of Inl _ \<Rightarrow> fs | Inr (name, res) \<Rightarrow> fs(name \<mapsto> res)) old ends"

definition parse_arg :: "string \<Rightarrow> int option" where
  "parse_arg str = (if str = [] then None
     else (case strtol10 str of (v, rest, _) \<Rightarrow> if rest = [] then Some v else None))"

text \<open>
  \<open>main\<close>: the exit status and the number printed. The workers share nothing but the directory,
  so that the order they run in does not matter; \<open>old\<close> is what was there before.
\<close>

definition integrate_main :: "'d arith \<Rightarrow> (string \<Rightarrow> bool) \<Rightarrow> (string \<Rightarrow> 'd option) \<Rightarrow> string list \<Rightarrow>
    (int \<times> 'd option) result" where
  "integrate_main A writable old argv =
     (if length argv \<noteq> 3 then Ok (2, None)
      else (case (parse_arg (argv ! 1), parse_arg (argv ! 2)) of
          (Some samples, Some workers) \<Rightarrow>
            if samples \<le> 1 \<or> workers \<le> 0 then Ok (2, None)
            else let ends = map (worker_child A writable samples workers) [0..<nat workers]
              in if Err Undef_Behaviour \<in> set ends then Err Undef_Behaviour
                 else if \<exists>r \<in> set ends. case r of Inl _ \<Rightarrow> True | Inr _ \<Rightarrow> False then Ok (1, None)
                 else rbind (rfold (collect_step A (write_all old ends)) (no_numbers (ar_num A 0)) [0..<nat workers]) (\<lambda>c.
                      Ok (0, Some (ar_div A (sum_up (ar_add A) (ar_num A 0) c) (ar_num A samples))))
        | _ \<Rightarrow> Ok (2, None)))"

end
