(* ===== verification/Integrate_Props.thy ===== *)
theory Integrate_Props
  imports Integrate Complex_Main "HOL-Library.Multiset"
begin

text \<open>
  What the numerical integration computes. The sums are shown as trees (\<open>sumtree\<close>) of the
  additions done, so that the statements hold for every arithmetic, a rounding one too; the
  interface \<open>sum_image\<close> says when one arithmetic is an image of another, and is interpreted
  on the value of a tree.
\<close>

section \<open>Counting in binary\<close>

text \<open>The number of trailing zeros is the bit that a carry into the number stops at.\<close>

lemma ctz_loop_parts: "v \<noteq> 0 \<Longrightarrow> \<exists>b q. ctz_loop v i = i + b \<and> unat v = 2 ^ b * (2 * q + 1)"
proof (induction v i rule: ctz_loop.induct)
  case (1 v i)
  have "unat (v mod 2) = unat v mod 2" by (simp add: unat_mod)
  then have parity: "v AND 1 = 0 \<longleftrightarrow> even (unat v)"
    by (metis and_one_eq even_iff_mod_2_eq_zero unat_eq_zero)
  show ?case
  proof (cases "v AND 1 = 0")
    case False
    then obtain q where "unat v = 2 * q + 1" using parity by (auto elim: oddE)
    then show ?thesis using False by (subst ctz_loop.simps) (auto intro: exI [of _ 0])
  next
    case True
    have half: "unat v = 2 * unat (drop_bit 1 v)"
      using True parity by (metis dvd_mult_div_cancel drop_bit_eq_div power_one_right unat_drop_bit_eq)
    have "v = 0 \<or> unat (drop_bit 1 v) \<noteq> 0" using half by (metis mult_0_right unat_eq_zero)
    then have "drop_bit 1 v \<noteq> 0" using "1.prems" by auto
    with 1 True obtain b q where bq: "ctz_loop (drop_bit 1 v) (i + 1) = i + 1 + b"
      "unat (drop_bit 1 v) = 2 ^ b * (2 * q + 1)" by blast
    have "ctz_loop v i = i + Suc b" using "1.prems" True bq(1) by (subst ctz_loop.simps) simp
    moreover have "unat v = 2 ^ Suc b * (2 * q + 1)" using half bq(2) by simp
    ultimately show ?thesis by blast
  qed
qed

text \<open>Adding one clears the bits below the carry and sets the one it stops at.\<close>

lemma carry_bits:
  fixes n :: nat
  assumes "Suc n = 2 ^ b * (2 * q + 1)"
  shows "bit n i \<longleftrightarrow> i < b \<or> b < i \<and> bit (Suc n) i" and "bit (Suc n) b"
    and "i < b \<Longrightarrow> \<not> bit (Suc n) i"
proof -
  have "(bit n i \<longleftrightarrow> i < b \<or> b < i \<and> bit (Suc n) i) \<and> bit (Suc n) b \<and> (i < b \<longrightarrow> \<not> bit (Suc n) i)"
    using assms
  proof (induction b arbitrary: n i)
    case 0
    then have "even n" "Suc n div 2 = n div 2" by auto
    then show ?case by (cases i) (simp_all add: bit_0 bit_Suc)
  next
    case (Suc b)
    then have "odd n" by (metis dvd_mult_right dvd_triv_left even_Suc mult.assoc power_Suc)
    then obtain m where n: "n = 2 * m + 1" by (auto elim: oddE)
    have m: "Suc m = 2 ^ b * (2 * q + 1)" using Suc.prems n by simp
    have half: "n div 2 = m" "Suc n div 2 = Suc m" using n by simp_all
    show ?case
      using Suc.IH [OF m, of "i - 1"] \<open>odd n\<close> by (cases i) (simp_all add: bit_0 bit_Suc half)
  qed
  then show "bit n i \<longleftrightarrow> i < b \<or> b < i \<and> bit (Suc n) i" "bit (Suc n) b"
    "i < b \<Longrightarrow> \<not> bit (Suc n) i" by blast+
qed

lemma ctz_carry:
  assumes "Suc n < 2 ^ 32"
  obtains b q where "ctz (of_nat (Suc n)) = b" "Suc n = 2 ^ b * (2 * q + 1)" "b < 32"
proof -
  have un: "unat (of_nat (Suc n) :: u32) = Suc n" 
    using assms by (simp add: unsigned_of_nat take_bit_nat_eq_self del: of_nat_Suc)
  then have nz: "(of_nat (Suc n) :: u32) \<noteq> 0" by (metis nat.distinct(1) unat_0)
  then have "ctz (of_nat (Suc n)) = ctz_loop (of_nat (Suc n)) 0" unfolding ctz_def by (simp only: if_False)
  with nz obtain b q where bq: "ctz (of_nat (Suc n)) = b" "Suc n = 2 ^ b * (2 * q + 1)"
    using ctz_loop_parts [of "of_nat (Suc n)" 0] un by (metis add_0)
  have "(2::nat) ^ b < 2 ^ 32" using bq(2) assms by (simp only:) (metis le_add2 le_less_trans mult.commute mult_le_mono1 nat_mult_1)
  then have "b < 32" by (rule power_less_imp_less_exp [rotated]) simp
  with bq that show thesis by blast
qed

section \<open>Sums as trees\<close>

datatype sumtree = Zero | Sample int | Plus sumtree sumtree

fun leaves :: "sumtree \<Rightarrow> int multiset" where
  "leaves Zero = {#}"
| "leaves (Sample s) = {#s#}"
| "leaves (Plus a b) = leaves a + leaves b"

text \<open>The number of additions, hence of roundings, that a sample can go through.\<close>

fun rounds :: "sumtree \<Rightarrow> nat" where
  "rounds Zero = 0"
| "rounds (Sample s) = 0"
| "rounds (Plus a b) = Suc (max (rounds a) (rounds b))"

text \<open>The number an arithmetic computes for a tree.\<close>

fun value_of :: "'d arith \<Rightarrow> int \<Rightarrow> sumtree \<Rightarrow> 'd" where
  "value_of A samples Zero = ar_num A 0"
| "value_of A samples (Sample s) = sample_value A samples s"
| "value_of A samples (Plus a b) = ar_add A (value_of A samples a) (value_of A samples b)"

locale sum_image =
  fixes h :: "'a \<Rightarrow> 'b" and plus :: "'a \<Rightarrow> 'a \<Rightarrow> 'a" and plus' :: "'b \<Rightarrow> 'b \<Rightarrow> 'b"
  assumes h_plus: "h (plus x y) = plus' (h x) (h y)"
begin

lemma h_foldl: "h (foldl (\<lambda>sum i. plus sum (f i)) v is) = foldl (\<lambda>sum i. plus' sum (h (f i))) (h v) is"
  by (induction "is" arbitrary: v) (simp_all add: h_plus)

lemma h_foldl_if: "h (foldl (\<lambda>sum i. if P i then plus sum (f i) else sum) v is) =
    foldl (\<lambda>sum i. if P i then plus' sum (h (f i)) else sum) (h v) is"
  by (induction "is" arbitrary: v) (simp_all add: h_plus)

text \<open>The counter of the image is the image of the counter.\<close>

lemma add_number_image:
  assumes "add_number plus v (m, ts) = Ok (m', ts')"
  shows "add_number plus' (h v) (m, map h ts) = Ok (m', map h ts')"
proof -
  let ?b = "ctz (m + 1)"
  have b: "?b < length ts" and m': "m' = m + 1"
    and ts': "ts' = ts[?b := foldl (\<lambda>sum i. plus sum (ts ! i)) v [0..<?b]]"
    using assms by (auto simp: add_number_def Let_def split: if_splits)
  have "foldl (\<lambda>sum i. plus' sum (map h ts ! i)) (h v) [0..<?b] =
      foldl (\<lambda>sum i. plus' sum (h (ts ! i))) (h v) [0..<?b]"
    by (rule foldl_cong) (use b in auto)
  then show ?thesis using b by (simp add: add_number_def Let_def m' ts' map_update h_foldl)
qed

lemma sum_up_image:
  assumes "length ts = UINT_BITS"
  shows "sum_up plus' (h zero) (m, map h ts) = h (sum_up plus zero (m, ts))"
proof -
  have "foldl (\<lambda>res i. if bit m i then plus' res (map h ts ! i) else res) (h zero) [0..<UINT_BITS] =
      foldl (\<lambda>res i. if bit m i then plus' res (h (ts ! i)) else res) (h zero) [0..<UINT_BITS]"
    by (rule foldl_cong) (use assms in auto)
  then show ?thesis by (simp add: sum_up_def h_foldl_if)
qed

lemma worker_loop_image:
  "worker_loop plus f s samples workers (m, ts) = Ok (m', ts') \<Longrightarrow>
   worker_loop plus' (\<lambda>s. h (f s)) s samples workers (m, map h ts) = Ok (m', map h ts')"
proof (induction "nat (samples - s)" arbitrary: s m ts rule: less_induct)
  case less
  show ?case
  proof (cases "s < samples \<and> 0 < workers")
    case False
    then show ?thesis using less.prems unfolding worker_loop.simps [where s = s] by (simp only: if_False) simp
  next
    case True
    with less.prems obtain c where c: "add_number plus (f s) (m, ts) = Ok c"
      "worker_loop plus f (s + workers) samples workers c = Ok (m', ts')" "\<not> LONG_MAX < s + workers"
      by (subst (asm) worker_loop.simps) (auto simp: rbind_eq_Inr split: if_splits)
    obtain m1 ts1 where c1: "c = (m1, ts1)" by (cases c)
    show ?thesis
      using True c less.hyps [of "s + workers" m1 ts1] add_number_image [OF c(1) [unfolded c1]]
      by (subst worker_loop.simps) (simp add: c1)
  qed
qed

lemma add_all_image:
  "rfold (\<lambda>c r. add_number plus (v r) c) (m, ts) rs = Ok (m', ts') \<Longrightarrow>
   rfold (\<lambda>c r. add_number plus' (h (v r)) c) (m, map h ts) rs = Ok (m', map h ts')"
proof (induction rs arbitrary: m ts)
  case (Cons r rs)
  then obtain m1 ts1 where "add_number plus (v r) (m, ts) = Ok (m1, ts1)"
    "rfold (\<lambda>c r. add_number plus (v r) c) (m1, ts1) rs = Ok (m', ts')"
    by (auto simp: rbind_eq_Inr)
  then show ?case using Cons.IH add_number_image by simp
qed simp

end

interpretation tree: sum_image "value_of A samples" Plus "ar_add A" for A samples
  by unfold_locales simp

section \<open>The counter of partial sums\<close>

lemma carried_leaves: "leaves (foldl (\<lambda>sum i. Plus sum (ts ! i)) v [0..<b]) = leaves v + (\<Sum>i<b. leaves (ts ! i))"
  by (induction b) (simp_all add: ac_simps)

lemma carried_rounds:
  "rounds v \<le> H \<Longrightarrow> \<forall>i<b. rounds (ts ! i) \<le> H + i \<Longrightarrow>
   rounds (foldl (\<lambda>sum i. Plus sum (ts ! i)) v [0..<b]) \<le> H + b"
  by (induction b) (auto simp: le_Suc_eq)

lemma summed_leaves:
  "leaves (foldl (\<lambda>res i. if P i then Plus res (ts ! i) else res) Zero [0..<m]) =
   (\<Sum>i | i < m \<and> P i. leaves (ts ! i))"
proof (induction m)
  case (Suc m)
  have "{i. i < Suc m \<and> P i} = (if P m then insert m {i. i < m \<and> P i} else {i. i < m \<and> P i})"
    by (auto simp: less_Suc_eq)
  then show ?case using Suc by (simp add: ac_simps)
qed simp

lemma summed_rounds:
  "\<forall>i<m. P i \<longrightarrow> i < k \<and> rounds (ts ! i) \<le> H + i \<Longrightarrow>
   rounds (foldl (\<lambda>res i. if P i then Plus res (ts ! i) else res) Zero [0..<m]) \<le> H + min m k"
proof (induction m)
  case (Suc m)
  then have "rounds (foldl (\<lambda>res i. if P i then Plus res (ts ! i) else res) Zero [0..<m]) \<le> H + min m k"
    by simp
  moreover have "P m \<Longrightarrow> m < k \<and> rounds (ts ! m) \<le> H + m" using Suc.prems by simp
  ultimately show ?case by (cases "P m") (auto simp: min_def split: if_splits)
qed simp

text \<open>
  What a counter holds: below \<open>2 ^ k\<close> numbers \<open>n\<close> have been added, the bins that belong to the
  bits of \<open>n\<close> hold the samples \<open>M\<close>, and bin \<open>i\<close> has seen \<open>i\<close> roundings more than a number added.
\<close>

definition counts :: "nat \<Rightarrow> nat \<Rightarrow> int multiset \<Rightarrow> nat \<Rightarrow> sumtree list \<Rightarrow> bool" where
  "counts k H M n ts \<longleftrightarrow> n < 2 ^ k \<and> k \<le> 32 \<and> length ts = 32 \<and> (\<forall>i<32. rounds (ts ! i) \<le> H + i) \<and>
     (\<Sum>i | i < 32 \<and> bit n i. leaves (ts ! i)) = M"

lemma counts_range: "counts k H M n ts \<Longrightarrow> n < 2 ^ 32"
  unfolding counts_def by (meson less_le_trans one_le_numeral power_increasing)

lemma counts_start: "k \<le> 32 \<Longrightarrow> counts k H {#} 0 (replicate 32 Zero)"
  by (simp add: counts_def)

lemma counts_add:
  assumes c: "counts k H M n ts" and room: "Suc n < 2 ^ k" and v: "rounds v \<le> H"
  obtains ts' where "add_number Plus v (of_nat n, ts) = Ok (of_nat (Suc n), ts')"
    and "counts k H (M + leaves v) (Suc n) ts'"
proof -
  note defs = c [unfolded counts_def]
  have "Suc n < 2 ^ 32" using room defs by (meson less_le_trans one_le_numeral power_increasing)
  then obtain b q where b: "ctz (of_nat (Suc n)) = b" "Suc n = 2 ^ b * (2 * q + 1)" "b < 32"
    by (rule ctz_carry)
  let ?sum = "foldl (\<lambda>sum i. Plus sum (ts ! i)) v [0..<b]"
  let ?ts = "ts[b := ?sum]"
  have bits: "{i. i < 32 \<and> bit n i} = {..<b} \<union> {i. i < 32 \<and> b < i \<and> bit (Suc n) i}"
    "{i. i < 32 \<and> bit (Suc n) i} = insert b {i. i < 32 \<and> b < i \<and> bit (Suc n) i}"
    using carry_bits [OF b(2)] b(3) by (auto simp: set_eq_iff) (metis nat_neq_iff)+
  let ?high = "\<Sum>i | i < 32 \<and> b < i \<and> bit (Suc n) i. leaves (ts ! i)"
  have "(\<Sum>i | i < 32 \<and> bit n i. leaves (ts ! i)) = (\<Sum>i<b. leaves (ts ! i)) + ?high"
    unfolding bits(1) by (rule sum.union_disjoint) auto
  moreover have "(\<Sum>i | i < 32 \<and> bit (Suc n) i. leaves (?ts ! i)) = leaves ?sum + ?high"
    unfolding bits(2) using defs b(3) by (subst sum.insert) (auto intro!: sum.cong)
  ultimately have "(\<Sum>i | i < 32 \<and> bit (Suc n) i. leaves (?ts ! i)) = M + leaves v"
    using defs by (simp add: carried_leaves ac_simps)
  moreover have "\<forall>i<32. rounds (?ts ! i) \<le> H + i"
    using defs v b(3) by (auto simp: nth_list_update intro!: carried_rounds)
  ultimately have "counts k H (M + leaves v) (Suc n) ?ts"
    using room defs by (simp add: counts_def)
  moreover have step: "(of_nat n + 1 :: u32) = of_nat (Suc n)" by simp
  have "add_number Plus v (of_nat n, ts) = Ok (of_nat (Suc n), ?ts)"
    using b(1,3) defs step unfolding add_number_def prod.case Let_def by (simp del: of_nat_Suc)
  ultimately show thesis by (rule that [rotated])
qed

lemma counts_sum:
  assumes "counts k H M n ts"
  shows "leaves (sum_up Plus Zero (of_nat n, ts)) = M" and "rounds (sum_up Plus Zero (of_nat n, ts)) \<le> H + k"
proof -
  note defs = assms [unfolded counts_def]
  have same: "{i. i < UINT_BITS \<and> bit (of_nat n :: u32) i} = {i. i < 32 \<and> bit n i}"
    by (auto simp: UINT_BITS_def bit_of_nat_iff)
  show "leaves (sum_up Plus Zero (of_nat n, ts)) = M"
    using defs by (simp add: sum_up_def summed_leaves same)
  have "bit n i \<Longrightarrow> i < k" for i
  proof (rule ccontr)
    assume i: "bit n i" "\<not> i < k"
    then have "n < 2 ^ i" using defs by (meson less_le_trans not_less one_le_numeral power_increasing)
    then show False using i by (simp add: bit_iff_odd)
  qed
  then have "\<forall>i<UINT_BITS. bit (of_nat n :: u32) i \<longrightarrow> i < k \<and> rounds (ts ! i) \<le> H + i"
    using defs by (auto simp: UINT_BITS_def bit_of_nat_iff)
  then show "rounds (sum_up Plus Zero (of_nat n, ts)) \<le> H + k"
    unfolding sum_up_def prod.case by (rule order.trans [OF summed_rounds]) simp
qed

section \<open>A worker\<close>

text \<open>The samples of a worker: from \<open>s\<close> on, each \<open>workers\<close>-th.\<close>

definition turns :: "int \<Rightarrow> int \<Rightarrow> int \<Rightarrow> int set" where
  "turns s samples workers = {x. s \<le> x \<and> x < samples \<and> workers dvd x - s}"

lemma finite_turns [simp]: "finite (turns s samples workers)"
  by (rule finite_subset [of _ "{s..<samples}"]) (auto simp: turns_def)

lemma turns_next:
  assumes "s < samples" "0 < workers"
  shows "turns s samples workers = insert s (turns (s + workers) samples workers)"
    and "s \<notin> turns (s + workers) samples workers"
proof -
  have "s + workers \<le> x \<or> x = s" if "s \<le> x" "workers dvd x - s" for x
    using that assms(2) zdvd_imp_le [of workers "x - s"] by linarith
  moreover have "workers dvd x - (s + workers) \<longleftrightarrow> workers dvd x - s" for x
    by (metis diff_diff_eq dvd_diff dvd_refl dvd_add_left_iff diff_add_cancel)
  ultimately show "turns s samples workers = insert s (turns (s + workers) samples workers)"
    using assms by (auto simp: turns_def)
  show "s \<notin> turns (s + workers) samples workers" using assms by (simp add: turns_def)
qed

text \<open>
  The counter of a worker has room while \<open>samples\<close> is not behind the \<open>2 ^ k - 1\<close>-th number.
\<close>

lemma worker_loop_counts:
  assumes "0 < workers" "samples + workers \<le> LONG_MAX"
  shows "counts k 0 M n ts \<Longrightarrow> samples \<le> s + workers * (2 ^ k - 1 - int n) \<Longrightarrow>
    \<exists>n' ts'. worker_loop Plus Sample s samples workers (of_nat n, ts) = Ok (of_nat n', ts') \<and>
      counts k 0 (M + mset_set (turns s samples workers)) n' ts'"
proof (induction "nat (samples - s)" arbitrary: s M n ts rule: less_induct)
  case less
  show ?case
  proof (cases "s < samples")
    case False
    then have "turns s samples workers = {}" by (auto simp: turns_def)
    then show ?thesis using False less.prems(1) by (subst worker_loop.simps) auto
  next
    case True
    have "0 < workers * (2 ^ k - 1 - int n)" using True less.prems(2) by linarith
    then have "int n + 1 < 2 ^ k" using assms(1) by (simp add: zero_less_mult_iff)
    then have "Suc n < 2 ^ k" by (metis of_nat_Suc of_nat_less_iff of_nat_numeral of_nat_power add.commute)
    then obtain ts1 where ts1: "add_number Plus (Sample s) (of_nat n, ts) = Ok (of_nat (Suc n), ts1)"
      "counts k 0 (M + leaves (Sample s)) (Suc n) ts1"
      using counts_add [OF less.prems(1), of "Sample s"] by (metis le_refl rounds.simps(2))
    have "samples \<le> (s + workers) + workers * (2 ^ k - 1 - int (Suc n))"
      using less.prems(2) by (simp add: algebra_simps)
    then obtain n' ts' where run: "worker_loop Plus Sample (s + workers) samples workers (of_nat (Suc n), ts1) = Ok (of_nat n', ts')"
      "counts k 0 (M + leaves (Sample s) + mset_set (turns (s + workers) samples workers)) n' ts'"
      using less.hyps [OF _ ts1(2), of "s + workers"] True assms(1) by auto
    have "worker_loop Plus Sample s samples workers (of_nat n, ts) = Ok (of_nat n', ts')"
      using True assms ts1(1) run(1) by (subst worker_loop.simps) (simp del: of_nat_Suc)
    moreover have "M + leaves (Sample s) + mset_set (turns (s + workers) samples workers) =
        M + mset_set (turns s samples workers)"
      using turns_next [OF True assms(1)] by simp
    ultimately show ?thesis using run(2) by metis
  qed
qed

lemma no_numbers_image: "no_numbers (h z) = (0, map h (replicate 32 z))"
  by (simp add: no_numbers_def UINT_BITS_def)

lemma worker_tree:
  assumes "0 < workers" "samples + workers \<le> LONG_MAX" "samples \<le> workers * (2 ^ k - 1)" "k \<le> 32"
  obtains t where "leaves t = mset_set (turns (int offset) samples workers)" and "rounds t \<le> k"
    and "\<And>A writable. length (worker_file offset) < 12 \<Longrightarrow> writable (worker_file offset) \<Longrightarrow>
      worker_child A writable samples workers offset = Ok (worker_file offset, value_of A samples t)"
proof -
  obtain n ts where run: "worker_loop Plus Sample (int offset) samples workers (of_nat 0, replicate 32 Zero) = Ok (of_nat n, ts)"
    and c: "counts k 0 ({#} + mset_set (turns (int offset) samples workers)) n ts"
    using worker_loop_counts [OF assms(1,2) counts_start [OF assms(4)], of "int offset"] assms(3) by auto
  let ?t = "sum_up Plus Zero (of_nat n, ts)"
  have len: "length ts = UINT_BITS" using c by (simp add: counts_def UINT_BITS_def)
  have child: "worker_child A writable samples workers offset = Ok (worker_file offset, value_of A samples ?t)"
    if "length (worker_file offset) < 12" "writable (worker_file offset)" for A :: "'a arith" and writable
    using that tree.worker_loop_image [OF run, of A samples] tree.sum_up_image [OF len, of A samples Zero]
    by (simp add: worker_child_def file_name_def no_numbers_image [of "value_of A samples" Zero, simplified])
  show thesis
    using that [OF _ _ child] counts_sum [OF c] by simp
qed

section \<open>The files\<close>

lemma worker_file_fits:
  assumes "offset < 999999"
  shows "length (worker_file offset) < 12"
  using show_nat_length [of "offset + 1" 6] assms by (simp add: worker_file_def)

lemma worker_file_eq [simp]: "worker_file a = worker_file b \<longleftrightarrow> a = b"
proof
  assume "worker_file a = worker_file b"
  then have "show_nat (a + 1) = show_nat (b + 1)" by (simp add: worker_file_def)
  then show "a = b" by (metis digits_show_nat add_right_cancel of_nat_eq_iff)
qed simp

lemma write_all_lookup:
  "r < m \<Longrightarrow> write_all old (map (\<lambda>r. Ok (worker_file r, res r)) [0..<m]) (worker_file r) = Some (res r)"
  unfolding write_all_def by (induction m) (auto simp: less_Suc_eq)

text \<open>Each sample is a turn of one worker.\<close>

lemma turns_partition:
  assumes "0 < workers"
  shows "(\<Sum>r<nat workers. mset_set (turns (int r) samples workers)) = mset [0..samples - 1]"
proof (rule multiset_eqI)
  fix x
  have turn: "x \<in> turns (int r) samples workers \<longleftrightarrow> r = nat (x mod workers) \<and> 0 \<le> x \<and> x < samples"
    if "r < nat workers" for r
  proof -
    have "workers dvd x - int r \<longleftrightarrow> x mod workers = int r"
      using that by (simp add: mod_eq_dvd_iff [symmetric])
    moreover have "x mod workers \<le> x" if "0 \<le> x" using that assms by (simp add: zmod_le_nonneg_dividend)
    ultimately show ?thesis using that assms by (auto simp: turns_def)
  qed
  have "count (\<Sum>r<nat workers. mset_set (turns (int r) samples workers)) x =
      (\<Sum>r<nat workers. if r = nat (x mod workers) then (if 0 \<le> x \<and> x < samples then 1 else 0) else 0)"
    unfolding count_sum by (rule sum.cong) (auto simp: turn count_mset_set')
  also have "\<dots> = (if 0 \<le> x \<and> x < samples then 1 else 0)"
    using assms by (simp add: sum.delta' nat_less_eq_zless)
  also have "\<dots> = count (mset [0..samples - 1]) x"
    using mset_set_set [of "[0..samples - 1]"] by (auto simp: count_mset_set' simp flip: mset_set_set)
  finally show "count (\<Sum>r<nat workers. mset_set (turns (int r) samples workers)) x = count (mset [0..samples - 1]) x" .
qed

section \<open>The parent\<close>

lemma collect_reads:
  assumes "\<And>r. r \<in> set rs \<Longrightarrow> r < 999999 \<and> files (worker_file r) = Some (res r)"
  shows "rfold (collect_step A files) c rs = rfold (\<lambda>c r. add_number (ar_add A) (res r) c) c rs"
  using assms
proof (induction rs arbitrary: c)
  case (Cons r rs)
  then have "collect_step A files c r = add_number (ar_add A) (res r) c"
    using worker_file_fits [of r] by (simp add: collect_step_def file_name_def)
  then show ?case using Cons by simp
qed simp

lemma collect_counts:
  assumes "workers < 2 ^ j" "j \<le> 32" and trees: "\<And>r. r < workers \<Longrightarrow> rounds (t r) \<le> k"
  shows "\<exists>ts. rfold (\<lambda>c r. add_number Plus (t r) c) (0, replicate 32 Zero) [0..<workers] = Ok (of_nat workers, ts) \<and>
    counts j k (\<Sum>r<workers. leaves (t r)) workers ts"
proof -
  let ?P = "\<lambda>r c. \<exists>ts. c = (of_nat r :: u32, ts) \<and> counts j k (\<Sum>r<r. leaves (t r)) r ts"
  have "\<exists>c. rfold (\<lambda>c r. add_number Plus (t r) c) (0, replicate 32 Zero) [0..<workers] = Ok c \<and> ?P workers c"
  proof (rule rfold_upt)
    fix r c assume r: "0 \<le> r" "r < workers" and "?P r c"
    then obtain ts where c: "c = (of_nat r, ts)" "counts j k (\<Sum>r<r. leaves (t r)) r ts" by blast
    have "Suc r < 2 ^ j" using r assms(1) by linarith
    then obtain ts' where "add_number Plus (t r) (of_nat r, ts) = Ok (of_nat (Suc r), ts')"
      "counts j k ((\<Sum>r<r. leaves (t r)) + leaves (t r)) (Suc r) ts'"
      using counts_add [OF c(2), of "t r"] trees [OF r(2)] by metis
    then show "\<exists>c'. add_number Plus (t r) c = Ok c' \<and> ?P (Suc r) c'" using c(1) by auto
  next
    show "?P 0 (0, replicate 32 Zero)" using counts_start [OF assms(2), of k] by simp
  qed simp
  then show ?thesis by blast
qed

text \<open>The whole program, for arguments that its counters have room for.\<close>

lemma integrate_main_tree:
  assumes args: "parse_arg a = Some samples" "parse_arg b = Some workers"
    and range: "1 < samples" "0 < workers" "workers \<le> 999999" "samples \<le> workers * (2 ^ k - 1)" "k \<le> 32"
      "workers < 2 ^ j"
    and writable: "\<forall>r<nat workers. writable (worker_file r)"
  shows "\<exists>t. leaves t = mset [0..samples - 1] \<and> rounds t \<le> k + j \<and> (\<forall>(A :: 'd arith) old.
    integrate_main A writable old [prog, a, b] =
      Ok (0, Some (ar_div A (value_of A samples t) (ar_num A samples))))"
proof -
  have "workers * (2 ^ k - 1) \<le> 999999 * (2 ^ 32 - 1)"
    using range(2,3,5) by (intro mult_mono diff_right_mono power_increasing) auto
  then have long: "samples + workers \<le> LONG_MAX" using range(3,4) by (simp add: LONG_MAX_def)
  have "\<exists>t. leaves t = mset_set (turns (int r) samples workers) \<and> rounds t \<le> k \<and>
      (\<forall>A :: 'd arith. r < nat workers \<longrightarrow> worker_child A writable samples workers r = Ok (worker_file r, value_of A samples t))"
    for r
  proof (rule worker_tree [OF range(2) long range(4,5), of r], intro exI conjI allI impI)
    fix t and A :: "'d arith"
    assume "r < nat workers" and child: "\<And>(A :: 'd arith) writable. length (worker_file r) < 12 \<Longrightarrow>
      writable (worker_file r) \<Longrightarrow> worker_child A writable samples workers r = Ok (worker_file r, value_of A samples t)"
    then have "r < 999999" "writable (worker_file r)" using range(3) writable by auto
    then show "worker_child A writable samples workers r = Ok (worker_file r, value_of A samples t)"
      by (intro child worker_file_fits)
  qed
  then obtain t where t: "\<And>r. leaves (t r) = mset_set (turns (int r) samples workers)" "\<And>r. rounds (t r) \<le> k"
    "\<And>r (A :: 'd arith). r < nat workers \<Longrightarrow> worker_child A writable samples workers r = Ok (worker_file r, value_of A samples (t r))"
    by metis
  define J where "J = min j 20"
  have J: "nat workers < 2 ^ J" "J \<le> 32" "J \<le> j" "nat workers \<le> 999999"
    using range(2,3,6) by (auto simp: J_def min_def nat_less_iff)
  obtain ts where ts: "rfold (\<lambda>c r. add_number Plus (t r) c) (0, replicate 32 Zero) [0..<nat workers] = Ok (of_nat (nat workers), ts)"
    "counts J k (\<Sum>r<nat workers. leaves (t r)) (nat workers) ts"
    using collect_counts [of "nat workers" J t k, OF J(1,2) t(2)] by blast
  let ?T = "sum_up Plus Zero (of_nat (nat workers), ts)"
  have len: "length ts = UINT_BITS" using ts(2) by (simp add: counts_def UINT_BITS_def)
  have main: "integrate_main A writable old [prog, a, b] = Ok (0, Some (ar_div A (value_of A samples ?T) (ar_num A samples)))"
    for A :: "'d arith" and old
  proof -
    let ?res = "\<lambda>r. value_of A samples (t r)"
    let ?ends = "map (\<lambda>r. Ok (worker_file r, ?res r)) [0..<nat workers]"
    have ends: "map (worker_child A writable samples workers) [0..<nat workers] = ?ends" by (simp add: t(3))
    have ok: "Err Undef_Behaviour \<notin> set ?ends" "\<not> (\<exists>r \<in> set ?ends. case r of Inl _ \<Rightarrow> True | Inr _ \<Rightarrow> False)" by auto
    have "rfold (collect_step A (write_all old ?ends)) (no_numbers (ar_num A 0)) [0..<nat workers] =
        Ok (of_nat (nat workers), map (value_of A samples) ts)"
      using tree.add_all_image [OF ts(1), of A samples] J(4) no_numbers_image [of "value_of A samples" Zero]
      by (subst collect_reads [where res = ?res]) (auto intro: write_all_lookup)
    moreover have "\<not> length [prog, a, b] \<noteq> 3" "[prog, a, b] ! 1 = a" "[prog, a, b] ! 2 = b"
      "\<not> (samples \<le> 1 \<or> workers \<le> 0)" using range(1,2) by simp_all
    ultimately show ?thesis
      using tree.sum_up_image [OF len, of A samples Zero]
      by (simp only: integrate_main_def ends Let_def ok args option.case prod.case
        if_False rbind_Inr value_of.simps)
  qed
  have "leaves ?T = mset [0..samples - 1]"
    using counts_sum(1) [OF ts(2)] turns_partition [OF range(2)] t(1) by simp
  moreover have "rounds ?T \<le> k + j" using counts_sum(2) [OF ts(2)] J(3) by linarith
  ultimately show ?thesis using main by blast
qed

end
