(* ===== verification/Integrate_Run.thy ===== *)
theory Integrate_Run
  imports Integrate_Props
begin

text \<open>
  The properties of the numerical integration: the tree of its additions, the error of a
  rounding arithmetic, what it computes without rounding, and the arguments it cannot handle.
\<close>

section \<open>Rounding\<close>

definition sample_sum :: "real arith \<Rightarrow> int \<Rightarrow> real" where
  "sample_sum A samples = (\<Sum>s\<in>{0..<samples}. sample_value A samples s)"

lemma sum_leaves:
  assumes "leaves t = mset [0..samples - 1]"
  shows "(\<Sum>s\<in>#leaves t. f s) = (\<Sum>s\<in>{0..<samples}. f s)"
proof -
  have "(\<Sum>s\<in>#leaves t. f s) = sum_list (map f [0..samples - 1])"
    unfolding assms by (metis mset_map sum_mset_sum_list)
  also have "\<dots> = sum f (set [0..samples - 1])" by (rule sum_list_distinct_conv_sum_set) simp
  also have "set [0..samples - 1] = {0..<samples}" by auto
  finally show ?thesis .
qed

lemma sum_leaves_nonneg: "\<forall>s \<in># M. 0 \<le> f s \<Longrightarrow> (0 :: real) \<le> (\<Sum>s\<in>#M. f s)"
  by (induction M) auto

text \<open>A tree that rounds up to \<open>n\<close> times is off by up to \<open>n\<close> relative errors.\<close>

lemma value_of_bounds:
  fixes A :: "real arith"
  assumes u: "0 \<le> u" "u \<le> 1" and zero: "ar_num A 0 = 0"
    and round: "\<And>x y. 0 \<le> x \<Longrightarrow> 0 \<le> y \<Longrightarrow> x + y \<le> limit \<Longrightarrow>
      (1 - u) * (x + y) \<le> ar_add A x y \<and> ar_add A x y \<le> (1 + u) * (x + y)"
  shows "rounds t \<le> n \<Longrightarrow> \<forall>s \<in># leaves t. 0 \<le> sample_value A samples s \<Longrightarrow>
    (1 + u) ^ n * (\<Sum>s\<in>#leaves t. sample_value A samples s) \<le> limit \<Longrightarrow>
    0 \<le> (\<Sum>s\<in>#leaves t. sample_value A samples s) \<and>
    (1 - u) ^ n * (\<Sum>s\<in>#leaves t. sample_value A samples s) \<le> value_of A samples t \<and>
    value_of A samples t \<le> (1 + u) ^ n * (\<Sum>s\<in>#leaves t. sample_value A samples s)"
proof (induction t arbitrary: n)
  case Zero
  then show ?case using zero by simp
next
  case (Sample s)
  then have "(1 - u) ^ n \<le> 1" "1 \<le> (1 + u) ^ n" "0 \<le> sample_value A samples s"
    using u by (simp_all add: power_le_one)
  then show ?case
    using u mult_right_mono [of "(1 - u) ^ n" 1 "sample_value A samples s"]
      mult_right_mono [of 1 "(1 + u) ^ n" "sample_value A samples s"] by simp
next
  case (Plus a b)
  let ?v = "value_of A samples" and ?S = "\<lambda>t. \<Sum>s\<in>#leaves t. sample_value A samples s"
  from Plus.prems(1) obtain m where n: "n = Suc m" by (cases n) auto
  have S: "0 \<le> ?S a" "0 \<le> ?S b"
    using Plus.prems(2) by (simp_all add: sum_leaves_nonneg)
  have grow: "(1 + u) ^ m * (?S a + ?S b) \<le> (1 + u) ^ n * (?S a + ?S b)"
    using u S by (intro mult_right_mono power_increasing) (auto simp: n)
  then have lim: "(1 + u) ^ m * ?S a + (1 + u) ^ m * ?S b \<le> limit"
    using Plus.prems(3) by (simp add: algebra_simps)
  have "0 \<le> (1 + u) ^ m * ?S a" "0 \<le> (1 + u) ^ m * ?S b" using u S by simp_all
  then have part: "(1 + u) ^ m * ?S a \<le> limit" "(1 + u) ^ m * ?S b \<le> limit" using lim by linarith+
  have a: "0 \<le> ?S a" "(1 - u) ^ m * ?S a \<le> ?v a" "?v a \<le> (1 + u) ^ m * ?S a"
    and b: "0 \<le> ?S b" "(1 - u) ^ m * ?S b \<le> ?v b" "?v b \<le> (1 + u) ^ m * ?S b"
    using Plus.IH [of m] Plus.prems n part by simp_all
  have "0 \<le> (1 - u) ^ m * ?S a" "0 \<le> (1 - u) ^ m * ?S b" using u a(1) b(1) by simp_all
  then have pos: "0 \<le> ?v a" "0 \<le> ?v b" using a(2) b(2) by linarith+
  have "(1 - u) * ((1 - u) ^ m * ?S a + (1 - u) ^ m * ?S b) \<le> (1 - u) * (?v a + ?v b)"
    using u a(2) b(2) by (intro mult_left_mono) auto
  moreover have "(1 + u) * (?v a + ?v b) \<le> (1 + u) * ((1 + u) ^ m * ?S a + (1 + u) ^ m * ?S b)"
    using u a(3) b(3) by (intro mult_left_mono) auto
  ultimately show ?case using round [OF pos] lim a(3) b(3) a(1) b(1) by (simp add: n algebra_simps)
qed

section \<open>The area under the function\<close>

definition reals :: "real arith" where
  "reals = \<lparr>ar_add = (+), ar_sub = (-), ar_mul = (*), ar_div = (/), ar_num = of_int\<rparr>"

lemma func_reals: "func reals x = 4 / (1 + x ^ 2)"
  by (simp add: func_def reals_def power2_eq_square add.commute)

text \<open>A step of the integral lies between the values at its ends.\<close>

lemma arctan_step:
  assumes "0 \<le> a" "a < b"
  shows "(b - a) * func reals b \<le> 4 * arctan b - 4 * arctan a"
    and "4 * arctan b - 4 * arctan a \<le> (b - a) * func reals a"
proof -
  obtain z where z: "a < z" "z < b" "arctan b - arctan a = (b - a) * inverse (1 + z ^ 2)"
    using MVT2 [OF assms(2), of arctan "\<lambda>x. inverse (1 + x ^ 2)"] DERIV_arctan by blast
  have "a ^ 2 \<le> z ^ 2" "z ^ 2 \<le> b ^ 2" using z(1,2) assms(1) by (auto intro: power_mono)
  then have "func reals b \<le> 4 * inverse (1 + z ^ 2)" "4 * inverse (1 + z ^ 2) \<le> func reals a"
    by (simp_all add: func_reals divide_inverse le_imp_inverse_le add_pos_nonneg)
  then have "(b - a) * func reals b \<le> (b - a) * (4 * inverse (1 + z ^ 2))"
    "(b - a) * (4 * inverse (1 + z ^ 2)) \<le> (b - a) * func reals a"
    using assms(2) by (simp_all only: mult_left_mono [OF _ less_imp_le] diff_gt_0_iff_gt)
  then show "(b - a) * func reals b \<le> 4 * arctan b - 4 * arctan a"
    "4 * arctan b - 4 * arctan a \<le> (b - a) * func reals a"
    using z(3) by (simp_all add: algebra_simps)
qed

text \<open>Over \<open>m\<close> steps of width \<open>1 / d\<close>.\<close>

lemma arctan_steps:
  assumes "0 < d"
  shows "(\<Sum>s<m. func reals (real (Suc s) / d)) \<le> d * (4 * arctan (real m / d))"
    and "d * (4 * arctan (real m / d)) \<le> (\<Sum>s<m. func reals (real s / d))"
proof (induction m)
  case (Suc m)
  have step: "real m / d < real (Suc m) / d" "0 \<le> real m / d" "real (Suc m) / d - real m / d = 1 / d"
    using assms by (simp_all add: divide_strict_right_mono diff_divide_distrib [symmetric])
  note s = arctan_step [OF step(2,1), unfolded step(3)]
  {
    case 1
    have "func reals (real (Suc m) / d) \<le> d * (4 * arctan (real (Suc m) / d) - 4 * arctan (real m / d))"
      using s(1) assms by (simp add: pos_divide_le_eq mult.commute)
    then show ?case using Suc.IH(1) by (simp add: algebra_simps del: of_nat_Suc)
  next
    case 2
    have "d * (4 * arctan (real (Suc m) / d) - 4 * arctan (real m / d)) \<le> func reals (real m / d)"
      using s(2) assms by (simp add: pos_le_divide_eq mult.commute)
    then show ?case using Suc.IH(2) by (simp add: algebra_simps del: of_nat_Suc)
  }
qed simp_all

text \<open>The sum over \<open>m + 1\<close> samples, both ends of the interval among them.\<close>

lemma sample_sum_reals:
  assumes "0 < m"
  shows "real m * pi + 2 \<le> sample_sum reals (int m + 1)" and "sample_sum reals (int m + 1) \<le> real m * pi + 4"
proof -
  let ?f = "\<lambda>s. func reals (real s / real m)"
  have "sample_sum reals (int m + 1) = (\<Sum>s\<in>{0..<int m + 1}. ?f (nat s))"
    unfolding sample_sum_def by (rule sum.cong) (simp_all add: sample_value_def reals_def)
  also have "\<dots> = (\<Sum>s<Suc m. ?f s)"
    by (rule sum.reindex_bij_witness [of _ int nat]) auto
  finally have sum: "sample_sum reals (int m + 1) = (\<Sum>s<Suc m. ?f s)" .
  have ends: "?f 0 = 4" "?f m = 2" using assms by (simp_all add: func_reals)
  have pi: "4 * arctan (real m / real m) = pi" using assms by (simp add: arctan_one)
  have m: "0 < real m" using assms by simp
  show "real m * pi + 2 \<le> sample_sum reals (int m + 1)"
    using arctan_steps(2) [OF m, of m] unfolding sum sum.lessThan_Suc ends pi by simp
  show "sample_sum reals (int m + 1) \<le> real m * pi + 4"
    using arctan_steps(1) [OF m, of m] unfolding sum sum.lessThan_Suc_shift ends pi by simp
qed

lemma value_of_reals: "value_of reals samples t = (\<Sum>s\<in>#leaves t. sample_value reals samples s)"
  by (induction t) (simp_all add: reals_def)

section \<open>Arguments out of range\<close>

text \<open>A worker whose counter runs over has an index out of bounds.\<close>

lemma worker_loop_overflow:
  assumes "0 < workers"
  shows "n < 2 ^ 32 \<Longrightarrow> length acc = 32 \<Longrightarrow> s + workers * (2 ^ 32 - 1 - int n) < samples \<Longrightarrow>
    worker_loop add f s samples workers (of_nat n, acc) = Err Undef_Behaviour"
proof (induction "nat (samples - s)" arbitrary: s n acc rule: less_induct)
  case less
  have "0 \<le> workers * (2 ^ 32 - 1 - int n)" using less.prems(1) assms by simp
  then have s: "s < samples" using less.prems(3) by linarith
  have step: "(of_nat n + 1 :: u32) = of_nat (Suc n)" by simp
  show ?case
  proof (cases "Suc n = 2 ^ 32")
    case True
    then have "(of_nat n + 1 :: u32) = 0" unfolding step by (simp only:) simp
    then have "add_number add (f s) (of_nat n, acc) = Err Undef_Behaviour"
      using less.prems(2) by (simp add: add_number_def ctz_def UINT_BITS_def)
    then show ?thesis using s assms by (subst worker_loop.simps) simp
  next
    case False
    then have "Suc n < 2 ^ 32" using less.prems(1) by simp
    then obtain b q where b: "ctz (of_nat (Suc n)) = b" "b < 32" by (rule ctz_carry)
    obtain acc' where acc': "add_number add (f s) (of_nat n, acc) = Ok (of_nat (Suc n), acc')" "length acc' = 32"
      using b less.prems(2) unfolding add_number_def prod.case Let_def step by (simp del: of_nat_Suc)
    have "s + workers + workers * (2 ^ 32 - 1 - int (Suc n)) < samples"
      using less.prems(3) by (simp add: algebra_simps)
    then have "worker_loop add f (s + workers) samples workers (of_nat (Suc n), acc') = Err Undef_Behaviour"
      using less.hyps [OF _ _ acc'(2), of "s + workers" "Suc n"] \<open>Suc n < 2 ^ 32\<close> s assms by simp
    then show ?thesis
      using s assms acc'(1) by (subst worker_loop.simps) (simp del: of_nat_Suc)
  qed
qed

lemma worker_loop_error:
  "worker_loop add f s samples workers c = Err e \<Longrightarrow> e = Undef_Behaviour"
proof (induction "nat (samples - s)" arbitrary: s c rule: less_induct)
  case less
  have "add_number add v c = Err e' \<Longrightarrow> e' = Undef_Behaviour" for v e'
    by (cases c) (auto simp: add_number_def Let_def split: if_splits)
  with less.prems less.hyps [of "s + workers"] show ?case
    unfolding worker_loop.simps [where s = s] by (auto simp: rbind_eq_Inl split: if_splits)
qed

lemma worker_child_long_name:
  "12 \<le> length (worker_file offset) \<Longrightarrow> worker_child A writable samples workers offset = Err Undef_Behaviour"
  unfolding worker_child_def
  by (cases "worker_loop (ar_add A) (sample_value A samples) (int offset) samples workers (no_numbers (ar_num A 0))")
    (auto simp: file_name_def dest: worker_loop_error)

lemma integrate_main_undefined:
  assumes "parse_arg a = Some samples" "parse_arg b = Some workers" "1 < samples" "0 < workers"
    and "r < nat workers" "worker_child A writable samples workers r = Err Undef_Behaviour"
  shows "integrate_main A writable old [prog, a, b] = Err Undef_Behaviour"
proof -
  have "Err Undef_Behaviour \<in> set (map (worker_child A writable samples workers) [0..<nat workers])"
    using assms(5,6) by force
  then show ?thesis using assms(1-4) by (simp add: integrate_main_def Let_def)
qed

section \<open>Properties\<close>

text \<open>The arguments and the files of the witnesses: three samples for two workers.\<close>

lemma small_args: "parse_arg ''3'' = Some 3" "parse_arg ''2'' = Some 2"
  by code_simp+

text \<open>
  C21: Pairwise summation. For arguments in range and any number of worker processes, the
  program prints a sum over the samples, each of which occurs in it exactly once, divided by
  their number; no sample goes through more than \<open>k + j\<close> roundings when a worker has less than
  \<open>2 ^ k\<close> samples and there are less than \<open>2 ^ j\<close> workers, whatever the arithmetic.
\<close>

theorem integrate_pairwise:
  assumes "parse_arg a = Some samples" "parse_arg b = Some workers"
    and "1 < samples" "0 < workers" "workers \<le> 999999"
    and "samples \<le> workers * (2 ^ k - 1)" "k \<le> 32" "workers < 2 ^ j"
    and "\<forall>r<nat workers. writable (worker_file r)"
  shows "\<exists>t. leaves t = mset [0..samples - 1] \<and> rounds t \<le> k + j \<and>
    (\<forall>A old. integrate_main A writable old [prog, a, b] =
      Ok (0, Some (ar_div A (value_of A samples t) (ar_num A samples))))"
  using integrate_main_tree [OF assms] .

theorem integrate_pairwise_witness:
  "\<exists>t. leaves t = mset [0..3 - 1] \<and> rounds t \<le> 2 + 2 \<and>
    (\<forall>(A :: int arith) old. integrate_main A (\<lambda>_. True) old [''main'', ''3'', ''2''] =
      Ok (0, Some (ar_div A (value_of A 3 t) (ar_num A 3))))"
  by (rule integrate_pairwise [where workers = 2]) (simp_all add: small_args)

text \<open>
  C22: Rounding. When the additions of the arithmetic are off by at most the relative error \<open>u\<close>
  up to some limit, as the additions of doubles are, the sum that the program divides by the number of samples
  differs from the sum of the computed samples by at most \<open>k + j\<close> such errors.
\<close>

theorem integrate_rounding:
  fixes A :: "real arith"
  assumes "parse_arg a = Some samples" "parse_arg b = Some workers"
    and "1 < samples" "0 < workers" "workers \<le> 999999"
    and "samples \<le> workers * (2 ^ k - 1)" "k \<le> 32" "workers < 2 ^ j"
    and "\<forall>r<nat workers. writable (worker_file r)"
    and "0 \<le> u" "u \<le> 1" "ar_num A 0 = 0"
    and "\<And>x y. 0 \<le> x \<Longrightarrow> 0 \<le> y \<Longrightarrow> x + y \<le> limit \<Longrightarrow>
      (1 - u) * (x + y) \<le> ar_add A x y \<and> ar_add A x y \<le> (1 + u) * (x + y)"
    and "\<And>s. 0 \<le> s \<Longrightarrow> s < samples \<Longrightarrow> 0 \<le> sample_value A samples s"
    and "(1 + u) ^ (k + j) * sample_sum A samples \<le> limit"
  shows "\<exists>v. integrate_main A writable old [prog, a, b] = Ok (0, Some (ar_div A v (ar_num A samples))) \<and>
    (1 - u) ^ (k + j) * sample_sum A samples \<le> v \<and> v \<le> (1 + u) ^ (k + j) * sample_sum A samples"
proof -
  obtain t where t: "leaves t = mset [0..samples - 1]" "rounds t \<le> k + j"
    "integrate_main A writable old [prog, a, b] = Ok (0, Some (ar_div A (value_of A samples t) (ar_num A samples)))"
    using integrate_main_tree [OF assms(1-9)] by metis
  have "\<forall>s \<in># leaves t. 0 \<le> sample_value A samples s" using assms(14) by (simp add: t(1))
  moreover have "(1 + u) ^ (k + j) * (\<Sum>s\<in>#leaves t. sample_value A samples s) \<le> limit"
    using assms(15) by (simp add: sum_leaves [OF t(1)] sample_sum_def)
  ultimately show ?thesis
    using value_of_bounds [OF assms(10-13) t(2)] t(3) by (auto simp: sum_leaves [OF t(1)] sample_sum_def)
qed

theorem integrate_rounding_witness:
  "\<exists>v. integrate_main (reals\<lparr>ar_add := \<lambda>x y. (x + y) * (7 / 8)\<rparr>) (\<lambda>_. True) Map.empty [''main'', ''3'', ''2''] =
      Ok (0, Some (v / 3)) \<and> v \<le> (9 / 8) ^ 4 * sample_sum (reals\<lparr>ar_add := \<lambda>x y. (x + y) * (7 / 8)\<rparr>) 3"
  using integrate_rounding [where A = "reals\<lparr>ar_add := \<lambda>x y. (x + y) * (7 / 8)\<rparr>" and a = "''3''" and b = "''2''"
    and samples = 3 and workers = 2 and k = 2 and j = 2 and writable = "\<lambda>_. True" and u = "1 / 8"
    and limit = "(9 / 8) ^ 4 * sample_sum (reals\<lparr>ar_add := \<lambda>x y. (x + y) * (7 / 8)\<rparr>) 3" and prog = "''main''"
    and old = Map.empty]
  by (simp add: small_args reals_def sample_value_def func_def field_simps) blast

text \<open>
  C20: Without rounding the program computes an approximation of pi, as the area under
  \<open>4 / (1 + x\<^sup>2)\<close>: the result is too small by at most \<open>(pi - 2) / samples\<close> and too big by at most
  \<open>(4 - pi) / samples\<close>, for any number of workers.
\<close>

theorem integrate_approximates_pi:
  assumes "parse_arg a = Some samples" "parse_arg b = Some workers"
    and "1 < samples" "0 < workers" "workers \<le> 999999" "samples \<le> workers * (2 ^ 32 - 1)"
    and "\<forall>r<nat workers. writable (worker_file r)"
  shows "\<exists>v. integrate_main reals writable old [prog, a, b] = Ok (0, Some v) \<and>
    pi - (pi - 2) / samples \<le> v \<and> v \<le> pi + (4 - pi) / samples"
proof -
  obtain t where t: "leaves t = mset [0..samples - 1]"
    "integrate_main reals writable old [prog, a, b] = Ok (0, Some (ar_div reals (value_of reals samples t) (ar_num reals samples)))"
    using integrate_main_tree [OF assms(1-6) order_refl _ assms(7), of 20] assms(5) by fastforce
  define m where "m = nat (samples - 1)"
  have m: "0 < m" "samples = int m + 1" using assms(3) by (simp_all add: m_def)
  have "value_of reals samples t = sample_sum reals samples"
    by (simp add: value_of_reals sum_leaves [OF t(1)] sample_sum_def)
  then have "integrate_main reals writable old [prog, a, b] = Ok (0, Some (sample_sum reals samples / samples))"
    using t(2) by (simp add: reals_def)
  moreover have "pi - (pi - 2) / samples = (real m * pi + 2) / samples"
    "pi + (4 - pi) / samples = (real m * pi + 4) / samples"
    using m(2) by (simp_all add: field_simps)
  then have "pi - (pi - 2) / samples \<le> sample_sum reals samples / samples"
    "sample_sum reals samples / samples \<le> pi + (4 - pi) / samples"
    using sample_sum_reals [OF m(1)] m(2) by (simp_all add: divide_right_mono)
  ultimately show ?thesis by blast
qed

theorem integrate_approximates_pi_witness:
  "\<exists>v. integrate_main reals (\<lambda>_. True) Map.empty [''main'', ''3'', ''2''] = Ok (0, Some v) \<and>
    pi - (pi - 2) / 3 \<le> v \<and> v \<le> pi + (4 - pi) / 3"
  using integrate_approximates_pi [OF small_args, of "\<lambda>_. True"] by simp

text \<open>
  The arguments that those properties leave out are not handled: with more than 999999
  workers a file name does not fit its buffer, and a worker with \<open>2 ^ 32\<close> samples or more
  writes behind the array of partial sums.
\<close>

theorem integrate_out_of_range:
  assumes "parse_arg a = Some samples" "parse_arg b = Some workers" "1 < samples" "0 < workers"
    and "999999 < workers \<or> workers * (2 ^ 32 - 1) < samples"
  shows "integrate_main A writable old [prog, a, b] = Err Undef_Behaviour"
  using assms(5)
proof
  assume "999999 < workers"
  moreover have "length (worker_file 999999) = 12" by (simp add: worker_file_def show_nat.simps)
  ultimately show ?thesis
    by (intro integrate_main_undefined [OF assms(1-4), of 999999] worker_child_long_name) auto
next
  assume "workers * (2 ^ 32 - 1) < samples"
  then have "worker_loop (ar_add A) (sample_value A samples) (int 0) samples workers (no_numbers (ar_num A 0)) = Err Undef_Behaviour"
    using worker_loop_overflow [OF assms(4), of 0 "replicate 32 (ar_num A 0)" 0] by (simp add: no_numbers_def UINT_BITS_def)
  then show ?thesis
    using assms(4) by (intro integrate_main_undefined [OF assms(1-4), of 0]) (simp_all add: worker_child_def)
qed

theorem integrate_out_of_range_witness:
  "integrate_main reals (\<lambda>_. True) Map.empty [''main'', ''3'', ''1000000''] = Err Undef_Behaviour"
proof (rule integrate_out_of_range [where samples = 3 and workers = 1000000])
  show "parse_arg ''1000000'' = Some 1000000" by code_simp
qed (simp_all add: small_args)

end
