(* ===== verification/Mail.thy ===== *)
theory Mail
  imports Libwc
begin

text \<open>
  The mail front end of \<open>lab5/zad2/main.c\<close>: with one argument it lists the messages, sorted, and
  with three it sends a message, in both cases through commands started with \<open>popen\<close>. The
  commands themselves belong to the host, a record of functions. A string is what is between
  the pointer and the NUL byte.
\<close>

text \<open>
  Which commands start and close (\<open>pclose\<close> does not return -1), which pieces of text
  \<open>fwrite\<close> takes as a whole, and the blocks that \<open>fread\<close> delivers from the listing.
\<close>

record mail_host =
  mh_popen :: "string \<Rightarrow> bool"
  mh_room :: "string \<Rightarrow> bool"
  mh_pclose :: "string \<Rightarrow> bool"
  mh_blocks :: "string list"

text \<open>A command with the text that was written to it.\<close>

type_synonym sent_text = "string \<times> string"

text \<open>\<open>fwrite(s, len, 1, f)\<close> returns the number of items written; for items of size 0 it is 0.\<close>

definition fwrite1 :: "mail_host \<Rightarrow> string \<Rightarrow> nat" where
  "fwrite1 h s = (if s \<noteq> [] \<and> mh_room h s then 1 else 0)"

text \<open>A sequence of \<open>TRYWRITE\<close>: what has been written, and whether all of it was.\<close>

fun try_writes :: "mail_host \<Rightarrow> string \<Rightarrow> string list \<Rightarrow> string \<times> bool" where
  "try_writes h text [] = (text, True)"
| "try_writes h text (s # ss) = (if fwrite1 h s \<le> 0 then (text, False) else try_writes h (text @ s) ss)"

section \<open>Listing\<close>

definition mail_lister :: string where
  "mail_lister = ''mail -H | cut -c3-''"

definition sort_command :: "bool \<Rightarrow> string" where
  "sort_command by_author = (if by_author then ''sort -k2,2'' else ''cat'')"

definition mail_headers :: "mail_host \<Rightarrow> bool \<Rightarrow> int \<times> sent_text option" where
  "mail_headers h by_author =
     (if \<not> mh_popen h mail_lister then (1, None)
      else if \<not> mh_popen h (sort_command by_author) then (1, None)
      else (case try_writes h [] (takeWhile (\<lambda>b. b \<noteq> []) (mh_blocks h)) of (text, ok) \<Rightarrow>
        (if ok \<and> mh_pclose h mail_lister \<and> mh_pclose h (sort_command by_author) then 0 else 1,
         Some (sort_command by_author, text))))"

section \<open>Sending\<close>

definition cmdline_size :: "string \<Rightarrow> nat" where
  "cmdline_size to = length to * 2 + 8"

definition put_quoted :: "string \<times> nat \<Rightarrow> char \<Rightarrow> (string \<times> nat) result" where
  "put_quoted dp c = rbind (put dp (CHR 0x5C)) (\<lambda>dp. put dp c)"

text \<open>The command line; a refused \<open>calloc\<close> is not noticed.\<close>

definition mail_command :: "allocator \<Rightarrow> string \<Rightarrow> string result" where
  "mail_command al to =
     (if \<not> al (cmdline_size to) then Err Undef_Behaviour
      else rbind (rfold put (replicate (cmdline_size to) NUL, 0) ''mail '') (\<lambda>dp.
           rbind (rfold put_quoted dp to) (\<lambda>dp.
           rbind (put dp NUL) (\<lambda>(d, _). Ok (cstr d)))))"

definition mail_compose :: "allocator \<Rightarrow> mail_host \<Rightarrow> string \<Rightarrow> string \<Rightarrow> string \<Rightarrow> (int \<times> sent_text option) result" where
  "mail_compose al h to subject contents =
     rbind (mail_command al to) (\<lambda>cmd. Ok (
       if \<not> mh_popen h cmd then (1, None)
       else (case try_writes h [] [[NL], subject, [NL], contents, [NL]] of (text, ok) \<Rightarrow>
         (if ok \<and> mh_pclose h cmd then 0 else 1, Some (cmd, text)))))"

text \<open>The exit status of \<open>main\<close>, and the command it wrote to.\<close>

definition mail_main :: "allocator \<Rightarrow> mail_host \<Rightarrow> string list \<Rightarrow> (int \<times> sent_text option) result" where
  "mail_main al h argv =
     (if length argv \<noteq> 2 \<and> length argv \<noteq> 4 then Ok (2, None)
      else if length argv = 2
      then (if argv ! 1 = ''date'' then Ok (mail_headers h False)
            else if argv ! 1 = ''author'' then Ok (mail_headers h True)
            else Ok (2, None))
      else rbind (c_assert (length argv = 4)) (\<lambda>_.
           mail_compose al h (argv ! 1) (argv ! 2) (argv ! 3)))"

section \<open>The command line\<close>

definition escaped :: "string \<Rightarrow> string" where
  "escaped s = concat (map (\<lambda>c. [CHR 0x5C, c]) s)"

lemma put_quoted_put: "rfold put_quoted dp s = rfold put dp (escaped s)"
  by (induction s arbitrary: dp) (simp_all add: escaped_def put_quoted_def rbind_assoc)

lemma length_escaped: "length (escaped s) = 2 * length s"
  by (induction s) (simp_all add: escaped_def)

lemma bs_fields_escaped: "bs_fields cur (escaped s) = [cur @ s]"
  by (induction s arbitrary: cur) (simp_all add: escaped_def)

lemma shell_safe_escaped: "shell_safe (escaped s)"
  by (induction s) (simp_all add: escaped_def)

text \<open>The words that the shell makes of the command.\<close>

lemma sh_words_escaped: "sh_words None (''mail '' @ escaped s) = ''mail'' # filter (\<lambda>w. w \<noteq> []) [no_newlines s]"
proof -
  have "sh_words None (''mail '' @ u) = ''mail'' # sh_words None u" for u by (cases u) simp_all
  then show ?thesis
    using sh_words_fields [OF shell_safe_escaped, of "[]" s] by (simp add: bs_fields_escaped)
qed

lemma bs_plain_escaped: "bs_plain (escaped s) = []"
  by (induction s) (simp_all add: escaped_def)

text \<open>The buffer is always long enough.\<close>

lemma mail_command_ok:
  assumes "NUL \<notin> set to"
  shows "mail_command plenty to = Ok (''mail '' @ escaped to)"
proof -
  let ?n = "cmdline_size to" and ?s = "''mail '' @ escaped to"
  have room: "length (?s @ [NUL]) \<le> ?n" by (simp add: length_escaped cmdline_size_def)
  obtain dp where dp: "rfold put (replicate ?n NUL, 0) (?s @ [NUL]) = Ok dp" "filled ?n (?s @ [NUL]) dp"
    using sysbuf.rep_build [of "?s @ [NUL]" ?n] room by (auto simp: map_idI)
  have "cstr (fst dp) = ?s"
    using dp(2) cstr_append_NUL [of ?s] assms by (auto simp: filled_def escaped_def)
  moreover have "mail_command plenty to = rbind (rfold put (replicate ?n NUL, 0) (?s @ [NUL])) (\<lambda>(d, _). Ok (cstr d))"
    by (simp add: mail_command_def put_quoted_put plenty_def rfold_append rbind_assoc)
  ultimately show ?thesis using dp(1) by (cases dp) simp
qed

lemma try_writes_all:
  "(\<forall>s \<in> set ss. s \<noteq> [] \<and> mh_room h s) \<Longrightarrow> try_writes h w ss = (w @ concat ss, True)"
  by (induction ss arbitrary: w) (simp_all add: fwrite1_def)

section \<open>Properties\<close>

text \<open>
  C35: A message with a subject and a text, neither of them empty, is sent as it is, when the command
  starts, takes its input and ends: in the command every character of the recipient is behind a
  backslash, so that the shell makes of it \<open>mail\<close> and one argument, the recipient without its
  newlines (and no argument if nothing is left); the input of the command is an empty line for the
  copies, the subject and the text.
\<close>

theorem mail_sends:
  assumes "NUL \<notin> set to" "subject \<noteq> []" "contents \<noteq> []"
    and "mh_popen h (''mail '' @ escaped to)" "mh_pclose h (''mail '' @ escaped to)"
    and "mh_room h [NL]" "mh_room h subject" "mh_room h contents"
  shows "\<exists>cmd. mail_main plenty h [prog, to, subject, contents] =
      Ok (0, Some (cmd, NL # subject @ [NL] @ contents @ [NL])) \<and>
    cmd = ''mail '' @ escaped to \<and> bs_plain (escaped to) = [] \<and>
    sh_words None cmd = (if no_newlines to = [] then [''mail''] else [''mail'', no_newlines to]) \<and>
    (NL \<notin> set to \<longrightarrow> to \<noteq> [] \<longrightarrow> sh_words None cmd = [''mail'', to])"
proof -
  have "NL \<notin> set to \<Longrightarrow> no_newlines to = to" by (auto simp: no_newlines_def filter_id_conv)
  then show ?thesis
    using assms try_writes_all [of "[[NL], subject, [NL], contents, [NL]]" h "[]"] sh_words_escaped [of to]
    by (simp add: mail_main_def mail_compose_def mail_command_ok bs_plain_escaped del: try_writes.simps)
qed

text \<open>
  An empty subject or text is taken for a write that failed, since \<open>fwrite\<close> returns 0 for an
  item of size 0: the status is 1, but the command has been started and gets the part of the
  message before it.
\<close>

theorem mail_empty_fails:
  assumes "NUL \<notin> set to" "subject = [] \<or> contents = []"
    and "mh_popen h (''mail '' @ escaped to)" "mh_room h [NL]" "subject \<noteq> [] \<Longrightarrow> mh_room h subject"
  shows "mail_main plenty h [prog, to, subject, contents] =
    Ok (1, Some (''mail '' @ escaped to, if subject = [] then [NL] else NL # subject @ [NL]))"
  using assms by (auto simp: mail_main_def mail_compose_def mail_command_ok fwrite1_def)

definition open_host :: mail_host where
  "open_host = \<lparr>mh_popen = \<lambda>_. True, mh_room = \<lambda>_. True, mh_pclose = \<lambda>_. True, mh_blocks = [''N  1 a'', ''b'']\<rparr>"

theorem mail_sends_witness:
  "mail_main plenty open_host [''main'', ''a b'', ''s'', ''t''] =
      Ok (0, Some (''mail '' @ escaped ''a b'', NL # ''s'' @ [NL] @ ''t'' @ [NL])) \<and>
    sh_words None (''mail '' @ escaped ''a b'') = [''mail'', ''a b'']"
  using mail_sends [of "''a b''" "''s''" "''t''" open_host "''main''"] by (simp add: open_host_def)

text \<open>A newline in the recipient is not protected: the shell joins what is before and behind it.\<close>

theorem mail_drops_newline:
  "\<exists>cmd text. mail_main plenty open_host [''main'', ''a'' @ NL # ''b'', ''s'', ''t''] = Ok (0, Some (cmd, text)) \<and>
    sh_words None cmd = [''mail'', ''ab'']"
  by (simp add: mail_main_def mail_compose_def mail_command_ok fwrite1_def open_host_def escaped_def)

theorem mail_empty_fails_witness:
  "mail_main plenty open_host [''main'', ''a@b'', [], ''t''] = Ok (1, Some (''mail '' @ escaped ''a@b'', [NL]))"
  using mail_empty_fails [of "''a@b''" "[]" "''t''" open_host "''main''"] by (simp add: open_host_def)

text \<open>The listing reaches the sorting command complete, wherever the reads cut it.\<close>

lemma mail_lists:
  assumes "\<forall>c. mh_popen h c \<and> mh_pclose h c" "\<forall>s. mh_room h s" "[] \<notin> set (mh_blocks h)"
  shows "mail_main al h [prog, ''author''] = Ok (0, Some (''sort -k2,2'', concat (mh_blocks h)))"
    and "mail_main al h [prog, ''date''] = Ok (0, Some (''cat'', concat (mh_blocks h)))"
proof -
  have all: "takeWhile (\<lambda>b. b \<noteq> []) (mh_blocks h) = mh_blocks h"
    using assms(3) by (auto simp: takeWhile_eq_all_conv)
  have "try_writes h [] (mh_blocks h) = (concat (mh_blocks h), True)"
    using assms(2,3) try_writes_all [of "mh_blocks h" h "[]"] by (metis append_Nil)
  then show "mail_main al h [prog, ''author''] = Ok (0, Some (''sort -k2,2'', concat (mh_blocks h)))"
    "mail_main al h [prog, ''date''] = Ok (0, Some (''cat'', concat (mh_blocks h)))"
    using assms(1) by (simp_all add: mail_main_def mail_headers_def sort_command_def all)
qed

end
