(* ===== verification/Sig_Demo.thy ===== *)
theory Sig_Demo
  imports Decimal
begin

text \<open>
  The demonstrations of signals: \<open>lab4/zad1/main.c\<close> (what a child inherits through \<open>fork\<close> and
  \<open>exec\<close>) and \<open>lab4/zad2/main.c\<close> (the flags of \<open>sigaction\<close>). Both print what happens to
  SIGUSR1. A process has a disposition for it, a mask, and a signal that may be pending.

  A parent that has forked a child waits for it before it prints again, so that the lines of
  all processes come in one order.
\<close>

section \<open>The signal in a process\<close>

datatype disposition = Default | Ignored | Handled | Handled_Info | Handled_Once

record sigproc =
  disp :: disposition
  masked :: bool
  pends :: bool

text \<open>How a process ends, and where a signal comes from.\<close>

datatype ending = Exited int | Killed

datatype sigcode = SI_RAISE | SI_KILL | SI_QUEUE int

text \<open>The lines that are printed.\<close>

datatype line =
    Set_Ignored | Set_Handler | Set_Mask
  | Raising | Queueing | Killing_Self | Killing_Parent
  | Received | Received_Info sigcode
  | Saw_Pending bool
  | Forked | Running
  | Child_End string ending
  | Heading string

text \<open>
  A signal arrives: blocked it stays pending; otherwise it is ignored, handled or kills. A
  handler with \<open>SA_RESETHAND\<close> is the last one.
\<close>

definition deliver :: "sigcode \<Rightarrow> sigproc \<Rightarrow> (sigproc \<times> line list) option" where
  "deliver code p =
     (if masked p then Some (p\<lparr>pends := True\<rparr>, [])
      else (case disp p of
          Default \<Rightarrow> None
        | Ignored \<Rightarrow> Some (p, [])
        | Handled \<Rightarrow> Some (p, [Received])
        | Handled_Info \<Rightarrow> Some (p, [Received_Info code])
        | Handled_Once \<Rightarrow> Some (p\<lparr>disp := Default\<rparr>, [Received])))"

text \<open>\<open>fork\<close> copies disposition and mask, but no pending signal; \<open>exec\<close> forgets the handlers.\<close>

definition forked :: "sigproc \<Rightarrow> sigproc" where
  "forked p = p\<lparr>pends := False\<rparr>"

definition execed :: "sigproc \<Rightarrow> sigproc" where
  "execed p = (if disp p = Default \<or> disp p = Ignored then p else p\<lparr>disp := Default\<rparr>)"

definition fresh :: sigproc where
  "fresh = \<lparr>disp = Default, masked = False, pends = False\<rparr>"

section \<open>Inheritance (\<open>zad1\<close>)\<close>

text \<open>A line is printed with the name of the process, \<open>ischild\<close>.\<close>

type_synonym report = "bool \<times> line"

definition by_proc :: "bool \<Rightarrow> line list \<Rightarrow> report list" where
  "by_proc ischild = List.map (\<lambda>l. (ischild, l))"

text \<open>\<open>raise\<close>: the lines printed, and the process if it survives.\<close>

definition raise_signal :: "sigproc \<Rightarrow> sigproc option \<times> line list" where
  "raise_signal p = (case deliver SI_RAISE p of None \<Rightarrow> (None, []) | Some (p, ls) \<Rightarrow> (Some p, ls))"

definition set_mode :: "int \<Rightarrow> sigproc \<Rightarrow> sigproc \<times> line" where
  "set_mode m p =
     (if m = 0 then (p\<lparr>disp := Ignored\<rparr>, Set_Ignored)
      else if m = 1 then (p\<lparr>disp := Handled\<rparr>, Set_Handler)
      else (p\<lparr>masked := True\<rparr>, Set_Mask))"

definition dopending :: "sigproc \<Rightarrow> line" where
  "dopending p = Saw_Pending (pends p)"

text \<open>
  What the child does after its first line, in both builds: look for a pending signal, or
  raise one. It returns 0 if it survives.
\<close>

definition child_body :: "bool \<Rightarrow> sigproc \<Rightarrow> line list \<times> ending" where
  "child_body look p =
     (if look then ([dopending p], Exited 0)
      else (case raise_signal p of (q, ls) \<Rightarrow> (Raising # ls, if q = None then Killed else Exited 0)))"

datatype demo = FORK | EXEC

text \<open>The child. \<open>execv\<close> returns if it fails, and the child ends with 0.\<close>

definition demo_child :: "demo \<Rightarrow> bool \<Rightarrow> int \<Rightarrow> sigproc \<Rightarrow> line list \<times> ending" where
  "demo_child d exec_works m p = (case d of
     FORK \<Rightarrow> (case child_body (m = 3) p of (ls, e) \<Rightarrow> (Forked # ls, e))
   | EXEC \<Rightarrow> (if exec_works then (case child_body (m = 3) (execed p) of (ls, e) \<Rightarrow> (Running # ls, e))
              else ([], Exited 0)))"

definition demo_mode :: "string \<Rightarrow> int option" where
  "demo_mode str = (if str = [] then None
     else (case strtol10 str of (v, rest, _) \<Rightarrow> if rest \<noteq> [] \<or> v < 0 \<or> 3 < v then None else Some v))"

text \<open>\<open>main\<close>: how it ends and what is printed.\<close>

definition demo_main :: "demo \<Rightarrow> bool \<Rightarrow> string list \<Rightarrow> ending \<times> report list" where
  "demo_main d exec_works argv =
     (case (if length argv \<noteq> 2 then None else demo_mode (argv ! 1)) of
        None \<Rightarrow> (Exited 2, [])
      | Some m \<Rightarrow>
          (case set_mode m fresh of (p, l) \<Rightarrow>
           case raise_signal p of
             (None, ls) \<Rightarrow> (Killed, by_proc False (l # Raising # ls))
           | (Some p, ls) \<Rightarrow>
               (case demo_child d exec_works m (forked p) of (cls, e) \<Rightarrow>
                 (Exited 0, by_proc False (l # Raising # ls @ (if m = 2 then [dopending p] else [])) @
                   by_proc True cls @ by_proc False [Child_End [] e]))))"

section \<open>Flags of \<open>sigaction\<close> (\<open>zad2\<close>)\<close>

text \<open>
  A run of statements each of which prints its own line and then sends SIGUSR1 to the process
  itself; the process may not survive one.
\<close>

fun self_signals :: "(line \<times> sigcode) list \<Rightarrow> sigproc \<Rightarrow> line list \<times> ending" where
  "self_signals [] p = ([], Exited 0)"
| "self_signals ((l, code) # rest) p = (case deliver code p of
     None \<Rightarrow> ([l], Killed)
   | Some (p, ls) \<Rightarrow> (case self_signals rest p of (ls', e) \<Rightarrow> (l # ls @ ls', e)))"

definition do_siginfo :: "line list \<times> ending" where
  "do_siginfo = (case self_signals [(Raising, SI_RAISE), (Queueing, SI_QUEUE 1000000007), (Killing_Self, SI_KILL)]
      (fresh\<lparr>disp := Handled_Info\<rparr>) of (ls, e) \<Rightarrow> (Set_Handler # ls, e))"

definition do_resethand :: "line list \<times> ending" where
  "do_resethand = (case self_signals [(Raising, SI_RAISE), (Raising, SI_RAISE)]
      (fresh\<lparr>disp := Handled_Once\<rparr>) of (ls, e) \<Rightarrow> (Set_Handler # ls, e))"

text \<open>
  A process that waits for \<open>parent_killer\<close>, which signals it and exits. When the signal comes
  during \<open>waitpid\<close>, the call fails with \<open>EINTR\<close> unless it is restarted (\<open>SA_RESTART\<close>), and a
  failing call ends the process with status 1; when the signal comes before, nothing is
  interrupted.
\<close>

definition parent_killer :: "line list \<times> ending" where
  "parent_killer = ([Killing_Parent], Exited 0)"

definition run_killer :: "bool \<Rightarrow> bool \<Rightarrow> sigproc \<Rightarrow> line list \<times> ending" where
  "run_killer restart in_wait p = (case parent_killer of (ls, e) \<Rightarrow>
     (case deliver SI_KILL p of
        None \<Rightarrow> (ls, Killed)
      | Some (p, hs) \<Rightarrow>
          if in_wait \<and> \<not> restart \<and> hs \<noteq> [] then (ls @ hs, Exited 1)
          else (ls @ hs @ [Child_End ''parent_killer'' e], Exited 0)))"

definition do_norestart :: "bool \<Rightarrow> line list \<times> ending" where
  "do_norestart in_wait = (case run_killer False in_wait (fresh\<lparr>disp := Handled\<rparr>) of (ls, e) \<Rightarrow> (Set_Handler # ls, e))"

definition do_restart :: "bool \<Rightarrow> line list \<times> ending" where
  "do_restart in_wait = (case run_killer True in_wait (fresh\<lparr>disp := Handled\<rparr>) of (ls, e) \<Rightarrow> (Set_Handler # ls, e))"

text \<open>\<open>RUN(func)\<close> of \<open>main\<close>, which has no handler itself.\<close>

definition run_child :: "string \<Rightarrow> line list \<times> ending \<Rightarrow> line list" where
  "run_child name r = (case r of (ls, e) \<Rightarrow> ls @ [Child_End name e])"

definition flags_main :: "bool \<Rightarrow> bool \<Rightarrow> line list" where
  "flags_main wait1 wait2 =
     Heading ''SA_SIGINFO'' # run_child ''do_siginfo'' do_siginfo @
     Heading ''SA_RESTART'' # run_child ''do_norestart'' (do_norestart wait1) @ run_child ''do_restart'' (do_restart wait2) @
     Heading ''SA_RESETHAND'' # run_child ''do_resethand'' do_resethand"

section \<open>What the demonstrations show\<close>

lemmas demo_simps = demo_main_def demo_child_def child_body_def raise_signal_def deliver_def set_mode_def
  dopending_def by_proc_def forked_def execed_def fresh_def

lemma demo_modes: "demo_mode ''0'' = Some 0" "demo_mode ''1'' = Some 1" "demo_mode ''2'' = Some 2" "demo_mode ''3'' = Some 3"
  by code_simp+

text \<open>The end of the child, as the parent reports it.\<close>

definition child_end :: "ending \<times> report list \<Rightarrow> ending option" where
  "child_end r = (case last (snd r) of (_, Child_End _ e) \<Rightarrow> Some e | _ \<Rightarrow> None)"

text \<open>
  What the first demonstration shows. Through \<open>fork\<close> the child has the disposition and the
  mask of its parent, but not the pending signal; an image that is executed has neither
  handler nor, because \<open>fork\<close> has dropped it before, the pending signal, so that it is killed
  exactly in mode 1. The parent ends with 0 in all modes.
\<close>

theorem demo_shows_inheritance:
  assumes "demo_mode arg = Some m"
  shows "fst (demo_main d True [prog, arg]) = Exited 0 \<and>
    child_end (demo_main d True [prog, arg]) = Some (if d = EXEC \<and> m = 1 then Killed else Exited 0) \<and>
    ((True, Received) \<in> set (snd (demo_main d True [prog, arg])) \<longleftrightarrow> d = FORK \<and> m = 1) \<and>
    (True, Saw_Pending True) \<notin> set (snd (demo_main d True [prog, arg])) \<and>
    ((True, Saw_Pending False) \<in> set (snd (demo_main d True [prog, arg])) \<longleftrightarrow> m = 3) \<and>
    ((False, Saw_Pending True) \<in> set (snd (demo_main d True [prog, arg])) \<longleftrightarrow> m = 2)"
proof -
  have "m = 0 \<or> m = 1 \<or> m = 2 \<or> m = 3"
    using assms by (auto simp: demo_mode_def split: if_split_asm prod.split_asm)
  then show ?thesis by (cases d; elim disjE) (simp_all add: demo_simps child_end_def assms)
qed

theorem demo_shows_inheritance_witness:
  "fst (demo_main EXEC True [''main'', ''1'']) = Exited 0 \<and> child_end (demo_main EXEC True [''main'', ''1'']) = Some Killed"
  using demo_shows_inheritance [OF demo_modes(2), of EXEC "''main''"] by simp

text \<open>A child whose image cannot be executed ends as if nothing had happened.\<close>

lemma demo_exec_fails: "demo_mode arg = Some m \<Longrightarrow> child_end (demo_main EXEC False [prog, arg]) = Some (Exited 0)"
  by (auto simp: demo_simps child_end_def split: option.split if_split_asm)

text \<open>
  What the second demonstration shows. With \<open>SA_SIGINFO\<close> the handler sees where each of the
  three signals comes from; without \<open>SA_RESTART\<close>, and only then, a signal that arrives during
  \<open>waitpid\<close> ends the waiting process with status 1 before it has seen its child end; with
  \<open>SA_RESETHAND\<close> the first signal is handled and the second kills.
\<close>

theorem flags_main_shows:
  "flags_main wait1 wait2 =
    [Heading ''SA_SIGINFO'', Set_Handler, Raising, Received_Info SI_RAISE, Queueing, Received_Info (SI_QUEUE 1000000007),
     Killing_Self, Received_Info SI_KILL, Child_End ''do_siginfo'' (Exited 0), Heading ''SA_RESTART''] @
    [Set_Handler, Killing_Parent, Received] @
    (if wait1 then [Child_End ''do_norestart'' (Exited 1)]
     else [Child_End ''parent_killer'' (Exited 0), Child_End ''do_norestart'' (Exited 0)]) @
    [Set_Handler, Killing_Parent, Received, Child_End ''parent_killer'' (Exited 0), Child_End ''do_restart'' (Exited 0),
     Heading ''SA_RESETHAND'', Set_Handler, Raising, Received, Raising, Child_End ''do_resethand'' Killed]"
  by (simp add: flags_main_def run_child_def do_siginfo_def do_norestart_def do_restart_def do_resethand_def
      run_killer_def parent_killer_def deliver_def fresh_def)

end
