(* ===== verification/Fork_Hello.thy ===== *)
theory Fork_Hello
  imports Decimal
begin

text \<open>
  The children of \<open>lab3/zad1/main.c\<close>: the parent forks a number of processes, each of which
  writes one line, and waits for them. A line is one \<open>write\<close>, so the processes only
  decide the order of the lines; the list here is in the order of the forks.
\<close>

text \<open>The line of child \<open>i\<close>, printed into 48 bytes; \<open>i + 1\<close> is an \<open>int\<close>.\<close>

definition hello_text :: "nat \<Rightarrow> nat \<Rightarrow> string" where
  "hello_text i pid = ''Hello from child '' @ show_nat (i + 1) @ '' (pid '' @ show_nat pid @ '')'' @ [NL]"

definition hello_line :: "nat \<Rightarrow> nat \<Rightarrow> string result" where
  "hello_line i pid =
     (if 2147483647 < i + 1 \<or> 48 < length (hello_text i pid) + 1 then Err Undef_Behaviour else Ok (hello_text i pid))"

text \<open>
  The loop, from child \<open>i\<close> on with \<open>n\<close> to go: the exit status and the lines. When \<open>fork\<close> fails,
  the parent waits for the children there are and ends with 1.
\<close>

fun start_children :: "(nat \<Rightarrow> bool) \<Rightarrow> (nat \<Rightarrow> nat) \<Rightarrow> nat \<Rightarrow> nat \<Rightarrow> (int \<times> string list) result" where
  "start_children can pid i 0 = Ok (0, [])"
| "start_children can pid i (Suc n) =
     (if \<not> can i then Ok (1, [])
      else rbind (hello_line i (pid i)) (\<lambda>l.
           rbind (start_children can pid (i + 1) n) (\<lambda>(status, ls). Ok (status, l # ls))))"

definition fork_main :: "(nat \<Rightarrow> bool) \<Rightarrow> (nat \<Rightarrow> nat) \<Rightarrow> string list \<Rightarrow> (int \<times> string list) result" where
  "fork_main can pid argv =
     (if length argv \<noteq> 2 \<or> argv ! 1 = [] then Ok (2, [])
      else (case strtol10 (argv ! 1) of (forks, rest, _) \<Rightarrow>
        if rest \<noteq> [] \<or> forks \<le> 0 then Ok (2, []) else start_children can pid 0 (nat forks)))"

lemma hello_line_ok:
  assumes "i + 1 < 2147483648" "pid < 10 ^ 10"
  shows "hello_line i pid = Ok (hello_text i pid)"
proof -
  have "length (show_nat (i + 1)) \<le> 10" "length (show_nat pid) \<le> 10"
    using assms by (intro show_nat_length; simp)+
  then show ?thesis using assms(1) by (simp add: hello_line_def hello_text_def)
qed

lemma start_children_ok:
  assumes "\<And>j. pid j < 10 ^ 10"
  shows "i + n < 2147483648 \<Longrightarrow> m \<le> n \<Longrightarrow> (\<And>j. i \<le> j \<Longrightarrow> j < i + m \<Longrightarrow> can j) \<Longrightarrow> (m < n \<Longrightarrow> \<not> can (i + m)) \<Longrightarrow>
    start_children can pid i n = Ok (if m < n then 1 else 0, map (\<lambda>j. hello_text j (pid j)) [i..<i + m])"
proof (induction n arbitrary: i m)
  case (Suc n)
  show ?case
  proof (cases m)
    case 0
    then show ?thesis using Suc.prems(4) by simp
  next
    case (Suc k)
    have "start_children can pid (i + 1) n = Ok (if k < n then 1 else 0, map (\<lambda>j. hello_text j (pid j)) [i + 1..<i + 1 + k])"
      using Suc.prems Suc by (intro Suc.IH) auto
    moreover have "hello_line i (pid i) = Ok (hello_text i (pid i))" "can i"
      using Suc.prems Suc assms by (auto intro!: hello_line_ok)
    moreover have "[i..<i + m] = i # [i + 1..<i + 1 + k]" using Suc by (simp add: upt_conv_Cons)
    ultimately show ?thesis using Suc by simp
  qed
qed simp

text \<open>
  Each child that could be forked writes its line, with its number, exactly once, and the
  status says whether there are as many as asked for. No line outgrows its buffer.
\<close>

theorem fork_main_greets:
  assumes "strtol10 arg = (forks, [], e)" "arg \<noteq> []" "0 < forks" "forks < 2147483648" "\<And>j. pid j < 10 ^ 10"
    and "m \<le> nat forks" "\<And>j. j < m \<Longrightarrow> can j" "m < nat forks \<Longrightarrow> \<not> can m"
  shows "fork_main can pid [prog, arg] =
    Ok (if m < nat forks then 1 else 0, map (\<lambda>j. hello_text j (pid j)) [0..<m])"
  using start_children_ok [of pid 0 "nat forks" m can] assms by (simp add: fork_main_def)

theorem fork_main_greets_witness:
  "fork_main (\<lambda>_. True) (\<lambda>j. 100 + j mod 2) [''main'', ''2''] =
    Ok (if 2 < nat 2 then 1 else 0, map (\<lambda>j. hello_text j (100 + j mod 2)) [0..<2])"
proof (rule fork_main_greets)
  show "strtol10 ''2'' = (2, [], False)" by code_simp
  fix j :: nat
  show "100 + j mod 2 < 10 ^ 10" by (rule less_trans [of _ 102]) simp_all
qed simp_all

end
