(* ===== verification/Chat_Client.thy ===== *)
theory Chat_Client
  imports Prelude
begin

text \<open>
  The client of \<open>lab10/zad1/client.c\<close>, as far as it goes: it decodes its arguments and connects,
  to a local socket or to one of the addresses that the resolver returns. The network is a
  record of functions; a connection is the address that was reached.
\<close>

datatype family = AF_UNSPEC | AF_INET | AF_INET6

datatype 'a endpoint = Local string | Remote 'a

record 'a net =
  nt_epoll :: bool
  nt_local :: "string \<Rightarrow> bool"
  nt_resolve :: "string \<Rightarrow> string \<Rightarrow> family \<Rightarrow> 'a list option"
  nt_socket :: "'a \<Rightarrow> bool"
  nt_connect :: "'a \<Rightarrow> bool"

text \<open>\<open>sun_path\<close> has 108 bytes; \<open>strncpy\<close> leaves the last one 0.\<close>

definition local_path :: "string \<Rightarrow> string" where
  "local_path s = take 107 s"

text \<open>The first address that a socket can be made for and that can be connected to.\<close>

fun try_addresses :: "'a net \<Rightarrow> 'a list \<Rightarrow> 'a option" where
  "try_addresses n [] = None"
| "try_addresses n (a # as) =
     (if \<not> nt_socket n a then try_addresses n as
      else if nt_connect n a then Some a else try_addresses n as)"

definition address_family :: "char \<Rightarrow> family" where
  "address_family t = (if t = CHR ''4'' then AF_INET else if t = CHR ''6'' then AF_INET6 else AF_UNSPEC)"

text \<open>\<open>main\<close>: the exit status, and what it is connected to.\<close>

definition client_main :: "'a net \<Rightarrow> string list \<Rightarrow> int \<times> 'a endpoint option" where
  "client_main n argv =
     (if length argv < 3 \<or> length (argv ! 1) \<noteq> 1 then (2, None)
      else if \<not> nt_epoll n then (1, None)
      else let t = argv ! 1 ! 0 in
        if t = CHR ''s'' \<or> t = CHR ''u'' \<or> t = CHR ''x''
        then (if length argv \<noteq> 3 then (2, None)
              else if nt_local n (local_path (argv ! 2)) then (0, Some (Local (local_path (argv ! 2)))) else (1, None))
        else if t = CHR ''i'' \<or> t = CHR ''4'' \<or> t = CHR ''6''
        then (if length argv \<noteq> 4 then (2, None)
              else (case nt_resolve n (argv ! 2) (argv ! 3) (address_family t) of
                  None \<Rightarrow> (1, None)
                | Some as \<Rightarrow> (case try_addresses n as of None \<Rightarrow> (3, None) | Some a \<Rightarrow> (0, Some (Remote a)))))
        else (2, None))"

lemma try_addresses_find: "try_addresses n as = find (\<lambda>a. nt_socket n a \<and> nt_connect n a) as"
  by (induction as) auto

text \<open>
  The client connects to the first address of the host that works, of the family asked
  for, and ends with 3 exactly when there is none.
\<close>

theorem client_main_connects:
  assumes "nt_epoll n" "t = CHR ''i'' \<or> t = CHR ''4'' \<or> t = CHR ''6''"
    and "nt_resolve n host port (address_family t) = Some as"
  shows "client_main n [prog, [t], host, port] =
    (case find (\<lambda>a. nt_socket n a \<and> nt_connect n a) as of None \<Rightarrow> (3, None) | Some a \<Rightarrow> (0, Some (Remote a)))"
  using assms by (auto simp: client_main_def try_addresses_find)

definition some_net :: "nat net" where
  "some_net = \<lparr>nt_epoll = True, nt_local = \<lambda>_. True, nt_resolve = \<lambda>_ _ _. Some [1, 2, 3],
     nt_socket = \<lambda>a. a \<noteq> 1, nt_connect = \<lambda>a. True\<rparr>"

lemma some_net_resolves:
  "nt_epoll some_net" "CHR ''4'' = CHR ''i'' \<or> CHR ''4'' = CHR ''4'' \<or> CHR ''4'' = CHR ''6''"
  "nt_resolve some_net ''host'' ''80'' (address_family (CHR ''4'')) = Some [1, 2, 3]"
  by (simp_all add: some_net_def)

lemma some_net_finds:
  "(case find (\<lambda>a. nt_socket some_net a \<and> nt_connect some_net a) [1, 2, 3] of
     None \<Rightarrow> (3, None) | Some a \<Rightarrow> (0, Some (Remote a))) = (0, Some (Remote 2))"
  by (simp add: some_net_def)

theorem client_main_connects_witness:
  "client_main some_net [''client'', [CHR ''4''], ''host'', ''80''] = (0, Some (Remote 2))"
  unfolding client_main_connects [OF some_net_resolves] by (rule some_net_finds)

text \<open>
  A path of more than 107 bytes is cut off without a word: the client connects to another
  socket than the one named.
\<close>

theorem client_main_cuts_path:
  assumes "nt_epoll n" "107 < length path" "nt_local n (take 107 path)"
  shows "\<exists>p. client_main n [prog, ''u'', path] = (0, Some (Local p)) \<and> p \<noteq> path"
proof -
  have "length (take 107 path) \<noteq> length path" using assms(2) by simp
  then have "take 107 path \<noteq> path" by (rule contrapos_nn) (rule arg_cong)
  then show ?thesis using assms by (simp add: client_main_def local_path_def)
qed

theorem client_main_cuts_path_witness:
  "\<exists>p. client_main some_net [''client'', ''u'', replicate 200 (CHR ''a'')] = (0, Some (Local p)) \<and>
    p \<noteq> replicate 200 (CHR ''a'')"
proof (rule client_main_cuts_path)
  show "107 < length (replicate 200 (CHR ''a''))" by (simp only: length_replicate)
qed (simp_all only: some_net_def net.simps)

end
