(* ===== verification/Spec2Isabelle.thy ===== *)
theory Spec2Isabelle
  imports Next_Size Vec Sized_Str Hashmap Pipeline Interp Interp_Ref Interp_Script
    Path_Str Dir_Walk Dir_Spec Dir_Nftw Libwc Decimal Wc_Main Char_Count Strip_Lines
    Pizza Pizza_Inv Pizza_Run Pizza_Props Pizza_Main Pizza_Spawn Pizza_Time Santa Santa_Inv Santa_Props
    Pnm_Invert Pnm_Threads Pnm_Read Pnm_Read_Props Pnm_Main Pnm_Text Pnm_Join
    Fifo Fifo_Props Fifo_Lock Fifo_Group Full_Io Grep Grep_Props Grep_Run Confirm Confirm_Props
    Catch Catch_Props Integrate Integrate_Props Integrate_Run
    Mail Sig_Demo Pnm_Time Fork_Hello Chat_Client
begin

text \<open>
  A model of the programs of an operating systems course (one directory per lab, each with
  its own small programs in C), and the theorems that make them correct.

  \<^bold>\<open>Common ground.\<close> \<open>Prelude\<close> has the outcomes of a C function: a value, or one of the
  errors \<open>Exit_Status n\<close> (\<open>exit(n)\<close>), \<open>Assert_Fail\<close>, \<open>Undef_Behaviour\<close> (a NULL or
  out-of-bounds access) and \<open>Nonterm\<close>. \<open>size_t\<close> is \<open>u64\<close>, a \<open>char\<close> is signed, memory
  comes from an \<open>allocator\<close>, a predicate on request sizes; \<open>plenty\<close> is the one that never
  refuses. The interfaces between the parts are locales of \<open>Prelude\<close>, each interpreted on
  the code's own definitions: \<open>append_buffer\<close> (\<open>Vec\<close>, \<open>Sized_Str\<close>, \<open>Libwc\<close>), \<open>dict\<close>
  (\<open>Hashmap\<close>), \<open>chunk_machine\<close> (\<open>Interp_Ref\<close>, \<open>Char_Count\<close>) and \<open>transition_system\<close>
  (\<open>Pizza_Props\<close>, once for each build, \<open>Fifo_Lock\<close>, \<open>Fifo_Group\<close>, \<open>Pnm_Join\<close> and \<open>Confirm_Props\<close>)
  with its extension \<open>ranked_system\<close> (\<open>Santa_Props\<close>, \<open>Confirm_Props\<close>, \<open>Catch_Props\<close>);
  \<open>sum_image\<close> is one of \<open>Integrate_Props\<close>. \<open>Decimal\<close> is \<open>atoi\<close>, \<open>strtol\<close> and a printer.

  \<^bold>\<open>lab5/zad1/main.c, the command interpreter.\<close> It reads a script of definitions
  (\<open>name = cmd | cmd\<close>) and expressions (\<open>name | name\<close>) and runs the expressions as shell
  pipelines.
  \<^item> \<open>Next_Size\<close>, \<open>Vec\<close>, \<open>Sized_Str\<close>: \<open>next_size\<close>, \<open>vec_t\<close> and \<open>struct sizedstr\<close> with
    their capacity bookkeeping. Up to \<open>2^60\<close> elements or bytes (\<open>vec_limit\<close>, \<open>ss_limit\<close>)
    every push succeeds and what was pushed is read back.
  \<^item> \<open>Hashmap\<close>: open addressing with tombstones and power-of-two tables. Up to \<open>2^56\<close>
    (\<open>hash_limit\<close>) insertions the table is a map; probing ends because the probe step is
    odd and the load stays below 80 percent.
  \<^item> \<open>Pipeline\<close>: \<open>pipe\<close>, \<open>dup2\<close> and \<open>close\<close> on descriptor tables, the children of a line,
    the parent's clean-up, the wait loop.
  \<^item> \<open>Interp\<close>: the state machine \<open>parser_sm\<close>, word by word as in the code, the read loop
    and \<open>main\<close>. \<open>Interp_Ref\<close>: a reference machine that works character by character, and
    the simulation between the two. \<open>Interp_Script\<close>: scripts as data, their rendering,
    and what the interpreter does with them. Scripts up to \<open>2^55\<close> bytes (\<open>interp_limit\<close>).

  \<^bold>\<open>lab1, word counts.\<close> \<open>Libwc\<close> is \<open>zad1/libwc.c\<close>: contexts with a table of results, the
  quoted \<open>wc\<close> command, loading and deleting results; handles below \<open>2^31\<close>
  (\<open>handle_limit\<close>). \<open>Wc_Main\<close> is \<open>zad2/main.c\<close>: the commands and the loop that dispatches
  them. The shell and the files are a record of functions; \<open>sh_words\<close> is how a shell splits a command into words.

  \<^bold>\<open>lab2, files.\<close> \<open>Strip_Lines\<close> is \<open>zad1/main.c\<close> (copying without blank lines, block by
  block, with a seek back to the start of a line); \<open>Char_Count\<close> is \<open>zad2/main.c\<close>.
  \<open>Path_Str\<close>, \<open>Dir_Walk\<close> are \<open>zad3/main.c\<close>: the path string with \<open>ss_push\<close> and \<open>ss_pop\<close>,
  the report of an entry, the permission test and the loop with its stack of at most 256
  directories. \<open>Dir_Spec\<close> has the recursive traversal \<open>visit\<close> that the loop computes, and
  trees, whose preorder it prints. \<open>Dir_Nftw\<close> is the other build, \<open>nftw_func\<close> and its
  \<open>walk\<close>: the traversal of the library is modelled as documented for \<open>FTW_PHYS\<close>, on a given number of
  levels (one more than the tree has is enough), and both builds are shown to agree below every
  directory but the root, where their paths differ by a slash. The file system is a parameter that does not change;
  names are at most 255 bytes, the root path at most 4096 (\<open>NAME_MAX\<close>, \<open>PATH_MAX\<close>).

  \<^bold>\<open>Small programs.\<close> \<open>Fork_Hello\<close> is \<open>lab3/zad1/main.c\<close> (a line from each forked child),
  \<open>Sig_Demo\<close> is \<open>lab4/zad1/main.c\<close> and \<open>lab4/zad2/main.c\<close> (what a child inherits of a signal, and
  the flags of \<open>sigaction\<close>: a process is a disposition, a mask and a pending signal), \<open>Mail\<close> is
  \<open>lab5/zad2/main.c\<close> (listing and sending through \<open>popen\<close>), \<open>Chat_Client\<close> is
  \<open>lab10/zad1/client.c\<close>, which ends once it is connected.

  \<^bold>\<open>lab3/zad2/main.c, numerical integration.\<close> \<open>Integrate\<close> has the workers, each of which sums
  up its share of the samples with an array of partial sums in the manner of a binary
  counter, the files they leave, and the parent that sums up the files in the same way; the
  arithmetic of \<open>double\<close> is a parameter. \<open>Integrate_Props\<close> shows the additions as a tree
  (locale \<open>sum_image\<close>: what is proved of trees holds for every arithmetic);
  \<open>Integrate_Run\<close> has the rounding error and what is computed without rounding. In range are
  999999 workers and \<open>2^32 - 1\<close> samples for each; other arguments are shown to go wrong.

  \<^bold>\<open>lab3/zad3/main.c, searching files with processes.\<close> \<open>Grep\<close> has the blockwise search
  (in a buffer of 4096 bytes, \<open>SEARCH_BUF\<close>; bytes read or moved outside it are undefined behaviour), the filters on names and permissions and the loop over
  a directory, which forks a child per subdirectory, if it can; the result of a process is a tree of
  what it and its children wrote and how they ended. The path string is that of \<open>Path_Str\<close>.
  \<open>Grep_Props\<close> is about one file, \<open>Grep_Run\<close> about whole runs: depths up to \<open>2^50\<close>, so that
  no path outgrows its buffer.

  \<^bold>\<open>lab4/zad3b/main.c, confirmed signals.\<close> \<open>Confirm\<close> has parent and child as two processes that
  run statement by statement, with the signals that are pending for each, the handlers and
  the three builds (\<open>kill\<close>, real time signals, \<open>sigqueue\<close>). \<open>Confirm_Props\<close>: the invariant
  of both directions of the count, what is reported, and the races at the turn. Counts whose
  double fits in an \<open>int\<close> (\<open>small_count\<close>).

  \<^bold>\<open>lab4/zad3a/main.c, unconfirmed signals.\<close> \<open>Catch\<close> is the same without confirmations, with
  processes and builds as in \<open>Confirm\<close>. \<open>Catch_Props\<close>: an invariant that counts what is sent,
  pending and handled, a rank that some step always lowers, and the runs in which signals are
  lost, reported too early or counted twice. The limit on pending real time signals is not reached.

  \<^bold>\<open>lab5/zad3, producer and consumer.\<close> \<open>Fifo\<close> has \<open>producer.c\<close>, whose result is the list of
  messages it writes to the FIFO, and \<open>consumer.c\<close>, whose input is the list of what its
  reads deliver and whose result is the output file. \<open>Fifo_Props\<close> composes them: line
  numbers up to \<open>MAXLINE\<close>, any block size that leaves room for the 12 bytes of prefix and
  newline in a \<open>long\<close>, any interleaving of the messages. \<open>Fifo_Lock\<close> runs
  the producers at the same time, statement by statement, under their file lock and on a FIFO that
  takes a message in any pieces, and shows that such an interleaving is what arrives.
  \<open>Fifo_Group\<close> adds any number of consumers, each of which reads a message and writes it into the
  output file under the lock of that file: every run of all these processes ends, and leaves the same
  lines as one consumer would. \<open>Full_Io\<close> has
  the loops around \<open>read\<close>, \<open>write\<close>, \<open>flock\<close> and \<open>nanosleep\<close>.

  \<^bold>\<open>lab7/main.c, the pizzeria.\<close> \<open>Pizza\<close> has the shared memory, the semaphores, the eight
  protocol functions in both builds (\<open>POSIX\<close>: one semaphore at a time, \<open>SYSV\<close>: arrays of
  operations at once), the statements of \<open>cook_main\<close> and \<open>deliv_main\<close>, one step each, and
  \<open>main\<close>. \<open>Pizza_Inv\<close> counts the semaphore units in the hands of the processes,
  \<open>Pizza_Run\<close> proves the invariants of oven and table under every step, \<open>Pizza_Props\<close> has
  what holds in every reachable state, \<open>Pizza_Main\<close> the simulation between the builds and
  the command line. \<open>Pizza_Spawn\<close> has the system calls of \<open>setup_shm\<close> and \<open>load_shm\<close> on what earlier
  runs have left, the parent's fork loops and its wait loop, and shows that they lead to the state in
  which the other theories start; \<open>Pizza_Time\<close> the stamps of the reports and the naps.

  \<^bold>\<open>lab8/main.c, the negative of a PNM image.\<close> \<open>Pnm_Invert\<close> has the two kinds of threads,
  \<open>val_thread\<close> and \<open>blk_thread\<close>, each as the list of its writes, and the contexts \<open>main\<close>
  makes for them; \<open>Pnm_Threads\<close> proves that every interleaving of the writes gives the
  negative. \<open>Pnm_Read\<close> is the reader, a state machine over a buffer of 4096 bytes
  (\<open>BUFSZ\<close>), one function per state; \<open>Pnm_Read_Props\<close> shows that it reads binary files
  wherever the reads cut them. \<open>Pnm_Time\<close> has the durations that are printed. \<open>Pnm_Main\<close> is the output and \<open>main\<close>;
  \<open>Pnm_Text\<close> shows that what is written as text is read back; \<open>Pnm_Join\<close>
  runs \<open>main\<close> and its threads side by side, from \<open>pthread_create\<close> to \<open>pthread_join\<close>, with the blocks that are
  freed on the way. Fewer than \<open>2^31\<close>
  threads and bytes of image, so that no \<open>int\<close> overflows.

  \<^bold>\<open>lab9/main.c, Santa.\<close> \<open>Santa\<close> has the shared context, with its mutex, condition variable
  and semaphores, and one step per statement of Santa, the elves and the reindeer;
  \<open>Santa_Inv\<close> the invariant (who holds the mutex, how counters, semaphores and posts add
  up, that a signal is on its way to a sleeping Santa) and its preservation by every step;
  \<open>Santa_Props\<close> a rank that some step always lowers, and what holds in reachable states.

  \<^bold>\<open>Groups of theorems.\<close> Functional behaviour of whole programs (\<open>interp_runs_script\<close>,
  \<open>strip_main_nonblank\<close>, \<open>walk_main_lists_tree\<close>, \<open>count_main_counts\<close>, \<open>wc_main_table\<close>,
  \<open>pnm_main_negative\<close>, \<open>fifo_group_delivers\<close>, \<open>pizza_parent_opens\<close>,
  \<open>grep_main_finds\<close>, \<open>integrate_approximates_pi\<close>);
  refinement of reference definitions (\<open>parser_sm_refines\<close>, \<open>hash_add_refines\<close>,
  \<open>walk_main_refines\<close>, \<open>sysv_refines_posix\<close>, \<open>walk_builds_agree\<close>); safety and liveness of the concurrent
  programs (\<open>pizza_no_crash\<close>, \<open>pizza_mutex\<close>, \<open>pizza_fifo\<close>, \<open>pizza_no_deadlock\<close>,
  \<open>santa_no_crash\<close>, \<open>santa_can_finish\<close>, \<open>pnm_threads_negate\<close>, \<open>pnm_join_safe\<close>,
  \<open>pnm_join_negates\<close>, \<open>fifo_group_ends\<close>); round
  trips, bounds and memory; and the errors the code makes, stated as they are
  (\<open>hashfn_ignores_order\<close>, \<open>second_child_loses_stdin\<close>, \<open>pizza_main_deliv\<close>,
  \<open>pizza_exec_fails\<close>, \<open>santa_same_elf_thrice\<close>, \<open>pnm_block_two_bytes\<close>,
  \<open>pnm_bitmap_not_negated\<close> and others).

  \<^bold>\<open>Not modelled.\<close> Failures of system calls where the code only prints a message and exits
  (except where stated above), how long a sleep really takes (a process that sleeps is one that does not move),
  the process and thread numbers and the dates in printed lines, \<open>dlopen\<close> (\<open>lab1/zad2/dynwc.h\<close>), the
  clocks of \<open>lab8\<close>, of which only the differences are printed. The chat server
  (\<open>lab10/zad1/server.c\<close>) has an empty \<open>main\<close> and a function \<open>nap\<close> that nothing calls.
\<close>

end
